(* ===== verification/Xv6_Prelude.thy ===== *)
theory Xv6_Prelude
  imports Main "HOL-Library.Word"
begin

unbundle bit_operations_syntax

text \<open>
  Shared vocabulary of the development: the machine integers of \<^verbatim>\<open>types.h\<close>, the byte-addressed
  kernel memory with little-endian 32-bit loads and stores, and the result type in which every
  operation of the kernel returns.  The lemmas say how loads and stores interact; they are the
  only facts the component theories use about the memory.
\<close>

section \<open>Machine integers and memory\<close>

type_synonym u8 = "8 word"
type_synonym u16 = "16 word"
type_synonym u32 = "32 word"

text \<open>
  Memory is indexed by kernel virtual addresses: the kernel's direct map puts physical address
  \<open>p\<close> at \<open>p + KERNBASE\<close>, so a C pointer of the kernel is an index of this function.
\<close>

type_synonym mem = "u32 \<Rightarrow> u8"

lemma unat_lt_2_32: "unat (a :: u32) < 4294967296"
  using unsigned_less [of a] by simp

lemma unat_lt_2_8: "unat (a :: u8) < 256"
  using unsigned_less [of a] by simp

lemma unat_add32: "unat (a + b) = (unat a + unat b) mod 4294967296" for a b :: u32
  by (simp add: unat_word_ariths)

lemma or_and_absorb: "(x OR y) AND y = y" for x y :: u32
  by (rule bit_word_eqI) (auto simp: bit_simps)

section \<open>Results\<close>

text \<open>
  Every way a kernel routine can end: it returns (\<open>Ok\<close>); it calls \<^verbatim>\<open>panic\<close> with a message; it
  sleeps on a channel that nothing in the sequential run wakes (\<open>Blocked\<close>); it reads or writes
  through an address the C standard gives no meaning to (\<open>UB\<close>); or a loop used up the fuel its
  definition was given (\<open>NoFuel\<close>, shown not to happen where the loop terminates).
\<close>

datatype 'a result = Ok 'a | Panic string | Blocked string | UB string | NoFuel

primrec bindr :: "'a result \<Rightarrow> ('a \<Rightarrow> 'b result) \<Rightarrow> 'b result" where
  "bindr (Ok x) f = f x"
| "bindr (Panic m) f = Panic m"
| "bindr (Blocked c) f = Blocked c"
| "bindr (UB w) f = UB w"
| "bindr NoFuel f = NoFuel"

definition okr :: "'a result \<Rightarrow> bool" where
  "okr r \<longleftrightarrow> (case r of Ok _ \<Rightarrow> True | _ \<Rightarrow> False)"

lemma bindr_Ok_iff: "bindr m f = Ok y \<longleftrightarrow> (\<exists>x. m = Ok x \<and> f x = Ok y)"
  by (cases m) auto

lemma bindr_assoc: "bindr (bindr m f) g = bindr m (\<lambda>x. bindr (f x) g)"
  by (cases m) auto

lemma bindr_cong [fundef_cong]:
  "m = m' \<Longrightarrow> (\<And>x. m' = Ok x \<Longrightarrow> f x = g x) \<Longrightarrow> bindr m f = bindr m' g"
  by (cases m') auto

lemma okr_iff: "okr r \<longleftrightarrow> (\<exists>x. r = Ok x)"
  by (cases r) (auto simp: okr_def)

section \<open>Little-endian words in memory\<close>

definition ld32 :: "mem \<Rightarrow> u32 \<Rightarrow> u32" where
  "ld32 h a = ucast (h a) OR push_bit 8 (ucast (h (a + 1)))
     OR push_bit 16 (ucast (h (a + 2))) OR push_bit 24 (ucast (h (a + 3)))"

definition st32 :: "mem \<Rightarrow> u32 \<Rightarrow> u32 \<Rightarrow> mem" where
  "st32 h a v = h(a := ucast v, a + 1 := ucast (drop_bit 8 v),
     a + 2 := ucast (drop_bit 16 v), a + 3 := ucast (drop_bit 24 v))"

definition aligned4 :: "u32 \<Rightarrow> bool" where
  "aligned4 a \<longleftrightarrow> unat a mod 4 = 0"

lemma word_of_bytes:
  fixes v :: u32
  shows "ucast (ucast v :: u8) OR push_bit 8 (ucast (ucast (drop_bit 8 v) :: u8))
     OR push_bit 16 (ucast (ucast (drop_bit 16 v) :: u8))
     OR push_bit 24 (ucast (ucast (drop_bit 24 v) :: u8)) = v" (is "?w = v")
proof (rule bit_word_eqI)
  fix n :: nat
  assume n: "n < LENGTH(32)"
  consider "n < 8" | "8 \<le> n" "n < 16" | "16 \<le> n" "n < 24" | "24 \<le> n"
    by linarith
  then show "bit ?w n = bit v n"
    using n by cases (auto simp: bit_simps)
qed

lemma ld32_st32_same [simp]: "ld32 (st32 h a v) a = v"
  by (simp add: ld32_def st32_def word_of_bytes)

lemma aligned4_add_inj:
  assumes "aligned4 a" "aligned4 b" "unat i < 4" "unat j < 4" "a + i = b + j"
  shows "a = b \<and> i = j"
proof -
  have no: "unat (c + k) = unat c + unat k" if "aligned4 c" "unat k < 4" for c k :: u32
  proof -
    have "unat c < 4294967296" using unsigned_less [of c] by simp
    then have "unat c + unat k < 4294967296" using that by (simp add: aligned4_def) presburger
    then show ?thesis by (simp add: unat_word_ariths)
  qed
  have "unat a + unat i = unat b + unat j"
    using assms no by metis
  then have "unat a = unat b" "unat i = unat j"
    using assms(1-4) by (simp add: aligned4_def; presburger)+
  then show ?thesis by (simp add: word_unat_eq_iff)
qed

lemma ld32_st32_other:
  assumes "aligned4 a" "aligned4 b" "a \<noteq> b"
  shows "ld32 (st32 h a v) b = ld32 h b"
proof -
  have "b + j \<noteq> a + i" if "unat i < 4" "unat j < 4" for i j :: u32
    using aligned4_add_inj [of a b i j] assms that by auto
  from this [of 0 0] this [of 0 1] this [of 0 2] this [of 0 3]
    this [of 1 0] this [of 1 1] this [of 1 2] this [of 1 3]
    this [of 2 0] this [of 2 1] this [of 2 2] this [of 2 3]
    this [of 3 0] this [of 3 1] this [of 3 2] this [of 3 3]
  show ?thesis by (simp add: ld32_def st32_def)
qed

section \<open>Ring indices\<close>

text \<open>
  A ring of \<open>N\<close> cells indexed by a free-running 32-bit counter modulo \<open>N\<close>; \<open>N\<close> divides the range of the
  counter, so the cells keep their order when the counter wraps around.
\<close>

lemma ring_distinct:
  fixes r k n N :: nat
  assumes "k < n" "n < N"
  shows "(r + k) mod N \<noteq> (r + n) mod N"
proof
  assume "(r + k) mod N = (r + n) mod N"
  then have "N dvd (r + n) - (r + k)"
    using assms(1) by (subst mod_eq_dvd_iff_nat [symmetric]) simp_all
  then show False using assms nat_dvd_not_less [of "n - k" N] by simp
qed

lemma ring_plus: "N dvd 4294967296 \<Longrightarrow> unat (x + y) mod N = (unat x + unat y) mod N" for x y :: u32
  unfolding unat_add32 by (rule mod_mod_cancel)

lemma ring_next:
  fixes x :: u32
  assumes "N dvd 4294967296"
  shows "(unat (x + 1) + k) mod N = (unat x + Suc k) mod N"
proof -
  have "(unat (x + 1) + k) mod N = (unat (x + 1) mod N + k) mod N" by (simp only: mod_add_left_eq)
  also have "\<dots> = ((unat x + 1) mod N + k) mod N" by (simp only: ring_plus [OF assms] unat_1)
  also have "\<dots> = (unat x + 1 + k) mod N" by (simp only: mod_add_left_eq)
  finally show ?thesis by simp
qed

end
