(* ===== verification/Mmu.thy ===== *)
theory Mmu
  imports Xv6_Prelude
begin

text \<open>
  The address arithmetic of \<^verbatim>\<open>mmu.h\<close> and \<^verbatim>\<open>memlayout.h\<close>: page rounding, the split of a virtual
  address into directory index, table index and offset, page-table entries as address and flag
  bits, the direct map between physical and kernel addresses, and the bit-field descriptors of
  segments and gates.  Every macro is a definition on 32-bit words; the lemmas give its value as
  a natural number, and the round trips that the page-table code relies on.
\<close>

section \<open>Constants\<close>

abbreviation (input) PGSIZE :: u32 where "PGSIZE \<equiv> 4096"
abbreviation (input) NPDENTRIES :: nat where "NPDENTRIES \<equiv> 1024"
abbreviation (input) PTE_P :: u32 where "PTE_P \<equiv> 1"
abbreviation (input) PTE_W :: u32 where "PTE_W \<equiv> 2"
abbreviation (input) PTE_U :: u32 where "PTE_U \<equiv> 4"
abbreviation (input) PTE_COW :: u32 where "PTE_COW \<equiv> 0x400"
abbreviation (input) EXTMEM :: u32 where "EXTMEM \<equiv> 0x100000"
abbreviation (input) PHYSTOP :: u32 where "PHYSTOP \<equiv> 0xE000000"
abbreviation (input) DEVSPACE :: u32 where "DEVSPACE \<equiv> 0xFE000000"
abbreviation (input) KERNBASE :: u32 where "KERNBASE \<equiv> 0x80000000"
abbreviation (input) KERNLINK :: u32 where "KERNLINK \<equiv> 0x80100000"

section \<open>Macros\<close>

definition PDX :: "u32 \<Rightarrow> u32" where
  "PDX va = drop_bit 22 va AND 0x3FF"

definition PTX :: "u32 \<Rightarrow> u32" where
  "PTX va = drop_bit 12 va AND 0x3FF"

definition PGADDR :: "u32 \<Rightarrow> u32 \<Rightarrow> u32 \<Rightarrow> u32" where
  "PGADDR d t off = (push_bit 22 d OR push_bit 12 t) OR off"

definition PGROUNDUP :: "u32 \<Rightarrow> u32" where
  "PGROUNDUP sz = (sz + PGSIZE - 1) AND NOT (PGSIZE - 1)"

definition PGROUNDDOWN :: "u32 \<Rightarrow> u32" where
  "PGROUNDDOWN a = a AND NOT (PGSIZE - 1)"

definition PTE_ADDR :: "u32 \<Rightarrow> u32" where
  "PTE_ADDR pte = pte AND NOT 0xFFF"

definition PTE_FLAGS :: "u32 \<Rightarrow> u32" where
  "PTE_FLAGS pte = pte AND 0xFFF"

definition PPN :: "u32 \<Rightarrow> u32" where
  "PPN pa = drop_bit 12 pa"

definition V2P :: "u32 \<Rightarrow> u32" where
  "V2P a = a - KERNBASE"

definition P2V :: "u32 \<Rightarrow> u32" where
  "P2V a = a + KERNBASE"

definition pg_aligned :: "u32 \<Rightarrow> bool" where
  "pg_aligned a \<longleftrightarrow> unat a mod 4096 = 0"

section \<open>Values as natural numbers\<close>

lemma PGROUNDDOWN_shift: "PGROUNDDOWN a = push_bit 12 (drop_bit 12 a)"
proof -
  have "(4095 :: u32) = mask 12" by (simp add: mask_eq_exp_minus_1)
  then have "PGROUNDDOWN a = a AND NOT (mask 12)" by (simp add: PGROUNDDOWN_def)
  also have "\<dots> = push_bit 12 (drop_bit 12 a)"
    by (rule bit_word_eqI) (auto simp: bit_simps)
  finally show ?thesis .
qed

lemma unat_PGROUNDDOWN: "unat (PGROUNDDOWN a) = unat a div 4096 * 4096"
proof -
  have "unat a div 4096 * 4096 < 4294967296"
    using unat_lt_2_32 [of a] by (meson div_times_less_eq_dividend le_less_trans)
  then show ?thesis
    by (simp add: PGROUNDDOWN_shift push_bit_eq_mult drop_bit_eq_div unat_word_ariths unat_div_distrib)
qed

lemma pg_alignedE:
  assumes "pg_aligned p"
  obtains k where "unat p = 4096 * k" "k < 1048576"
proof -
  have "unat p = 4096 * (unat p div 4096)"
    using assms unfolding pg_aligned_def by (metis add_0_right mult_div_mod_eq)
  moreover have "unat p div 4096 < 1048576" using unat_lt_2_32 [of p] by simp
  ultimately show ?thesis using that by blast
qed

lemma PTE_ADDR_eq_PGROUNDDOWN: "PTE_ADDR a = PGROUNDDOWN a"
  by (simp add: PTE_ADDR_def PGROUNDDOWN_def)

lemma pg_aligned_iff: "pg_aligned a \<longleftrightarrow> PGROUNDDOWN a = a"
  unfolding pg_aligned_def word_unat_eq_iff unat_PGROUNDDOWN
  by (metis div_mult_mod_eq add_0_right mod_mult_self2_is_0)

lemma pg_aligned_PGROUNDDOWN [simp, intro]: "pg_aligned (PGROUNDDOWN a)"
  by (simp add: pg_aligned_def unat_PGROUNDDOWN)

lemma pg_aligned_PTE_ADDR [simp, intro]: "pg_aligned (PTE_ADDR a)"
  by (simp add: PTE_ADDR_eq_PGROUNDDOWN)

lemma PGROUNDUP_eq: "PGROUNDUP a = PGROUNDDOWN (a + 4095)"
  by (simp add: PGROUNDUP_def PGROUNDDOWN_def add.commute)

lemma pg_aligned_PGROUNDUP [simp, intro]: "pg_aligned (PGROUNDUP a)"
  by (simp add: PGROUNDUP_eq)

lemma unat_PGROUNDUP:
  assumes "unat a \<le> 4294963200"
  shows "unat (PGROUNDUP a) = (unat a + 4095) div 4096 * 4096"
proof -
  have "unat (a + 4095) = unat a + 4095"
    using assms by (simp add: unat_word_ariths)
  then show ?thesis by (simp add: PGROUNDUP_eq unat_PGROUNDDOWN)
qed

lemma unat_PDX: "unat (PDX va) = unat va div 4194304"
proof -
  have "(0x3FF :: u32) = mask 10" by (simp add: mask_eq_exp_minus_1)
  then have "PDX va = take_bit 10 (drop_bit 22 va)"
    by (simp add: PDX_def take_bit_eq_mask)
  moreover have "unat va div 4194304 < 1024" using unat_lt_2_32 [of va] by simp
  ultimately show ?thesis
    by (simp add: drop_bit_eq_div take_bit_eq_mod unat_div_distrib unat_mod_distrib)
qed

lemma unat_PTX: "unat (PTX va) = unat va div 4096 mod 1024"
proof -
  have "(0x3FF :: u32) = mask 10" by (simp add: mask_eq_exp_minus_1)
  then have "PTX va = take_bit 10 (drop_bit 12 va)"
    by (simp add: PTX_def take_bit_eq_mask)
  then show ?thesis
    by (simp add: drop_bit_eq_div take_bit_eq_mod unat_div_distrib unat_mod_distrib)
qed

lemma PDX_less: "unat (PDX va) < 1024"
  using unat_lt_2_32 [of va] by (simp add: unat_PDX)

lemma PTX_less: "unat (PTX va) < 1024"
  by (simp add: unat_PTX)

lemma unat_PPN: "unat (PPN pa) = unat pa div 4096"
  by (simp add: PPN_def drop_bit_eq_div unat_div_distrib)

section \<open>Round trips\<close>

lemma P2V_V2P [simp]: "P2V (V2P a) = a"
  by (simp add: P2V_def V2P_def)

lemma V2P_P2V [simp]: "V2P (P2V a) = a"
  by (simp add: P2V_def V2P_def)

lemma P2V_inj [simp]: "P2V a = P2V b \<longleftrightarrow> a = b"
  by (simp add: P2V_def)

lemma V2P_inj [simp]: "V2P a = V2P b \<longleftrightarrow> a = b"
  by (simp add: V2P_def)

lemma pg_aligned_V2P [simp]: "pg_aligned (V2P a) \<longleftrightarrow> pg_aligned a"
proof -
  have "(unat a + 2147483648) mod 4294967296 mod 4096 = unat a mod 4096"
    using mod_mult_self1 [of "unat a" 524288 4096] by (simp add: mod_mod_cancel)
  moreover have "V2P a = a + 0x80000000"
    by (simp add: V2P_def)
  ultimately show ?thesis by (simp add: pg_aligned_def unat_word_ariths)
qed

lemma pg_aligned_P2V [simp]: "pg_aligned (P2V a) \<longleftrightarrow> pg_aligned a"
  using pg_aligned_V2P [of "P2V a"] by simp

lemma va_indices_page:
  "PDX a = PDX b \<and> PTX a = PTX b \<longleftrightarrow> PGROUNDDOWN a = PGROUNDDOWN b"
proof -
  have "unat x div 4194304 = unat x div 4096 div 1024" for x :: u32
    by (simp add: div_mult2_eq [symmetric])
  then show ?thesis
    unfolding word_unat_eq_iff unat_PGROUNDDOWN unat_PDX unat_PTX
    by (metis div_mult_mod_eq mult_cancel_right zero_neq_numeral)
qed

lemma PGADDR_PDX_PTX: "PGADDR (PDX va) (PTX va) (va AND 0xFFF) = va"
proof -
  have m: "(0x3FF :: u32) = mask 10" "(0xFFF :: u32) = mask 12"
    by (simp_all add: mask_eq_exp_minus_1)
  show ?thesis
    unfolding PGADDR_def PDX_def PTX_def m
  proof (rule bit_word_eqI)
    fix n :: nat
    assume n: "n < LENGTH(32)"
    consider "n < 12" | "12 \<le> n" "n < 22" | "22 \<le> n" by linarith
    then show "bit ((push_bit 22 (drop_bit 22 va AND mask 10) OR
        push_bit 12 (drop_bit 12 va AND mask 10)) OR (va AND mask 12)) n = bit va n"
      using n by cases (auto simp: bit_simps)
  qed
qed

lemma pte_split: "PTE_ADDR pte OR PTE_FLAGS pte = pte"
  unfolding PTE_ADDR_def PTE_FLAGS_def
  by (rule bit_word_eqI) (auto simp: bit_simps)

lemma pg_aligned_low_bits: "pg_aligned pa \<Longrightarrow> n < 12 \<Longrightarrow> \<not> bit pa n"
  by (subst (asm) pg_aligned_iff, erule subst) (simp add: PGROUNDDOWN_shift bit_simps)

lemma PTE_ADDR_make:
  assumes "pg_aligned pa" "PTE_ADDR f = 0"
  shows "PTE_ADDR (pa OR f) = pa"
proof -
  have "PTE_ADDR (pa OR f) = PTE_ADDR pa OR PTE_ADDR f"
    unfolding PTE_ADDR_def by (rule bit_word_eqI) (auto simp: bit_simps)
  then show ?thesis
    using assms by (simp add: PTE_ADDR_eq_PGROUNDDOWN pg_aligned_iff)
qed

lemma PTE_FLAGS_make:
  assumes "pg_aligned pa" "PTE_ADDR f = 0"
  shows "PTE_FLAGS (pa OR f) = f"
proof -
  have m: "(0xFFF :: u32) = mask 12" by (simp add: mask_eq_exp_minus_1)
  have "PTE_FLAGS pa = 0"
    unfolding PTE_FLAGS_def m
    by (rule bit_word_eqI) (auto simp: bit_simps pg_aligned_low_bits [OF assms(1)])
  moreover have "PTE_FLAGS f = f"
    using pte_split [of f] assms(2) by simp
  moreover have "PTE_FLAGS (pa OR f) = PTE_FLAGS pa OR PTE_FLAGS f"
    unfolding PTE_FLAGS_def by (rule bit_word_eqI) (auto simp: bit_simps)
  ultimately show ?thesis by simp
qed

section \<open>Addresses inside a page\<close>

lemma unat_page_plus:
  assumes "pg_aligned p" "unat off < 4096"
  shows "unat (p + off) = unat p + unat off"
proof -
  from assms(1) obtain k where "unat p = 4096 * k" "k < 1048576" by (rule pg_alignedE)
  with assms(2) have "unat p + unat off < 4294967296" by simp
  then show ?thesis by (simp add: unat_word_ariths)
qed

lemma page_plus [simp]:
  assumes "pg_aligned p" "unat off < 4096"
  shows "PGROUNDDOWN (p + off) = p"
proof -
  from assms(1) obtain k where "unat p = 4096 * k" "k < 1048576" by (rule pg_alignedE)
  with assms(2) show ?thesis
    unfolding word_unat_eq_iff unat_PGROUNDDOWN unat_page_plus [OF assms] by simp
qed

lemma unat_slot_offset: "unat i < 1024 \<Longrightarrow> unat (4 * i :: u32) = 4 * unat i"
  by (simp add: unat_word_ariths)

lemma slot_page [simp]: "pg_aligned p \<Longrightarrow> unat i < 1024 \<Longrightarrow> PGROUNDDOWN (p + 4 * i) = p"
  by (rule page_plus) (simp_all add: unat_slot_offset)

lemma slot_aligned4 [simp]:
  assumes "pg_aligned p" "unat i < 1024"
  shows "aligned4 (p + 4 * i)"
proof -
  have "unat (p + 4 * i) = unat p + 4 * unat i"
    using assms by (simp add: unat_page_plus unat_slot_offset)
  then show ?thesis
    using assms(1) unfolding aligned4_def by (auto elim!: pg_alignedE)
qed

lemma slot_inj:
  assumes "pg_aligned p" "pg_aligned q" "unat i < 1024" "unat j < 1024"
  shows "p + 4 * i = q + 4 * j \<longleftrightarrow> p = q \<and> i = j"
proof
  assume e: "p + 4 * i = q + 4 * j"
  then have pq: "p = q" using assms by (metis slot_page)
  with e have "unat (4 * i) = unat (4 * j)" by simp
  then show "p = q \<and> i = j"
    using assms pq by (simp add: unat_slot_offset word_unat_eq_iff)
qed simp

lemma pg_aligned_aligned4: "pg_aligned p \<Longrightarrow> aligned4 p"
  using slot_aligned4 [of p 0] by simp

end
