(* ===== verification/Cstring.thy ===== *)
theory Cstring
  imports Xv6_Prelude
begin

text \<open>
  The memory and string routines of \<^verbatim>\<open>string.c\<close>, with the two \<^verbatim>\<open>rep stos\<close> instructions of
  \<^verbatim>\<open>x86.h\<close> they use.  Routines that write take and return the memory; routines that only read
  take a byte reader, a function from index to byte, so that they apply to kernel memory and to
  the character arrays inside structures alike.  Loops are recursion on the counter.
\<close>

section \<open>memset\<close>

primrec stosb :: "nat \<Rightarrow> mem \<Rightarrow> u32 \<Rightarrow> u8 \<Rightarrow> mem" where
  "stosb 0 h d c = h"
| "stosb (Suc n) h d c = stosb n (h(d := c)) (d + 1) c"

primrec stosl :: "nat \<Rightarrow> mem \<Rightarrow> u32 \<Rightarrow> u32 \<Rightarrow> mem" where
  "stosl 0 h d c = h"
| "stosl (Suc n) h d c = stosl n (st32 h d c) (d + 4) c"

definition memset :: "mem \<Rightarrow> u32 \<Rightarrow> u32 \<Rightarrow> u32 \<Rightarrow> mem" where
  "memset h dst c n =
     (if unat dst mod 4 = 0 \<and> n mod 4 = 0 then
        let c = c AND 0xFF in
        stosl (unat (n div 4)) h dst (push_bit 24 c OR push_bit 16 c OR push_bit 8 c OR c)
      else stosb (unat n) h dst (ucast c))"

section \<open>memcmp\<close>

primrec memcmp_loop :: "nat \<Rightarrow> (u32 \<Rightarrow> u8) \<Rightarrow> u32 \<Rightarrow> u32 \<Rightarrow> int" where
  "memcmp_loop 0 h s1 s2 = 0"
| "memcmp_loop (Suc n) h s1 s2 =
     (if h s1 \<noteq> h s2 then uint (h s1) - uint (h s2)
      else memcmp_loop n h (s1 + 1) (s2 + 1))"

definition memcmp :: "mem \<Rightarrow> u32 \<Rightarrow> u32 \<Rightarrow> u32 \<Rightarrow> int" where
  "memcmp h v1 v2 n = memcmp_loop (unat n) h v1 v2"

section \<open>memmove\<close>

primrec copy_fwd :: "nat \<Rightarrow> mem \<Rightarrow> u32 \<Rightarrow> u32 \<Rightarrow> mem" where
  "copy_fwd 0 h d s = h"
| "copy_fwd (Suc n) h d s = copy_fwd n (h(d := h s)) (d + 1) (s + 1)"

primrec copy_bwd :: "nat \<Rightarrow> mem \<Rightarrow> u32 \<Rightarrow> u32 \<Rightarrow> mem" where
  "copy_bwd 0 h d s = h"
| "copy_bwd (Suc n) h d s = copy_bwd n (h(d - 1 := h (s - 1))) (d - 1) (s - 1)"

definition memmove :: "mem \<Rightarrow> u32 \<Rightarrow> u32 \<Rightarrow> u32 \<Rightarrow> mem" where
  "memmove h dst src n =
     (if src < dst \<and> src + n > dst then copy_bwd (unat n) h (dst + n) (src + n)
      else copy_fwd (unat n) h dst src)"

definition memcpy :: "mem \<Rightarrow> u32 \<Rightarrow> u32 \<Rightarrow> u32 \<Rightarrow> mem" where
  "memcpy h dst src n = memmove h dst src n"

section \<open>Strings\<close>

text \<open>A string is read through a function from index to byte.\<close>

primrec strncmp_loop :: "nat \<Rightarrow> nat \<Rightarrow> (nat \<Rightarrow> u8) \<Rightarrow> (nat \<Rightarrow> u8) \<Rightarrow> int" where
  "strncmp_loop 0 i p q = 0"
| "strncmp_loop (Suc n) i p q =
     (if p i \<noteq> 0 \<and> p i = q i then strncmp_loop n (Suc i) p q
      else uint (p i) - uint (q i))"

definition strncmp :: "(nat \<Rightarrow> u8) \<Rightarrow> (nat \<Rightarrow> u8) \<Rightarrow> nat \<Rightarrow> int" where
  "strncmp p q n = strncmp_loop n 0 p q"

primrec strncpy_copy :: "nat \<Rightarrow> mem \<Rightarrow> u32 \<Rightarrow> u32 \<Rightarrow> mem \<times> u32 \<times> nat" where
  "strncpy_copy 0 h s t = (h, s, 0)"
| "strncpy_copy (Suc n) h s t =
     (let c = h t; h' = h(s := c) in
      if c \<noteq> 0 then strncpy_copy n h' (s + 1) (t + 1) else (h', s + 1, n))"

primrec strncpy_pad :: "nat \<Rightarrow> mem \<Rightarrow> u32 \<Rightarrow> mem" where
  "strncpy_pad 0 h s = h"
| "strncpy_pad (Suc n) h s = strncpy_pad n (h(s := 0)) (s + 1)"

definition strncpy :: "mem \<Rightarrow> u32 \<Rightarrow> u32 \<Rightarrow> u32 \<Rightarrow> mem" where
  "strncpy h s t n =
     (let (h', s', n') = strncpy_copy (nat (sint n)) h s t in strncpy_pad n' h' s')"

primrec safestrcpy_copy :: "nat \<Rightarrow> mem \<Rightarrow> u32 \<Rightarrow> u32 \<Rightarrow> mem \<times> u32" where
  "safestrcpy_copy 0 h s t = (h, s)"
| "safestrcpy_copy (Suc n) h s t =
     (let c = h t; h' = h(s := c) in
      if c \<noteq> 0 then safestrcpy_copy n h' (s + 1) (t + 1) else (h', s + 1))"

definition safestrcpy :: "mem \<Rightarrow> u32 \<Rightarrow> u32 \<Rightarrow> u32 \<Rightarrow> mem" where
  "safestrcpy h s t n =
     (if sint n \<le> 0 then h
      else let (h', s') = safestrcpy_copy (nat (sint n - 1)) h s t in h'(s' := 0))"

partial_function (option) strlen_from :: "(nat \<Rightarrow> u8) \<Rightarrow> nat \<Rightarrow> nat option" where
  "strlen_from s n = (if s n = 0 then Some n else strlen_from s (Suc n))"

definition strlen :: "(nat \<Rightarrow> u8) \<Rightarrow> nat option" where
  "strlen s = strlen_from s 0"

section \<open>Filling\<close>

lemma word_diff_less_Suc:
  fixes a d :: u32
  assumes "Suc n < 4294967297"
  shows "unat (a - d) < Suc n \<longleftrightarrow> a = d \<or> unat (a - (d + 1)) < n"
proof (cases "a = d")
  case False
  then have "unat (a - (d + 1)) = unat (a - d) - 1"
    using unat_minus_one [of "a - d"] by (simp add: algebra_simps)
  moreover have "unat (a - d) \<noteq> 0"
    using False by (simp add: unat_eq_zero)
  ultimately show ?thesis using False by auto
qed simp

lemma stosb_apply:
  "n < 4294967297 \<Longrightarrow> stosb n h d c a = (if unat (a - d) < n then c else h a)"
proof (induction n arbitrary: h d)
  case (Suc n)
  then show ?case by (simp add: word_diff_less_Suc)
qed simp

lemma st32_fill:
  "st32 h d (push_bit 24 (c AND 0xFF) OR push_bit 16 (c AND 0xFF) OR push_bit 8 (c AND 0xFF)
      OR (c AND 0xFF)) = stosb 4 h d (ucast c)" for c :: u32
proof -
  have m: "(0xFF :: u32) = mask 8" by (simp add: mask_eq_exp_minus_1)
  let ?w = "push_bit 24 (c AND 0xFF) OR push_bit 16 (c AND 0xFF) OR push_bit 8 (c AND 0xFF)
      OR (c AND 0xFF)"
  have "(ucast ?w :: u8) = ucast c" "(ucast (drop_bit 8 ?w) :: u8) = ucast c"
    "(ucast (drop_bit 16 ?w) :: u8) = ucast c" "(ucast (drop_bit 24 ?w) :: u8) = ucast c"
    unfolding m by (rule bit_word_eqI; auto simp: bit_simps)+
  then show ?thesis
    by (simp add: st32_def numeral_eq_Suc add.assoc)
qed

lemma stosb_add: "stosb (m + n) h d c = stosb n (stosb m h d c) (d + of_nat m) c"
  by (induction m arbitrary: h d) (simp_all add: algebra_simps)

lemma stosl_fill:
  "stosl n h d (push_bit 24 (c AND 0xFF) OR push_bit 16 (c AND 0xFF) OR push_bit 8 (c AND 0xFF)
      OR (c AND 0xFF)) = stosb (4 * n) h d (ucast c)" for c :: u32
proof (induction n arbitrary: h d)
  case (Suc n)
  have "stosb (4 + 4 * n) h d (ucast c) = stosb (4 * n) (stosb 4 h d (ucast c)) (d + 4) (ucast c)"
    by (simp only: stosb_add) simp
  then show ?case by (simp only: stosl.simps st32_fill Suc mult_Suc_right)
qed simp

text \<open>The word-at-a-time path writes what the byte-at-a-time path writes.\<close>

lemma memset_eq_stosb: "memset h dst c n = stosb (unat n) h dst (ucast c)"
proof (cases "unat dst mod 4 = 0 \<and> n mod 4 = 0")
  case True
  then have "unat n mod 4 = 0"
    using unat_mod_distrib [of n 4] by simp
  then have "4 * unat (n div 4) = unat n"
    by (simp add: unat_div_distrib) presburger
  with True show ?thesis by (simp only: memset_def Let_def stosl_fill if_cancel)
next
  case False
  then show ?thesis by (simp only: memset_def if_False)
qed

lemma memset_apply: "memset h dst c n a = (if unat (a - dst) < unat n then ucast c else h a)"
  using unat_lt_2_32 [of n] by (simp add: memset_eq_stosb stosb_apply)

section \<open>Moving\<close>

lemma copy_fwd_apply:
  assumes "unat s + n \<le> 4294967296" "unat d + n \<le> 4294967296"
    and "unat d \<le> unat s \<or> unat s + n \<le> unat d"
  shows "copy_fwd n h d s a = (if unat (a - d) < n then h (s + (a - d)) else h a)"
  using assms
proof (induction n arbitrary: h d s)
  case (Suc n)
  show ?case
  proof (cases "n = 0")
    case True
    then show ?thesis by (simp add: unat_eq_zero)
  next
    case False
    with Suc.prems have u: "unat (s + 1) = unat s + 1" "unat (d + 1) = unat d + 1"
      by (simp_all add: unat_word_ariths)
    with Suc.prems have IH: "copy_fwd n (h(d := h s)) (d + 1) (s + 1) a =
        (if unat (a - (d + 1)) < n then (h(d := h s)) (s + 1 + (a - (d + 1)))
         else (h(d := h s)) a)"
      by (intro Suc.IH) auto
    have "s + (a - d) \<noteq> d" if "a \<noteq> d" "unat (a - (d + 1)) < n"
    proof
      assume e: "s + (a - d) = d"
      have lt: "unat (a - d) < Suc n" using that Suc.prems by (simp add: word_diff_less_Suc)
      have "unat (s + (a - d)) = (unat s + unat (a - d)) mod 4294967296"
        by (simp add: unat_word_ariths)
      also have "\<dots> = unat s + unat (a - d)" using lt Suc.prems by simp
      finally have "unat s + unat (a - d) = unat d" using e by simp
      moreover have "unat (a - d) \<noteq> 0" using that by (simp add: unat_eq_zero)
      ultimately show False using Suc.prems lt by linarith
    qed
    with IH Suc.prems show ?thesis
      by (cases "a = d") (simp_all add: word_diff_less_Suc [of n a d] algebra_simps)
  qed
qed simp

lemma copy_bwd_apply:
  assumes "n \<le> unat s" "n \<le> unat d" "unat s \<le> unat d"
  shows "copy_bwd n h d s a =
    (if unat (a - (d - of_nat n)) < n then h (s - of_nat n + (a - (d - of_nat n))) else h a)"
  using assms
proof (induction n arbitrary: h d s)
  case (Suc n)
  then have "s \<noteq> 0" "d \<noteq> 0" by auto
  then have u: "unat (s - 1) = unat s - 1" "unat (d - 1) = unat d - 1"
    by (simp_all add: unat_minus_one)
  with Suc.prems have IH: "copy_bwd n (h(d - 1 := h (s - 1))) (d - 1) (s - 1) a =
      (if unat (a - (d - 1 - of_nat n)) < n
       then (h(d - 1 := h (s - 1))) (s - 1 - of_nat n + (a - (d - 1 - of_nat n)))
       else (h(d - 1 := h (s - 1))) a)"
    by (intro Suc.IH) auto
  let ?b = "d - of_nat (Suc n)"
  let ?o = "a - ?b"
  have n32: "n < 4294967296" using Suc.prems unat_lt_2_32 [of s] by linarith
  then have un: "unat (of_nat n :: u32) = n" by (simp add: unat_of_nat)
  have b1: "d - 1 - of_nat n = ?b" "s - 1 - of_nat n = s - of_nat (Suc n)"
    by (simp_all add: algebra_simps)
  have "?o = of_nat n + (a - (d - 1))" by (simp add: algebra_simps)
  then have "a = d - 1 \<longleftrightarrow> ?o = of_nat n"
    by (simp only: add_cancel_left_right right_minus_eq)
  then have last: "a = d - 1 \<longleftrightarrow> unat ?o = n"
    using un by (simp add: word_unat_eq_iff)
  have "s - of_nat (Suc n) + ?o \<noteq> d - 1" if "unat ?o < n"
  proof
    assume e: "s - of_nat (Suc n) + ?o = d - 1"
    have "s + ?o = d + of_nat n" using e by (simp add: algebra_simps)
    then have "(unat s + unat ?o) mod 4294967296 = (unat d + n) mod 4294967296"
      by (metis unat_add32 un)
    then have "4294967296 dvd (unat d + n) - (unat s + unat ?o)"
      by (intro mod_eq_dvd_iff_nat [THEN iffD1]) (use that Suc.prems in linarith)+
    then show False
      using that Suc.prems unat_lt_2_32 [of d] by (auto dest!: dvd_imp_le)
  qed
  with IH last show ?case
    by (auto simp: b1 less_Suc_eq)
qed simp

text \<open>
  Whichever direction it copies in, the destination ends up with the bytes the source held
  before the call, also when the two regions overlap.
\<close>

lemma memmove_apply:
  assumes "unat src + unat n < 4294967296" "unat dst + unat n < 4294967296"
  shows "memmove h dst src n a =
    (if unat (a - dst) < unat n then h (src + (a - dst)) else h a)"
proof (cases "src < dst \<and> src + n > dst")
  case True
  then have "unat src < unat dst" by (simp add: word_less_nat_alt)
  with True assms show ?thesis
    by (simp add: memmove_def copy_bwd_apply unat_add32)
next
  case False
  with assms have "unat dst \<le> unat src \<or> unat src + unat n \<le> unat dst"
    by (auto simp: word_less_nat_alt unat_add32)
  with False assms show ?thesis
    unfolding memmove_def by (simp only: if_False) (simp add: copy_fwd_apply)
qed

section \<open>String routines\<close>

lemma strncmp_loop_zero:
  "strncmp_loop n i p q = 0 \<longleftrightarrow>
     (\<forall>k<n. (\<forall>j<k. p (i + j) \<noteq> 0) \<longrightarrow> p (i + k) = q (i + k))"
proof (induction n arbitrary: i)
  case (Suc n)
  have step: "(\<forall>k<Suc n. (\<forall>j<k. p (i + j) \<noteq> 0) \<longrightarrow> p (i + k) = q (i + k)) \<longleftrightarrow>
      p i = q i \<and> (p i \<noteq> 0 \<longrightarrow>
        (\<forall>k<n. (\<forall>j<k. p (Suc i + j) \<noteq> 0) \<longrightarrow> p (Suc i + k) = q (Suc i + k)))"
    by (auto simp: All_less_Suc2)
  show ?case unfolding step using Suc.IH [of "Suc i"] by (auto simp: word_uint_eq_iff)
qed simp

text \<open>Two strings compare equal when they agree up to and including the first NUL, or in all \<open>n\<close> bytes.\<close>

lemma strncmp_zero:
  "strncmp p q n = 0 \<longleftrightarrow> (\<forall>k<n. (\<forall>j<k. p j \<noteq> 0) \<longrightarrow> p k = q k)"
  using strncmp_loop_zero [of n 0 p q] by (simp add: strncmp_def)

lemma strlen_from_Some:
  assumes "s (n + k) = 0" "\<forall>j<k. s (n + j) \<noteq> 0"
  shows "strlen_from s n = Some (n + k)"
  using assms
proof (induction k arbitrary: n)
  case 0
  then show ?case by (simp add: strlen_from.simps)
next
  case (Suc k)
  then have "s n \<noteq> 0" by (metis add_0_right zero_less_Suc)
  moreover have "strlen_from s (Suc n) = Some (Suc n + k)"
    using Suc.prems by (intro Suc.IH) auto
  ultimately show ?case by (simp add: strlen_from.simps [of s n])
qed

lemma strlen_first_nul: "s k = 0 \<Longrightarrow> \<forall>j<k. s j \<noteq> 0 \<Longrightarrow> strlen s = Some k"
  using strlen_from_Some [of s 0 k] by (simp add: strlen_def)

lemma safestrcpy_copy_bound:
  assumes "safestrcpy_copy n h s t = (h', s')"
  shows "\<exists>k\<le>n. s' = s + of_nat k"
  using assms
proof (induction n arbitrary: h s t)
  case (Suc n)
  then show ?case
  proof (cases "h t = 0")
    case False
    with Suc.prems have "safestrcpy_copy n (h(s := h t)) (s + 1) (t + 1) = (h', s')"
      by (simp add: Let_def)
    from Suc.IH [OF this] obtain k where "k \<le> n" "s' = s + 1 + of_nat k" by blast
    then show ?thesis by (intro exI [of _ "Suc k"]) simp
  next
    case True
    with Suc.prems show ?thesis by (intro exI [of _ 1]) auto
  qed
qed simp

lemma safestrcpy_copy_frame:
  assumes "safestrcpy_copy n h s t = (h', s')" "\<forall>k<n. a \<noteq> s + of_nat k"
  shows "h' a = h a"
  using assms
proof (induction n arbitrary: h s t)
  case (Suc n)
  from Suc.prems(2) have a: "a \<noteq> s" by auto
  show ?case
  proof (cases "h t = 0")
    case False
    have "\<forall>k<n. a \<noteq> s + 1 + of_nat k"
      using Suc.prems(2) by (auto simp: All_less_Suc2 algebra_simps)
    moreover from False Suc.prems(1)
    have "safestrcpy_copy n (h(s := h t)) (s + 1) (t + 1) = (h', s')" by (simp add: Let_def)
    ultimately have "h' a = (h(s := h t)) a" by (rule Suc.IH [rotated])
    with a show ?thesis by simp
  next
    case True
    with Suc.prems a show ?thesis by auto
  qed
qed simp

text \<open>\<open>safestrcpy\<close> stays within its \<open>n\<close> bytes and always leaves a terminator among them.\<close>

lemma safestrcpy_terminates:
  assumes "0 < sint n"
  shows "\<exists>k < nat (sint n). safestrcpy h s t n (s + of_nat k) = 0"
proof -
  obtain h' s' where e: "safestrcpy_copy (nat (sint n - 1)) h s t = (h', s')" by fastforce
  from safestrcpy_copy_bound [OF e] obtain k
    where k: "k \<le> nat (sint n - 1)" "s' = s + of_nat k" by blast
  with assms e show ?thesis
    by (intro exI [of _ k]) (auto simp: safestrcpy_def)
qed

lemma safestrcpy_frame:
  assumes "\<forall>k < nat (sint n). a \<noteq> s + of_nat k"
  shows "safestrcpy h s t n a = h a"
proof (cases "sint n \<le> 0")
  case False
  obtain h' s' where e: "safestrcpy_copy (nat (sint n - 1)) h s t = (h', s')" by fastforce
  from safestrcpy_copy_bound [OF e] obtain k
    where k: "k \<le> nat (sint n - 1)" "s' = s + of_nat k" by blast
  from k(1) False have "k < nat (sint n)" by simp
  with assms k(2) have "a \<noteq> s'" by blast
  moreover have "h' a = h a"
    using safestrcpy_copy_frame [OF e] assms False by auto
  ultimately show ?thesis using False e by (simp add: safestrcpy_def)
qed (simp add: safestrcpy_def)

end
