(* ===== verification/Pages.thy ===== *)
theory Pages
  imports Mmu Cstring
begin

text \<open>
  Memory seen page by page.  The kernel allocates, fills, copies and maps whole pages and reads
  page tables as arrays of 1024 words; the facts below say which pages an update touches and
  what the words of an updated page are, so that the proofs about page tables and free lists
  never look at single bytes.
\<close>

named_theorems page_simps

definition same_page :: "mem \<Rightarrow> mem \<Rightarrow> u32 \<Rightarrow> bool" where
  "same_page h h' p \<longleftrightarrow> (\<forall>a. PGROUNDDOWN a = p \<longrightarrow> h' a = h a)"

definition page_words :: "mem \<Rightarrow> u32 \<Rightarrow> u32 \<Rightarrow> u32" where
  "page_words h p i = ld32 h (p + 4 * i)"

definition page_bytes :: "mem \<Rightarrow> u32 \<Rightarrow> u32 \<Rightarrow> u8" where
  "page_bytes h p off = h (p + off)"

lemma same_page_refl [simp, intro]: "same_page h h p"
  by (simp add: same_page_def)

lemma same_page_trans [trans]: "same_page h h' p \<Longrightarrow> same_page h' h'' p \<Longrightarrow> same_page h h'' p"
  by (simp add: same_page_def)

lemma slot_byte_page:
  assumes "pg_aligned p" "unat i < 1024" "unat k < 4"
  shows "PGROUNDDOWN (p + 4 * i + k) = p"
proof -
  have "unat (4 * i + k) = 4 * unat i + unat k"
    using assms(2,3) by (simp add: unat_add32 unat_slot_offset)
  then have "PGROUNDDOWN (p + (4 * i + k)) = p"
    using assms by (intro page_plus) auto
  then show ?thesis by (simp add: add.assoc)
qed

lemma page_words_same_page:
  assumes "same_page h h' p" "pg_aligned p" "unat i < 1024"
  shows "page_words h' p i = page_words h p i"
proof -
  have "h' (p + 4 * i + k) = h (p + 4 * i + k)" if "unat k < 4" for k
    using assms slot_byte_page [of p i k] that by (simp add: same_page_def)
  from this [of 0] this [of 1] this [of 2] this [of 3] show ?thesis
    by (simp add: page_words_def ld32_def)
qed

lemma page_bytes_same_page:
  "same_page h h' p \<Longrightarrow> pg_aligned p \<Longrightarrow> unat off < 4096 \<Longrightarrow> page_bytes h' p off = page_bytes h p off"
  by (simp add: same_page_def page_bytes_def)

lemma st32_same_page:
  assumes "pg_aligned p" "unat i < 1024" "q \<noteq> p"
  shows "same_page h (st32 h (p + 4 * i) v) q"
proof -
  have "a \<noteq> p + 4 * i + k" if "PGROUNDDOWN a = q" "unat k < 4" for a k
    using slot_byte_page [OF assms(1,2) that(2)] that(1) assms(3) by auto
  from this [of _ 0] this [of _ 1] this [of _ 2] this [of _ 3]
  show ?thesis by (auto simp: same_page_def st32_def)
qed

lemma page_words_st32:
  assumes "pg_aligned p" "unat i < 1024" "pg_aligned q" "unat j < 1024"
  shows "page_words (st32 h (p + 4 * i) v) q j = (if q = p \<and> j = i then v else page_words h q j)"
  using assms by (auto simp: page_words_def slot_inj intro!: ld32_st32_other)

lemma in_page_iff:
  assumes "pg_aligned p"
  shows "unat (a - p) < 4096 \<longleftrightarrow> PGROUNDDOWN a = p"
proof
  assume "unat (a - p) < 4096"
  from page_plus [OF assms this] show "PGROUNDDOWN a = p" by simp
next
  assume e: "PGROUNDDOWN a = p"
  have "p \<le> a" using e unat_PGROUNDDOWN [of a] by (auto simp: word_le_nat_alt)
  then have "unat (a - p) = unat a - unat p" by (rule unat_sub)
  then show "unat (a - p) < 4096" using e unat_PGROUNDDOWN [of a] by (auto simp: minus_div_mult_eq_mod)
qed

lemma memset_page_apply:
  "pg_aligned p \<Longrightarrow> memset h p c PGSIZE a = (if PGROUNDDOWN a = p then ucast c else h a)"
  by (simp add: memset_apply in_page_iff)

lemma memset_same_page: "pg_aligned p \<Longrightarrow> q \<noteq> p \<Longrightarrow> same_page h (memset h p c PGSIZE) q"
  by (simp add: same_page_def memset_page_apply)

lemma page_words_memset0:
  assumes "pg_aligned p" "unat i < 1024"
  shows "page_words (memset h p 0 PGSIZE) p i = 0"
proof -
  have "memset h p 0 PGSIZE (p + 4 * i + k) = 0" if "unat k < 4" for k
    using slot_byte_page [OF assms that] assms(1) by (simp add: memset_page_apply)
  from this [of 0] this [of 1] this [of 2] this [of 3] show ?thesis
    by (simp add: page_words_def ld32_def)
qed

lemma page_bytes_memset:
  "pg_aligned p \<Longrightarrow> unat off < 4096 \<Longrightarrow> page_bytes (memset h p c PGSIZE) p off = ucast c"
  by (simp add: page_bytes_def memset_page_apply)

lemma ld32_head: "ld32 h p = page_words h p 0"
  by (simp add: page_words_def)

lemma st32_head: "st32 h p v = st32 h (p + 4 * 0) v"
  by simp

lemma memmove_page:
  assumes "pg_aligned d" "pg_aligned s" "unat d + 4096 < 4294967296" "unat s + 4096 < 4294967296"
  shows "memmove h d s PGSIZE a = (if PGROUNDDOWN a = d then h (s + (a - d)) else h a)"
  using assms by (simp add: memmove_apply in_page_iff)

end
