(* ===== verification/Machine.thy ===== *)
theory Machine
  imports Pages
begin

text \<open>
  The machine state that the memory-management code works on: the kernel memory, the allocator's
  free-list head and the copy-on-write reference counts that \<^verbatim>\<open>vm.c\<close> declares, the page-directory
  register, and the two addresses the linker script provides (\<^verbatim>\<open>end\<close> and \<^verbatim>\<open>data\<close>).  Later theories
  extend the record with the state of their own component, so the operations here apply to the
  whole kernel state as they are.
\<close>

record machine =
  heap :: mem
  kmem_freelist :: u32
  kmem_use_lock :: bool
  cow_ref_counts :: "u32 \<Rightarrow> u8"
  cr3 :: u32
  kend :: u32
  kdata :: u32

text \<open>Loading \<^verbatim>\<open>\<percent>cr3\<close> selects the page directory, by its physical address.\<close>

definition lcr3 :: "u32 \<Rightarrow> 'a machine_scheme \<Rightarrow> 'a machine_scheme" where
  "lcr3 val s = s\<lparr>cr3 := val\<rparr>"

section \<open>Reference counts\<close>

text \<open>
  One byte per physical page frame, indexed by frame number.  The spin lock around each access
  makes it atomic; the sequential model keeps only the access.
\<close>

definition init_cow :: "'a machine_scheme \<Rightarrow> 'a machine_scheme" where
  "init_cow s = s\<lparr>cow_ref_counts := (\<lambda>i. if i < 0x100000 then 0 else cow_ref_counts s i)\<rparr>"

definition set_count :: "u32 \<Rightarrow> u8 \<Rightarrow> 'a machine_scheme \<Rightarrow> 'a machine_scheme" where
  "set_count pa count s = s\<lparr>cow_ref_counts := (cow_ref_counts s)(PPN pa := count)\<rparr>"

definition inc_count :: "u32 \<Rightarrow> 'a machine_scheme \<Rightarrow> 'a machine_scheme" where
  "inc_count pa s =
     (let index = PPN pa in
      if cow_ref_counts s index < 255
      then s\<lparr>cow_ref_counts := (cow_ref_counts s)(index := cow_ref_counts s index + 1)\<rparr>
      else s)"

definition dec_count :: "u32 \<Rightarrow> 'a machine_scheme \<Rightarrow> 'a machine_scheme" where
  "dec_count pa s =
     (let index = PPN pa in
      if cow_ref_counts s index > 0
      then s\<lparr>cow_ref_counts := (cow_ref_counts s)(index := cow_ref_counts s index - 1)\<rparr>
      else s)"

definition get_count :: "u32 \<Rightarrow> 'a machine_scheme \<Rightarrow> u8" where
  "get_count pa s = cow_ref_counts s (PPN pa)"

lemma PPN_inj: "pg_aligned a \<Longrightarrow> pg_aligned b \<Longrightarrow> PPN a = PPN b \<longleftrightarrow> a = b"
  by (auto elim!: pg_alignedE simp: word_unat_eq_iff unat_PPN)

lemma get_set_count: "get_count q (set_count p c s) = (if PPN q = PPN p then c else get_count q s)"
  by (simp add: get_count_def set_count_def)

lemma get_inc_count:
  "unat (get_count q (inc_count p s)) =
     (if PPN q = PPN p then min 255 (unat (get_count q s) + 1) else unat (get_count q s))"
proof -
  have "unat (c + 1) = unat c + 1" if "c < 255" for c :: u8
    using that by (simp add: unat_word_ariths word_less_nat_alt)
  moreover have "unat c = 255" if "\<not> c < 255" for c :: u8
    using that unat_lt_2_8 [of c] by (simp add: word_less_nat_alt)
  ultimately show ?thesis
    by (auto simp: get_count_def inc_count_def Let_def word_less_nat_alt min_def)
qed

lemma get_dec_count:
  "unat (get_count q (dec_count p s)) =
     (if PPN q = PPN p then unat (get_count q s) - 1 else unat (get_count q s))"
  by (auto simp: get_count_def dec_count_def Let_def unat_minus_one word_greater_zero_iff)

text \<open>Below saturation an increment followed by a decrement restores every count.\<close>

lemma dec_inc_count:
  "get_count p s < 255 \<Longrightarrow> get_count q (dec_count p (inc_count p s)) = get_count q s"
  by (rule word_unat_eq_iff [THEN iffD2], simp only: get_dec_count get_inc_count)
    (auto simp: word_less_nat_alt get_count_def)

section \<open>Fields the register and count operations leave alone\<close>

lemma lcr3_simps [simp]:
  "heap (lcr3 v s) = heap s" "kmem_freelist (lcr3 v s) = kmem_freelist s" "kend (lcr3 v s) = kend s"
  "kdata (lcr3 v s) = kdata s" "cow_ref_counts (lcr3 v s) = cow_ref_counts s" "cr3 (lcr3 v s) = v"
  by (simp_all add: lcr3_def)

lemma set_count_simps [simp]:
  "heap (set_count p c s) = heap s" "kmem_freelist (set_count p c s) = kmem_freelist s"
  "kend (set_count p c s) = kend s" "kdata (set_count p c s) = kdata s"
  "cr3 (set_count p c s) = cr3 s"
  by (simp_all add: set_count_def)

lemma inc_count_simps [simp]:
  "heap (inc_count p s) = heap s" "kmem_freelist (inc_count p s) = kmem_freelist s"
  "kend (inc_count p s) = kend s" "kdata (inc_count p s) = kdata s" "cr3 (inc_count p s) = cr3 s"
  by (simp_all add: inc_count_def Let_def)

lemma dec_count_simps [simp]:
  "heap (dec_count p s) = heap s" "kmem_freelist (dec_count p s) = kmem_freelist s"
  "kend (dec_count p s) = kend s" "kdata (dec_count p s) = kdata s" "cr3 (dec_count p s) = cr3 s"
  by (simp_all add: dec_count_def Let_def)

end
