(* ===== verification/Kalloc.thy ===== *)
theory Kalloc
  imports Machine
begin

text \<open>
  The physical page allocator of \<^verbatim>\<open>kalloc.c\<close>.  Free pages form a linked list whose links are
  stored in the first word of each free page; the head is \<^verbatim>\<open>kmem.freelist\<close>.  The invariant
  \<open>free_inv\<close> relates the chain in memory to a list of distinct valid pages, and the operations
  refine push and pop on that list.  The contract that the rest of the kernel relies on is the
  locale \<open>page_allocator\<close>, interpreted on the definitions below.
\<close>

section \<open>Operations\<close>

definition kfree :: "u32 \<Rightarrow> 'a machine_scheme \<Rightarrow> 'a machine_scheme result" where
  "kfree v s =
     (if v mod PGSIZE \<noteq> 0 \<or> v < kend s \<or> V2P v \<ge> PHYSTOP then Panic ''kfree''
      else
        let h = memset (heap s) v 1 PGSIZE;
            h' = st32 h v (kmem_freelist s)
        in Ok (s\<lparr>heap := h', kmem_freelist := v\<rparr>))"

definition kalloc :: "'a machine_scheme \<Rightarrow> u32 \<times> 'a machine_scheme" where
  "kalloc s =
     (let r = kmem_freelist s in
      if r \<noteq> 0 then (r, s\<lparr>kmem_freelist := ld32 (heap s) r\<rparr>) else (r, s))"

fun freerange_loop :: "nat \<Rightarrow> u32 \<Rightarrow> u32 \<Rightarrow> 'a machine_scheme \<Rightarrow> 'a machine_scheme result" where
  "freerange_loop 0 p vend s = NoFuel"
| "freerange_loop (Suc fuel) p vend s =
     (if p + PGSIZE \<le> vend
      then bindr (kfree p s) (\<lambda>s'. freerange_loop fuel (p + PGSIZE) vend s')
      else Ok s)"

definition freerange :: "u32 \<Rightarrow> u32 \<Rightarrow> 'a machine_scheme \<Rightarrow> 'a machine_scheme result" where
  "freerange vstart vend s = freerange_loop 0x100001 (PGROUNDUP vstart) vend s"

definition kinit1 :: "u32 \<Rightarrow> u32 \<Rightarrow> 'a machine_scheme \<Rightarrow> 'a machine_scheme result" where
  "kinit1 vstart vend s =
     (let s1 = s\<lparr>kmem_use_lock := False\<rparr>; s2 = init_cow s1 in freerange vstart vend s2)"

definition kinit2 :: "u32 \<Rightarrow> u32 \<Rightarrow> 'a machine_scheme \<Rightarrow> 'a machine_scheme result" where
  "kinit2 vstart vend s =
     bindr (freerange vstart vend s) (\<lambda>s'. Ok (s'\<lparr>kmem_use_lock := True\<rparr>))"

section \<open>The free list as an abstract list\<close>

primrec flist :: "mem \<Rightarrow> u32 \<Rightarrow> u32 list \<Rightarrow> bool" where
  "flist h p [] \<longleftrightarrow> p = 0"
| "flist h p (x # xs) \<longleftrightarrow> p = x \<and> x \<noteq> 0 \<and> flist h (ld32 h x) xs"

definition kpage :: "'a machine_scheme \<Rightarrow> u32 \<Rightarrow> bool" where
  "kpage s v \<longleftrightarrow> pg_aligned v \<and> kend s \<le> v \<and> V2P v < PHYSTOP"

definition free_inv :: "'a machine_scheme \<Rightarrow> u32 list \<Rightarrow> bool" where
  "free_inv s xs \<longleftrightarrow>
     flist (heap s) (kmem_freelist s) xs \<and> distinct xs \<and> (\<forall>x\<in>set xs. kpage s x)"

lemma kpage_aligned: "kpage s v \<Longrightarrow> pg_aligned v"
  by (simp add: kpage_def)

lemma kpage_range:
  assumes "kpage s v"
  shows "2147483648 \<le> unat v" "unat v < 2382364672"
proof -
  from assms have lt: "unat (V2P v) < 234881024"
    by (simp add: kpage_def word_less_nat_alt)
  have "unat (V2P v + 0x80000000) = unat (V2P v) + 2147483648"
    using lt by (simp add: unat_add32)
  moreover have "V2P v + 0x80000000 = v" by (simp add: V2P_def)
  ultimately have "unat v = unat (V2P v) + 2147483648" by simp
  then show "2147483648 \<le> unat v" "unat v < 2382364672" using lt by linarith+
qed

lemma kpage_nonzero: "kpage s v \<Longrightarrow> v \<noteq> 0"
  using kpage_range(1) by fastforce

lemma mod_PGSIZE: "v mod PGSIZE = 0 \<longleftrightarrow> pg_aligned v"
  by (simp add: pg_aligned_def word_unat_eq_iff unat_mod_distrib)

lemma kpage_kend_cong: "kend s = kend t \<Longrightarrow> kpage s v = kpage t v"
  by (simp add: kpage_def)

lemma flist_frame:
  "flist h p xs \<Longrightarrow> (\<And>x. x \<in> set xs \<Longrightarrow> ld32 h' x = ld32 h x) \<Longrightarrow> flist h' p xs"
  by (induction xs arbitrary: p) auto

lemma flist_pages_frame:
  assumes "flist h p xs" "\<And>x. x \<in> set xs \<Longrightarrow> pg_aligned x \<and> same_page h h' x"
  shows "flist h' p xs"
  using assms(1)
proof (rule flist_frame)
  fix x assume "x \<in> set xs"
  with assms(2) have "page_words h' x 0 = page_words h x 0"
    by (intro page_words_same_page) auto
  then show "ld32 h' x = ld32 h x" by (simp add: ld32_head)
qed

lemma free_inv_frame:
  assumes "free_inv s xs" "kmem_freelist t = kmem_freelist s" "kend t = kend s"
    and "\<And>x. x \<in> set xs \<Longrightarrow> same_page (heap s) (heap t) x"
  shows "free_inv t xs"
  using assms unfolding free_inv_def
  by (auto intro: flist_pages_frame kpage_aligned simp: kpage_kend_cong [of t s])

section \<open>Behaviour\<close>

lemma kfree_step:
  assumes "kpage s v"
  shows "kfree v s = Ok (s\<lparr>heap := st32 (memset (heap s) v 1 PGSIZE) v (kmem_freelist s),
      kmem_freelist := v\<rparr>)"
  using assms by (auto simp: kfree_def kpage_def mod_PGSIZE Let_def not_le not_less)

lemma kfree_panics: "kfree v s = Panic ''kfree'' \<longleftrightarrow> \<not> kpage s v"
  by (auto simp: kfree_def kpage_def mod_PGSIZE Let_def not_le not_less)

lemma kfree_other_page:
  assumes "kpage s v" "kfree v s = Ok s'" "p \<noteq> v"
  shows "same_page (heap s) (heap s') p"
proof -
  have a: "pg_aligned v" using assms(1) by (rule kpage_aligned)
  have "same_page (memset (heap s) v 1 PGSIZE) (heap s') p"
    using assms a st32_same_page [of v 0 p] by (auto simp: kfree_step)
  with memset_same_page [OF a assms(3)] show ?thesis by (rule same_page_trans)
qed

lemma kfree_free_inv:
  assumes "free_inv s xs" "kpage s v" "v \<notin> set xs"
  shows "\<exists>s'. kfree v s = Ok s' \<and> free_inv s' (v # xs)"
proof -
  obtain s' where s': "kfree v s = Ok s'" and e: "s' = s\<lparr>heap := st32 (memset (heap s) v 1 PGSIZE) v
      (kmem_freelist s), kmem_freelist := v\<rparr>"
    using kfree_step [OF assms(2)] by simp
  have "flist (heap s') (kmem_freelist s) xs"
  proof (rule flist_pages_frame)
    show "flist (heap s) (kmem_freelist s) xs" using assms(1) by (simp add: free_inv_def)
    fix x assume x: "x \<in> set xs"
    then have "kpage s x" using assms(1) by (simp add: free_inv_def)
    then show "pg_aligned x \<and> same_page (heap s) (heap s') x"
      using kfree_other_page [OF assms(2) s'] x assms(3) by (metis kpage_aligned)
  qed
  then have "free_inv s' (v # xs)"
    using assms e kpage_nonzero [OF assms(2)] kpage_kend_cong [of s' s] by (auto simp: free_inv_def)
  with s' show ?thesis by blast
qed

lemma kalloc_free_inv:
  assumes "free_inv s (x # xs)"
  shows "kalloc s = (x, s\<lparr>kmem_freelist := ld32 (heap s) x\<rparr>)"
    and "free_inv (s\<lparr>kmem_freelist := ld32 (heap s) x\<rparr>) xs"
  using assms by (auto simp: free_inv_def kalloc_def Let_def kpage_def)

lemma kalloc_empty: "free_inv s [] \<Longrightarrow> kalloc s = (0, s)"
  by (simp add: free_inv_def kalloc_def)

lemma kalloc_cases:
  assumes "free_inv s xs"
  obtains (none) "xs = []" "kalloc s = (0, s)"
  | (some) x ys where "xs = x # ys" "kalloc s = (x, s\<lparr>kmem_freelist := ld32 (heap s) x\<rparr>)"
      "free_inv (s\<lparr>kmem_freelist := ld32 (heap s) x\<rparr>) ys" "kpage s x" "x \<notin> set ys" "x \<noteq> 0"
proof (cases xs)
  case Nil
  then show ?thesis using assms kalloc_empty none by blast
next
  case (Cons x ys)
  have "kpage s x" "x \<notin> set ys" using assms Cons by (auto simp: free_inv_def)
  then show ?thesis
    using some [OF Cons] assms Cons kalloc_free_inv kpage_nonzero by blast
qed

section \<open>Initialisation\<close>

text \<open>The pages of a range, in the order \<open>freerange\<close> frees them.\<close>

definition range_pages :: "u32 \<Rightarrow> nat \<Rightarrow> u32 list" where
  "range_pages p n = map (\<lambda>i. p + of_nat i * PGSIZE) [0..<n]"

lemma range_pages_Suc: "range_pages p (Suc n) = p # range_pages (p + PGSIZE) n"
proof -
  have "[0..<Suc n] = 0 # map Suc [0..<n]" by (simp add: map_Suc_upt upt_conv_Cons)
  then show ?thesis
    by (simp only: range_pages_def list.map map_map o_def) (simp add: algebra_simps)
qed

lemma freerange_loop_free_inv:
  assumes "free_inv s xs" "\<forall>v \<in> set (range_pages p n). kpage s v \<and> v \<notin> set xs"
    and "distinct (range_pages p n)" "n < fuel"
    and "unat vend = unat p + 4096 * n + r" "r < 4096" "unat vend + 4096 < 4294967296"
  shows "\<exists>s'. freerange_loop fuel p vend s = Ok s' \<and> free_inv s' (rev (range_pages p n) @ xs)"
  using assms
proof (induction n arbitrary: fuel p s xs)
  case 0
  then obtain k where k: "fuel = Suc k" by (cases fuel) auto
  have "\<not> p + PGSIZE \<le> vend" using 0 by (simp add: word_le_nat_alt unat_add32)
  with 0 k show ?case by (simp add: range_pages_def)
next
  case (Suc n)
  then obtain k where k: "fuel = Suc k" by (cases fuel) auto
  have up: "unat (p + PGSIZE) = unat p + 4096" using Suc.prems by (simp add: unat_add32)
  have le: "p + PGSIZE \<le> vend" using Suc.prems up by (simp add: word_le_nat_alt)
  have p: "kpage s p" "p \<notin> set xs" using Suc.prems(2) by (auto simp: range_pages_Suc)
  then obtain s1 where s1: "kfree p s = Ok s1" "free_inv s1 (p # xs)"
    using kfree_free_inv Suc.prems(1) by blast
  have "kend s1 = kend s" using s1(1) kfree_step [OF p(1)] by auto
  then have "\<exists>s'. freerange_loop k (p + PGSIZE) vend s1 = Ok s' \<and>
      free_inv s' (rev (range_pages (p + PGSIZE) n) @ p # xs)"
    using Suc.prems s1(2) k up
    by (intro Suc.IH) (auto simp: range_pages_Suc kpage_kend_cong [of s1 s])
  with k le s1(1) show ?case by (auto simp: range_pages_Suc)
qed

section \<open>The allocator's contract\<close>

text \<open>
  What a client of a page allocator may assume: allocation fails exactly when nothing is free,
  otherwise hands out a valid page that is no longer free; freeing a valid page that is not free
  succeeds and makes it the next one handed out.
\<close>

locale page_allocator =
  fixes inv :: "'s \<Rightarrow> u32 list \<Rightarrow> bool"
    and alloc :: "'s \<Rightarrow> u32 \<times> 's"
    and free :: "u32 \<Rightarrow> 's \<Rightarrow> 's result"
    and valid :: "'s \<Rightarrow> u32 \<Rightarrow> bool"
  assumes alloc_none: "inv s [] \<Longrightarrow> alloc s = (0, s)"
    and alloc_some: "inv s (x # xs) \<Longrightarrow> \<exists>s'. alloc s = (x, s') \<and> inv s' xs"
    and free_some: "inv s xs \<Longrightarrow> valid s v \<Longrightarrow> v \<notin> set xs \<Longrightarrow>
      \<exists>s'. free v s = Ok s' \<and> inv s' (v # xs)"
    and inv_distinct: "inv s xs \<Longrightarrow> distinct xs"
    and inv_nonzero: "inv s xs \<Longrightarrow> 0 \<notin> set xs"
begin

primrec alloc_n :: "nat \<Rightarrow> 's \<Rightarrow> u32 list \<times> 's" where
  "alloc_n 0 s = ([], s)"
| "alloc_n (Suc n) s = (let (p, s1) = alloc s; (ps, s2) = alloc_n n s1 in (p # ps, s2))"

lemma alloc_n_takes:
  "inv s xs \<Longrightarrow> n \<le> length xs \<Longrightarrow> \<exists>s'. alloc_n n s = (take n xs, s') \<and> inv s' (drop n xs)"
proof (induction n arbitrary: s xs)
  case (Suc n)
  then obtain x ys where xs: "xs = x # ys" by (cases xs) auto
  with Suc.prems obtain s1 where s1: "alloc s = (x, s1)" "inv s1 ys"
    using alloc_some by blast
  with Suc xs obtain s2 where "alloc_n n s1 = (take n ys, s2)" "inv s2 (drop n ys)" by fastforce
  with s1 xs show ?case by simp
qed simp

lemma alloc_n_distinct:
  assumes "inv s xs" "n \<le> length xs"
  shows "distinct (fst (alloc_n n s)) \<and> 0 \<notin> set (fst (alloc_n n s))"
proof -
  obtain s' where "alloc_n n s = (take n xs, s')" using alloc_n_takes [OF assms] by blast
  then show ?thesis
    using inv_distinct [OF assms(1)] inv_nonzero [OF assms(1)] by (auto dest: in_set_takeD)
qed

lemma free_then_alloc:
  assumes "inv s xs" "valid s v" "v \<notin> set xs"
  shows "\<exists>s1 s2. free v s = Ok s1 \<and> alloc s1 = (v, s2) \<and> inv s2 xs"
  using free_some [OF assms] alloc_some by blast

end

interpretation kmem: page_allocator free_inv kalloc kfree kpage
proof unfold_locales
  fix s :: "'a machine_scheme" and x v xs
  show "free_inv s [] \<Longrightarrow> kalloc s = (0, s)" by (rule kalloc_empty)
  show "free_inv s (x # xs) \<Longrightarrow> \<exists>s'. kalloc s = (x, s') \<and> free_inv s' xs"
    using kalloc_free_inv by blast
  show "free_inv s xs \<Longrightarrow> kpage s v \<Longrightarrow> v \<notin> set xs \<Longrightarrow> \<exists>s'. kfree v s = Ok s' \<and> free_inv s' (v # xs)"
    by (rule kfree_free_inv)
  show "free_inv s xs \<Longrightarrow> distinct xs" by (simp add: free_inv_def)
  show "free_inv s xs \<Longrightarrow> 0 \<notin> set xs" by (auto simp: free_inv_def dest: kpage_nonzero)
qed

end
