(* ===== verification/Pagetable.thy ===== *)
theory Pagetable
  imports Vm
begin

text \<open>
  Correctness of the page-table walk and of \<open>mappages\<close>.  A page directory is well formed
  (\<open>pgdir_inv\<close>) when its present entries point to distinct allocated pages other than itself.
  \<open>pte_at\<close> is the abstract page table: the entry that the two-level walk finds for a virtual
  address.  \<open>pt_step\<close> collects what every page-table operation guarantees: the invariant, pages
  taken from the front of the free list only, and every page outside the table left alone.
\<close>

section \<open>The abstract page table\<close>

definition pd_present :: "mem \<Rightarrow> u32 \<Rightarrow> u32 \<Rightarrow> bool" where
  "pd_present h pgdir i \<longleftrightarrow> page_words h pgdir i AND PTE_P \<noteq> 0"

definition ptab :: "mem \<Rightarrow> u32 \<Rightarrow> u32 \<Rightarrow> u32" where
  "ptab h pgdir i = P2V (PTE_ADDR (page_words h pgdir i))"

definition pte_at :: "mem \<Rightarrow> u32 \<Rightarrow> u32 \<Rightarrow> u32" where
  "pte_at h pgdir va =
     (if pd_present h pgdir (PDX va) then page_words h (ptab h pgdir (PDX va)) (PTX va) else 0)"

definition present :: "mem \<Rightarrow> u32 \<Rightarrow> u32 \<Rightarrow> bool" where
  "present h pgdir va \<longleftrightarrow> pte_at h pgdir va AND PTE_P \<noteq> 0"

definition pt_pages :: "mem \<Rightarrow> u32 \<Rightarrow> u32 set" where
  "pt_pages h pgdir = insert pgdir {ptab h pgdir i | i. unat i < 1024 \<and> pd_present h pgdir i}"

definition pgdir_inv :: "'a machine_scheme \<Rightarrow> u32 \<Rightarrow> bool" where
  "pgdir_inv s pgdir \<longleftrightarrow> kpage s pgdir
     \<and> (\<forall>i. unat i < 1024 \<and> pd_present (heap s) pgdir i \<longrightarrow>
           kpage s (ptab (heap s) pgdir i) \<and> ptab (heap s) pgdir i \<noteq> pgdir)
     \<and> (\<forall>i j. unat i < 1024 \<and> unat j < 1024 \<and> pd_present (heap s) pgdir i
           \<and> pd_present (heap s) pgdir j \<and> ptab (heap s) pgdir i = ptab (heap s) pgdir j \<longrightarrow> i = j)"

definition vm_inv :: "'a machine_scheme \<Rightarrow> u32 \<Rightarrow> u32 list \<Rightarrow> bool" where
  "vm_inv s pgdir xs \<longleftrightarrow> free_inv s xs \<and> pgdir_inv s pgdir \<and> pt_pages (heap s) pgdir \<inter> set xs = {}"

definition pt_step :: "'a machine_scheme \<Rightarrow> u32 \<Rightarrow> u32 list \<Rightarrow> 'a machine_scheme \<Rightarrow> u32 list \<Rightarrow> bool" where
  "pt_step s pgdir xs s' ys \<longleftrightarrow> vm_inv s' pgdir ys \<and> (\<exists>zs. xs = zs @ ys)
     \<and> s' = s\<lparr>heap := heap s', kmem_freelist := kmem_freelist s'\<rparr>
     \<and> (\<forall>p. p \<notin> pt_pages (heap s) pgdir \<and> p \<notin> set xs \<longrightarrow> same_page (heap s) (heap s') p)
     \<and> pt_pages (heap s') pgdir = pt_pages (heap s) pgdir \<union> (set xs - set ys)"

lemma vm_invD:
  assumes "vm_inv s pgdir xs"
  shows "free_inv s xs" "pgdir_inv s pgdir" "pt_pages (heap s) pgdir \<inter> set xs = {}"
    "kpage s pgdir" "pg_aligned pgdir" "pgdir \<notin> set xs"
  using assms by (auto simp: vm_inv_def pgdir_inv_def pt_pages_def kpage_aligned)

lemma pt_pages_pgdir [simp]: "pgdir \<in> pt_pages h pgdir"
  by (simp add: pt_pages_def)

lemma pt_pagesI: "unat i < 1024 \<Longrightarrow> pd_present h pgdir i \<Longrightarrow> ptab h pgdir i \<in> pt_pages h pgdir"
  by (auto simp: pt_pages_def)

lemma ptab_kpage:
  assumes "pgdir_inv s pgdir" "unat i < 1024" "pd_present (heap s) pgdir i"
  shows "kpage s (ptab (heap s) pgdir i)" "pg_aligned (ptab (heap s) pgdir i)"
    "ptab (heap s) pgdir i \<noteq> pgdir"
  using assms by (auto simp: pgdir_inv_def kpage_aligned)

lemma pt_step_refl: "vm_inv s pgdir xs \<Longrightarrow> pt_step s pgdir xs s xs"
  by (simp add: pt_step_def)

lemma pt_stepD:
  assumes "pt_step s pgdir xs s' ys"
  shows "vm_inv s' pgdir ys" "set ys \<subseteq> set xs"
    "kend s' = kend s" "kdata s' = kdata s" "cow_ref_counts s' = cow_ref_counts s" "cr3 s' = cr3 s"
    "machine.more s' = machine.more s"
proof -
  have e: "s' = s\<lparr>heap := heap s', kmem_freelist := kmem_freelist s'\<rparr>"
    using assms by (simp add: pt_step_def)
  show "kend s' = kend s" "kdata s' = kdata s" "cow_ref_counts s' = cow_ref_counts s" "cr3 s' = cr3 s"
    "machine.more s' = machine.more s"
    by (subst e, simp)+
qed (use assms in \<open>auto simp: pt_step_def\<close>)

lemma pt_step_frame:
  "pt_step s pgdir xs s' ys \<Longrightarrow> p \<notin> pt_pages (heap s) pgdir \<Longrightarrow> p \<notin> set xs \<Longrightarrow>
     same_page (heap s) (heap s') p"
  by (simp add: pt_step_def)

lemma pt_step_pages:
  "pt_step s pgdir xs s' ys \<Longrightarrow> pt_pages (heap s') pgdir = pt_pages (heap s) pgdir \<union> (set xs - set ys)"
  by (simp add: pt_step_def)

lemma pt_step_trans:
  assumes 1: "pt_step s pgdir xs s1 ys" and 2: "pt_step s1 pgdir ys s2 zs"
  shows "pt_step s pgdir xs s2 zs"
  unfolding pt_step_def
proof (intro conjI allI impI)
  show "vm_inv s2 pgdir zs" using 2 by (rule pt_stepD)
  show "\<exists>us. xs = us @ zs" using 1 2 by (auto simp: pt_step_def)
  have "s1 = s\<lparr>heap := heap s1, kmem_freelist := kmem_freelist s1\<rparr>"
    "s2 = s1\<lparr>heap := heap s2, kmem_freelist := kmem_freelist s2\<rparr>"
    using 1 2 by (simp_all add: pt_step_def)
  then show "s2 = s\<lparr>heap := heap s2, kmem_freelist := kmem_freelist s2\<rparr>"
    by (metis machine.surjective machine.update_convs(1,2))
  show "pt_pages (heap s2) pgdir = pt_pages (heap s) pgdir \<union> (set xs - set zs)"
    using 1 2 pt_stepD(2) [OF 1] pt_stepD(2) [OF 2] by (auto simp: pt_step_def)
  fix p assume p: "p \<notin> pt_pages (heap s) pgdir \<and> p \<notin> set xs"
  then have "same_page (heap s) (heap s1) p" using 1 by (simp add: pt_step_def)
  moreover have "p \<notin> pt_pages (heap s1) pgdir" "p \<notin> set ys"
    using 1 p pt_stepD(2) [OF 1] by (auto simp: pt_step_def)
  then have "same_page (heap s1) (heap s2) p" using 2 by (simp add: pt_step_def)
  ultimately show "same_page (heap s) (heap s2) p" by (rule same_page_trans)
qed

text \<open>A change of memory outside the table pages leaves the abstract page table as it was.\<close>

lemma pt_same_pages:
  assumes "pgdir_inv s pgdir" "\<And>p. p \<in> pt_pages (heap s) pgdir \<Longrightarrow> same_page (heap s) h' p"
  shows "\<And>i. unat i < 1024 \<Longrightarrow> page_words h' pgdir i = page_words (heap s) pgdir i"
    and "pt_pages h' pgdir = pt_pages (heap s) pgdir"
    and "pte_at h' pgdir va = pte_at (heap s) pgdir va"
proof -
  have al: "pg_aligned pgdir" using assms(1) by (auto simp: pgdir_inv_def kpage_aligned)
  show w: "\<And>i. unat i < 1024 \<Longrightarrow> page_words h' pgdir i = page_words (heap s) pgdir i"
    using assms(2) al by (intro page_words_same_page) auto
  then have p: "pd_present h' pgdir i = pd_present (heap s) pgdir i" "ptab h' pgdir i = ptab (heap s) pgdir i"
    if "unat i < 1024" for i using that by (simp_all add: pd_present_def ptab_def)
  show "pt_pages h' pgdir = pt_pages (heap s) pgdir"
    unfolding pt_pages_def
    by (rule arg_cong [where f = "insert pgdir"], rule Collect_cong) (use p in metis)
  show "pte_at h' pgdir va = pte_at (heap s) pgdir va"
    using p PDX_less PTX_less
    by (auto simp: pte_at_def intro!: page_words_same_page assms(2) pt_pagesI ptab_kpage [OF assms(1)])
qed

lemma pgdir_inv_frame:
  assumes "pgdir_inv s pgdir" "kend t = kend s"
    and "\<And>p. p \<in> pt_pages (heap s) pgdir \<Longrightarrow> same_page (heap s) (heap t) p"
  shows "pgdir_inv t pgdir"
proof -
  note w = pt_same_pages(1) [OF assms(1), of "heap t", OF assms(3)]
  then have p: "pd_present (heap t) pgdir i = pd_present (heap s) pgdir i"
    "ptab (heap t) pgdir i = ptab (heap s) pgdir i" if "unat i < 1024" for i
    using that by (simp_all add: pd_present_def ptab_def)
  show ?thesis
    using assms(1) p kpage_kend_cong [OF assms(2)] unfolding pgdir_inv_def by auto
qed

section \<open>The walk\<close>

lemma PTE_ADDR_slot: "page_words h pgdir i = ld32 h (pgdir + 4 * i)"
  by (simp add: page_words_def)

lemma walk_present:
  "pd_present (heap s) pgdir (PDX va) \<Longrightarrow>
     walkpgdir pgdir va alloc s = (ptab (heap s) pgdir (PDX va) + 4 * PTX va, s)"
  by (simp add: walkpgdir_def pd_present_def ptab_def page_words_def Let_def)

lemma walk_absent:
  "\<not> pd_present (heap s) pgdir (PDX va) \<Longrightarrow> walkpgdir pgdir va False s = (0, s)"
  by (simp add: walkpgdir_def pd_present_def page_words_def Let_def)

lemma slot_nonzero:
  assumes "kpage s p" "unat i < 1024"
  shows "p + 4 * i \<noteq> 0"
proof -
  have "unat (p + 4 * i) = unat p + 4 * unat i"
    using assms by (simp add: unat_page_plus unat_slot_offset kpage_aligned)
  then show ?thesis using kpage_range(1) [OF assms(1)] by fastforce
qed

lemma walk_noalloc:
  assumes "pgdir_inv s pgdir"
  shows "walkpgdir pgdir va False s =
    (if pd_present (heap s) pgdir (PDX va) then ptab (heap s) pgdir (PDX va) + 4 * PTX va else 0, s)"
    and "fst (walkpgdir pgdir va False s) = 0 \<longleftrightarrow> \<not> pd_present (heap s) pgdir (PDX va)"
  using slot_nonzero [OF ptab_kpage(1) [OF assms PDX_less] PTX_less]
  by (auto simp: walk_present walk_absent)

text \<open>The word that the slot for \<open>va\<close> holds is the abstract entry.\<close>

lemma slot_word:
  "pd_present h pgdir (PDX va) \<Longrightarrow> ld32 h (ptab h pgdir (PDX va) + 4 * PTX va) = pte_at h pgdir va"
  by (simp add: pte_at_def page_words_def)

text \<open>Storing into the slot for \<open>va\<close> changes the entry of that page and of no other.\<close>

lemma store_slot:
  fixes v w :: u32
  assumes inv: "vm_inv s pgdir xs" and pr: "pd_present (heap s) pgdir (PDX va)"
  defines "s' \<equiv> s\<lparr>heap := st32 (heap s) (ptab (heap s) pgdir (PDX va) + 4 * PTX va) v\<rparr>"
  shows "pt_step s pgdir xs s' xs"
    and "pte_at (heap s') pgdir w = (if PGROUNDDOWN w = PGROUNDDOWN va then v else pte_at (heap s) pgdir w)"
    and "pt_pages (heap s') pgdir = pt_pages (heap s) pgdir"
proof -
  let ?h = "heap s" and ?p = "ptab (heap s) pgdir (PDX va)"
  note pinv = vm_invD(2) [OF inv]
  have pk: "kpage s ?p" "pg_aligned ?p" "?p \<noteq> pgdir"
    using ptab_kpage [OF pinv PDX_less pr] .
  have other: "same_page ?h (heap s') q" if "q \<noteq> ?p" for q
    using st32_same_page [OF pk(2) PTX_less that] by (simp add: s'_def)
  have w: "page_words (heap s') pgdir i = page_words ?h pgdir i" if "unat i < 1024" for i
    using other [of pgdir] pk(3) vm_invD(5) [OF inv] that by (intro page_words_same_page) auto
  then have p: "pd_present (heap s') pgdir i = pd_present ?h pgdir i" "ptab (heap s') pgdir i = ptab ?h pgdir i"
    if "unat i < 1024" for i using that by (simp_all add: pd_present_def ptab_def)
  show pp: "pt_pages (heap s') pgdir = pt_pages ?h pgdir"
    unfolding pt_pages_def
    by (rule arg_cong [where f = "insert pgdir"], rule Collect_cong) (use p in metis)
  have ke: "kend s' = kend s" by (simp add: s'_def)
  have "pgdir_inv s' pgdir"
    using pinv p kpage_kend_cong [OF ke] unfolding pgdir_inv_def by auto
  moreover have pin: "?p \<in> pt_pages ?h pgdir" using pr by (simp add: pt_pagesI PDX_less)
  then have "?p \<notin> set xs" using vm_invD(3) [OF inv] by blast
  then have "x \<noteq> ?p" if "x \<in> set xs" for x using that by blast
  then have "free_inv s' xs"
    by (intro free_inv_frame [OF vm_invD(1) [OF inv]] other) (simp_all add: s'_def)
  ultimately have "vm_inv s' pgdir xs" using vm_invD(3) [OF inv] pp by (simp add: vm_inv_def)
  moreover have "same_page ?h (heap s') q" if "q \<notin> pt_pages ?h pgdir" for q
    using that pin by (intro other) auto
  ultimately show "pt_step s pgdir xs s' xs"
    using pp by (simp add: pt_step_def) (simp add: s'_def)
  show "pte_at (heap s') pgdir w = (if PGROUNDDOWN w = PGROUNDDOWN va then v else pte_at ?h pgdir w)"
  proof (cases "pd_present ?h pgdir (PDX w)")
    case True
    let ?q = "ptab ?h pgdir (PDX w)"
    have q: "pg_aligned ?q" using ptab_kpage(2) [OF pinv PDX_less True] .
    have "?q = ?p \<longleftrightarrow> PDX w = PDX va"
      using pinv True pr PDX_less unfolding pgdir_inv_def by metis
    moreover have "pte_at (heap s') pgdir w = page_words (heap s') ?q (PTX w)"
      using True p PDX_less by (simp add: pte_at_def)
    moreover have "page_words (heap s') ?q (PTX w) =
        (if ?q = ?p \<and> PTX w = PTX va then v else page_words ?h ?q (PTX w))"
      using page_words_st32 [OF pk(2) PTX_less q PTX_less] by (simp add: s'_def)
    ultimately show ?thesis
      using True va_indices_page [of w va] by (auto simp: pte_at_def)
  next
    case False
    then have "PGROUNDDOWN w \<noteq> PGROUNDDOWN va" using pr va_indices_page [of w va] by metis
    with False p PDX_less show ?thesis by (simp add: pte_at_def)
  qed
qed

section \<open>Installing a fresh table\<close>

text \<open>
  What \<open>walkpgdir\<close> does to memory when it creates a table: the fresh page \<open>x\<close> is zeroed and entry
  \<open>i\<close> of the directory is pointed at it.
\<close>

definition install_table :: "mem \<Rightarrow> u32 \<Rightarrow> u32 \<Rightarrow> u32 \<Rightarrow> mem" where
  "install_table h pgdir i x =
     st32 (memset h x 0 PGSIZE) (pgdir + 4 * i) (((V2P x OR PTE_P) OR PTE_W) OR PTE_U)"

lemma table_entry:
  assumes "pg_aligned x"
  defines "e \<equiv> ((V2P x OR PTE_P) OR PTE_W) OR PTE_U"
  shows "PTE_ADDR e = V2P x" "e AND PTE_P \<noteq> 0"
proof -
  have ee: "e = V2P x OR 7" by (simp add: e_def or.assoc)
  have "PTE_ADDR (7 :: u32) = 0" by (simp add: PTE_ADDR_def)
  then show "PTE_ADDR e = V2P x" unfolding ee using assms(1) by (intro PTE_ADDR_make) simp_all
  have "e = (V2P x OR 6) OR PTE_P" by (simp add: ee or.assoc)
  then show "e AND PTE_P \<noteq> 0" by (simp only: or_and_absorb) simp
qed

lemma install_other:
  "pg_aligned x \<Longrightarrow> pg_aligned pgdir \<Longrightarrow> unat i < 1024 \<Longrightarrow> q \<noteq> x \<Longrightarrow> q \<noteq> pgdir \<Longrightarrow>
     same_page h (install_table h pgdir i x) q"
  unfolding install_table_def
  by (rule same_page_trans [OF memset_same_page st32_same_page])

lemma install_entries:
  assumes "pg_aligned x" "pg_aligned pgdir" "x \<noteq> pgdir" "unat i < 1024" "unat j < 1024"
  shows "pd_present (install_table h pgdir i x) pgdir j \<longleftrightarrow> j = i \<or> pd_present h pgdir j"
    and "ptab (install_table h pgdir i x) pgdir j = (if j = i then x else ptab h pgdir j)"
proof -
  have "page_words (memset h x 0 PGSIZE) pgdir j = page_words h pgdir j"
    using assms by (intro page_words_same_page memset_same_page) auto
  then have "page_words (install_table h pgdir i x) pgdir j =
      (if j = i then ((V2P x OR PTE_P) OR PTE_W) OR PTE_U else page_words h pgdir j)"
    using assms by (simp add: install_table_def page_words_st32)
  then show "pd_present (install_table h pgdir i x) pgdir j \<longleftrightarrow> j = i \<or> pd_present h pgdir j"
    "ptab (install_table h pgdir i x) pgdir j = (if j = i then x else ptab h pgdir j)"
    using table_entry [OF assms(1)] by (simp_all add: pd_present_def ptab_def)
qed

lemma install_table_zero:
  assumes "pg_aligned x" "pg_aligned pgdir" "x \<noteq> pgdir" "unat i < 1024" "unat j < 1024"
  shows "page_words (install_table h pgdir i x) x j = 0"
proof -
  have "page_words (install_table h pgdir i x) x j = page_words (memset h x 0 PGSIZE) x j"
    unfolding install_table_def using assms by (intro page_words_same_page st32_same_page) auto
  then show ?thesis using assms by (simp add: page_words_memset0)
qed

lemma install_pt_pages:
  assumes "pg_aligned x" "pg_aligned pgdir" "x \<noteq> pgdir" "unat i < 1024" "\<not> pd_present h pgdir i"
  shows "pt_pages (install_table h pgdir i x) pgdir = insert x (pt_pages h pgdir)"
proof -
  let ?h = "install_table h pgdir i x"
  note e = install_entries [OF assms(1-4)]
  have "ptab h pgdir j \<in> pt_pages ?h pgdir" if "unat j < 1024" "pd_present h pgdir j" for j
  proof -
    have "j \<noteq> i" using that(2) assms(5) by blast
    then show ?thesis using pt_pagesI [of j ?h pgdir] that e [OF that(1)] by simp
  qed
  moreover have "x \<in> pt_pages ?h pgdir"
    using pt_pagesI [of i ?h pgdir] e [OF assms(4)] assms(4) by simp
  ultimately have "insert x (pt_pages h pgdir) \<subseteq> pt_pages ?h pgdir"
    unfolding pt_pages_def by blast
  moreover have "ptab ?h pgdir j \<in> insert x (pt_pages h pgdir)"
    if "unat j < 1024" "pd_present ?h pgdir j" for j
    using that e [OF that(1)] pt_pagesI [of j h pgdir] by (cases "j = i") simp_all
  then have "pt_pages ?h pgdir \<subseteq> insert x (pt_pages h pgdir)"
    unfolding pt_pages_def [of ?h] by auto
  ultimately show ?thesis by blast
qed

lemma install_pgdir_inv:
  assumes inv: "pgdir_inv s pgdir" and x: "kpage s x" "x \<notin> pt_pages (heap s) pgdir"
    and i: "unat i < 1024" and t: "kend t = kend s" "heap t = install_table (heap s) pgdir i x"
  shows "pgdir_inv t pgdir"
  unfolding pgdir_inv_def kpage_kend_cong [OF t(1)] t(2)
proof (intro conjI allI impI)
  let ?h = "heap s" and ?h' = "install_table (heap s) pgdir i x"
  have kp: "kpage s pgdir" and xd: "x \<noteq> pgdir" using inv x(2) by (auto simp: pgdir_inv_def)
  note e = install_entries [OF kpage_aligned [OF x(1)] kpage_aligned [OF kp] xd i]
  have old: "ptab ?h pgdir j \<noteq> x" if "unat j < 1024" "pd_present ?h pgdir j" for j
    using pt_pagesI [OF that] x(2) by blast
  show "kpage s pgdir" by (rule kp)
  fix j
  show "kpage s (ptab ?h' pgdir j)" "ptab ?h' pgdir j \<noteq> pgdir"
    if "unat j < 1024 \<and> pd_present ?h' pgdir j"
    using that e [of j] x(1) xd ptab_kpage [OF inv, of j] by (cases "j = i"; simp)+
  fix k
  assume a: "unat j < 1024 \<and> unat k < 1024 \<and> pd_present ?h' pgdir j \<and> pd_present ?h' pgdir k
    \<and> ptab ?h' pgdir j = ptab ?h' pgdir k"
  then have pr: "j = i \<or> pd_present ?h pgdir j" "k = i \<or> pd_present ?h pgdir k"
    and eq: "(if j = i then x else ptab ?h pgdir j) = (if k = i then x else ptab ?h pgdir k)"
    and lt: "unat j < 1024" "unat k < 1024"
    using e [of j] e [of k] by metis+
  have uniq: "j = k" if "pd_present ?h pgdir j" "pd_present ?h pgdir k" "ptab ?h pgdir j = ptab ?h pgdir k"
    using inv lt that unfolding pgdir_inv_def by blast
  show "j = k" using pr eq old [OF lt(1)] old [OF lt(2)] uniq by (metis (full_types))
qed

lemma install_pte_at:
  assumes inv: "pgdir_inv s pgdir" and x: "kpage s x" "x \<notin> pt_pages (heap s) pgdir"
    and i: "unat i < 1024" "\<not> pd_present (heap s) pgdir i"
  shows "pte_at (install_table (heap s) pgdir i x) pgdir w = pte_at (heap s) pgdir w"
proof -
  let ?h = "heap s" and ?h' = "install_table (heap s) pgdir i x"
  have pa: "pg_aligned pgdir" and xd: "x \<noteq> pgdir" using inv x(2) by (auto simp: pgdir_inv_def kpage_aligned)
  note xa = kpage_aligned [OF x(1)]
  note e = install_entries [OF xa pa xd i(1) PDX_less, of ?h w]
  show ?thesis
  proof (cases "PDX w = i \<or> \<not> pd_present ?h pgdir (PDX w)")
    case True
    then show ?thesis
      using e i(2) install_table_zero [OF xa pa xd i(1) PTX_less] by (auto simp: pte_at_def)
  next
    case False
    let ?p = "ptab ?h pgdir (PDX w)"
    have "?p \<in> pt_pages ?h pgdir" "?p \<noteq> pgdir" "pg_aligned ?p"
      using False ptab_kpage [OF inv PDX_less, of w] by (auto simp: pt_pagesI PDX_less)
    then have "page_words ?h' ?p (PTX w) = page_words ?h ?p (PTX w)"
      using x(2) xa pa i(1) PTX_less by (intro page_words_same_page install_other) auto
    then show ?thesis using False e by (simp add: pte_at_def)
  qed
qed

text \<open>
  With allocation enabled the walk either reports that memory ran out, having changed nothing,
  or returns the slot of \<open>va\<close> in a table that is now present, with every entry as it was before.
\<close>

lemma walk_alloc:
  assumes inv: "vm_inv s pgdir xs"
  obtains (full) "walkpgdir pgdir va True s = (0, s)" "xs = []"
      "\<not> pd_present (heap s) pgdir (PDX va)"
  | (slot) s' ys where
      "walkpgdir pgdir va True s = (ptab (heap s') pgdir (PDX va) + 4 * PTX va, s')"
      "pd_present (heap s') pgdir (PDX va)" "pt_step s pgdir xs s' ys"
      "\<And>w. pte_at (heap s') pgdir w = pte_at (heap s) pgdir w"
proof (cases "pd_present (heap s) pgdir (PDX va)")
  case True
  then show ?thesis using slot [of s xs] inv walk_present pt_step_refl by blast
next
  case False
  let ?h = "heap s" and ?i = "PDX va"
  from vm_invD(1) [OF inv] show ?thesis
  proof (cases rule: kalloc_cases)
    case none
    with False have "walkpgdir pgdir va True s = (0, s)"
      by (simp add: walkpgdir_def pd_present_def page_words_def Let_def)
    with none False show ?thesis using full by blast
  next
    case (some x ys)
    define s' where "s' = s\<lparr>heap := install_table ?h pgdir ?i x, kmem_freelist := ld32 ?h x\<rparr>"
    have hs: "heap s' = install_table ?h pgdir ?i x" and ke: "kend s' = kend s"
      by (simp_all add: s'_def)
    have xp: "x \<notin> pt_pages ?h pgdir" using vm_invD(3) [OF inv] some(1) by auto
    then have xd: "x \<noteq> pgdir" by auto
    note al = kpage_aligned [OF some(4)] vm_invD(5) [OF inv]
    have walk: "walkpgdir pgdir va True s = (x + 4 * PTX va, s')"
      using False some
      by (simp add: walkpgdir_def pd_present_def page_words_def Let_def s'_def install_table_def)
    note e = install_entries [OF al xd PDX_less PDX_less, of ?h va va]
    have pp: "pt_pages (heap s') pgdir = insert x (pt_pages ?h pgdir)"
      unfolding hs using install_pt_pages [OF al xd PDX_less False] .
    have other: "same_page ?h (heap s') q" if "q \<noteq> x" "q \<noteq> pgdir" for q
      unfolding hs using install_other [OF al PDX_less that] .
    have "same_page ?h (heap s') q" if "q \<in> set ys" for q
      using that some(1,5) vm_invD(6) [OF inv] by (intro other) auto
    then have "free_inv s' ys"
      by (intro free_inv_frame [OF some(3)]) (simp_all add: s'_def)
    moreover have "pgdir_inv s' pgdir"
      using install_pgdir_inv [OF vm_invD(2) [OF inv] some(4) xp PDX_less ke hs] .
    ultimately have vi: "vm_inv s' pgdir ys"
      using vm_invD(3) [OF inv] some(1,5) pp by (auto simp: vm_inv_def)
    have "same_page ?h (heap s') q" if "q \<notin> pt_pages ?h pgdir" "q \<notin> set xs" for q
      using that some(1) by (intro other) auto
    then have "pt_step s pgdir xs s' ys"
      using vi some(1,5) pp by (auto simp: pt_step_def) (simp_all add: s'_def)
    with slot [of s' ys] walk e install_pte_at [OF vm_invD(2) [OF inv] some(4) xp PDX_less False]
    show ?thesis by (simp add: hs)
  qed
qed

section \<open>Mapping a range\<close>

lemma flags_low: "PTE_ADDR f = 0 \<Longrightarrow> PTE_ADDR (f OR PTE_P) = 0"
  unfolding PTE_ADDR_def by (simp add: bit.conj_disj_distrib2)

lemma mapped_entry:
  assumes "pg_aligned pa" "PTE_ADDR prm = 0"
  shows "PTE_ADDR ((pa OR prm) OR PTE_P) = pa" "PTE_FLAGS ((pa OR prm) OR PTE_P) = prm OR PTE_P"
    "((pa OR prm) OR PTE_P) AND PTE_P \<noteq> 0"
proof -
  have e: "(pa OR prm) OR PTE_P = pa OR (prm OR PTE_P)" by (simp only: or.assoc)
  show "PTE_ADDR ((pa OR prm) OR PTE_P) = pa" "PTE_FLAGS ((pa OR prm) OR PTE_P) = prm OR PTE_P"
    unfolding e using assms flags_low by (simp_all only: PTE_ADDR_make PTE_FLAGS_make)
  show "((pa OR prm) OR PTE_P) AND PTE_P \<noteq> 0" by (simp only: or_and_absorb) simp
qed

text \<open>
  The pages \<open>a, a + PGSIZE, \<dots>, lst\<close> and the entry the loop installs for each.
\<close>

definition in_range :: "u32 \<Rightarrow> u32 \<Rightarrow> u32 \<Rightarrow> bool" where
  "in_range a lst w \<longleftrightarrow> a \<le> PGROUNDDOWN w \<and> PGROUNDDOWN w \<le> lst"

definition map_range :: "u32 \<Rightarrow> u32 \<Rightarrow> u32 \<Rightarrow> u32 \<Rightarrow> (u32 \<Rightarrow> u32) \<Rightarrow> u32 \<Rightarrow> u32" where
  "map_range a lst pa prm f w =
     (if in_range a lst w then (pa + (PGROUNDDOWN w - a) OR prm) OR PTE_P else f w)"

lemma next_page:
  assumes "pg_aligned a" "pg_aligned lst" "a < lst"
  shows "unat (a + PGSIZE) = unat a + 4096" "pg_aligned (a + PGSIZE)" "a + PGSIZE \<le> lst"
proof -
  from assms obtain j k where jk: "unat a = 4096 * j" "unat lst = 4096 * k" "k < 1048576"
    by (meson pg_alignedE)
  with assms(3) have "j < k" by (simp add: word_less_nat_alt)
  with jk show u: "unat (a + PGSIZE) = unat a + 4096" by (simp add: unat_add32)
  show "pg_aligned (a + PGSIZE)" using u jk(1) by (simp add: pg_aligned_def)
  show "a + PGSIZE \<le> lst" using u jk \<open>j < k\<close> by (simp add: word_le_nat_alt)
qed

lemma in_range_step:
  assumes "pg_aligned a" "pg_aligned lst" "a < lst"
  shows "in_range a lst w \<longleftrightarrow> PGROUNDDOWN w = a \<or> in_range (a + PGSIZE) lst w"
    and "\<not> in_range (a + PGSIZE) lst a"
proof -
  note n = next_page [OF assms]
  have "a \<le> PGROUNDDOWN w \<longleftrightarrow> PGROUNDDOWN w = a \<or> a + PGSIZE \<le> PGROUNDDOWN w"
    using next_page(3) [of a "PGROUNDDOWN w"] assms(1) n(1)
    by (auto simp: word_le_nat_alt word_less_nat_alt order.order_iff_strict word_unat_eq_iff)
  then show "in_range a lst w \<longleftrightarrow> PGROUNDDOWN w = a \<or> in_range (a + PGSIZE) lst w"
    using assms(3) by (auto simp: in_range_def)
  show "\<not> in_range (a + PGSIZE) lst a"
    using n(1) assms(1) by (auto simp: in_range_def pg_aligned_iff word_le_nat_alt)
qed

lemma mappages_one:
  assumes inv: "vm_inv s pgdir xs" and al: "pg_aligned a" and fresh: "\<not> present (heap s) pgdir a"
  obtains (full) "\<And>lst prm fuel. mappages_loop (Suc fuel) pgdir a lst pa prm s = Ok (-1, s)" "xs = []"
      "\<not> pd_present (heap s) pgdir (PDX a)"
  | (one) s' ys where "pt_step s pgdir xs s' ys"
      "\<And>w. pte_at (heap s') pgdir w =
         (if PGROUNDDOWN w = a then (pa OR prm) OR PTE_P else pte_at (heap s) pgdir w)"
      "\<And>lst fuel. mappages_loop (Suc fuel) pgdir a lst pa prm s =
         (if a = lst then Ok (0, s')
          else mappages_loop fuel pgdir (a + PGSIZE) lst (pa + PGSIZE) prm s')"
  using inv
proof (cases rule: walk_alloc [where va = a])
  case full
  then show ?thesis by (intro that(1)) simp_all
next
  case (slot s1 ys)
  let ?slot = "ptab (heap s1) pgdir (PDX a) + 4 * PTX a"
  define s' where "s' = s1\<lparr>heap := st32 (heap s1) ?slot ((pa OR prm) OR PTE_P)\<rparr>"
  note i1 = pt_stepD(1) [OF slot(3)]
  note st = store_slot [OF i1 slot(2), where v = "(pa OR prm) OR PTE_P"]
  have nz: "?slot \<noteq> 0"
    using slot_nonzero [OF ptab_kpage(1) [OF vm_invD(2) [OF i1] PDX_less slot(2)] PTX_less] .
  have np: "ld32 (heap s1) ?slot AND PTE_P = 0"
    using fresh slot(4) slot_word [OF slot(2)] by (simp add: present_def)
  show ?thesis
  proof (rule that(2))
    show "pt_step s pgdir xs s' ys"
      using pt_step_trans [OF slot(3)] st(1) by (simp add: s'_def)
    show "pte_at (heap s') pgdir w =
        (if PGROUNDDOWN w = a then (pa OR prm) OR PTE_P else pte_at (heap s) pgdir w)" for w
      using st(2) slot(4) al by (simp add: s'_def pg_aligned_iff)
    show "mappages_loop (Suc fuel) pgdir a lst pa prm s = (if a = lst then Ok (0, s')
        else mappages_loop fuel pgdir (a + PGSIZE) lst (pa + PGSIZE) prm s')" for lst fuel
      using slot(1) nz np by (simp add: s'_def Let_def)
  qed
qed

lemma mappages_loop_correct:
  assumes "vm_inv s pgdir xs" "pg_aligned a" "pg_aligned lst" "a \<le> lst"
    and "(unat lst - unat a) div 4096 < fuel"
    and "\<And>w. in_range a lst w \<Longrightarrow> \<not> present (heap s) pgdir w"
  shows "\<exists>r s' ys. mappages_loop fuel pgdir a lst pa prm s = Ok (r, s') \<and> pt_step s pgdir xs s' ys \<and>
    (r = 0 \<and> (\<forall>w. pte_at (heap s') pgdir w = map_range a lst pa prm (pte_at (heap s) pgdir) w)
     \<or> r = -1 \<and> ys = [] \<and> (\<forall>w. \<not> in_range a lst w \<longrightarrow> pte_at (heap s') pgdir w = pte_at (heap s) pgdir w))"
  using assms
proof (induction fuel arbitrary: s xs a pa)
  case (Suc fuel)
  have ra: "in_range a lst a" using Suc.prems(2,4) by (simp add: in_range_def pg_aligned_iff)
  then have fresh: "\<not> present (heap s) pgdir a" by (rule Suc.prems(6))
  from Suc.prems(1,2) fresh show ?case
  proof (cases rule: mappages_one [where pa = pa and prm = prm])
    case full
    then show ?thesis using pt_step_refl [OF Suc.prems(1)] by auto
  next
    case (one s1 ys)
    show ?thesis
    proof (cases "a = lst")
      case True
      then have "in_range a lst w \<longleftrightarrow> PGROUNDDOWN w = a" for w by (auto simp: in_range_def)
      with True one show ?thesis by (auto simp: map_range_def)
    next
      case False
      with Suc.prems(4) have lt: "a < lst" by simp
      note n = next_page [OF Suc.prems(2,3) lt]
      note st = in_range_step [OF Suc.prems(2,3) lt]
      have bound: "(unat lst - unat (a + PGSIZE)) div 4096 < fuel"
        using Suc.prems(5) n(1,3) by (simp add: word_le_nat_alt)
      have "\<not> present (heap s1) pgdir w" if "in_range (a + PGSIZE) lst w" for w
      proof -
        have "PGROUNDDOWN w \<noteq> a" using that st(2) Suc.prems(2) by (auto simp: in_range_def pg_aligned_iff)
        then show ?thesis using one(2) [of w] Suc.prems(6) [of w] that st(1) [of w] by (simp add: present_def)
      qed
      from Suc.IH [OF pt_stepD(1) [OF one(1)] n(2) Suc.prems(3) n(3) bound this]
      obtain r s2 zs where IH: "mappages_loop fuel pgdir (a + PGSIZE) lst (pa + PGSIZE) prm s1 = Ok (r, s2)"
        "pt_step s1 pgdir ys s2 zs"
        "r = 0 \<and> (\<forall>w. pte_at (heap s2) pgdir w = map_range (a + PGSIZE) lst (pa + PGSIZE) prm (pte_at (heap s1) pgdir) w)
         \<or> r = -1 \<and> zs = [] \<and> (\<forall>w. \<not> in_range (a + PGSIZE) lst w \<longrightarrow> pte_at (heap s2) pgdir w = pte_at (heap s1) pgdir w)"
        by blast
      have "map_range (a + PGSIZE) lst (pa + PGSIZE) prm (pte_at (heap s1) pgdir) w =
          map_range a lst pa prm (pte_at (heap s) pgdir) w" for w
        using one(2) [of w] st Suc.prems(2)
        by (auto simp: map_range_def st(1) in_range_def pg_aligned_iff algebra_simps)
      moreover have "pte_at (heap s1) pgdir w = pte_at (heap s) pgdir w" if "\<not> in_range a lst w" for w
        using one(2) [of w] that st(1) [of w] by auto
      ultimately show ?thesis
        using IH one(3) False pt_step_trans [OF one(1) IH(2)] st(1) by auto
    qed
  qed
qed simp

lemma PGROUNDDOWN_mono: "a \<le> b \<Longrightarrow> PGROUNDDOWN a \<le> PGROUNDDOWN b"
  by (simp add: word_le_nat_alt unat_PGROUNDDOWN div_le_mono)

lemma last_byte:
  fixes va sz :: u32
  assumes "sz \<noteq> 0" "unat va + unat sz \<le> 4294967296"
  shows "unat (va + sz - 1) = unat va + unat sz - 1" "va \<le> va + sz - 1"
proof -
  have "unat sz \<noteq> 0" using assms(1) by (simp add: unat_eq_zero)
  moreover have "unat (sz - 1) = unat sz - 1" using assms(1) by (simp add: unat_minus_one)
  moreover have "unat va + (unat sz - 1) < 4294967296"
    using assms(2) \<open>unat sz \<noteq> 0\<close> by linarith
  ultimately have "unat (va + (sz - 1)) = unat va + unat sz - 1"
    using unat_add32 [of va "sz - 1"] by simp
  then show u: "unat (va + sz - 1) = unat va + unat sz - 1" by (simp add: algebra_simps)
  show "va \<le> va + sz - 1" using u \<open>unat sz \<noteq> 0\<close> by (simp add: word_le_nat_alt)
qed

lemma mappages_result:
  assumes inv: "vm_inv s pgdir xs" and sz: "sz \<noteq> 0" "unat va + unat sz \<le> 4294967296"
    and fresh: "\<And>w. in_range (PGROUNDDOWN va) (PGROUNDDOWN (va + sz - 1)) w \<Longrightarrow> \<not> present (heap s) pgdir w"
  shows "\<exists>r s' ys. mappages pgdir va sz pa prm s = Ok (r, s') \<and> pt_step s pgdir xs s' ys \<and>
    (r = 0 \<and> (\<forall>w. pte_at (heap s') pgdir w = map_range (PGROUNDDOWN va) (PGROUNDDOWN (va + sz - 1)) pa prm
               (pte_at (heap s) pgdir) w)
     \<or> r = -1 \<and> ys = [] \<and> (\<forall>w. \<not> in_range (PGROUNDDOWN va) (PGROUNDDOWN (va + sz - 1)) w \<longrightarrow>
               pte_at (heap s') pgdir w = pte_at (heap s) pgdir w))"
proof -
  have "(unat (PGROUNDDOWN (va + sz - 1)) - unat (PGROUNDDOWN va)) div 4096 < 0x100000"
    using unat_lt_2_32 [of "PGROUNDDOWN (va + sz - 1)"] by (simp add: div_less_iff_less_mult)
  then show ?thesis
    unfolding mappages_def
    using inv fresh PGROUNDDOWN_mono [OF last_byte(2) [OF sz]]
    by (intro mappages_loop_correct) auto
qed

lemma page_range_one:
  assumes "pg_aligned a"
  shows "PGROUNDDOWN (a + PGSIZE - 1) = a" "in_range a a w \<longleftrightarrow> PGROUNDDOWN w = a"
proof -
  have "unat (4095 :: u32) < 4096" by simp
  from page_plus [OF assms this] show "PGROUNDDOWN (a + PGSIZE - 1) = a" by (simp add: algebra_simps)
qed (auto simp: in_range_def)

lemma mappages_page:
  assumes inv: "vm_inv s pgdir xs" and al: "pg_aligned a" and fresh: "\<not> present (heap s) pgdir a"
  obtains (full) "mappages pgdir a PGSIZE pa prm s = Ok (-1, s)" "xs = []"
  | (mapped) s' ys where "mappages pgdir a PGSIZE pa prm s = Ok (0, s')" "pt_step s pgdir xs s' ys"
      "\<And>w. pte_at (heap s') pgdir w =
         (if PGROUNDDOWN w = a then (pa OR prm) OR PTE_P else pte_at (heap s) pgdir w)"
proof -
  have "(0x100000 :: nat) = Suc 0xFFFFF" by simp
  then have m: "mappages pgdir a PGSIZE pa prm s = mappages_loop (Suc 0xFFFFF) pgdir a a pa prm s"
    unfolding mappages_def page_range_one(1) [OF al] using al by (simp only: pg_aligned_iff)
  from inv al fresh show thesis
  proof (cases rule: mappages_one [where pa = pa and prm = prm])
    case full
    have "mappages pgdir a PGSIZE pa prm s = Ok (-1, s)" unfolding m by (rule full(1))
    then show ?thesis using full(2) by (rule that(1))
  next
    case (one s' ys)
    have "mappages pgdir a PGSIZE pa prm s = Ok (0, s')" unfolding m one(3) by simp
    then show ?thesis using one(1,2) by (rule that(2))
  qed
qed

end
