(* ===== verification/Uvm.thy ===== *)
theory Uvm
  imports Pagetable
begin

text \<open>
  Growing and shrinking a user address space.  \<open>deallocuvm\<close> clears every present entry of the
  range and returns to the allocator exactly those frames whose reference count is zero;
  \<open>allocuvm\<close> maps a fresh zeroed frame at every page of the range, or gives back what it took.
\<close>

section \<open>Ranges of pages\<close>

definition rng :: "u32 \<Rightarrow> u32 \<Rightarrow> u32 \<Rightarrow> bool" where
  "rng a b w \<longleftrightarrow> a \<le> PGROUNDDOWN w \<and> PGROUNDDOWN w < b"

lemma rng_split:
  "a \<le> b \<Longrightarrow> b \<le> c \<Longrightarrow> rng a c w \<longleftrightarrow> rng a b w \<or> rng b c w"
  by (auto simp: rng_def)

lemma rng_empty: "b \<le> a \<Longrightarrow> \<not> rng a b w"
  by (auto simp: rng_def)

lemma rng_disjoint: "rng a b w \<Longrightarrow> \<not> rng b c w"
  by (auto simp: rng_def)

section \<open>Shrinking\<close>

definition frame_of :: "mem \<Rightarrow> u32 \<Rightarrow> u32 \<Rightarrow> u32" where
  "frame_of h pgdir w = PTE_ADDR (pte_at h pgdir w)"

text \<open>The frames a call frees: those mapped in the range whose count is zero.\<close>

definition freed :: "'a machine_scheme \<Rightarrow> u32 \<Rightarrow> u32 \<Rightarrow> u32 \<Rightarrow> u32 set" where
  "freed s pgdir a b = {P2V (frame_of (heap s) pgdir w) | w.
     rng a b w \<and> present (heap s) pgdir w \<and> get_count (frame_of (heap s) pgdir w) s = 0}"

text \<open>
  What the caller of \<open>deallocuvm\<close> owes: no entry maps frame 0, and a frame whose count is zero
  is an allocated page, is no page table, and is mapped at one place only.
\<close>

definition frames_ok :: "'a machine_scheme \<Rightarrow> u32 \<Rightarrow> u32 list \<Rightarrow> u32 \<Rightarrow> u32 \<Rightarrow> bool" where
  "frames_ok s pgdir xs a b \<longleftrightarrow>
     (\<forall>w. rng a b w \<and> present (heap s) pgdir w \<longrightarrow> frame_of (heap s) pgdir w \<noteq> 0 \<and>
        (get_count (frame_of (heap s) pgdir w) s = 0 \<longrightarrow>
           kpage s (P2V (frame_of (heap s) pgdir w))
           \<and> P2V (frame_of (heap s) pgdir w) \<notin> set xs \<union> pt_pages (heap s) pgdir
           \<and> (\<forall>v. rng a b v \<and> present (heap s) pgdir v \<and>
                frame_of (heap s) pgdir v = frame_of (heap s) pgdir w \<longrightarrow>
                PGROUNDDOWN v = PGROUNDDOWN w)))"

definition dealloc_post :: "'a machine_scheme \<Rightarrow> u32 \<Rightarrow> u32 list \<Rightarrow> u32 \<Rightarrow> u32 \<Rightarrow>
    'a machine_scheme \<Rightarrow> u32 list \<Rightarrow> bool" where
  "dealloc_post s pgdir xs a b s' ys \<longleftrightarrow> vm_inv s' pgdir ys
     \<and> pt_pages (heap s') pgdir = pt_pages (heap s) pgdir
     \<and> (\<forall>w. pte_at (heap s') pgdir w =
           (if rng a b w \<and> present (heap s) pgdir w then 0 else pte_at (heap s) pgdir w))
     \<and> (\<exists>fs. ys = fs @ xs \<and> set fs = freed s pgdir a b)
     \<and> s' = s\<lparr>heap := heap s', kmem_freelist := kmem_freelist s'\<rparr>
     \<and> (\<forall>p. p \<notin> pt_pages (heap s) pgdir \<union> freed s pgdir a b \<longrightarrow> same_page (heap s) (heap s') p)"

lemma dealloc_postD:
  assumes "dealloc_post s pgdir xs a b s' ys"
  shows "vm_inv s' pgdir ys" "pt_pages (heap s') pgdir = pt_pages (heap s) pgdir"
    "pte_at (heap s') pgdir w = (if rng a b w \<and> present (heap s) pgdir w then 0 else pte_at (heap s) pgdir w)"
    "set ys = freed s pgdir a b \<union> set xs"
    "cow_ref_counts s' = cow_ref_counts s" "kend s' = kend s"
proof -
  have e: "s' = s\<lparr>heap := heap s', kmem_freelist := kmem_freelist s'\<rparr>"
    using assms by (simp add: dealloc_post_def)
  show "cow_ref_counts s' = cow_ref_counts s" "kend s' = kend s" by (subst e, simp)+
qed (use assms in \<open>auto simp: dealloc_post_def\<close>)

lemma dealloc_post_refl:
  assumes "vm_inv s pgdir xs" "\<And>w. rng a b w \<Longrightarrow> \<not> present (heap s) pgdir w"
  shows "dealloc_post s pgdir xs a b s xs"
  using assms by (auto simp: dealloc_post_def freed_def)

text \<open>Outside the part already processed, entries, frames and counts are as they were.\<close>

lemma dealloc_post_keeps:
  assumes "dealloc_post s pgdir xs a b s1 ys" "rng b c w"
  shows "pte_at (heap s1) pgdir w = pte_at (heap s) pgdir w"
    "present (heap s1) pgdir w = present (heap s) pgdir w"
    "frame_of (heap s1) pgdir w = frame_of (heap s) pgdir w"
    "get_count pa s1 = get_count pa s"
proof -
  have "\<not> rng a b w" using assms(2) rng_disjoint by blast
  then show e: "pte_at (heap s1) pgdir w = pte_at (heap s) pgdir w"
    using dealloc_postD(3) [OF assms(1), of w] by simp
  then show "present (heap s1) pgdir w = present (heap s) pgdir w"
    "frame_of (heap s1) pgdir w = frame_of (heap s) pgdir w"
    by (simp_all add: present_def frame_of_def)
  show "get_count pa s1 = get_count pa s"
    using dealloc_postD(5) [OF assms(1)] by (simp add: get_count_def)
qed

lemma freed_split:
  assumes "dealloc_post s pgdir xs a b s1 ys" "a \<le> b" "b \<le> c"
  shows "freed s pgdir a c = freed s pgdir a b \<union> freed s1 pgdir b c"
proof -
  have "freed s1 pgdir b c = freed s pgdir b c"
    unfolding freed_def using dealloc_post_keeps [OF assms(1)] by (metis (no_types, lifting))
  then show ?thesis
    using rng_split [OF assms(2,3)] by (auto simp: freed_def)
qed

lemma dealloc_post_trans:
  assumes 1: "dealloc_post s pgdir xs a b s1 ys" and 2: "dealloc_post s1 pgdir ys b c s2 zs"
    and le: "a \<le> b" "b \<le> c"
  shows "dealloc_post s pgdir xs a c s2 zs"
  unfolding dealloc_post_def
proof (intro conjI allI impI)
  note fr = freed_split [OF 1 le]
  show "vm_inv s2 pgdir zs" using 2 by (rule dealloc_postD)
  show "pt_pages (heap s2) pgdir = pt_pages (heap s) pgdir"
    using dealloc_postD(2) [OF 1] dealloc_postD(2) [OF 2] by simp
  show "pte_at (heap s2) pgdir w =
      (if rng a c w \<and> present (heap s) pgdir w then 0 else pte_at (heap s) pgdir w)" for w
    using dealloc_postD(3) [OF 1, of w] dealloc_postD(3) [OF 2, of w] rng_split [OF le, of w]
      dealloc_post_keeps(2) [OF 1, of c w] by auto
  show "\<exists>fs. zs = fs @ xs \<and> set fs = freed s pgdir a c"
    using 1 2 fr by (auto simp: dealloc_post_def)
  have "s1 = s\<lparr>heap := heap s1, kmem_freelist := kmem_freelist s1\<rparr>"
    "s2 = s1\<lparr>heap := heap s2, kmem_freelist := kmem_freelist s2\<rparr>"
    using 1 2 by (simp_all add: dealloc_post_def)
  then show "s2 = s\<lparr>heap := heap s2, kmem_freelist := kmem_freelist s2\<rparr>"
    by (metis machine.surjective machine.update_convs(1,2))
  fix p assume "p \<notin> pt_pages (heap s) pgdir \<union> freed s pgdir a c"
  then have "same_page (heap s) (heap s1) p" "same_page (heap s1) (heap s2) p"
    using 1 2 fr dealloc_postD(2) [OF 1] by (simp_all add: dealloc_post_def)
  then show "same_page (heap s) (heap s2) p" by (rule same_page_trans)
qed

lemma frames_ok_step:
  assumes ok: "frames_ok s pgdir xs a c" and 1: "dealloc_post s pgdir xs a b s1 ys"
    and le: "a \<le> b" "b \<le> c"
  shows "frames_ok s1 pgdir ys b c"
  unfolding frames_ok_def
proof (intro allI impI)
  fix w assume w: "rng b c w \<and> present (heap s1) pgdir w"
  note k = dealloc_post_keeps [OF 1]
  let ?f = "frame_of (heap s) pgdir"
  have rw: "rng a c w" "present (heap s) pgdir w" using w k rng_split [OF le] by auto
  have nf: "P2V (?f w) \<notin> freed s pgdir a b" if "get_count (?f w) s = 0"
  proof
    assume "P2V (?f w) \<in> freed s pgdir a b"
    then obtain v where v: "rng a b v" "present (heap s) pgdir v" "?f v = ?f w"
      by (auto simp: freed_def)
    then have "PGROUNDDOWN v = PGROUNDDOWN w"
      using ok rw that rng_split [OF le, of v] unfolding frames_ok_def by blast
    then have "rng a b w" using v(1) by (simp add: rng_def)
    then show False using w rng_disjoint by blast
  qed
  show "frame_of (heap s1) pgdir w \<noteq> 0 \<and>
      (get_count (frame_of (heap s1) pgdir w) s1 = 0 \<longrightarrow> kpage s1 (P2V (frame_of (heap s1) pgdir w))
        \<and> P2V (frame_of (heap s1) pgdir w) \<notin> set ys \<union> pt_pages (heap s1) pgdir
        \<and> (\<forall>v. rng b c v \<and> present (heap s1) pgdir v \<and>
              frame_of (heap s1) pgdir v = frame_of (heap s1) pgdir w \<longrightarrow> PGROUNDDOWN v = PGROUNDDOWN w))"
    using ok rw nf k w rng_split [OF le] dealloc_postD(2,4) [OF 1] kpage_kend_cong [OF dealloc_postD(6) [OF 1]]
    unfolding frames_ok_def by auto
qed

text \<open>Freeing a page that is no table of \<open>pgdir\<close> leaves the page table as it was.\<close>

lemma kfree_vm_inv:
  assumes inv: "vm_inv s pgdir xs" and v: "kpage s v" "v \<notin> set xs \<union> pt_pages (heap s) pgdir"
  obtains s1 where "kfree v s = Ok s1" "vm_inv s1 pgdir (v # xs)"
    "pt_pages (heap s1) pgdir = pt_pages (heap s) pgdir"
    "\<And>w. pte_at (heap s1) pgdir w = pte_at (heap s) pgdir w"
    "\<And>i. unat i < 1024 \<Longrightarrow> page_words (heap s1) pgdir i = page_words (heap s) pgdir i"
    "s1 = s\<lparr>heap := heap s1, kmem_freelist := kmem_freelist s1\<rparr>"
    "\<And>p. p \<noteq> v \<Longrightarrow> same_page (heap s) (heap s1) p"
proof -
  from kfree_free_inv [OF vm_invD(1) [OF inv] v(1)] v(2)
  obtain s1 where s1: "kfree v s = Ok s1" "free_inv s1 (v # xs)" by auto
  have e: "s1 = s\<lparr>heap := heap s1, kmem_freelist := kmem_freelist s1\<rparr>" "kend s1 = kend s"
    using s1(1) kfree_step [OF v(1)] by auto
  have other: "same_page (heap s) (heap s1) p" if "p \<noteq> v" for p
    using kfree_other_page [OF v(1) s1(1) that] .
  have sp: "same_page (heap s) (heap s1) p" if "p \<in> pt_pages (heap s) pgdir" for p
    using that v(2) by (intro other) auto
  note same = pt_same_pages [OF vm_invD(2) [OF inv] sp]
  have "vm_inv s1 pgdir (v # xs)"
    using s1(2) pgdir_inv_frame [OF vm_invD(2) [OF inv] e(2) sp] vm_invD(3) [OF inv] v(2) same(2)
    by (simp add: vm_inv_def)
  then show ?thesis using that s1(1) same e(1) other by blast
qed

lemma rng_page:
  assumes "pg_aligned a" "unat a + 4096 < 4294967296"
  shows "rng a (a + PGSIZE) w \<longleftrightarrow> PGROUNDDOWN w = a"
proof -
  have u: "unat (a + PGSIZE) = unat a + 4096" using assms(2) by (simp add: unat_add32)
  obtain j where j: "unat (PGROUNDDOWN w) = 4096 * j"
    using pg_alignedE [OF pg_aligned_PGROUNDDOWN] by metis
  obtain k where k: "unat a = 4096 * k" using pg_alignedE [OF assms(1)] by metis
  show ?thesis
    unfolding rng_def word_le_nat_alt word_less_nat_alt word_unat_eq_iff u j k by auto
qed

lemma pte_at_page:
  "PGROUNDDOWN w = PGROUNDDOWN v \<Longrightarrow> pte_at h pgdir w = pte_at h pgdir v"
  using va_indices_page [of w v] by (simp add: pte_at_def)

lemma freed_page:
  assumes "pg_aligned a" "unat a + 4096 < 4294967296" "present (heap s) pgdir a"
  shows "freed s pgdir a (a + PGSIZE) =
    (if get_count (frame_of (heap s) pgdir a) s = 0 then {P2V (frame_of (heap s) pgdir a)} else {})"
proof -
  let ?f = "frame_of (heap s) pgdir"
  have f: "?f w = ?f a" if "rng a (a + PGSIZE) w" for w
    using that assms(1) pte_at_page [of w a]
    by (simp add: rng_page [OF assms(1,2)] pg_aligned_iff frame_of_def)
  have ra: "rng a (a + PGSIZE) a" using assms(1) by (simp add: rng_page [OF assms(1,2)] pg_aligned_iff)
  have "x \<in> freed s pgdir a (a + PGSIZE) \<longleftrightarrow> x = P2V (?f a) \<and> get_count (?f a) s = 0" for x
  proof
    assume "x \<in> freed s pgdir a (a + PGSIZE)"
    then obtain w where "x = P2V (?f w)" "rng a (a + PGSIZE) w" "get_count (?f w) s = 0"
      unfolding freed_def by blast
    then show "x = P2V (?f a) \<and> get_count (?f a) s = 0" using f by simp
  next
    assume "x = P2V (?f a) \<and> get_count (?f a) s = 0"
    then show "x \<in> freed s pgdir a (a + PGSIZE)" using ra assms(3) unfolding freed_def by blast
  qed
  then show ?thesis by (simp add: set_eq_iff)
qed

text \<open>Clearing the entry of page \<open>a\<close>, once its frame has been dealt with.\<close>

lemma dealloc_store:
  assumes al: "pg_aligned a" "unat a + 4096 < 4294967296" and pr: "present (heap s) pgdir a"
    and inv: "vm_inv s pgdir xs" "vm_inv t pgdir (fs @ xs)"
    and t: "pt_pages (heap t) pgdir = pt_pages (heap s) pgdir"
      "\<And>w. pte_at (heap t) pgdir w = pte_at (heap s) pgdir w"
      "page_words (heap t) pgdir (PDX a) = page_words (heap s) pgdir (PDX a)"
      "t = s\<lparr>heap := heap t, kmem_freelist := kmem_freelist t\<rparr>"
      "\<And>p. p \<notin> set fs \<Longrightarrow> same_page (heap s) (heap t) p"
    and fs: "set fs = freed s pgdir a (a + PGSIZE)"
  shows "dealloc_post s pgdir xs a (a + PGSIZE)
    (t\<lparr>heap := st32 (heap t) (ptab (heap s) pgdir (PDX a) + 4 * PTX a) 0\<rparr>) (fs @ xs)"
proof -
  let ?slot = "ptab (heap s) pgdir (PDX a) + 4 * PTX a"
  let ?s' = "t\<lparr>heap := st32 (heap t) ?slot 0\<rparr>"
  have pd: "pd_present (heap s) pgdir (PDX a)"
    using pr by (auto simp: present_def pte_at_def split: if_splits)
  have pd2: "pd_present (heap t) pgdir (PDX a)" "ptab (heap t) pgdir (PDX a) = ptab (heap s) pgdir (PDX a)"
    using pd t(3) by (simp_all add: pd_present_def ptab_def)
  note st = store_slot [OF inv(2) pd2(1), where v = 0, unfolded pd2(2)]
  have frame: "same_page (heap s) (heap ?s') p"
    if "p \<notin> pt_pages (heap s) pgdir \<union> freed s pgdir a (a + PGSIZE)" for p
  proof (rule same_page_trans)
    show "same_page (heap s) (heap t) p" using that fs by (intro t(5)) auto
    have "p \<noteq> ptab (heap s) pgdir (PDX a)" using that pd pt_pagesI [OF PDX_less] by blast
    then show "same_page (heap t) (heap ?s') p"
      using ptab_kpage(2) [OF vm_invD(2) [OF inv(1)] PDX_less pd] PTX_less by (simp add: st32_same_page)
  qed
  have same: "?s' = s\<lparr>heap := heap ?s', kmem_freelist := kmem_freelist ?s'\<rparr>"
    by (subst t(4)) simp
  have "pte_at (heap ?s') pgdir w =
      (if rng a (a + PGSIZE) w \<and> present (heap s) pgdir w then 0 else pte_at (heap s) pgdir w)" for w
    using st(2) [of w] t(2) al(1) pr pte_at_page [of w a "heap s" pgdir]
    by (auto simp: rng_page [OF al] pg_aligned_iff present_def)
  then show ?thesis
    unfolding dealloc_post_def
    using pt_stepD(1) [OF st(1)] st(3) t(1) fs frame same by blast
qed

lemma dealloc_page:
  assumes inv: "vm_inv s pgdir xs" and al: "pg_aligned a" "unat a + 4096 < 4294967296"
    and pr: "present (heap s) pgdir a" and ok: "frames_ok s pgdir xs a (a + PGSIZE)"
  defines "pa \<equiv> frame_of (heap s) pgdir a"
  shows "pa \<noteq> 0 \<and> (\<exists>s2 ys. (if get_count pa s = 0 then kfree (P2V pa) s else Ok s) = Ok s2
    \<and> dealloc_post s pgdir xs a (a + PGSIZE)
        (s2\<lparr>heap := st32 (heap s2) (ptab (heap s) pgdir (PDX a) + 4 * PTX a) 0\<rparr>) ys)"
proof -
  have "rng a (a + PGSIZE) a" using al(1) by (simp add: rng_page [OF al] pg_aligned_iff)
  then have pa: "pa \<noteq> 0" and kp: "get_count pa s = 0 \<Longrightarrow> kpage s (P2V pa)"
    and nin: "get_count pa s = 0 \<Longrightarrow> P2V pa \<notin> set xs \<union> pt_pages (heap s) pgdir"
    using ok pr unfolding frames_ok_def pa_def by blast+
  note fr = freed_page [OF al pr, folded pa_def]
  show ?thesis
  proof (cases "get_count pa s = 0")
    case True
    obtain s1 where k: "kfree (P2V pa) s = Ok s1" "vm_inv s1 pgdir (P2V pa # xs)"
      "pt_pages (heap s1) pgdir = pt_pages (heap s) pgdir"
      "\<And>w. pte_at (heap s1) pgdir w = pte_at (heap s) pgdir w"
      "\<And>i. unat i < 1024 \<Longrightarrow> page_words (heap s1) pgdir i = page_words (heap s) pgdir i"
      "s1 = s\<lparr>heap := heap s1, kmem_freelist := kmem_freelist s1\<rparr>"
      "\<And>p. p \<noteq> P2V pa \<Longrightarrow> same_page (heap s) (heap s1) p"
      using kfree_vm_inv [OF inv kp [OF True] nin [OF True]] by blast
    have "set [P2V pa] = freed s pgdir a (a + PGSIZE)" using fr True by simp
    from dealloc_store [OF al pr inv, of s1 "[P2V pa]", OF _ k(3,4,5,6,7) this] k(1,2) True pa
    show ?thesis using PDX_less by auto
  next
    case False
    have "set [] = freed s pgdir a (a + PGSIZE)" using fr False by simp
    from dealloc_store [OF al pr inv, of s "[]", OF _ _ _ _ _ _ this] inv False pa
    show ?thesis by auto
  qed
qed

text \<open>Where the directory entry is absent the loop skips to the next directory entry's first page.\<close>

lemma next_dir_entry:
  assumes "a < KERNBASE"
  defines "a' \<equiv> PGADDR (PDX a + 1) 0 0 - PGSIZE + PGSIZE"
  shows "unat a' = (unat a div 4194304 + 1) * 4194304" "pg_aligned a'" "a < a'"
    "rng a a' w \<Longrightarrow> PDX w = PDX a"
proof -
  have lt: "unat a < 2147483648" using assms(1) by (simp add: word_less_nat_alt)
  then have d: "unat a div 4194304 < 512" by simp
  then have p: "unat (PDX a + 1) = unat a div 4194304 + 1"
    by (simp add: unat_add32 unat_PDX)
  have "unat ((PDX a + 1) * 4194304) = unat (PDX a + 1) * unat (4194304 :: u32)"
    using d by (subst unat_mult_lem [symmetric]) (simp add: p)
  then have "unat (push_bit 22 (PDX a + 1)) = (unat a div 4194304 + 1) * 4194304"
    unfolding p by (simp add: push_bit_eq_mult)
  then show u: "unat a' = (unat a div 4194304 + 1) * 4194304"
    by (simp add: a'_def PGADDR_def)
  show "pg_aligned a'" unfolding pg_aligned_def u by (simp add: mod_mult_left_eq [symmetric])
  have lo: "unat a < (unat a div 4194304 + 1) * 4194304"
    using dividend_less_div_times [of 4194304 "unat a"] by (simp add: add_mult_distrib)
  then show "a < a'" by (simp add: word_less_nat_alt u)
  assume "rng a a' w"
  then have b: "unat a \<le> unat (PGROUNDDOWN w)" "unat (PGROUNDDOWN w) < (unat a div 4194304 + 1) * 4194304"
    by (simp_all add: rng_def word_le_nat_alt word_less_nat_alt u)
  have "unat (PGROUNDDOWN w) div 4194304 < unat a div 4194304 + 1"
    using b(2) by (rule less_mult_imp_div_less)
  then have "unat (PGROUNDDOWN w) div 4194304 = unat a div 4194304"
    using div_le_mono [OF b(1), of 4194304] by simp
  then have "PDX (PGROUNDDOWN w) = PDX a" by (simp add: word_unat_eq_iff unat_PDX)
  moreover have "PDX (PGROUNDDOWN w) = PDX w"
    using va_indices_page [of w "PGROUNDDOWN w"] pg_aligned_iff [of "PGROUNDDOWN w"] by simp
  ultimately show "PDX w = PDX a" by simp
qed

section \<open>Loops that release a range of pages\<close>

text \<open>
  Two loops walk over a range of addresses and release the pages mapped there: that of \<^verbatim>\<open>deallocuvm\<close>
  and that of \<^verbatim>\<open>dellocateAndUnmap\<close>.  The locale states what one round of such a loop does in a state
  that satisfies \<open>I\<close>, for frames whose count satisfies \<open>Z\<close>; the effect of the whole loop follows.
\<close>

locale page_release =
  fixes L :: "nat \<Rightarrow> u32 \<Rightarrow> 'a machine_scheme \<Rightarrow> 'b result" and R :: "'a machine_scheme \<Rightarrow> 'b"
    and pgdir :: u32 and lim :: u32 and I :: "'a machine_scheme \<Rightarrow> bool" and Z :: "u8 \<Rightarrow> bool"
  assumes stop: "I s \<Longrightarrow> \<not> a < lim \<Longrightarrow> L (Suc n) a s = Ok (R s)"
    and skip: "I s \<Longrightarrow> a < lim \<Longrightarrow> walkpgdir pgdir a False s = (0, s) \<Longrightarrow>
      L (Suc n) a s = L n (PGADDR (PDX a + 1) 0 0 - PGSIZE + PGSIZE) s"
    and absent: "I s \<Longrightarrow> a < lim \<Longrightarrow> walkpgdir pgdir a False s = (pte, s) \<Longrightarrow> pte \<noteq> 0 \<Longrightarrow>
      ld32 (heap s) pte AND PTE_P = 0 \<Longrightarrow> L (Suc n) a s = L n (a + PGSIZE) s"
    and release: "I s \<Longrightarrow> a < lim \<Longrightarrow> walkpgdir pgdir a False s = (pte, s) \<Longrightarrow> pte \<noteq> 0 \<Longrightarrow>
      ld32 (heap s) pte AND PTE_P \<noteq> 0 \<Longrightarrow> pa = PTE_ADDR (ld32 (heap s) pte) \<Longrightarrow> pa \<noteq> 0 \<Longrightarrow> Z (get_count pa s) \<Longrightarrow>
      (if get_count pa s = 0 then kfree (P2V pa) s else Ok s) = Ok t \<Longrightarrow>
      L (Suc n) a s = L n (a + PGSIZE) (t\<lparr>heap := st32 (heap t) pte 0\<rparr>)"
    and keep: "I s \<Longrightarrow> t = s\<lparr>heap := heap t, kmem_freelist := kmem_freelist t\<rparr> \<Longrightarrow> I t"
begin

lemma loop_correct:
  assumes "I s" "vm_inv s pgdir xs" "pg_aligned a" "pg_aligned c" "a \<le> c" "c \<le> KERNBASE"
    and "\<And>v. pg_aligned v \<Longrightarrow> v < lim \<longleftrightarrow> v < c"
    and "frames_ok s pgdir xs a c" "(unat c - unat a) div 4096 < fuel"
    and "\<And>w. rng a c w \<Longrightarrow> present (heap s) pgdir w \<Longrightarrow> Z (get_count (frame_of (heap s) pgdir w) s)"
  shows "\<exists>s' ys. L fuel a s = Ok (R s') \<and> dealloc_post s pgdir xs a c s' ys"
  using assms
proof (induction fuel arbitrary: s xs a)
  case (Suc fuel)
  note inv = Suc.prems(2) and al = Suc.prems(3) and al' = Suc.prems(4) and Is = Suc.prems(1)
  show ?case
  proof (cases "a < c")
    case False
    then have "\<not> a < lim" "dealloc_post s pgdir xs a c s xs"
      using Suc.prems(7) [OF al] inv rng_empty [of c a] by (auto intro!: dealloc_post_refl)
    then show ?thesis using stop [OF Is] by blast
  next
    case lt: True
    have ltk: "a < KERNBASE" "a < lim" using lt Suc.prems(6) Suc.prems(7) [OF al] by auto
    note np = next_page [OF al al' lt]
    have small: "unat a + 4096 < 4294967296" using ltk(1) by (simp add: word_less_nat_alt)
    have up: "a < a + PGSIZE" using np(1) by (simp add: word_less_nat_alt)
    note w = walk_noalloc [OF vm_invD(2) [OF inv], of a]
    have continue: ?thesis
      if st: "L (Suc fuel) a s = L fuel b s1"
        and b: "pg_aligned b" "a < b" "b \<le> c" and post: "dealloc_post s pgdir xs a b s1 ys" for b s1 ys
    proof -
      have le: "a \<le> b" using b(2) by simp
      have fu: "(unat c - unat b) div 4096 < fuel"
      proof -
        have "unat a + 4096 \<le> unat b" using next_page(1,3) [OF al b(1,2)] by (simp add: word_le_nat_alt)
        then show ?thesis using Suc.prems(9) b(3) by (simp add: word_le_nat_alt)
      qed
      have I1: "I s1" using post by (intro keep [OF Is]) (simp add: dealloc_post_def)
      have Z1: "Z (get_count (frame_of (heap s1) pgdir w) s1)" if "rng b c w" "present (heap s1) pgdir w" for w
        using that Suc.prems(10) [of w] rng_split [OF le b(3)] dealloc_post_keeps [OF post that(1)] by simp
      from Suc.IH [OF I1 dealloc_postD(1) [OF post] b(1) al' b(3) Suc.prems(6,7)
          frames_ok_step [OF Suc.prems(8) post le b(3)] fu Z1]
      obtain s2 zs where "L fuel b s1 = Ok (R s2)" "dealloc_post s1 pgdir ys b c s2 zs" by blast
      with st dealloc_post_trans [OF post _ le b(3)] show ?thesis by metis
    qed
    show ?thesis
    proof (cases "pd_present (heap s) pgdir (PDX a)")
      case False
      let ?a' = "PGADDR (PDX a + 1) 0 0 - PGSIZE + PGSIZE"
      note nd = next_dir_entry [OF ltk(1)]
      have no: "\<not> present (heap s) pgdir w" if "rng a ?a' w" for w
        using False nd(4) [OF that] by (simp add: present_def pte_at_def)
      have st: "L (Suc fuel) a s = L fuel ?a' s" using w False by (intro skip [OF Is ltk(2)]) simp
      show ?thesis
      proof (cases "?a' \<le> c")
        case True
        with continue [OF st nd(2,3)] inv no show ?thesis by (blast intro: dealloc_post_refl)
      next
        case ge: False
        then have "rng a c v \<Longrightarrow> rng a ?a' v" for v by (auto simp: rng_def)
        then have "dealloc_post s pgdir xs a c s xs" using inv no by (blast intro: dealloc_post_refl)
        moreover have "\<not> ?a' < lim" using ge Suc.prems(7) [OF nd(2)] by simp
        moreover have "0 < fuel"
          using Suc.prems(9) np(1,3) by (auto simp: word_le_nat_alt intro: gr0I)
        ultimately show ?thesis using st stop [OF Is] by (cases fuel) auto
      qed
    next
      case True
      let ?slot = "ptab (heap s) pgdir (PDX a) + 4 * PTX a"
      have nz: "?slot \<noteq> 0" using w(2) True by (simp add: walk_present)
      note wk = walk_present [OF True, of False] and sw = slot_word [OF True]
      show ?thesis
      proof (cases "present (heap s) pgdir a")
        case pr: True
        have ok: "frames_ok s pgdir xs a (a + PGSIZE)"
          using Suc.prems(8) rng_split [of a "a + PGSIZE" c] np unfolding frames_ok_def
          by (metis order.strict_implies_order small word_le_nat_alt le_add1)
        from dealloc_page [OF inv al small pr ok] obtain s2 ys where
          d: "frame_of (heap s) pgdir a \<noteq> 0"
          "(if get_count (frame_of (heap s) pgdir a) s = 0 then kfree (P2V (frame_of (heap s) pgdir a)) s
            else Ok s) = Ok s2"
          "dealloc_post s pgdir xs a (a + PGSIZE) (s2\<lparr>heap := st32 (heap s2) ?slot 0\<rparr>) ys" by blast
        have "rng a c a" using lt al by (simp add: rng_def pg_aligned_iff)
        then have "Z (get_count (frame_of (heap s) pgdir a) s)" using pr by (rule Suc.prems(10))
        then have "L (Suc fuel) a s = L fuel (a + PGSIZE) (s2\<lparr>heap := st32 (heap s2) ?slot 0\<rparr>)"
          using pr d(1,2) sw by (intro release [OF Is ltk(2) wk nz _ _ d(1)]) (simp_all add: present_def frame_of_def)
        from continue [OF this np(2) up np(3) d(3)] show ?thesis .
      next
        case npr: False
        have "\<not> present (heap s) pgdir w" if "rng a (a + PGSIZE) w" for w
          using npr that al pte_at_page [of w a "heap s" pgdir]
          by (simp add: rng_page [OF al small] present_def pg_aligned_iff)
        moreover have "L (Suc fuel) a s = L fuel (a + PGSIZE) s"
          using npr sw by (intro absent [OF Is ltk(2) wk nz]) (simp add: present_def)
        ultimately show ?thesis
          by (intro continue [OF _ np(2) up np(3) dealloc_post_refl [OF inv]])
      qed
    qed
  qed
qed simp

end

interpretation dealloc: page_release "\<lambda>n a s. deallocuvm_loop n pgdir a lim s" "\<lambda>s. s" pgdir lim "\<lambda>_. True" "\<lambda>_. True" for pgdir lim
  by unfold_locales (auto simp: Let_def)

lemma PGROUNDUP_bounds:
  fixes sz :: u32
  assumes "sz \<le> KERNBASE"
  shows "sz \<le> PGROUNDUP sz" "PGROUNDUP sz \<le> KERNBASE"
    "pg_aligned v \<Longrightarrow> v < sz \<longleftrightarrow> v < PGROUNDUP sz"
proof -
  have le: "unat sz \<le> 2147483648" using assms by (simp add: word_le_nat_alt)
  then have u: "unat (PGROUNDUP sz) = (unat sz + 4095) div 4096 * 4096" by (intro unat_PGROUNDUP) simp
  have "unat sz < (unat sz div 4096 + 1) * 4096"
    using dividend_less_div_times [of 4096 "unat sz"] by simp
  then show "sz \<le> PGROUNDUP sz" "PGROUNDUP sz \<le> KERNBASE"
    using le by (auto simp: word_le_nat_alt u)
  assume "pg_aligned v"
  then obtain k where "unat v = 4096 * k" by (rule pg_alignedE)
  moreover have "k < (unat sz + 4095) div 4096 \<longleftrightarrow> 4096 * k < unat sz"
    using less_eq_div_iff_mult_less_eq [of 4096 "Suc k" "unat sz + 4095"] by auto
  ultimately show "v < sz \<longleftrightarrow> v < PGROUNDUP sz" by (simp add: word_less_nat_alt u)
qed

lemma PGROUNDUP_mono:
  fixes a b :: u32
  assumes "a \<le> b" "b \<le> KERNBASE"
  shows "PGROUNDUP a \<le> PGROUNDUP b"
proof -
  have "unat a \<le> 4294963200" "unat b \<le> 4294963200" "unat a \<le> unat b"
    using assms by (auto simp: word_le_nat_alt)
  then show ?thesis by (simp add: word_le_nat_alt unat_PGROUNDUP div_le_mono)
qed

lemma deallocuvm_correct:
  assumes inv: "vm_inv s pgdir xs" and sz: "newsz < oldsz" "oldsz \<le> KERNBASE"
    and ok: "frames_ok s pgdir xs (PGROUNDUP newsz) (PGROUNDUP oldsz)"
  shows "\<exists>s' ys. deallocuvm pgdir oldsz newsz s = Ok (newsz, s') \<and>
    dealloc_post s pgdir xs (PGROUNDUP newsz) (PGROUNDUP oldsz) s' ys"
proof -
  have le: "newsz \<le> oldsz" using sz(1) by simp
  have "(unat (PGROUNDUP oldsz) - unat (PGROUNDUP newsz)) div 4096 < 0x100001"
    using unat_lt_2_32 [of "PGROUNDUP oldsz"] by (simp add: div_less_iff_less_mult)
  then obtain s' ys where
    "deallocuvm_loop 0x100001 pgdir (PGROUNDUP newsz) oldsz s = Ok s'"
    "dealloc_post s pgdir xs (PGROUNDUP newsz) (PGROUNDUP oldsz) s' ys"
    using dealloc.loop_correct [OF TrueI inv pg_aligned_PGROUNDUP pg_aligned_PGROUNDUP
        PGROUNDUP_mono [OF le sz(2)] PGROUNDUP_bounds(2,3) [OF sz(2)] ok, where fuel = 1048577] by blast
  then show ?thesis using sz(1) by (auto simp: deallocuvm_def not_le)
qed

lemma deallocuvm_noop: "oldsz \<le> newsz \<Longrightarrow> deallocuvm pgdir oldsz newsz s = Ok (oldsz, s)"
  by (simp add: deallocuvm_def)

end
