(* ===== verification/Uvmalloc.thy ===== *)
theory Uvmalloc
  imports Uvm
begin

text \<open>
  Correctness of \<open>allocuvm\<close>.  On success every page of the range is mapped, user-writable, to a
  zeroed frame of its own taken from the free list, with reference count one, and nothing else
  changes.  On failure the range is unmapped again, but the frames are not returned: the roll-back
  goes through \<open>deallocuvm\<close>, which keeps every frame whose count is not zero.
\<close>

section \<open>What a successful growth establishes\<close>

definition user_pte :: "u32 \<Rightarrow> u32" where
  "user_pte m = (V2P m OR (PTE_W OR PTE_U)) OR PTE_P"

lemma user_pte_frame:
  assumes "pg_aligned m"
  shows "PTE_ADDR (user_pte m) = V2P m" "PTE_FLAGS (user_pte m) = 7" "user_pte m AND PTE_P \<noteq> 0"
proof -
  have "PTE_ADDR (PTE_W OR PTE_U) = 0" by (simp add: PTE_ADDR_def)
  from mapped_entry [of "V2P m", OF _ this] assms
  show "PTE_ADDR (user_pte m) = V2P m" "PTE_FLAGS (user_pte m) = 7" "user_pte m AND PTE_P \<noteq> 0"
    by (auto simp: user_pte_def)
qed

text \<open>The page at \<open>w\<close> is backed by a frame that was free before, is no page table and is all zero.\<close>

definition fresh_page :: "u32 set \<Rightarrow> u32 \<Rightarrow> 'a machine_scheme \<Rightarrow> u32 \<Rightarrow> u32 \<Rightarrow> bool" where
  "fresh_page new pgdir s w m \<longleftrightarrow> m \<in> new \<and> kpage s m \<and> m \<notin> pt_pages (heap s) pgdir
     \<and> pte_at (heap s) pgdir w = user_pte m
     \<and> (\<forall>x. PGROUNDDOWN x = m \<longrightarrow> heap s x = 0) \<and> get_count (V2P m) s = 1"

definition alloc_post :: "'a machine_scheme \<Rightarrow> u32 \<Rightarrow> u32 list \<Rightarrow> u32 \<Rightarrow> u32 \<Rightarrow>
    'a machine_scheme \<Rightarrow> u32 list \<Rightarrow> bool" where
  "alloc_post s pgdir xs a b s' ys \<longleftrightarrow> vm_inv s' pgdir ys \<and> (\<exists>zs. xs = zs @ ys) \<and> kend s' = kend s
     \<and> (\<forall>w. rng a b w \<longrightarrow> (\<exists>m. fresh_page (set xs - set ys) pgdir s' w m))
     \<and> (\<forall>w v. rng a b w \<and> rng a b v \<and> frame_of (heap s') pgdir w = frame_of (heap s') pgdir v \<longrightarrow>
          PGROUNDDOWN w = PGROUNDDOWN v)
     \<and> (\<forall>w. \<not> rng a b w \<longrightarrow> pte_at (heap s') pgdir w = pte_at (heap s) pgdir w)
     \<and> pt_pages (heap s') pgdir \<subseteq> pt_pages (heap s) pgdir \<union> (set xs - set ys)
     \<and> (\<forall>p. p \<notin> pt_pages (heap s) pgdir \<union> set xs \<longrightarrow> same_page (heap s) (heap s') p)
     \<and> (\<forall>p. pg_aligned p \<and> p \<notin> set xs - set ys \<longrightarrow> get_count (V2P p) s' = get_count (V2P p) s)"

lemma alloc_postD:
  assumes "alloc_post s pgdir xs a b s' ys"
  shows "vm_inv s' pgdir ys" "set ys \<subseteq> set xs" "kend s' = kend s"
    "rng a b w \<Longrightarrow> \<exists>m. fresh_page (set xs - set ys) pgdir s' w m"
    "\<not> rng a b w \<Longrightarrow> pte_at (heap s') pgdir w = pte_at (heap s) pgdir w"
    "pt_pages (heap s') pgdir \<subseteq> pt_pages (heap s) pgdir \<union> (set xs - set ys)"
    "p \<notin> pt_pages (heap s) pgdir \<union> set xs \<Longrightarrow> same_page (heap s) (heap s') p"
    "pg_aligned p \<Longrightarrow> p \<notin> set xs - set ys \<Longrightarrow> get_count (V2P p) s' = get_count (V2P p) s"
    "rng a b w \<Longrightarrow> rng a b v \<Longrightarrow> frame_of (heap s') pgdir w = frame_of (heap s') pgdir v \<Longrightarrow>
       PGROUNDDOWN w = PGROUNDDOWN v"
proof -
  have "\<exists>zs. xs = zs @ ys" using assms unfolding alloc_post_def by blast
  then show "set ys \<subseteq> set xs" by auto
qed (use assms in \<open>unfold alloc_post_def, blast+\<close>)

lemma alloc_post_refl: "vm_inv s pgdir xs \<Longrightarrow> b \<le> a \<Longrightarrow> alloc_post s pgdir xs a b s xs"
  unfolding alloc_post_def by (simp add: rng_empty)

lemma fresh_page_frame:
  "fresh_page new pgdir s w m \<Longrightarrow> frame_of (heap s) pgdir w = V2P m"
  unfolding fresh_page_def frame_of_def by (metis user_pte_frame(1) kpage_aligned)

lemma fresh_page_keeps:
  assumes f: "fresh_page (set xs - set ys) pgdir s1 w m" and 2: "alloc_post s1 pgdir ys b c s2 zs"
    and w: "\<not> rng b c w" and sub: "set ys \<subseteq> set xs"
  shows "fresh_page (set xs - set zs) pgdir s2 w m"
proof -
  have m: "m \<in> set xs" "m \<notin> set ys" "kpage s1 m" "m \<notin> pt_pages (heap s1) pgdir"
    "get_count (V2P m) s1 = 1" "pte_at (heap s1) pgdir w = user_pte m"
    "\<And>x. PGROUNDDOWN x = m \<Longrightarrow> heap s1 x = 0"
    using f by (auto simp: fresh_page_def)
  have "same_page (heap s1) (heap s2) m" using m by (intro alloc_postD(7) [OF 2]) simp
  moreover have "get_count (V2P m) s2 = 1"
    using alloc_postD(8) [OF 2] m by (simp add: kpage_aligned)
  moreover have "m \<notin> pt_pages (heap s2) pgdir" "m \<notin> set zs"
    using alloc_postD(6,2) [OF 2] m by auto
  ultimately show ?thesis
    using m alloc_postD(5) [OF 2 w] kpage_kend_cong [OF alloc_postD(3) [OF 2]]
    by (auto simp: fresh_page_def same_page_def)
qed

lemma alloc_post_trans:
  assumes 1: "alloc_post s pgdir xs a b s1 ys" and 2: "alloc_post s1 pgdir ys b c s2 zs"
    and le: "a \<le> b" "b \<le> c"
  shows "alloc_post s pgdir xs a c s2 zs"
  unfolding alloc_post_def
proof (intro conjI allI impI)
  note sub = alloc_postD(2) [OF 1] alloc_postD(2) [OF 2]
  have dis: "set ys \<inter> pt_pages (heap s1) pgdir = {}"
    using vm_invD(3) [OF alloc_postD(1) [OF 1]] by blast
  show "vm_inv s2 pgdir zs" using 2 by (rule alloc_postD)
  show "\<exists>us. xs = us @ zs" using 1 2 by (auto simp: alloc_post_def)
  show "kend s2 = kend s" using alloc_postD(3) [OF 1] alloc_postD(3) [OF 2] by simp
  have first: "\<exists>m. fresh_page (set xs - set ys) pgdir s1 w m \<and> fresh_page (set xs - set zs) pgdir s2 w m"
    if "rng a b w" for w
    using alloc_postD(4) [OF 1 that] fresh_page_keeps [OF _ 2 _ sub(1)] rng_disjoint [OF that] by blast
  have second: "\<exists>m. fresh_page (set ys - set zs) pgdir s2 w m" if "rng b c w" for w
    using alloc_postD(4) [OF 2 that] .
  have widen: "fresh_page (set ys - set zs) pgdir s2 w m \<Longrightarrow> fresh_page (set xs - set zs) pgdir s2 w m" for w m
    using sub by (auto simp: fresh_page_def)
  show "\<exists>m. fresh_page (set xs - set zs) pgdir s2 w m" if "rng a c w" for w
    using that first [of w] second [of w] widen [of w] rng_split [OF le, of w] by blast
  have cross: "frame_of (heap s2) pgdir w \<noteq> frame_of (heap s2) pgdir v"
    if c: "rng a b w" "rng b c v" for w v
  proof -
    obtain m n where f: "fresh_page (set xs - set ys) pgdir s1 w m" "fresh_page (set xs - set zs) pgdir s2 w m"
      "fresh_page (set ys - set zs) pgdir s2 v n" using first [OF c(1)] second [OF c(2)] by blast
    then have "m \<noteq> n" by (auto simp: fresh_page_def)
    then show ?thesis by (simp add: fresh_page_frame [OF f(2)] fresh_page_frame [OF f(3)])
  qed
  have keep: "frame_of (heap s2) pgdir w = frame_of (heap s1) pgdir w" if "rng a b w" for w
    using alloc_postD(5) [OF 2, of w] rng_disjoint [OF that] by (simp add: frame_of_def)
  show "PGROUNDDOWN w = PGROUNDDOWN v"
    if a: "rng a c w \<and> rng a c v \<and> frame_of (heap s2) pgdir w = frame_of (heap s2) pgdir v" for w v
  proof -
    consider "rng a b w" "rng a b v" | "rng b c w" "rng b c v"
      using a cross [of w v] cross [of v w] rng_split [OF le] by metis
    then show ?thesis
      using a keep alloc_postD(9) [OF 1] alloc_postD(9) [OF 2] by cases metis+
  qed
  show "pte_at (heap s2) pgdir w = pte_at (heap s) pgdir w" if "\<not> rng a c w" for w
    using that rng_split [OF le, of w] alloc_postD(5) [OF 1, of w] alloc_postD(5) [OF 2, of w] by simp
  show "pt_pages (heap s2) pgdir \<subseteq> pt_pages (heap s) pgdir \<union> (set xs - set zs)"
    using alloc_postD(6) [OF 1] alloc_postD(6) [OF 2] sub dis by blast
  show "same_page (heap s) (heap s2) p" if "p \<notin> pt_pages (heap s) pgdir \<union> set xs" for p
    using that alloc_postD(6) [OF 1] sub
    by (intro same_page_trans [OF alloc_postD(7) [OF 1] alloc_postD(7) [OF 2]]) auto
  show "get_count (V2P p) s2 = get_count (V2P p) s" if "pg_aligned p \<and> p \<notin> set xs - set zs" for p
  proof -
    have "p \<notin> set xs - set ys" "p \<notin> set ys - set zs" using that sub by blast+
    then show ?thesis using that alloc_postD(8) [OF 1, of p] alloc_postD(8) [OF 2, of p] by simp
  qed
qed

section \<open>One page\<close>

text \<open>Taking a page from the free list and clearing it leaves the page table as it was.\<close>

lemma take_zeroed:
  assumes inv: "vm_inv s pgdir (m # ys)"
  defines "s2 \<equiv> s\<lparr>kmem_freelist := ld32 (heap s) m, heap := memset (heap s) m 0 PGSIZE\<rparr>"
  shows "vm_inv s2 pgdir ys" "pt_pages (heap s2) pgdir = pt_pages (heap s) pgdir"
    "pte_at (heap s2) pgdir w = pte_at (heap s) pgdir w" "kpage s m" "m \<notin> set ys"
    "m \<notin> pt_pages (heap s) pgdir" "\<And>p. p \<noteq> m \<Longrightarrow> same_page (heap s) (heap s2) p"
    "PGROUNDDOWN x = m \<Longrightarrow> heap s2 x = 0"
proof -
  note fi = vm_invD(1) [OF inv]
  show m: "kpage s m" "m \<notin> set ys" using fi by (auto simp: free_inv_def)
  show np: "m \<notin> pt_pages (heap s) pgdir" using vm_invD(3) [OF inv] by auto
  show other: "\<And>p. p \<noteq> m \<Longrightarrow> same_page (heap s) (heap s2) p"
    using memset_same_page [OF kpage_aligned [OF m(1)]] by (simp add: s2_def)
  show "PGROUNDDOWN x = m \<Longrightarrow> heap s2 x = 0"
    using memset_page_apply [OF kpage_aligned [OF m(1)]] by (simp add: s2_def)
  have sp: "same_page (heap s) (heap s2) p" if "p \<in> pt_pages (heap s) pgdir" for p
    using that np by (intro other) auto
  note same = pt_same_pages [OF vm_invD(2) [OF inv] sp]
  show "pt_pages (heap s2) pgdir = pt_pages (heap s) pgdir"
    "pte_at (heap s2) pgdir w = pte_at (heap s) pgdir w" using same by simp_all
  have "free_inv s2 ys"
    using m(2) by (intro free_inv_frame [OF kalloc_free_inv(2) [OF fi]])
      (auto simp: s2_def intro: other [unfolded s2_def, simplified])
  moreover have "pgdir_inv s2 pgdir"
    by (rule pgdir_inv_frame [OF vm_invD(2) [OF inv] _ sp]) (simp_all add: s2_def)
  ultimately show "vm_inv s2 pgdir ys"
    using vm_invD(3) [OF inv] same(2) by (simp add: vm_inv_def)
qed

lemma set_count_vm_inv: "vm_inv (set_count p c s) pgdir xs = vm_inv s pgdir xs"
  by (simp add: vm_inv_def free_inv_def pgdir_inv_def kpage_def)

text \<open>One round of the loop: the page is mapped as promised, or the last free page is in hand.\<close>

lemma alloc_page:
  assumes inv: "vm_inv s pgdir (m # xs)" and al: "pg_aligned a" "unat a + 4096 < 4294967296"
    and fresh: "\<not> present (heap s) pgdir a"
  defines "s2 \<equiv> s\<lparr>kmem_freelist := ld32 (heap s) m, heap := memset (heap s) m 0 PGSIZE\<rparr>"
  obtains (full) "mappages pgdir a PGSIZE (V2P m) (PTE_W OR PTE_U) s2 = Ok (-1, s2)" "xs = []"
  | (mapped) s3 ys where "mappages pgdir a PGSIZE (V2P m) (PTE_W OR PTE_U) s2 = Ok (0, s3)"
      "alloc_post s pgdir (m # xs) a (a + PGSIZE) (set_count (V2P m) 1 s3) ys"
proof -
  note tz = take_zeroed [OF inv, folded s2_def]
  have fr2: "\<not> present (heap s2) pgdir a" using fresh tz(3) by (simp add: present_def)
  from tz(1) al(1) fr2 show ?thesis
  proof (cases rule: mappages_page [where pa = "V2P m" and prm = "PTE_W OR PTE_U"])
    case full
    then show ?thesis by (rule that(1))
  next
    case (mapped s3 ys)
    let ?s' = "set_count (V2P m) 1 s3"
    have pte: "pte_at (heap ?s') pgdir w = (if PGROUNDDOWN w = a then user_pte m else pte_at (heap s) pgdir w)" for w
      using mapped(3) [of w] tz(3) [of w] by (simp add: user_pte_def)
    have rp: "rng a (a + PGSIZE) w \<longleftrightarrow> PGROUNDDOWN w = a" for w by (rule rng_page [OF al])
    have ys: "set ys \<subseteq> set xs" "\<exists>zs. xs = zs @ ys" "kend s3 = kend s" "m \<notin> set ys"
      using pt_stepD(2,3) [OF mapped(2)] mapped(2) tz(5) by (auto simp: pt_step_def s2_def)
    have pp: "pt_pages (heap s3) pgdir \<subseteq> pt_pages (heap s) pgdir \<union> (set xs - set ys)"
      using pt_step_pages [OF mapped(2)] tz(2) by simp
    have "same_page (heap s2) (heap s3) m"
      using tz(2,5,6) by (intro pt_step_frame [OF mapped(2)]) auto
    then have zero: "heap s3 x = 0" if "PGROUNDDOWN x = m" for x
      using that tz(8) by (simp add: same_page_def)
    have fp: "fresh_page (set (m # xs) - set ys) pgdir ?s' w m" if "PGROUNDDOWN w = a" for w
      unfolding fresh_page_def
      using that pte ys tz(4,5,6) pp zero kpage_kend_cong [OF ys(3)] by (auto simp: get_set_count kpage_def)
    have frame: "same_page (heap s) (heap s3) p" if "p \<notin> pt_pages (heap s) pgdir \<union> set (m # xs)" for p
      using that tz(2)
      by (intro same_page_trans [OF tz(7) pt_step_frame [OF mapped(2)]]) auto
    have count: "get_count (V2P p) ?s' = get_count (V2P p) s" if "pg_aligned p" "p \<noteq> m" for p
      using that tz(4) pt_stepD(5) [OF mapped(2)]
      by (simp add: get_set_count PPN_inj kpage_aligned) (simp add: get_count_def s2_def)
    have "alloc_post s pgdir (m # xs) a (a + PGSIZE) ?s' ys"
      unfolding alloc_post_def
    proof (intro conjI allI impI)
      show "vm_inv ?s' pgdir ys" using pt_stepD(1) [OF mapped(2)] by (simp add: set_count_vm_inv)
      show "\<exists>zs. m # xs = zs @ ys" using ys(2) by (metis append_Cons)
      show "\<exists>n. fresh_page (set (m # xs) - set ys) pgdir ?s' w n" if "rng a (a + PGSIZE) w" for w
        using fp that rp by blast
      show "pt_pages (heap ?s') pgdir \<subseteq> pt_pages (heap s) pgdir \<union> (set (m # xs) - set ys)"
        using pp by auto
      show "get_count (V2P p) ?s' = get_count (V2P p) s"
        if "pg_aligned p \<and> p \<notin> set (m # xs) - set ys" for p
        using that ys(4) by (intro count) auto
    qed (use rp pte frame ys(3) in auto)
    with mapped(1) show ?thesis by (rule that(2))
  qed
qed

section \<open>The whole range\<close>

text \<open>What a failed growth leaves: the old mappings, and at most one free page in the system.\<close>

definition undone :: "'a machine_scheme \<Rightarrow> u32 \<Rightarrow> u32 \<Rightarrow> u32 \<Rightarrow> 'a machine_scheme \<Rightarrow> u32 list \<Rightarrow> bool" where
  "undone s pgdir a b s' ys \<longleftrightarrow> vm_inv s' pgdir ys \<and> length ys \<le> 1
     \<and> (\<forall>w. rng a b w \<longrightarrow> \<not> present (heap s') pgdir w)
     \<and> (\<forall>w. \<not> rng a b w \<longrightarrow> pte_at (heap s') pgdir w = pte_at (heap s) pgdir w)"

lemma fresh_page_counted:
  assumes "fresh_page new pgdir s w m" "KERNBASE < kend s"
  shows "frame_of (heap s) pgdir w \<noteq> 0" "get_count (frame_of (heap s) pgdir w) s \<noteq> 0"
proof -
  have "KERNBASE < m" using assms by (auto simp: fresh_page_def kpage_def)
  then have "V2P m \<noteq> 0" by (auto simp: V2P_def)
  then show "frame_of (heap s) pgdir w \<noteq> 0" using fresh_page_frame [OF assms(1)] by simp
  show "get_count (frame_of (heap s) pgdir w) s \<noteq> 0"
    using assms(1) fresh_page_frame [OF assms(1)] by (simp add: fresh_page_def)
qed

lemma rollback:
  assumes inv: "vm_inv t pgdir []" and sz: "oldsz < newsz" "newsz \<le> KERNBASE"
    and cnt: "\<And>w. rng (PGROUNDUP oldsz) (PGROUNDUP newsz) w \<Longrightarrow> present (heap t) pgdir w \<Longrightarrow>
       frame_of (heap t) pgdir w \<noteq> 0 \<and> get_count (frame_of (heap t) pgdir w) t \<noteq> 0"
    and same: "\<And>w. \<not> rng (PGROUNDUP oldsz) (PGROUNDUP newsz) w \<Longrightarrow> pte_at (heap t) pgdir w = pte_at (heap s0) pgdir w"
  shows "\<exists>t'. deallocuvm pgdir newsz oldsz t = Ok (oldsz, t') \<and> kend t' = kend t
    \<and> pt_pages (heap t') pgdir = pt_pages (heap t) pgdir
    \<and> undone s0 pgdir (PGROUNDUP oldsz) (PGROUNDUP newsz) t' []"
proof -
  let ?a = "PGROUNDUP oldsz" and ?b = "PGROUNDUP newsz"
  have "frames_ok t pgdir [] ?a ?b" using cnt unfolding frames_ok_def by blast
  from deallocuvm_correct [OF inv sz this] obtain t' ys where
    d: "deallocuvm pgdir newsz oldsz t = Ok (oldsz, t')" "dealloc_post t pgdir [] ?a ?b t' ys" by blast
  have "freed t pgdir ?a ?b = {}" using cnt unfolding freed_def by blast
  then have ys: "ys = []" using dealloc_postD(4) [OF d(2)] by simp
  have "\<not> present (heap t') pgdir w" if "rng ?a ?b w" for w
    using that dealloc_postD(3) [OF d(2), of w] by (auto simp: present_def split: if_splits)
  moreover have "pte_at (heap t') pgdir w = pte_at (heap s0) pgdir w" if "\<not> rng ?a ?b w" for w
    using that dealloc_postD(3) [OF d(2), of w] same by simp
  ultimately have "undone s0 pgdir ?a ?b t' []"
    using dealloc_postD(1) [OF d(2)] ys by (simp add: undone_def)
  then show ?thesis using d(1) dealloc_postD(2,6) [OF d(2)] by blast
qed

lemma undone_kfree:
  assumes u: "undone s pgdir a b t []" and m: "kpage t m" "m \<notin> pt_pages (heap t) pgdir"
  shows "\<exists>t'. kfree m t = Ok t' \<and> undone s pgdir a b t' [m]"
proof -
  have inv: "vm_inv t pgdir []" using u by (simp add: undone_def)
  have "m \<notin> set [] \<union> pt_pages (heap t) pgdir" using m(2) by simp
  from kfree_vm_inv [OF inv m(1) this] obtain t' where
    "kfree m t = Ok t'" "vm_inv t' pgdir [m]" "\<And>w. pte_at (heap t') pgdir w = pte_at (heap t) pgdir w"
    by metis
  then show ?thesis using u by (auto simp: undone_def present_def)
qed

lemma allocuvm_loop_correct:
  assumes "alloc_post s0 pgdir xs (PGROUNDUP oldsz) a s ys" "pg_aligned a"
    and "PGROUNDUP oldsz \<le> a" "a \<le> PGROUNDUP newsz" "newsz \<le> KERNBASE" "KERNBASE < kend s0"
    and "\<And>w. rng (PGROUNDUP oldsz) (PGROUNDUP newsz) w \<Longrightarrow> \<not> present (heap s0) pgdir w"
    and "oldsz \<le> newsz" "(unat (PGROUNDUP newsz) - unat a) div 4096 < fuel"
  shows "\<exists>r s' zs. allocuvm_loop fuel pgdir a oldsz newsz s = Ok (r, s') \<and>
    (r = newsz \<and> alloc_post s0 pgdir xs (PGROUNDUP oldsz) (PGROUNDUP newsz) s' zs
     \<or> r = 0 \<and> undone s0 pgdir (PGROUNDUP oldsz) (PGROUNDUP newsz) s' zs)"
  using assms
proof (induction fuel arbitrary: s ys a)
  case (Suc fuel)
  let ?A = "PGROUNDUP oldsz" and ?c = "PGROUNDUP newsz"
  note post = Suc.prems(1) and al = Suc.prems(2)
  note bd = PGROUNDUP_bounds [OF Suc.prems(5)]
  note inv = alloc_postD(1) [OF post]
  show ?case
  proof (cases "a < newsz")
    case False
    then have "a = ?c" using bd(3) [OF al] Suc.prems(4) by simp
    then show ?thesis using post False by auto
  next
    case lt: True
    then have ltc: "a < ?c" using bd(3) [OF al] by simp
    note np = next_page [OF al pg_aligned_PGROUNDUP ltc]
    have small: "unat a + 4096 < 4294967296" using np(1) unat_lt_2_32 [of "a + PGSIZE"] by simp
    have osz: "oldsz < newsz"
      using PGROUNDUP_bounds(1) [of oldsz] Suc.prems(3,5,8) lt by (metis order.trans le_less_trans)
    have ke: "KERNBASE < kend s" using Suc.prems(6) alloc_postD(3) [OF post] by simp
    have counted: "frame_of (heap s) pgdir w \<noteq> 0 \<and> get_count (frame_of (heap s) pgdir w) s \<noteq> 0"
      if "rng ?A ?c w" "present (heap s) pgdir w" for w
    proof -
      have "rng ?A a w" using that alloc_postD(5) [OF post, of w] Suc.prems(7) [OF that(1)]
        unfolding present_def by metis
      then show ?thesis using alloc_postD(4) [OF post] fresh_page_counted [OF _ ke] by blast
    qed
    have outside: "pte_at (heap s) pgdir w = pte_at (heap s0) pgdir w" if "\<not> rng ?A ?c w" for w
      using that alloc_postD(5) [OF post, of w] rng_split [OF Suc.prems(3,4), of w] by blast
    from vm_invD(1) [OF inv] show ?thesis
    proof (cases rule: kalloc_cases)
      case none
      from rollback [OF inv [unfolded none(1)] osz Suc.prems(5) counted outside]
      show ?thesis using none lt by auto
    next
      case (some m us)
      let ?s2 = "s\<lparr>kmem_freelist := ld32 (heap s) m, heap := memset (heap s) m 0 PGSIZE\<rparr>"
      have loop: "allocuvm_loop (Suc fuel) pgdir a oldsz newsz s =
          bindr (mappages pgdir a PGSIZE (V2P m) (PTE_W OR PTE_U) ?s2) (\<lambda>(r, s3).
            if r < 0 then bindr (deallocuvm pgdir newsz oldsz s3) (\<lambda>(_, s4). bindr (kfree m s4) (\<lambda>s5. Ok (0, s5)))
            else allocuvm_loop fuel pgdir (a + PGSIZE) oldsz newsz (set_count (V2P m) 1 s3))"
        using lt some by (simp add: Let_def)
      have ra: "\<not> rng ?A a a" "rng ?A ?c a" using al Suc.prems(3) ltc by (auto simp: rng_def pg_aligned_iff)
      then have fresh: "\<not> present (heap s) pgdir a"
        using alloc_postD(5) [OF post ra(1)] Suc.prems(7) [OF ra(2)] by (simp add: present_def)
      note tz = take_zeroed [OF inv [unfolded some(1)]]
      from inv [unfolded some(1)] al small fresh show ?thesis
      proof (cases rule: alloc_page)
        case full
        have "vm_inv ?s2 pgdir []" using tz(1) full(2) by simp
        from rollback [OF this osz Suc.prems(5), of s0] obtain t where
          t: "deallocuvm pgdir newsz oldsz ?s2 = Ok (oldsz, t)" "kend t = kend ?s2"
          "pt_pages (heap t) pgdir = pt_pages (heap ?s2) pgdir" "undone s0 pgdir ?A ?c t []"
          using counted outside tz(3) by (auto simp: present_def frame_of_def get_count_def)
        have "kpage t m" using some(4) t(2) by (simp add: kpage_def)
        from undone_kfree [OF t(4) this] t(1) tz(2,6) t(3) show ?thesis
          using loop full(1) by auto
      next
        case (mapped s3 vs)
        have le: "a \<le> a + PGSIZE" using np(1) by (simp add: word_le_nat_alt)
        have fu: "(unat ?c - unat (a + PGSIZE)) div 4096 < fuel"
          using Suc.prems(9) np(1,3) by (simp add: word_le_nat_alt)
        have "alloc_post s0 pgdir xs ?A (a + PGSIZE) (set_count (V2P m) 1 s3) vs"
          using alloc_post_trans [OF post _ Suc.prems(3) le] mapped(2) some(1) by simp
        from Suc.IH [OF this np(2) order.trans [OF Suc.prems(3) le] np(3) Suc.prems(5,6,7,8) fu]
        show ?thesis using loop mapped(1) by simp
      qed
    qed
  qed
qed simp

lemma allocuvm_correct:
  assumes inv: "vm_inv s pgdir xs" and sz: "oldsz \<le> newsz" "newsz < KERNBASE" and ke: "KERNBASE < kend s"
    and fresh: "\<And>w. rng (PGROUNDUP oldsz) (PGROUNDUP newsz) w \<Longrightarrow> \<not> present (heap s) pgdir w"
  shows "\<exists>r s' zs. allocuvm pgdir oldsz newsz s = Ok (r, s') \<and>
    (r = newsz \<and> alloc_post s pgdir xs (PGROUNDUP oldsz) (PGROUNDUP newsz) s' zs
     \<or> r = 0 \<and> undone s pgdir (PGROUNDUP oldsz) (PGROUNDUP newsz) s' zs)"
proof -
  have le: "newsz \<le> KERNBASE" using sz(2) by simp
  have fu: "(unat (PGROUNDUP newsz) - unat (PGROUNDUP oldsz)) div 4096 < 1048577"
    using unat_lt_2_32 [of "PGROUNDUP newsz"] by (simp add: div_less_iff_less_mult)
  from allocuvm_loop_correct [OF alloc_post_refl [OF inv order.refl] pg_aligned_PGROUNDUP order.refl
      PGROUNDUP_mono [OF sz(1) le] le ke fresh sz(1) fu]
  show ?thesis unfolding allocuvm_def using leD [OF sz(1)] leD [of KERNBASE newsz] sz(2)
    by (metis (no_types, lifting))
qed

end
