(* ===== verification/Mem_Props.thy ===== *)
theory Mem_Props
  imports Uvmalloc
begin

text \<open>
  The properties of the memory-management core (\<^verbatim>\<open>kalloc.c\<close> and the page-table part of \<^verbatim>\<open>vm.c\<close>),
  each with an instance on the small concrete machine \<open>demo\<close>: an empty page directory and three
  free pages, the machine on which the page-table theorems are shown to apply.
\<close>

section \<open>A concrete machine\<close>

definition demo_pgdir :: u32 where
  "demo_pgdir = 0x80500000"

definition demo_free :: "u32 list" where
  "demo_free = [0x80501000, 0x80502000, 0x80503000]"

definition demo :: machine where
  "demo = \<lparr>heap = st32 (st32 (\<lambda>_. 0) 0x80501000 0x80502000) 0x80502000 0x80503000,
     kmem_freelist = 0x80501000, kmem_use_lock = True, cow_ref_counts = (\<lambda>_. 0),
     cr3 = 0, kend = 0x80120000, kdata = 0x80108000\<rparr>"

lemma demo_fields [simp]:
  "kend demo = 0x80120000" "cow_ref_counts demo = (\<lambda>_. 0)" "kmem_freelist demo = 0x80501000"
  "kdata demo = 0x80108000"
  by (simp_all add: demo_def)

lemma demo_free_inv: "free_inv demo demo_free"
  unfolding free_inv_def demo_free_def
  by (simp add: demo_def kpage_def pg_aligned_def V2P_def ld32_def st32_def)

lemma page_words_st32_head:
  assumes "pg_aligned p" "pg_aligned q" "unat j < 1024"
  shows "page_words (st32 h p v) q j = (if q = p \<and> j = 0 then v else page_words h q j)"
  using page_words_st32 [OF assms(1) _ assms(2,3), of 0] by simp

lemma demo_pgdir_words: "unat i < 1024 \<Longrightarrow> page_words (heap demo) demo_pgdir i = 0"
  by (simp add: demo_def page_words_st32_head demo_pgdir_def pg_aligned_def)
    (simp add: page_words_def ld32_def)

lemma demo_unmapped:
  "\<not> present (heap demo) demo_pgdir w" "pt_pages (heap demo) demo_pgdir = {demo_pgdir}"
  by (auto simp: present_def pte_at_def pd_present_def pt_pages_def demo_pgdir_words PDX_less)

lemma demo_vm_inv: "vm_inv demo demo_pgdir demo_free"
proof -
  have "kpage demo demo_pgdir"
    by (simp add: kpage_def demo_pgdir_def pg_aligned_def V2P_def)
  then have "pgdir_inv demo demo_pgdir" by (auto simp: pgdir_inv_def pd_present_def demo_pgdir_words)
  then show ?thesis
    using demo_free_inv by (simp add: vm_inv_def demo_unmapped) (simp add: demo_free_def demo_pgdir_def)
qed

section \<open>The page allocator\<close>

text \<open>
  C35.  Freeing a valid page that is not on the free list succeeds, and the next allocation returns
  exactly that page and restores the free list; the allocator never loses or duplicates a page.
\<close>

theorem kfree_then_kalloc:
  assumes "free_inv s xs" "kpage s v" "v \<notin> set xs"
  shows "\<exists>s1 s2. kfree v s = Ok s1 \<and> free_inv s1 (v # xs) \<and> kalloc s1 = (v, s2) \<and> free_inv s2 xs"
  using kmem.free_some [OF assms] kmem.alloc_some by blast

theorem kfree_then_kalloc_witness:
  "\<exists>s1 s2. kfree 0x80504000 demo = Ok s1 \<and> free_inv s1 (0x80504000 # demo_free) \<and>
     kalloc s1 = (0x80504000, s2) \<and> free_inv s2 demo_free"
  by (rule kfree_then_kalloc [OF demo_free_inv])
    (simp_all add: kpage_def pg_aligned_def V2P_def demo_free_def)

section \<open>Page tables\<close>

text \<open>
  C21.  \<open>mappages\<close> on an unmapped range either installs, for every page of the range and for no
  other, an entry with the consecutive physical page and the permission bits asked for, or reports
  \<open>-1\<close> when memory ran out, and then no entry outside the range has changed.  Page-table pages
  come from the front of the free list and no page outside the table or the free list is written.
\<close>

theorem mappages_correct:
  assumes "vm_inv s pgdir xs" "sz \<noteq> 0" "unat va + unat sz \<le> 4294967296"
    and "\<And>w. in_range (PGROUNDDOWN va) (PGROUNDDOWN (va + sz - 1)) w \<Longrightarrow> \<not> present (heap s) pgdir w"
  shows "\<exists>r s' ys. mappages pgdir va sz pa prm s = Ok (r, s') \<and> pt_step s pgdir xs s' ys \<and>
    (r = 0 \<and> (\<forall>w. pte_at (heap s') pgdir w =
        (if in_range (PGROUNDDOWN va) (PGROUNDDOWN (va + sz - 1)) w
         then (pa + (PGROUNDDOWN w - PGROUNDDOWN va) OR prm) OR PTE_P else pte_at (heap s) pgdir w))
     \<or> r = -1 \<and> ys = [] \<and> (\<forall>w. \<not> in_range (PGROUNDDOWN va) (PGROUNDDOWN (va + sz - 1)) w \<longrightarrow>
               pte_at (heap s') pgdir w = pte_at (heap s) pgdir w))"
  using mappages_result [OF assms] unfolding map_range_def .

theorem mappages_correct_witness:
  "\<exists>r s' ys. mappages demo_pgdir 0x1000 0x2000 0x600000 PTE_U demo = Ok (r, s') \<and>
     pt_step demo demo_pgdir demo_free s' ys \<and>
     (r = 0 \<and> (\<forall>w. pte_at (heap s') demo_pgdir w =
        (if in_range (PGROUNDDOWN 0x1000) (PGROUNDDOWN (0x1000 + 0x2000 - 1)) w
         then (0x600000 + (PGROUNDDOWN w - PGROUNDDOWN 0x1000) OR PTE_U) OR PTE_P
         else pte_at (heap demo) demo_pgdir w))
      \<or> r = -1 \<and> ys = [] \<and> (\<forall>w. \<not> in_range (PGROUNDDOWN 0x1000) (PGROUNDDOWN (0x1000 + 0x2000 - 1)) w \<longrightarrow>
               pte_at (heap s') demo_pgdir w = pte_at (heap demo) demo_pgdir w))"
  by (rule mappages_correct [OF demo_vm_inv]) (simp_all add: demo_unmapped)

text \<open>
  C22.  Growing an address space over an unmapped range succeeds with every page of the range
  mapped user-writable to a zeroed frame of its own taken from the free list, counted once, and
  nothing else changed; or it returns 0 with the old mappings in place.
\<close>

theorem allocuvm_maps_zeroed_frames:
  assumes "vm_inv s pgdir xs" "oldsz \<le> newsz" "newsz < KERNBASE" "KERNBASE < kend s"
    and "\<And>w. rng (PGROUNDUP oldsz) (PGROUNDUP newsz) w \<Longrightarrow> \<not> present (heap s) pgdir w"
  shows "\<exists>r s' zs. allocuvm pgdir oldsz newsz s = Ok (r, s') \<and>
    (r = newsz \<and> alloc_post s pgdir xs (PGROUNDUP oldsz) (PGROUNDUP newsz) s' zs
     \<or> r = 0 \<and> undone s pgdir (PGROUNDUP oldsz) (PGROUNDUP newsz) s' zs)"
  using assms by (rule allocuvm_correct)

theorem allocuvm_maps_zeroed_frames_witness:
  "\<exists>r s' zs. allocuvm demo_pgdir 0 0x1800 demo = Ok (r, s') \<and>
    (r = 0x1800 \<and> alloc_post demo demo_pgdir demo_free (PGROUNDUP 0) (PGROUNDUP 0x1800) s' zs
     \<or> r = 0 \<and> undone demo demo_pgdir (PGROUNDUP 0) (PGROUNDUP 0x1800) s' zs)"
  by (rule allocuvm_maps_zeroed_frames [OF demo_vm_inv]) (simp_all add: demo_unmapped)

text \<open>
  C23.  Shrinking an address space clears exactly the present entries of the range, returns to the
  free list exactly the mapped frames whose reference count is zero, keeps every other frame,
  entry and count, and terminates with the new size.
\<close>

theorem deallocuvm_frees_uncounted_frames:
  assumes "vm_inv s pgdir xs" "newsz < oldsz" "oldsz \<le> KERNBASE"
    and "frames_ok s pgdir xs (PGROUNDUP newsz) (PGROUNDUP oldsz)"
  shows "\<exists>s' ys. deallocuvm pgdir oldsz newsz s = Ok (newsz, s') \<and>
    dealloc_post s pgdir xs (PGROUNDUP newsz) (PGROUNDUP oldsz) s' ys"
  using assms by (rule deallocuvm_correct)

theorem deallocuvm_frees_uncounted_frames_witness:
  "\<exists>s' ys. deallocuvm demo_pgdir 0x5000 0x1000 demo = Ok (0x1000, s') \<and>
    dealloc_post demo demo_pgdir demo_free (PGROUNDUP 0x1000) (PGROUNDUP 0x5000) s' ys"
  by (rule deallocuvm_frees_uncounted_frames [OF demo_vm_inv])
    (simp_all add: frames_ok_def demo_unmapped)

end
