(* ===== verification/Kvm.thy ===== *)
theory Kvm
  imports Uvmalloc
begin

text \<open>
  Whole page tables: \<open>freevm\<close> returns to the allocator the uncounted user frames, the page-table
  pages and the directory; \<open>setupkvm\<close> builds a table that maps the kernel's regions and nothing
  else.
\<close>

section \<open>Freeing a page table\<close>

definition tables :: "'a machine_scheme \<Rightarrow> u32 \<Rightarrow> u32 set \<Rightarrow> u32 set" where
  "tables s pgdir I = {ptab (heap s) pgdir i | i. i \<in> I \<and> pd_present (heap s) pgdir i \<and>
     get_count (PTE_ADDR (page_words (heap s) pgdir i)) s = 0}"

text \<open>The part of the invariant that the loop over the directory needs for the entries to come.\<close>

definition tables_ok :: "'a machine_scheme \<Rightarrow> u32 \<Rightarrow> u32 list \<Rightarrow> u32 list \<Rightarrow> bool" where
  "tables_ok s pgdir is xs \<longleftrightarrow> free_inv s xs \<and> kpage s pgdir \<and> pgdir \<notin> set xs \<and> distinct is
     \<and> (\<forall>i\<in>set is. unat i < 1024)
     \<and> (\<forall>i\<in>set is. pd_present (heap s) pgdir i \<longrightarrow> kpage s (ptab (heap s) pgdir i)
          \<and> ptab (heap s) pgdir i \<notin> set xs \<and> ptab (heap s) pgdir i \<noteq> pgdir)
     \<and> (\<forall>i\<in>set is. \<forall>j\<in>set is. pd_present (heap s) pgdir i \<and> pd_present (heap s) pgdir j
          \<and> ptab (heap s) pgdir i = ptab (heap s) pgdir j \<longrightarrow> i = j)"

lemma tables_ok_free:
  assumes ok: "tables_ok s pgdir (i # is) xs" and pr: "pd_present (heap s) pgdir i"
  obtains s1 where "kfree (ptab (heap s) pgdir i) s = Ok s1"
    "tables_ok s1 pgdir is (ptab (heap s) pgdir i # xs)"
    "\<And>j. unat j < 1024 \<Longrightarrow> page_words (heap s1) pgdir j = page_words (heap s) pgdir j"
    "s1 = s\<lparr>heap := heap s1, kmem_freelist := kmem_freelist s1\<rparr>"
    "\<And>p. p \<noteq> ptab (heap s) pgdir i \<Longrightarrow> same_page (heap s) (heap s1) p"
proof -
  let ?t = "ptab (heap s) pgdir i"
  have t: "kpage s ?t" "?t \<notin> set xs" "?t \<noteq> pgdir" "free_inv s xs" "kpage s pgdir"
    using ok pr by (auto simp: tables_ok_def)
  from kfree_free_inv [OF t(4,1,2)] obtain s1 where s1: "kfree ?t s = Ok s1" "free_inv s1 (?t # xs)"
    by blast
  have e: "s1 = s\<lparr>heap := heap s1, kmem_freelist := kmem_freelist s1\<rparr>" "kend s1 = kend s"
    using s1(1) kfree_step [OF t(1)] by auto
  have other: "same_page (heap s) (heap s1) p" if "p \<noteq> ?t" for p
    using kfree_other_page [OF t(1) s1(1) that] .
  have w: "page_words (heap s1) pgdir j = page_words (heap s) pgdir j" if "unat j < 1024" for j
    using that t(3,5) by (intro page_words_same_page other) (auto intro: kpage_aligned)
  then have p: "pd_present (heap s1) pgdir j = pd_present (heap s) pgdir j"
    "ptab (heap s1) pgdir j = ptab (heap s) pgdir j" if "unat j < 1024" for j
    using that by (simp_all add: pd_present_def ptab_def)
  have lt: "unat j < 1024" if "j \<in> set is" for j using that ok by (simp add: tables_ok_def)
  have d: "?t \<noteq> ptab (heap s) pgdir j" if "j \<in> set is" "pd_present (heap s) pgdir j" for j
    using ok pr that by (auto simp: tables_ok_def)
  have "tables_ok s1 pgdir is (?t # xs)"
    unfolding tables_ok_def kpage_kend_cong [OF e(2)]
  proof (intro conjI ballI impI)
    show "free_inv s1 (?t # xs)" "kpage s pgdir" using s1(2) t(5) .
    show "pgdir \<notin> set (?t # xs)" "distinct is" using ok t(3) by (auto simp: tables_ok_def)
    fix j assume j: "j \<in> set is"
    show "unat j < 1024" using lt [OF j] .
    show "kpage s (ptab (heap s1) pgdir j)" "ptab (heap s1) pgdir j \<notin> set (?t # xs)"
      "ptab (heap s1) pgdir j \<noteq> pgdir" if "pd_present (heap s1) pgdir j"
      using that p [OF lt [OF j]] ok d [OF j] j by (auto simp: tables_ok_def)
    fix k assume "k \<in> set is" "pd_present (heap s1) pgdir j \<and> pd_present (heap s1) pgdir k \<and>
      ptab (heap s1) pgdir j = ptab (heap s1) pgdir k"
    then show "j = k"
      using p [OF lt [OF j]] p [OF lt, of k] ok j unfolding tables_ok_def by (metis list.set_intros(2))
  qed
  then show ?thesis using that s1(1) w e(1) other by blast
qed

lemma freevm_loop_correct:
  assumes "tables_ok s pgdir is xs"
  shows "\<exists>s' ys. freevm_loop is pgdir s = Ok s' \<and> free_inv s' ys \<and> pgdir \<notin> set ys
    \<and> set ys = set xs \<union> tables s pgdir (set is)
    \<and> s' = s\<lparr>heap := heap s', kmem_freelist := kmem_freelist s'\<rparr>
    \<and> (\<forall>p. p \<notin> tables s pgdir (set is) \<longrightarrow> same_page (heap s) (heap s') p)"
  using assms
proof (induction "is" arbitrary: s xs)
  case Nil
  then show ?case by (auto simp: tables_ok_def tables_def)
next
  case (Cons i "is")
  let ?t = "ptab (heap s) pgdir i" and ?e = "page_words (heap s) pgdir i"
  have skip: "tables_ok s pgdir is xs" using Cons.prems by (auto simp: tables_ok_def)
  show ?case
  proof (cases "pd_present (heap s) pgdir i \<and> get_count (PTE_ADDR ?e) s = 0")
    case False
    then have "tables s pgdir (set (i # is)) = tables s pgdir (set is)" by (auto simp: tables_def)
    moreover have "freevm_loop (i # is) pgdir s = freevm_loop is pgdir s"
      using False by (auto simp: pd_present_def page_words_def Let_def word_greater_zero_iff)
    ultimately show ?thesis using Cons.IH [OF skip] by simp
  next
    case True
    then have pr: "pd_present (heap s) pgdir i" by simp
    from tables_ok_free [OF Cons.prems pr] obtain s1 where
      s1: "kfree ?t s = Ok s1" "tables_ok s1 pgdir is (?t # xs)"
      "\<And>j. unat j < 1024 \<Longrightarrow> page_words (heap s1) pgdir j = page_words (heap s) pgdir j"
      "s1 = s\<lparr>heap := heap s1, kmem_freelist := kmem_freelist s1\<rparr>"
      "\<And>p. p \<noteq> ?t \<Longrightarrow> same_page (heap s) (heap s1) p" by blast
    have lt: "unat j < 1024" if "j \<in> set is" for j using that skip by (simp add: tables_ok_def)
    have gc: "get_count pa s1 = get_count pa s" for pa
      by (subst s1(4)) (simp add: get_count_def)
    have same: "page_words (heap s1) pgdir j = page_words (heap s) pgdir j" if "j \<in> set is" for j
      using that lt s1(3) by simp
    have "x \<in> tables s1 pgdir (set is) \<longleftrightarrow> x \<in> tables s pgdir (set is)" for x
      using same unfolding tables_def by (auto simp: pd_present_def ptab_def gc; metis)
    then have t1: "tables s1 pgdir (set is) = tables s pgdir (set is)" by blast
    have t: "tables s pgdir (set (i # is)) = insert ?t (tables s pgdir (set is))"
      using True by (auto simp: tables_def)
    from Cons.IH [OF s1(2)] obtain s' ys where IH: "freevm_loop is pgdir s1 = Ok s'" "free_inv s' ys"
      "pgdir \<notin> set ys" "set ys = set (?t # xs) \<union> tables s1 pgdir (set is)"
      "s' = s1\<lparr>heap := heap s', kmem_freelist := kmem_freelist s'\<rparr>"
      "\<And>p. p \<notin> tables s1 pgdir (set is) \<Longrightarrow> same_page (heap s1) (heap s') p" by blast
    have "freevm_loop (i # is) pgdir s = Ok s'"
      using True s1(1) IH(1) by (simp add: pd_present_def page_words_def ptab_def Let_def)
    moreover have "s' = s\<lparr>heap := heap s', kmem_freelist := kmem_freelist s'\<rparr>"
      using s1(4) IH(5) by (metis machine.surjective machine.update_convs(1,2))
    moreover have "same_page (heap s) (heap s') p" if "p \<notin> tables s pgdir (set (i # is))" for p
      using that t t1 by (intro same_page_trans [OF s1(5) IH(6)]) auto
    ultimately show ?thesis using IH(2,3,4) t t1 by auto
  qed
qed

lemma dir_indices: "i \<in> set (map of_nat [0..<1024] :: u32 list) \<longleftrightarrow> unat i < 1024"
proof
  assume "unat i < 1024"
  then have "i = of_nat (unat i)" "unat i \<in> set [0..<1024]" by simp_all
  then show "i \<in> set (map of_nat [0..<1024])" by (metis image_eqI set_map)
qed (auto simp: unat_of_nat)

lemma dir_indices_distinct: "distinct (map of_nat [0..<1024] :: u32 list)"
  by (auto simp: distinct_map inj_on_def of_nat_eq_iff word_unat_eq_iff unat_of_nat)

lemma vm_inv_tables_ok:
  assumes "vm_inv s pgdir xs"
  shows "tables_ok s pgdir (map of_nat [0..<1024]) xs"
  unfolding tables_ok_def
  using vm_invD [OF assms] dir_indices dir_indices_distinct pt_pagesI [of _ "heap s" pgdir]
  by (auto simp: pgdir_inv_def)

lemma tables_all:
  assumes "pgdir_inv s pgdir"
  shows "tables s pgdir {i. unat i < 1024} =
    {p \<in> pt_pages (heap s) pgdir. p \<noteq> pgdir \<and> get_count (V2P p) s = 0}"
proof -
  have "V2P (ptab (heap s) pgdir i) = PTE_ADDR (page_words (heap s) pgdir i)" for i
    by (simp add: ptab_def)
  then show ?thesis
    using ptab_kpage(3) [OF assms] unfolding tables_def pt_pages_def by auto
qed

lemma kfree_fields:
  assumes "kfree v s = Ok s'"
  shows "s' = s\<lparr>heap := heap s', kmem_freelist := kmem_freelist s'\<rparr>"
  using assms by (auto simp: kfree_def Let_def split: if_splits)

lemma heap_update_trans:
  assumes "t = s\<lparr>heap := heap t, kmem_freelist := kmem_freelist t\<rparr>"
    and "u = t\<lparr>heap := heap u, kmem_freelist := kmem_freelist u\<rparr>"
  shows "u = s\<lparr>heap := heap u, kmem_freelist := kmem_freelist u\<rparr>"
  using assms by (metis machine.surjective machine.update_convs(1,2))

lemma heap_update_fields:
  assumes "t = s\<lparr>heap := heap t, kmem_freelist := kmem_freelist t\<rparr>"
  shows "kend t = kend s" "cow_ref_counts t = cow_ref_counts s" "get_count pa t = get_count pa s"
    "kdata t = kdata s" "cr3 t = cr3 s"
  by (subst assms, simp add: get_count_def)+

text \<open>
  \<open>freevm\<close> gives back the user frames with count zero, the tables with count zero and the
  directory itself, each exactly once, and touches no other page.
\<close>

lemma freevm_correct:
  assumes inv: "vm_inv s pgdir xs" and ok: "frames_ok s pgdir xs 0 KERNBASE"
  shows "\<exists>s' ys. freevm pgdir s = Ok s' \<and> free_inv s' ys
    \<and> set ys = set xs \<union> freed s pgdir 0 KERNBASE
        \<union> {p \<in> pt_pages (heap s) pgdir. p = pgdir \<or> get_count (V2P p) s = 0}
    \<and> s' = s\<lparr>heap := heap s', kmem_freelist := kmem_freelist s'\<rparr>
    \<and> (\<forall>p. p \<notin> pt_pages (heap s) pgdir \<union> freed s pgdir 0 KERNBASE \<longrightarrow> same_page (heap s) (heap s') p)"
proof -
  let ?I = "map of_nat [0..<1024] :: u32 list"
  have r: "PGROUNDUP 0 = 0" "PGROUNDUP KERNBASE = KERNBASE" by (simp_all add: PGROUNDUP_def)
  have ok': "frames_ok s pgdir xs (PGROUNDUP 0) (PGROUNDUP KERNBASE)" using ok by (simp only: r)
  obtain s1 ys where
    d: "deallocuvm pgdir KERNBASE 0 s = Ok (0, s1)" "dealloc_post s pgdir xs 0 KERNBASE s1 ys"
    using deallocuvm_correct [OF inv _ _ ok'] unfolding r by auto
  have e1: "s1 = s\<lparr>heap := heap s1, kmem_freelist := kmem_freelist s1\<rparr>"
    and f1: "p \<notin> pt_pages (heap s) pgdir \<union> freed s pgdir 0 KERNBASE \<Longrightarrow> same_page (heap s) (heap s1) p" for p
    using d(2) by (auto simp: dealloc_post_def)
  note inv1 = dealloc_postD(1) [OF d(2)]
  have I: "set ?I = {i. unat i < 1024}" using dir_indices by blast
  note tabs = tables_all [OF vm_invD(2) [OF inv1], unfolded dealloc_postD(2) [OF d(2)] heap_update_fields(3) [OF e1]]
  obtain s2 zs where f: "freevm_loop ?I pgdir s1 = Ok s2" "free_inv s2 zs" "pgdir \<notin> set zs"
    "set zs = set ys \<union> tables s1 pgdir {i. unat i < 1024}"
    "s2 = s1\<lparr>heap := heap s2, kmem_freelist := kmem_freelist s2\<rparr>"
    "\<And>p. p \<notin> tables s1 pgdir {i. unat i < 1024} \<Longrightarrow> same_page (heap s1) (heap s2) p"
    using freevm_loop_correct [OF vm_inv_tables_ok [OF inv1]] unfolding I by blast
  have kp: "kpage s2 pgdir"
    using vm_invD(4) [OF inv1] kpage_kend_cong [OF heap_update_fields(1) [OF f(5)]] by blast
  from kfree_free_inv [OF f(2) kp f(3)] obtain s3 where k: "kfree pgdir s2 = Ok s3" "free_inv s3 (pgdir # zs)"
    by blast
  have nz: "pgdir \<noteq> 0" using vm_invD(4) [OF inv] kpage_nonzero by blast
  have "freevm pgdir s = Ok s3"
    unfolding freevm_def using nz d(1) f(1) k(1) by (simp del: upt_rec_numeral)
  moreover have "set (pgdir # zs) = set xs \<union> freed s pgdir 0 KERNBASE
        \<union> {p \<in> pt_pages (heap s) pgdir. p = pgdir \<or> get_count (V2P p) s = 0}"
    using f(4) dealloc_postD(4) [OF d(2)] unfolding tabs by auto
  moreover have "s3 = s\<lparr>heap := heap s3, kmem_freelist := kmem_freelist s3\<rparr>"
    using heap_update_trans [OF heap_update_trans [OF e1 f(5)] kfree_fields [OF k(1)]] .
  moreover have "same_page (heap s) (heap s3) p"
    if p: "p \<notin> pt_pages (heap s) pgdir \<union> freed s pgdir 0 KERNBASE" for p
  proof -
    have "p \<noteq> pgdir" "p \<notin> tables s1 pgdir {i. unat i < 1024}" using p unfolding tabs by auto
    then show ?thesis
      using f1 [OF p] f(6) kfree_other_page [OF kp k(1)] by (meson same_page_trans)
  qed
  ultimately show ?thesis using k(2) by blast
qed

section \<open>Building the kernel part\<close>

definition ksize :: "kmap_entry \<Rightarrow> u32" where
  "ksize k = phys_end k - phys_start k"

definition krange :: "kmap_entry \<Rightarrow> u32 \<Rightarrow> bool" where
  "krange k w \<longleftrightarrow> in_range (PGROUNDDOWN (virt k)) (PGROUNDDOWN (virt k + ksize k - 1)) w"

text \<open>The abstract page table that the list of regions describes.\<close>

primrec kmap_pte :: "kmap_entry list \<Rightarrow> (u32 \<Rightarrow> u32) \<Rightarrow> u32 \<Rightarrow> u32" where
  "kmap_pte [] f w = f w"
| "kmap_pte (k # ks) f w =
     (if krange k w then (phys_start k + (PGROUNDDOWN w - PGROUNDDOWN (virt k)) OR perm k) OR PTE_P
      else kmap_pte ks f w)"

definition kmap_ok :: "kmap_entry list \<Rightarrow> bool" where
  "kmap_ok ks \<longleftrightarrow>
     (\<forall>k\<in>set ks. ksize k \<noteq> 0 \<and> unat (virt k) + unat (ksize k) \<le> 4294967296
        \<and> (\<forall>w. krange k w \<longrightarrow> KERNBASE \<le> PGROUNDDOWN w))
     \<and> sorted_wrt (\<lambda>k l. \<forall>w. \<not> (krange k w \<and> krange l w)) ks"

definition user_free :: "mem \<Rightarrow> u32 \<Rightarrow> bool" where
  "user_free h pgdir \<longleftrightarrow> (\<forall>w. PGROUNDDOWN w < KERNBASE \<longrightarrow> \<not> present h pgdir w)"

lemma user_free_frames:
  assumes "user_free (heap s) pgdir"
  shows "frames_ok s pgdir xs 0 KERNBASE" "freed s pgdir 0 KERNBASE = {}"
  using assms by (auto simp: user_free_def frames_ok_def freed_def rng_def)

lemma kmap_pte_cong:
  "(\<And>w. f w = g w) \<Longrightarrow> kmap_pte ks f w = kmap_pte ks g w"
  by (induction ks) auto

text \<open>Regions that are disjoint from \<open>k\<close> commute with installing \<open>k\<close>.\<close>

lemma kmap_pte_install:
  assumes "\<And>l. l \<in> set ks \<Longrightarrow> \<not> (krange k w \<and> krange l w)"
  shows "kmap_pte ks (\<lambda>w. if krange k w then e w else f w) w = (if krange k w then e w else kmap_pte ks f w)"
  using assms by (induction ks) auto

definition setup_failed :: "'a machine_scheme \<Rightarrow> u32 \<Rightarrow> u32 list \<Rightarrow> 'a machine_scheme \<Rightarrow> u32 list \<Rightarrow> bool" where
  "setup_failed s pgdir xs s' ys \<longleftrightarrow> free_inv s' ys
     \<and> set ys = {p \<in> pt_pages (heap s) pgdir \<union> set xs. p = pgdir \<or> get_count (V2P p) s = 0}
     \<and> s' = s\<lparr>heap := heap s', kmem_freelist := kmem_freelist s'\<rparr>
     \<and> (\<forall>p. p \<notin> pt_pages (heap s) pgdir \<union> set xs \<longrightarrow> same_page (heap s) (heap s') p)"

lemma setup_failed_step:
  assumes 1: "pt_step s pgdir xs s1 ys" and 2: "setup_failed s1 pgdir ys s' zs"
  shows "setup_failed s pgdir xs s' zs"
proof -
  have e: "s1 = s\<lparr>heap := heap s1, kmem_freelist := kmem_freelist s1\<rparr>" using 1 by (simp add: pt_step_def)
  have u: "pt_pages (heap s1) pgdir \<union> set ys = pt_pages (heap s) pgdir \<union> set xs"
    using pt_step_pages [OF 1] pt_stepD(2) [OF 1] by auto
  have "same_page (heap s) (heap s') p" if "p \<notin> pt_pages (heap s) pgdir \<union> set xs" for p
  proof (rule same_page_trans)
    show "same_page (heap s) (heap s1) p" using that by (intro pt_step_frame [OF 1]) auto
    show "same_page (heap s1) (heap s') p" using 2 that unfolding setup_failed_def u by blast
  qed
  moreover have "s' = s1\<lparr>heap := heap s', kmem_freelist := kmem_freelist s'\<rparr>"
    using 2 by (simp add: setup_failed_def)
  then have "s' = s\<lparr>heap := heap s', kmem_freelist := kmem_freelist s'\<rparr>" by (rule heap_update_trans [OF e])
  ultimately show ?thesis
    using 2 unfolding setup_failed_def u heap_update_fields(3) [OF e] by blast
qed

lemma setup_failed_freevm:
  assumes 1: "pt_step s pgdir xs s1 []" and uf: "user_free (heap s1) pgdir"
  shows "\<exists>s' ys. freevm pgdir s1 = Ok s' \<and> setup_failed s pgdir xs s' ys"
proof -
  from freevm_correct [OF pt_stepD(1) [OF 1] user_free_frames(1) [OF uf]] obtain s' ys where
    f: "freevm pgdir s1 = Ok s'" "free_inv s' ys"
    "set ys = {p \<in> pt_pages (heap s1) pgdir. p = pgdir \<or> get_count (V2P p) s1 = 0}"
    "s' = s1\<lparr>heap := heap s', kmem_freelist := kmem_freelist s'\<rparr>"
    "\<forall>p. p \<notin> pt_pages (heap s1) pgdir \<longrightarrow> same_page (heap s1) (heap s') p"
    unfolding user_free_frames(2) [OF uf] by auto
  then have "setup_failed s1 pgdir [] s' ys" by (simp add: setup_failed_def)
  with setup_failed_step [OF 1] f(1) show ?thesis by blast
qed

lemma setupkvm_loop_correct:
  assumes "vm_inv s pgdir xs" "kmap_ok ks" "user_free (heap s) pgdir"
    and "\<And>k w. k \<in> set ks \<Longrightarrow> krange k w \<Longrightarrow> \<not> present (heap s) pgdir w"
  shows "\<exists>r s' ys. setupkvm_loop ks pgdir s = Ok (r, s') \<and>
    (r = pgdir \<and> pt_step s pgdir xs s' ys \<and> (\<forall>w. pte_at (heap s') pgdir w = kmap_pte ks (pte_at (heap s) pgdir) w)
     \<or> r = 0 \<and> setup_failed s pgdir xs s' ys)"
  using assms
proof (induction ks arbitrary: s xs)
  case Nil
  then show ?case using pt_step_refl by auto
next
  case (Cons k ks)
  let ?e = "\<lambda>w. (phys_start k + (PGROUNDDOWN w - PGROUNDDOWN (virt k)) OR perm k) OR PTE_P"
  have k: "ksize k \<noteq> 0" "unat (virt k) + unat (ksize k) \<le> 4294967296"
    "\<And>w. krange k w \<Longrightarrow> KERNBASE \<le> PGROUNDDOWN w"
    and disj: "\<And>l w. l \<in> set ks \<Longrightarrow> \<not> (krange k w \<and> krange l w)" and ok: "kmap_ok ks"
    using Cons.prems(2) by (auto simp: kmap_ok_def)
  have fresh: "\<not> present (heap s) pgdir w"
    if "in_range (PGROUNDDOWN (virt k)) (PGROUNDDOWN (virt k + ksize k - 1)) w" for w
    using Cons.prems(4) [of k w] that by (simp add: krange_def)
  from mappages_result [OF Cons.prems(1) k(1,2) fresh] obtain r s1 ys where
    m: "mappages pgdir (virt k) (ksize k) (phys_start k) (perm k) s = Ok (r, s1)"
    and step: "pt_step s pgdir xs s1 ys"
    and c: "r = 0 \<and> (\<forall>w. pte_at (heap s1) pgdir w = (if krange k w then ?e w else pte_at (heap s) pgdir w))
      \<or> r = -1 \<and> ys = [] \<and> (\<forall>w. \<not> krange k w \<longrightarrow> pte_at (heap s1) pgdir w = pte_at (heap s) pgdir w)"
    unfolding krange_def map_range_def by blast
  have uf: "user_free (heap s1) pgdir"
    using Cons.prems(3) k(3) c unfolding user_free_def present_def by (metis leD)
  from c show ?case
  proof (elim disjE conjE)
    assume r: "r = 0" and pte: "\<forall>w. pte_at (heap s1) pgdir w = (if krange k w then ?e w else pte_at (heap s) pgdir w)"
    have fr: "\<not> present (heap s1) pgdir w" if "l \<in> set ks" "krange l w" for l w
      using Cons.prems(4) [of l w] that disj [OF that(1), of w] pte by (simp add: present_def)
    from Cons.IH [OF pt_stepD(1) [OF step] ok uf] fr obtain r' s' zs where
      l: "setupkvm_loop ks pgdir s1 = Ok (r', s')" and
      c': "r' = pgdir \<and> pt_step s1 pgdir ys s' zs \<and>
          (\<forall>w. pte_at (heap s') pgdir w = kmap_pte ks (pte_at (heap s1) pgdir) w)
        \<or> r' = 0 \<and> setup_failed s1 pgdir ys s' zs" by blast
    have "kmap_pte ks (pte_at (heap s1) pgdir) w = kmap_pte (k # ks) (pte_at (heap s) pgdir) w" for w
      using kmap_pte_install [of ks k w ?e "pte_at (heap s) pgdir", OF disj] kmap_pte_cong [of "pte_at (heap s1) pgdir"] pte
      by simp
    with c' pt_step_trans [OF step] setup_failed_step [OF step]
    have "r' = pgdir \<and> pt_step s pgdir xs s' zs \<and>
          (\<forall>w. pte_at (heap s') pgdir w = kmap_pte (k # ks) (pte_at (heap s) pgdir) w)
        \<or> r' = 0 \<and> setup_failed s pgdir xs s' zs" by metis
    moreover have "setupkvm_loop (k # ks) pgdir s = Ok (r', s')"
      using m r l by (simp add: ksize_def)
    ultimately show ?thesis by blast
  next
    assume r: "r = -1" "ys = []"
    from setup_failed_freevm [OF step [unfolded r(2)] uf] obtain s' zs where
      "freevm pgdir s1 = Ok s'" "setup_failed s pgdir xs s' zs" by blast
    then show ?thesis using m r(1) by (auto simp: ksize_def)
  qed
qed

text \<open>
  The addresses the linker script fixes: the kernel's data starts page aligned, above the text
  and below the end of physical memory.
\<close>

definition linked :: "'a machine_scheme \<Rightarrow> bool" where
  "linked s \<longleftrightarrow> pg_aligned (kdata s) \<and> KERNLINK < kdata s \<and> kdata s < P2V PHYSTOP \<and> KERNBASE < kend s"

lemma krange_unat:
  assumes "pg_aligned (virt k)" "ksize k \<noteq> 0" "unat (virt k) + unat (ksize k) \<le> 4294967296"
  shows "krange k w \<longleftrightarrow> unat (virt k) \<le> unat (PGROUNDDOWN w) \<and>
    unat (PGROUNDDOWN w) < unat (virt k) + unat (ksize k)"
proof -
  let ?P = "PGROUNDDOWN w" and ?l = "virt k + ksize k - 1"
  have "?P \<le> PGROUNDDOWN ?l \<longleftrightarrow> ?P \<le> ?l"
  proof
    have "PGROUNDDOWN ?l \<le> ?l" by (simp add: word_le_nat_alt unat_PGROUNDDOWN)
    then show "?P \<le> PGROUNDDOWN ?l \<Longrightarrow> ?P \<le> ?l" by (rule order.trans [rotated])
    assume "?P \<le> ?l"
    from PGROUNDDOWN_mono [OF this] show "?P \<le> PGROUNDDOWN ?l"
      using pg_aligned_iff [of ?P] by simp
  qed
  moreover have "0 < unat (ksize k)" using assms(2) by (simp add: unat_gt_0)
  ultimately show ?thesis
    using last_byte(1) [OF assms(2,3)] assms(1)
    by (auto simp: krange_def in_range_def pg_aligned_iff word_le_nat_alt)
qed

lemma kmap_sizes:
  assumes "linked s"
  shows "unat (V2P (kdata s)) = unat (kdata s) - 2147483648"
    "unat (V2P (kdata s) - 0x100000) = unat (kdata s) - 2148532224"
    "unat (0xE000000 - V2P (kdata s)) = 2382364672 - unat (kdata s)"
    "2148532224 < unat (kdata s)" "unat (kdata s) < 2382364672"
proof -
  have b: "2148532224 < unat (kdata s)" "unat (kdata s) < 2382364672"
    using assms by (auto simp: linked_def word_less_nat_alt P2V_def)
  then show v: "unat (V2P (kdata s)) = unat (kdata s) - 2147483648"
    unfolding V2P_def by (subst unat_sub) (auto simp: word_le_nat_alt)
  show "unat (V2P (kdata s) - 0x100000) = unat (kdata s) - 2148532224"
    using b v by (subst unat_sub) (auto simp: word_le_nat_alt)
  show "unat (0xE000000 - V2P (kdata s)) = 2382364672 - unat (kdata s)"
    using b v by (subst unat_sub) (auto simp: word_le_nat_alt)
qed (use assms in \<open>auto simp: linked_def word_less_nat_alt P2V_def\<close>)

text \<open>The four regions of \<open>kmap\<close> as intervals of addresses.\<close>

lemma kmap_regions:
  assumes "linked s"
  shows "\<exists>a b c d. kmap s = [a, b, c, d]
    \<and> (\<forall>w. krange a w \<longleftrightarrow> 2147483648 \<le> unat (PGROUNDDOWN w) \<and> unat (PGROUNDDOWN w) < 2148532224)
    \<and> (\<forall>w. krange b w \<longleftrightarrow> 2148532224 \<le> unat (PGROUNDDOWN w) \<and> unat (PGROUNDDOWN w) < unat (kdata s))
    \<and> (\<forall>w. krange c w \<longleftrightarrow> unat (kdata s) \<le> unat (PGROUNDDOWN w) \<and> unat (PGROUNDDOWN w) < 2382364672)
    \<and> (\<forall>w. krange d w \<longleftrightarrow> 4261412864 \<le> unat (PGROUNDDOWN w) \<and> unat (PGROUNDDOWN w) < 4294967296)
    \<and> (\<forall>k\<in>{a, b, c, d}. ksize k \<noteq> 0 \<and> unat (virt k) + unat (ksize k) \<le> 4294967296)"
proof -
  note z = kmap_sizes [OF assms]
  have al: "pg_aligned (kdata s)" using assms by (simp add: linked_def)
  let ?a = "\<lparr>virt = KERNBASE, phys_start = 0, phys_end = EXTMEM, perm = PTE_W\<rparr>"
  let ?b = "\<lparr>virt = KERNLINK, phys_start = V2P KERNLINK, phys_end = V2P (kdata s), perm = 0\<rparr>"
  let ?c = "\<lparr>virt = kdata s, phys_start = V2P (kdata s), phys_end = PHYSTOP, perm = PTE_W\<rparr>"
  let ?d = "\<lparr>virt = DEVSPACE, phys_start = DEVSPACE, phys_end = 0, perm = PTE_W\<rparr>"
  have v: "V2P KERNLINK = 0x100000" by (simp add: V2P_def)
  have sz: "unat (ksize ?a) = 1048576" "unat (ksize ?b) = unat (kdata s) - 2148532224"
    "unat (ksize ?c) = 2382364672 - unat (kdata s)" "unat (ksize ?d) = 33554432"
    using z(2,3) by (simp_all add: ksize_def v)
  then have nz: "ksize ?a \<noteq> 0" "ksize ?b \<noteq> 0" "ksize ?c \<noteq> 0" "ksize ?d \<noteq> 0"
    using z(4,5) by (simp_all flip: unat_gt_0)
  have r: "unat (virt ?a) + unat (ksize ?a) = 2148532224" "unat (virt ?b) + unat (ksize ?b) = unat (kdata s)"
    "unat (virt ?c) + unat (ksize ?c) = 2382364672" "unat (virt ?d) + unat (ksize ?d) = 4294967296"
    unfolding sz using z(4,5) by simp_all
  have pa: "pg_aligned (virt ?a)" "pg_aligned (virt ?b)" "pg_aligned (virt ?c)" "pg_aligned (virt ?d)"
    using al by (simp_all add: pg_aligned_def)
  note k = krange_unat [OF pa(1) nz(1), unfolded r] krange_unat [OF pa(2) nz(2), unfolded r]
    krange_unat [OF pa(3) nz(3), unfolded r] krange_unat [OF pa(4) nz(4), unfolded r]
  have "\<forall>k\<in>{?a, ?b, ?c, ?d}. ksize k \<noteq> 0 \<and> unat (virt k) + unat (ksize k) \<le> 4294967296"
    using nz r z(5) unat_lt_2_32 [of "kdata s"] by auto
  moreover have "kmap s = [?a, ?b, ?c, ?d]" by (simp add: kmap_def)
  ultimately show ?thesis using k z(5) unat_lt_2_32 [of "kdata s"] by (intro exI [of _ ?a] exI [of _ ?b] exI [of _ ?c] exI [of _ ?d]) simp
qed

lemma kmap_kmap_ok: "linked s \<Longrightarrow> kmap_ok (kmap s)"
proof -
  assume l: "linked s"
  from kmap_regions [OF l] obtain a b c d where k: "kmap s = [a, b, c, d]"
    "\<And>w. krange a w \<longleftrightarrow> 2147483648 \<le> unat (PGROUNDDOWN w) \<and> unat (PGROUNDDOWN w) < 2148532224"
    "\<And>w. krange b w \<longleftrightarrow> 2148532224 \<le> unat (PGROUNDDOWN w) \<and> unat (PGROUNDDOWN w) < unat (kdata s)"
    "\<And>w. krange c w \<longleftrightarrow> unat (kdata s) \<le> unat (PGROUNDDOWN w) \<and> unat (PGROUNDDOWN w) < 2382364672"
    "\<And>w. krange d w \<longleftrightarrow> 4261412864 \<le> unat (PGROUNDDOWN w) \<and> unat (PGROUNDDOWN w) < 4294967296"
    "\<forall>k\<in>{a, b, c, d}. ksize k \<noteq> 0 \<and> unat (virt k) + unat (ksize k) \<le> 4294967296" by blast
  show ?thesis
    unfolding kmap_ok_def k(1) using k(2-6) kmap_sizes(4,5) [OF l]
    by (auto simp: word_le_nat_alt)
qed

text \<open>A zeroed page taken from the free list is an empty page directory.\<close>

lemma fresh_pgdir:
  assumes fi: "free_inv s (x # ys)"
  defines "s2 \<equiv> s\<lparr>kmem_freelist := ld32 (heap s) x, heap := memset (heap s) x 0 PGSIZE\<rparr>"
  shows "vm_inv s2 x ys" "pt_pages (heap s2) x = {x}" "\<And>w. pte_at (heap s2) x w = 0"
    "\<And>p. p \<noteq> x \<Longrightarrow> same_page (heap s) (heap s2) p"
proof -
  have x: "kpage s x" "x \<notin> set ys" using fi by (auto simp: free_inv_def)
  have z: "page_words (heap s2) x i = 0" if "unat i < 1024" for i
    using page_words_memset0 [OF kpage_aligned [OF x(1)] that] by (simp add: s2_def)
  show other: "same_page (heap s) (heap s2) p" if "p \<noteq> x" for p
    using memset_same_page [OF kpage_aligned [OF x(1)] that] by (simp add: s2_def)
  have np: "\<not> pd_present (heap s2) x i" if "unat i < 1024" for i using z [OF that] by (simp add: pd_present_def)
  then show pp: "pt_pages (heap s2) x = {x}" by (auto simp: pt_pages_def)
  show "pte_at (heap s2) x w = 0" for w using np [OF PDX_less] by (simp add: pte_at_def)
  have "free_inv s2 ys"
    using x(2) by (intro free_inv_frame [OF kalloc_free_inv(2) [OF fi]])
      (auto simp: s2_def intro: other [unfolded s2_def, simplified])
  moreover have "kpage s2 x" using x(1) by (simp add: s2_def kpage_def)
  ultimately show "vm_inv s2 x ys" using np x(2) pp by (auto simp: vm_inv_def pgdir_inv_def)
qed

definition setup_post :: "'a machine_scheme \<Rightarrow> u32 list \<Rightarrow> u32 \<Rightarrow> 'a machine_scheme \<Rightarrow> u32 list \<Rightarrow> bool" where
  "setup_post s xs pgdir s' ys \<longleftrightarrow> vm_inv s' pgdir ys \<and> pt_pages (heap s') pgdir = set xs - set ys
     \<and> (\<exists>zs. xs = zs @ ys)
     \<and> (\<forall>w. pte_at (heap s') pgdir w = kmap_pte (kmap s) (\<lambda>_. 0) w)
     \<and> s' = s\<lparr>heap := heap s', kmem_freelist := kmem_freelist s'\<rparr>
     \<and> (\<forall>p. p \<notin> set xs \<longrightarrow> same_page (heap s) (heap s') p)"

lemma setupkvm_correct:
  assumes fi: "free_inv s xs" and ln: "linked s"
  shows "\<exists>r s' ys. setupkvm s = Ok (r, s') \<and>
    (r \<noteq> 0 \<and> setup_post s xs r s' ys
     \<or> r = 0 \<and> free_inv s' ys \<and> s' = s\<lparr>heap := heap s', kmem_freelist := kmem_freelist s'\<rparr>
        \<and> (\<forall>p. p \<notin> set xs \<longrightarrow> same_page (heap s) (heap s') p)
        \<and> set ys \<subseteq> set xs \<and> ((\<forall>p\<in>set xs. get_count (V2P p) s = 0) \<longrightarrow> set ys = set xs))"
  using fi
proof (cases rule: kalloc_cases)
  case none
  then show ?thesis using fi by (auto simp: setupkvm_def)
next
  case (some x us)
  let ?s2 = "s\<lparr>kmem_freelist := ld32 (heap s) x, heap := memset (heap s) x 0 PGSIZE\<rparr>"
  note fp = fresh_pgdir [OF fi [unfolded some(1)]]
  have e: "?s2 = s\<lparr>heap := heap ?s2, kmem_freelist := kmem_freelist ?s2\<rparr>" by simp
  have np: "\<not> present (heap ?s2) x w" for w using fp(3) by (simp add: present_def)
  have "user_free (heap ?s2) x" using np by (simp add: user_free_def)
  from setupkvm_loop_correct [OF fp(1) kmap_kmap_ok [OF ln] this np] obtain r s' ys where
    l: "setupkvm_loop (kmap s) x ?s2 = Ok (r, s')" and
    c: "r = x \<and> pt_step ?s2 x us s' ys \<and> (\<forall>w. pte_at (heap s') x w = kmap_pte (kmap s) (pte_at (heap ?s2) x) w)
      \<or> r = 0 \<and> setup_failed ?s2 x us s' ys" by blast
  have r: "setupkvm s = Ok (r, s')"
    using some(2,6) l by (simp add: setupkvm_def Let_def P2V_def)
  have frame: "same_page (heap s) (heap s') p" if "p \<notin> set xs" "same_page (heap ?s2) (heap s') p" for p
    using that fp(4) [of p] some(1) by (auto intro: same_page_trans)
  from c show ?thesis
  proof (elim disjE conjE)
    assume o: "r = x" "pt_step ?s2 x us s' ys"
      "\<forall>w. pte_at (heap s') x w = kmap_pte (kmap s) (pte_at (heap ?s2) x) w"
    have "\<exists>zs. xs = zs @ ys"
      using o(2) some(1) unfolding pt_step_def by (metis append_Cons)
    moreover have "pt_pages (heap s') x = set xs - set ys"
      using pt_step_pages [OF o(2)] pt_stepD(2) [OF o(2)] fp(2) some(1,5) by auto
    moreover have "pte_at (heap s') x w = kmap_pte (kmap s) (\<lambda>_. 0) w" for w
      using o(3) fp(3) kmap_pte_cong [of "pte_at (heap ?s2) x" "\<lambda>_. 0"] by simp
    moreover have "s' = s\<lparr>heap := heap s', kmem_freelist := kmem_freelist s'\<rparr>"
      using heap_update_trans [OF e] o(2) unfolding pt_step_def by blast
    moreover have "same_page (heap s) (heap s') p" if "p \<notin> set xs" for p
      using that fp(2) some(1) by (intro frame pt_step_frame [OF o(2)]) auto
    ultimately have "setup_post s xs r s' ys"
      using pt_stepD(1) [OF o(2)] o(1) by (simp add: setup_post_def)
    then show ?thesis using r some(6) o(1) by blast
  next
    assume o: "r = 0" "setup_failed ?s2 x us s' ys"
    have ys: "set ys = {p \<in> set xs. p = x \<or> get_count (V2P p) s = 0}"
      using o(2) fp(2) some(1) by (auto simp: setup_failed_def get_count_def)
    moreover have "s' = s\<lparr>heap := heap s', kmem_freelist := kmem_freelist s'\<rparr>"
      using heap_update_trans [OF e] o(2) unfolding setup_failed_def by blast
    moreover have "same_page (heap s) (heap s') p" if "p \<notin> set xs" for p
      using that fp(2) some(1) o(2) by (intro frame) (auto simp: setup_failed_def)
    moreover have "free_inv s' ys" using o(2) by (simp add: setup_failed_def)
    ultimately show ?thesis using r o(1) by auto
  qed
qed

text \<open>The user half of a table that \<open>setupkvm\<close> built is empty.\<close>

lemma kmap_pte_user:
  assumes "kmap_ok ks" "PGROUNDDOWN w < KERNBASE"
  shows "kmap_pte ks f w = f w"
proof -
  have "\<not> krange k w" if "k \<in> set ks" for k using assms that unfolding kmap_ok_def by (meson leD)
  then show ?thesis by (induction ks) auto
qed

lemma setup_post_user:
  "linked s \<Longrightarrow> setup_post s xs pgdir s' ys \<Longrightarrow> PGROUNDDOWN w < KERNBASE \<Longrightarrow> pte_at (heap s') pgdir w = 0"
  using kmap_pte_user [OF kmap_kmap_ok] by (simp add: setup_post_def)

end
