(* ===== verification/Bytes.thy ===== *)
theory Bytes
  imports Pages
begin

text \<open>
  Buffers as byte lists.  Where the C code hands a routine a source buffer, the model hands it the
  bytes; where a routine fills a buffer, it returns the bytes and the caller stores them.
  \<open>st_bytes\<close> and \<open>ld_bytes\<close> move such a list to and from memory, and words are stored little end
  first.
\<close>

primrec st_bytes :: "mem \<Rightarrow> u32 \<Rightarrow> u8 list \<Rightarrow> mem" where
  "st_bytes h a [] = h"
| "st_bytes h a (b # bs) = st_bytes (h(a := b)) (a + 1) bs"

definition ld_bytes :: "mem \<Rightarrow> u32 \<Rightarrow> nat \<Rightarrow> u8 list" where
  "ld_bytes h a n = map (\<lambda>i. h (a + of_nat i)) [0..<n]"

lemma length_ld_bytes [simp]: "length (ld_bytes h a n) = n"
  by (simp add: ld_bytes_def)

lemma ld_bytes_nth: "i < n \<Longrightarrow> ld_bytes h a n ! i = h (a + of_nat i)"
  by (simp add: ld_bytes_def)

text \<open>A store of up to \<open>2 ^ 32\<close> bytes changes exactly the addresses it covers.\<close>

lemma st_bytes_apply:
  assumes "length bs \<le> 4294967296"
  shows "st_bytes h a bs x = (if unat (x - a) < length bs then bs ! unat (x - a) else h x)"
  using assms
proof (induction bs arbitrary: h a)
  case (Cons b bs)
  have IH: "st_bytes (h(a := b)) (a + 1) bs x =
      (if unat (x - (a + 1)) < length bs then bs ! unat (x - (a + 1)) else (h(a := b)) x)"
    using Cons.prems by (intro Cons.IH) simp
  show ?case
  proof (cases "x = a")
    case True
    have "unat (-1 :: u32) = 4294967295" by (simp add: unsigned_minus_1_eq_mask mask_eq_exp_minus_1)
    then have "\<not> unat (x - (a + 1)) < length bs" using True Cons.prems by simp
    then show ?thesis using IH True by simp
  next
    case False
    then have nz: "x - a \<noteq> 0" by simp
    then have "0 < unat (x - a)" by (simp add: unat_gt_0)
    then have u: "unat (x - a) = Suc (unat (x - a - 1))"
      unfolding unat_minus_one [OF nz] by simp
    have e: "x - (a + 1) = x - a - 1" by simp
    show ?thesis using IH [unfolded e] False by (simp add: u)
  qed
qed simp

lemma ld_st_bytes:
  assumes "length bs \<le> 4294967296"
  shows "ld_bytes (st_bytes h a bs) a (length bs) = bs"
proof (rule nth_equalityI)
  fix i assume "i < length (ld_bytes (st_bytes h a bs) a (length bs))"
  then have i: "i < length bs" by simp
  then have "unat (of_nat i :: u32) = i" using assms by (simp add: unat_of_nat)
  then show "ld_bytes (st_bytes h a bs) a (length bs) ! i = bs ! i"
    using i by (simp add: ld_bytes_nth st_bytes_apply [OF assms])
qed simp

text \<open>A store that stays within one page leaves the other pages alone.\<close>

lemma st_bytes_in_page:
  assumes "pg_aligned p" "unat off + length bs \<le> 4096" "PGROUNDDOWN x \<noteq> p"
  shows "st_bytes h (p + off) bs x = h x"
proof -
  have "\<not> unat (x - (p + off)) < length bs"
  proof
    assume lt: "unat (x - (p + off)) < length bs"
    have "unat off + unat (x - (p + off)) < 4096" using lt assms(2) by simp
    then have "unat (off + (x - (p + off))) < 4096" by (subst unat_add32) simp_all
    from page_plus [OF assms(1) this] assms(3) show False by simp
  qed
  then show ?thesis using assms(2) by (simp add: st_bytes_apply)
qed

lemma st_bytes_same_page:
  "pg_aligned p \<Longrightarrow> unat off + length bs \<le> 4096 \<Longrightarrow> q \<noteq> p \<Longrightarrow> same_page h (st_bytes h (p + off) bs) q"
  by (simp add: same_page_def st_bytes_in_page)

end
