(* ===== verification/Proc_State.thy ===== *)
theory Proc_State
  imports Mmu
begin

text \<open>
  The per-process data of \<^verbatim>\<open>proc.h\<close>, \<^verbatim>\<open>wmap.h\<close> and the trap frame of \<^verbatim>\<open>x86.h\<close>.  Field names carry the
  prefix \<open>p_\<close>, \<open>wm_\<close> or \<open>tf_\<close>.  Pointers into the kernel's tables are indices (\<open>None\<close> for NULL): a
  parent is an index into the process table, an open file an index into the file table, the
  working directory an index into the inode cache.  A sleep channel names the kernel object whose
  address the C code passes.  The arrays of \<^verbatim>\<open>struct wmapinfo\<close> are lists of length 16; lengths and
  counters are C \<^verbatim>\<open>int\<close>s.
\<close>

abbreviation (input) NPROC :: nat where "NPROC \<equiv> 64"
abbreviation (input) NOFILE :: nat where "NOFILE \<equiv> 16"
abbreviation (input) MAX_WMMAP_INFO :: nat where "MAX_WMMAP_INFO \<equiv> 16"

datatype procstate = UNUSED | EMBRYO | SLEEPING | RUNNABLE | RUNNING | ZOMBIE

datatype chan = CNull | CProc nat | CTicks | CPipeR u32 | CPipeW u32 | CBuf nat | CLog | CInode nat | CInput

record trapframe =
  tf_edi :: u32
  tf_esi :: u32
  tf_ebp :: u32
  tf_ebx :: u32
  tf_edx :: u32
  tf_ecx :: u32
  tf_eax :: u32
  tf_gs :: u16
  tf_fs :: u16
  tf_es :: u16
  tf_ds :: u16
  tf_trapno :: u32
  tf_err :: u32
  tf_eip :: u32
  tf_cs :: u16
  tf_eflags :: u32
  tf_esp :: u32
  tf_ss :: u16

record kcontext =
  ctx_edi :: u32
  ctx_esi :: u32
  ctx_ebx :: u32
  ctx_ebp :: u32
  ctx_eip :: u32

record wmapinfo =
  total_mmaps :: int
  wm_addr :: "u32 list"
  wm_length :: "int list"
  n_loaded_pages :: "int list"

record wmapinfoExtra =
  file_backed :: "int list"
  wm_fd :: "int list"
  is_child :: int

record proc =
  p_sz :: u32
  p_pgdir :: u32
  p_kstack :: u32
  p_state :: procstate
  p_pid :: int
  p_parent :: "nat option"
  p_tf :: trapframe
  p_context :: kcontext
  p_chan :: chan
  p_killed :: int
  p_ofile :: "nat option list"
  p_cwd :: "nat option"
  p_name :: "u8 list"
  p_wmapInfo :: wmapinfo
  p_wmapInfoExtra :: wmapinfoExtra

definition zero_trapframe :: trapframe where
  "zero_trapframe = \<lparr>tf_edi = 0, tf_esi = 0, tf_ebp = 0, tf_ebx = 0, tf_edx = 0, tf_ecx = 0, tf_eax = 0,
     tf_gs = 0, tf_fs = 0, tf_es = 0, tf_ds = 0, tf_trapno = 0, tf_err = 0, tf_eip = 0, tf_cs = 0,
     tf_eflags = 0, tf_esp = 0, tf_ss = 0\<rparr>"

definition zero_context :: kcontext where
  "zero_context = \<lparr>ctx_edi = 0, ctx_esi = 0, ctx_ebx = 0, ctx_ebp = 0, ctx_eip = 0\<rparr>"

text \<open>The process table lives in zero-initialised memory.\<close>

definition zero_proc :: proc where
  "zero_proc = \<lparr>p_sz = 0, p_pgdir = 0, p_kstack = 0, p_state = UNUSED, p_pid = 0, p_parent = None,
     p_tf = zero_trapframe, p_context = zero_context, p_chan = CNull, p_killed = 0,
     p_ofile = replicate NOFILE None, p_cwd = None, p_name = replicate 16 0,
     p_wmapInfo = \<lparr>total_mmaps = 0, wm_addr = replicate MAX_WMMAP_INFO 0,
       wm_length = replicate MAX_WMMAP_INFO 0, n_loaded_pages = replicate MAX_WMMAP_INFO 0\<rparr>,
     p_wmapInfoExtra = \<lparr>file_backed = replicate MAX_WMMAP_INFO 0,
       wm_fd = replicate MAX_WMMAP_INFO 0, is_child = 0\<rparr>\<rparr>"

end
