(* ===== verification/Cow.thy ===== *)
theory Cow
  imports Kvm Bytes Proc_State
begin

text \<open>
  The user-memory operations of \<^verbatim>\<open>vm.c\<close> that are about page contents: loading the first process,
  sharing an address space copy-on-write at fork (\<open>copyuvm\<close>), resolving a write fault on a shared
  page (\<open>handle_cow_fault\<close>), and copying to a user address through a page table (\<open>copyout\<close>).
\<close>

section \<open>Operations\<close>

definition switchkvm :: "u32 \<Rightarrow> 'a machine_scheme \<Rightarrow> 'a machine_scheme" where
  "switchkvm kpgdir s = lcr3 (V2P kpgdir) s"

text \<open>The result is the new value of the global \<^verbatim>\<open>kpgdir\<close>.\<close>

definition kvmalloc :: "'a machine_scheme \<Rightarrow> (u32 \<times> 'a machine_scheme) result" where
  "kvmalloc s = bindr (setupkvm s) (\<lambda>(kpgdir, s1). Ok (kpgdir, switchkvm kpgdir s1))"

definition inituvm :: "u32 \<Rightarrow> u8 list \<Rightarrow> 'a machine_scheme \<Rightarrow> 'a machine_scheme result" where
  "inituvm pgdir init s =
     (if length init \<ge> 4096 then Panic ''inituvm: more than a page''
      else
        let (m, s1) = kalloc s;
            s2 = s1\<lparr>heap := memset (heap s1) m 0 PGSIZE\<rparr> in
        bindr (mappages pgdir 0 PGSIZE (V2P m) (PTE_W OR PTE_U) s2) (\<lambda>(_, s3).
        let s4 = s3\<lparr>heap := st_bytes (heap s3) m init\<rparr> in
        Ok (set_count (V2P m) 1 s4)))"

definition clearpteu :: "u32 \<Rightarrow> u32 \<Rightarrow> 'a machine_scheme \<Rightarrow> 'a machine_scheme result" where
  "clearpteu pgdir uva s =
     (let (pte, s1) = walkpgdir pgdir uva False s in
      if pte = 0 then Panic ''clearpteu''
      else Ok (s1\<lparr>heap := st32 (heap s1) pte (ld32 (heap s1) pte AND NOT PTE_U)\<rparr>))"

fun copyuvm_loop :: "nat \<Rightarrow> u32 \<Rightarrow> u32 \<Rightarrow> u32 \<Rightarrow> u32 \<Rightarrow> 'a machine_scheme \<Rightarrow>
    (u32 \<times> 'a machine_scheme) result" where
  "copyuvm_loop 0 pgdir d i sz s = NoFuel"
| "copyuvm_loop (Suc fuel) pgdir d i sz s =
     (if i < sz then
        let (pte, s1) = walkpgdir pgdir i False s in
        if pte = 0 then Panic ''copyuvm: pte should exist''
        else if ld32 (heap s1) pte AND PTE_P = 0 then Panic ''copyuvm: page not present''
        else
          let e = ld32 (heap s1) pte;
              pa = PTE_ADDR e;
              w = PTE_FLAGS e AND PTE_W \<noteq> 0;
              flags = (if w then ((PTE_FLAGS e AND NOT PTE_W) OR PTE_COW) OR (PTE_P OR PTE_U)
                       else PTE_FLAGS e);
              s2 = (if w then s1\<lparr>heap := st32 (heap s1) pte
                       (((e AND NOT PTE_W) OR PTE_COW) OR (PTE_P OR PTE_U))\<rparr> else s1)
          in bindr (mappages d i PGSIZE pa flags s2) (\<lambda>(r, s3).
             if r < 0 then bindr (freevm d s3) (\<lambda>s4. Ok (0, s4))
             else copyuvm_loop fuel pgdir d (i + PGSIZE) sz
                    (lcr3 (V2P d) (lcr3 (V2P pgdir) (inc_count pa s3))))
      else Ok (d, s))"

definition copyuvm :: "u32 \<Rightarrow> u32 \<Rightarrow> 'a machine_scheme \<Rightarrow> (u32 \<times> 'a machine_scheme) result" where
  "copyuvm pgdir sz s =
     bindr (setupkvm s) (\<lambda>(d, s1).
     if d = 0 then Ok (0, s1) else copyuvm_loop 0x100001 pgdir d 0 sz s1)"

definition uva2ka :: "u32 \<Rightarrow> u32 \<Rightarrow> 'a machine_scheme \<Rightarrow> u32 result" where
  "uva2ka pgdir uva s =
     (let (pte, s1) = walkpgdir pgdir uva False s in
      if pte = 0 then UB ''uva2ka: null pte''
      else
        let e = ld32 (heap s1) pte in
        if e AND PTE_P = 0 then Ok 0
        else if e AND PTE_U = 0 then Ok 0
        else Ok (P2V (PTE_ADDR e)))"

lemma page_rest_pos: "0 < unat (PGSIZE - (va - PGROUNDDOWN va))"
proof -
  have "unat (va - PGROUNDDOWN va) < 4096"
    using in_page_iff [OF pg_aligned_PGROUNDDOWN, of va va] by simp
  then have "va - PGROUNDDOWN va < PGSIZE" by (simp add: word_less_nat_alt)
  then have "PGSIZE - (va - PGROUNDDOWN va) \<noteq> 0" by auto
  then show ?thesis by (simp only: unat_gt_0) simp
qed

function copyout :: "u32 \<Rightarrow> u32 \<Rightarrow> u8 list \<Rightarrow> 'a machine_scheme \<Rightarrow> (int \<times> 'a machine_scheme) result" where
  "copyout pgdir va buf s =
     (if buf = [] then Ok (0, s)
      else
        let va0 = PGROUNDDOWN va in
        bindr (uva2ka pgdir va0 s) (\<lambda>pa0.
        if pa0 = 0 then Ok (-1, s)
        else
          let n = min (unat (PGSIZE - (va - va0))) (length buf) in
          copyout pgdir (va0 + PGSIZE) (drop n buf)
            (s\<lparr>heap := st_bytes (heap s) (pa0 + (va - va0)) (take n buf)\<rparr>)))"
  by pat_completeness auto
termination
  by (relation "measure (\<lambda>(_, _, buf, _). length buf)") (simp_all add: page_rest_pos)

declare copyout.simps [simp del]

definition handle_cow_fault :: "proc \<Rightarrow> u32 \<Rightarrow> 'a machine_scheme \<Rightarrow> (int \<times> 'a machine_scheme) result" where
  "handle_cow_fault p fault_addr s =
     (if fault_addr \<ge> p_sz p then Ok (-1, s)
      else
        let (pte, s1) = walkpgdir (p_pgdir p) fault_addr False s in
        if pte = 0 then Ok (-1, s1)
        else
          let e = ld32 (heap s1) pte in
          if e AND PTE_P = 0 \<or> e AND PTE_U = 0 then Ok (-1, s1)
          else if e AND PTE_COW = 0 then Ok (-1, s1)
          else
            let pa = PTE_ADDR e; ref_count = get_count pa s1 in
            if ref_count < 1 then Ok (-1, s1)
            else if ref_count = 1 then
              Ok (0, lcr3 (V2P (p_pgdir p))
                 (s1\<lparr>heap := st32 (heap s1) pte ((e OR PTE_W) AND NOT PTE_COW)\<rparr>))
            else
              let (m, s2) = kalloc s1 in
              if m = 0 then Ok (-1, s2)
              else
                let s3 = dec_count pa (s2\<lparr>heap := memmove (heap s2) m (P2V pa) PGSIZE\<rparr>);
                    flags = (PTE_FLAGS (ld32 (heap s3) pte) OR PTE_W) AND NOT PTE_COW;
                    s4 = s3\<lparr>heap := st32 (heap s3) pte 0\<rparr>
                in bindr (mappages (p_pgdir p) (PGROUNDDOWN fault_addr) PGSIZE (V2P m) flags s4) (\<lambda>(r, s5).
                   if r \<noteq> 0 then bindr (kfree m s5) (\<lambda>s6. Ok (-1, s6))
                   else Ok (0, lcr3 (V2P (p_pgdir p)) (set_count (V2P m) 1 s5))))"

section \<open>Flag bits\<close>

lemma flag_bits:
  "e AND PTE_P \<noteq> 0 \<longleftrightarrow> bit e 0" "e AND PTE_W \<noteq> 0 \<longleftrightarrow> bit e 1"
  "e AND PTE_U \<noteq> 0 \<longleftrightarrow> bit e 2" "e AND PTE_COW \<noteq> 0 \<longleftrightarrow> bit e 10" for e :: u32
  using and_exp_eq_0_iff_not_bit [of e 0] and_exp_eq_0_iff_not_bit [of e 1]
    and_exp_eq_0_iff_not_bit [of e 2] and_exp_eq_0_iff_not_bit [of e 10] by simp_all

lemma const_bits:
  "bit (PTE_P :: u32) n \<longleftrightarrow> n = 0" "bit (PTE_W :: u32) n \<longleftrightarrow> n = 1"
  "bit (PTE_U :: u32) n \<longleftrightarrow> n = 2" "bit (PTE_COW :: u32) n \<longleftrightarrow> n = 10"
  using bit_exp_iff [where 'a = u32, of 0 n] bit_exp_iff [where 'a = u32, of 1 n]
    bit_exp_iff [where 'a = u32, of 2 n] bit_exp_iff [where 'a = u32, of 10 n] by auto

end
