(* ===== verification/Cow_Fault.thy ===== *)
theory Cow_Fault
  imports Cow
begin

text \<open>
  What \<open>handle_cow_fault\<close> does on every path: it refuses an access that is not to a present user
  copy-on-write page of the process, makes the last reference writable in place, and otherwise
  gives the process a private writable copy while the shared frame keeps its contents and loses
  one reference.
\<close>

section \<open>The two entries a fault can install\<close>

definition upgrade_pte :: "u32 \<Rightarrow> u32" where
  "upgrade_pte e = (e OR PTE_W) AND NOT PTE_COW"

definition private_pte :: "u32 \<Rightarrow> u32 \<Rightarrow> u32" where
  "private_pte e m = (V2P m OR ((PTE_FLAGS e OR PTE_W) AND NOT PTE_COW)) OR PTE_P"

lemma FFF_mask: "(0xFFF :: u32) = mask 12"
  by (simp add: mask_eq_exp_minus_1)

lemma PTE_ADDR_bit: "bit (PTE_ADDR e) n \<longleftrightarrow> bit e n \<and> 12 \<le> n"
  unfolding PTE_ADDR_def FFF_mask by (auto simp: bit_simps dest: bit_imp_le_length)

lemma PTE_FLAGS_bit: "bit (PTE_FLAGS e) n \<longleftrightarrow> bit e n \<and> n < 12"
  unfolding PTE_FLAGS_def FFF_mask by (auto simp: bit_simps)

lemma upgrade_pte_bits:
  "PTE_ADDR (upgrade_pte e) = PTE_ADDR e" "bit (upgrade_pte e) 1" "\<not> bit (upgrade_pte e) 10"
  "bit (upgrade_pte e) 0 = bit e 0" "bit (upgrade_pte e) 2 = bit e 2"
proof -
  have b: "bit (upgrade_pte e) n \<longleftrightarrow> n < 32 \<and> (bit e n \<or> n = 1) \<and> n \<noteq> 10" for n
    unfolding upgrade_pte_def bit_and_iff bit_or_iff bit_not_iff const_bits
    by (auto simp: possible_bit_word dest: bit_imp_le_length)
  show "PTE_ADDR (upgrade_pte e) = PTE_ADDR e"
    by (rule bit_word_eqI) (auto simp: PTE_ADDR_bit b)
  show "bit (upgrade_pte e) 1" "\<not> bit (upgrade_pte e) 10" "bit (upgrade_pte e) 0 = bit e 0"
    "bit (upgrade_pte e) 2 = bit e 2" by (simp_all add: b)
qed

lemma private_pte_bits:
  assumes "pg_aligned m"
  shows "PTE_ADDR (private_pte e m) = V2P m" "bit (private_pte e m) 0" "bit (private_pte e m) 1"
    "\<not> bit (private_pte e m) 10" "bit (private_pte e m) 2 = bit e 2"
proof -
  let ?f = "(PTE_FLAGS e OR PTE_W) AND NOT PTE_COW"
  have al: "pg_aligned (V2P m)" using assms by simp
  have low: "\<not> bit (V2P m) n" if "n < 12" for n using pg_aligned_low_bits [OF al that] .
  have f: "bit ?f n \<longleftrightarrow> (bit e n \<and> n < 12 \<or> n = 1) \<and> n \<noteq> 10" for n
    unfolding PTE_FLAGS_bit bit_and_iff bit_or_iff bit_not_iff const_bits by (auto simp: possible_bit_word)
  have "PTE_ADDR ?f = 0"
    by (rule bit_word_eqI) (simp only: PTE_ADDR_bit f, auto)
  from mapped_entry(1) [OF al this] show "PTE_ADDR (private_pte e m) = V2P m" by (simp add: private_pte_def)
  show "bit (private_pte e m) 0" "bit (private_pte e m) 1"
    "\<not> bit (private_pte e m) 10" "bit (private_pte e m) 2 = bit e 2"
    unfolding private_pte_def bit_or_iff [of "V2P m OR _"] bit_or_iff [of "V2P m"] f const_bits
    using low [of 2] low [of 10] by simp_all
qed

section \<open>Mapping a page whose table exists\<close>

lemma mappages_present:
  assumes inv: "vm_inv s pgdir xs" and al: "pg_aligned a" and pd: "pd_present (heap s) pgdir (PDX a)"
    and np: "\<not> present (heap s) pgdir a"
  shows "mappages pgdir a PGSIZE pa prm s =
    Ok (0, s\<lparr>heap := st32 (heap s) (ptab (heap s) pgdir (PDX a) + 4 * PTX a) ((pa OR prm) OR PTE_P)\<rparr>)"
proof -
  let ?slot = "ptab (heap s) pgdir (PDX a) + 4 * PTX a"
  have nz: "?slot \<noteq> 0"
    using slot_nonzero [OF ptab_kpage(1) [OF vm_invD(2) [OF inv] PDX_less pd] PTX_less] .
  have "ld32 (heap s) ?slot AND PTE_P = 0" using np slot_word [OF pd] by (simp add: present_def)
  moreover have "(0x100000 :: nat) = Suc 0xFFFFF" by simp
  moreover have "PGROUNDDOWN a = a" "PGROUNDDOWN (a + PGSIZE - 1) = a"
    using al page_range_one(1) [OF al] by (simp_all add: pg_aligned_iff)
  ultimately show ?thesis
    unfolding mappages_def using nz by (simp only: mappages_loop.simps walk_present [OF pd]) (simp add: Let_def)
qed

text \<open>Taking the first free page and filling it with anything leaves the page table as it was.\<close>

lemma take_filled:
  assumes inv: "vm_inv s pgdir (m # ys)" and h': "\<forall>p. p \<noteq> m \<longrightarrow> same_page (heap s) h' p"
    and t: "heap t = h'" "kmem_freelist t = ld32 (heap s) m" "kend t = kend s"
  shows "vm_inv t pgdir ys" "pt_pages h' pgdir = pt_pages (heap s) pgdir"
    "pte_at h' pgdir w = pte_at (heap s) pgdir w" "kpage s m" "m \<notin> set ys" "m \<notin> pt_pages (heap s) pgdir"
    "\<And>i. unat i < 1024 \<Longrightarrow> page_words h' pgdir i = page_words (heap s) pgdir i"
proof -
  note fi = vm_invD(1) [OF inv]
  show m: "kpage s m" "m \<notin> set ys" using fi by (auto simp: free_inv_def)
  show np: "m \<notin> pt_pages (heap s) pgdir" using vm_invD(3) [OF inv] by auto
  have sp: "same_page (heap s) h' p" if "p \<in> pt_pages (heap s) pgdir" for p
    using that np h' by auto
  note same = pt_same_pages [OF vm_invD(2) [OF inv] sp]
  show "pt_pages h' pgdir = pt_pages (heap s) pgdir" "pte_at h' pgdir w = pte_at (heap s) pgdir w"
    "\<And>i. unat i < 1024 \<Longrightarrow> page_words h' pgdir i = page_words (heap s) pgdir i"
    using same by simp_all
  have "same_page (heap s) (heap t) x" if "x \<in> set ys" for x
    using that m(2) t(1) h' by auto
  then have "free_inv t ys"
    using t by (intro free_inv_frame [OF kalloc_free_inv(2) [OF fi]]) simp_all
  moreover have "pgdir_inv t pgdir"
    by (rule pgdir_inv_frame [OF vm_invD(2) [OF inv] t(3)]) (use sp t(1) in simp)
  ultimately show "vm_inv t pgdir ys"
    using vm_invD(3) [OF inv] same(2) t(1) by (simp add: vm_inv_def)
qed

section \<open>Every path of the handler\<close>

definition cow_ready :: "'a machine_scheme \<Rightarrow> proc \<Rightarrow> u32 \<Rightarrow> bool" where
  "cow_ready s p fa \<longleftrightarrow> fa < p_sz p \<and>
     (let e = pte_at (heap s) (p_pgdir p) fa in bit e 0 \<and> bit e 2 \<and> bit e 10 \<and> get_count (PTE_ADDR e) s \<noteq> 0)"

lemma cow_fault_refuses:
  assumes inv: "pgdir_inv s (p_pgdir p)" and nr: "\<not> cow_ready s p fa"
  shows "handle_cow_fault p fa s = Ok (-1, s)"
proof -
  note w = walk_noalloc [OF inv, of fa]
  have z: "c < 1 \<longleftrightarrow> c = 0" for c :: u8 by (simp add: word_less_nat_alt unat_eq_zero)
  show ?thesis
  proof (cases "pd_present (heap s) (p_pgdir p) (PDX fa)")
    case True
    let ?slot = "ptab (heap s) (p_pgdir p) (PDX fa) + 4 * PTX fa"
    have nz: "?slot \<noteq> 0" using w(2) True by (simp add: walk_present)
    have "fa \<ge> p_sz p \<or> pte_at (heap s) (p_pgdir p) fa AND PTE_P = 0 \<or> pte_at (heap s) (p_pgdir p) fa AND PTE_U = 0
      \<or> pte_at (heap s) (p_pgdir p) fa AND PTE_COW = 0 \<or> get_count (PTE_ADDR (pte_at (heap s) (p_pgdir p) fa)) s = 0"
      using nr flag_bits [of "pte_at (heap s) (p_pgdir p) fa"] unfolding cow_ready_def Let_def by force
    then show ?thesis
      unfolding handle_cow_fault_def walk_present [OF True] using nz slot_word [OF True]
      by (auto simp: Let_def z)
  next
    case False
    then show ?thesis by (simp add: handle_cow_fault_def walk_absent)
  qed
qed

lemma cow_ready_slot:
  assumes inv: "vm_inv s (p_pgdir p) xs" and rd: "cow_ready s p fa"
  shows "pd_present (heap s) (p_pgdir p) (PDX fa)" "ptab (heap s) (p_pgdir p) (PDX fa) + 4 * PTX fa \<noteq> 0"
    "handle_cow_fault p fa s =
      (let pte = ptab (heap s) (p_pgdir p) (PDX fa) + 4 * PTX fa; e = pte_at (heap s) (p_pgdir p) fa; pa = PTE_ADDR e in
       if get_count pa s = 1 then
         Ok (0, lcr3 (V2P (p_pgdir p)) (s\<lparr>heap := st32 (heap s) pte (upgrade_pte e)\<rparr>))
       else
         let (m, s2) = kalloc s in
         if m = 0 then Ok (-1, s2)
         else
           let s3 = dec_count pa (s2\<lparr>heap := memmove (heap s2) m (P2V pa) PGSIZE\<rparr>);
               flags = (PTE_FLAGS (ld32 (heap s3) pte) OR PTE_W) AND NOT PTE_COW;
               s4 = s3\<lparr>heap := st32 (heap s3) pte 0\<rparr>
           in bindr (mappages (p_pgdir p) (PGROUNDDOWN fa) PGSIZE (V2P m) flags s4) (\<lambda>(r, s5).
              if r \<noteq> 0 then bindr (kfree m s5) (\<lambda>s6. Ok (-1, s6))
              else Ok (0, lcr3 (V2P (p_pgdir p)) (set_count (V2P m) 1 s5))))"
proof -
  have r: "fa < p_sz p" "bit (pte_at (heap s) (p_pgdir p) fa) 0" "bit (pte_at (heap s) (p_pgdir p) fa) 2"
    "bit (pte_at (heap s) (p_pgdir p) fa) 10" "get_count (PTE_ADDR (pte_at (heap s) (p_pgdir p) fa)) s \<noteq> 0"
    using rd by (auto simp: cow_ready_def Let_def)
  show pd: "pd_present (heap s) (p_pgdir p) (PDX fa)"
    using r(2) by (auto simp: pte_at_def split: if_splits)
  show nz: "ptab (heap s) (p_pgdir p) (PDX fa) + 4 * PTX fa \<noteq> 0"
    using slot_nonzero [OF ptab_kpage(1) [OF vm_invD(2) [OF inv] PDX_less pd] PTX_less] .
  have z: "\<not> get_count (PTE_ADDR (pte_at (heap s) (p_pgdir p) fa)) s < 1"
    using r(5) by (simp add: word_less_nat_alt unat_eq_zero)
  have le: "\<not> p_sz p \<le> fa" using r(1) by simp
  have f: "pte_at (heap s) (p_pgdir p) fa AND PTE_P \<noteq> 0" "pte_at (heap s) (p_pgdir p) fa AND PTE_U \<noteq> 0"
    "pte_at (heap s) (p_pgdir p) fa AND PTE_COW \<noteq> 0"
    using r(2,3,4) flag_bits [of "pte_at (heap s) (p_pgdir p) fa"] by simp_all
  have c: "\<not> (pte_at (heap s) (p_pgdir p) fa AND PTE_P = 0 \<or> pte_at (heap s) (p_pgdir p) fa AND PTE_U = 0)"
    "\<not> pte_at (heap s) (p_pgdir p) fa AND PTE_COW = 0" using f by blast+
  show "handle_cow_fault p fa s = (let pte = ptab (heap s) (p_pgdir p) (PDX fa) + 4 * PTX fa;
       e = pte_at (heap s) (p_pgdir p) fa; pa = PTE_ADDR e in
       if get_count pa s = 1 then
         Ok (0, lcr3 (V2P (p_pgdir p)) (s\<lparr>heap := st32 (heap s) pte (upgrade_pte e)\<rparr>))
       else
         let (m, s2) = kalloc s in
         if m = 0 then Ok (-1, s2)
         else
           let s3 = dec_count pa (s2\<lparr>heap := memmove (heap s2) m (P2V pa) PGSIZE\<rparr>);
               flags = (PTE_FLAGS (ld32 (heap s3) pte) OR PTE_W) AND NOT PTE_COW;
               s4 = s3\<lparr>heap := st32 (heap s3) pte 0\<rparr>
           in bindr (mappages (p_pgdir p) (PGROUNDDOWN fa) PGSIZE (V2P m) flags s4) (\<lambda>(r, s5).
              if r \<noteq> 0 then bindr (kfree m s5) (\<lambda>s6. Ok (-1, s6))
              else Ok (0, lcr3 (V2P (p_pgdir p)) (set_count (V2P m) 1 s5))))"
    unfolding handle_cow_fault_def walk_present [OF pd] Let_def split_conv slot_word [OF pd] upgrade_pte_def
      if_not_P [OF le] if_not_P [OF nz] if_not_P [OF c(1)] if_not_P [OF c(2)] if_not_P [OF z]
    by (rule refl)
qed

text \<open>The last reference becomes writable in place.\<close>

lemma cow_fault_last:
  assumes inv: "vm_inv s (p_pgdir p) xs" and rd: "cow_ready s p fa"
  defines "e \<equiv> pte_at (heap s) (p_pgdir p) fa"
  assumes one: "get_count (PTE_ADDR e) s = 1"
  shows "\<exists>s'. handle_cow_fault p fa s = Ok (0, s') \<and> vm_inv s' (p_pgdir p) xs
    \<and> (\<forall>w. pte_at (heap s') (p_pgdir p) w =
          (if PGROUNDDOWN w = PGROUNDDOWN fa then upgrade_pte e else pte_at (heap s) (p_pgdir p) w))
    \<and> cow_ref_counts s' = cow_ref_counts s
    \<and> (\<forall>q. q \<notin> pt_pages (heap s) (p_pgdir p) \<longrightarrow> same_page (heap s) (heap s') q)"
proof -
  let ?slot = "ptab (heap s) (p_pgdir p) (PDX fa) + 4 * PTX fa"
  let ?t = "s\<lparr>heap := st32 (heap s) ?slot (upgrade_pte e)\<rparr>"
  note pd = cow_ready_slot(1) [OF inv rd]
  note st = store_slot [OF inv pd, where v = "upgrade_pte e"]
  have "handle_cow_fault p fa s = Ok (0, lcr3 (V2P (p_pgdir p)) ?t)"
    using cow_ready_slot(3) [OF inv rd] one by (simp add: e_def)
  moreover have "vm_inv (lcr3 (V2P (p_pgdir p)) ?t) (p_pgdir p) xs"
    using pt_stepD(1) [OF st(1)] by (simp add: vm_inv_def free_inv_def pgdir_inv_def kpage_def)
  moreover have "same_page (heap s) (heap ?t) q" if "q \<notin> pt_pages (heap s) (p_pgdir p)" for q
  proof -
    have "q \<noteq> ptab (heap s) (p_pgdir p) (PDX fa)" using that pt_pagesI [OF PDX_less pd] by auto
    then show ?thesis
      using st32_same_page [OF ptab_kpage(2) [OF vm_invD(2) [OF inv] PDX_less pd] PTX_less] by simp
  qed
  ultimately show ?thesis using st(2) by simp
qed

text \<open>With other references left and no free page, the fault fails and changes nothing.\<close>

lemma cow_fault_full:
  assumes inv: "vm_inv s (p_pgdir p) []" and rd: "cow_ready s p fa"
    and many: "get_count (PTE_ADDR (pte_at (heap s) (p_pgdir p) fa)) s \<noteq> 1"
  shows "handle_cow_fault p fa s = Ok (-1, s)"
  using cow_ready_slot(3) [OF inv rd] many kalloc_empty [OF vm_invD(1) [OF inv]] by simp

text \<open>With other references left and a free page, the process gets a private copy.\<close>

lemma cow_fault_copy:
  assumes inv: "vm_inv s (p_pgdir p) (m # ys)" and rd: "cow_ready s p fa"
  defines "e \<equiv> pte_at (heap s) (p_pgdir p) fa"
  assumes many: "get_count (PTE_ADDR e) s \<noteq> 1"
    and fr: "kpage s (P2V (PTE_ADDR e))" "P2V (PTE_ADDR e) \<notin> set (m # ys) \<union> pt_pages (heap s) (p_pgdir p)"
  shows "\<exists>s'. handle_cow_fault p fa s = Ok (0, s') \<and> vm_inv s' (p_pgdir p) ys
    \<and> (\<forall>w. pte_at (heap s') (p_pgdir p) w =
          (if PGROUNDDOWN w = PGROUNDDOWN fa then private_pte e m else pte_at (heap s) (p_pgdir p) w))
    \<and> (\<forall>off. unat off < 4096 \<longrightarrow> heap s' (m + off) = heap s (P2V (PTE_ADDR e) + off))
    \<and> cow_ref_counts s' = (cow_ref_counts s)(PPN (PTE_ADDR e) := get_count (PTE_ADDR e) s - 1, PPN (V2P m) := 1)
    \<and> (\<forall>q. q \<notin> insert m (pt_pages (heap s) (p_pgdir p)) \<longrightarrow> same_page (heap s) (heap s') q)"
proof -
  let ?d = "p_pgdir p" and ?F = "P2V (PTE_ADDR e)"
  let ?slot = "ptab (heap s) ?d (PDX fa) + 4 * PTX fa"
  let ?h = "memmove (heap s) m ?F PGSIZE"
  let ?s1 = "s\<lparr>kmem_freelist := ld32 (heap s) m\<rparr>"
  define s3 where "s3 = dec_count (PTE_ADDR e) (?s1\<lparr>heap := ?h\<rparr>)"
  have h3: "heap s3 = ?h" "kmem_freelist s3 = ld32 (heap s) m" "kend s3 = kend s" by (simp_all add: s3_def)
  note pd = cow_ready_slot(1) [OF inv rd]
  have mk: "kpage s m" using vm_invD(1) [OF inv] by (simp add: free_inv_def)
  have move: "?h x = (if PGROUNDDOWN x = m then heap s (?F + (x - m)) else heap s x)" for x
    using memmove_page [OF kpage_aligned [OF mk] kpage_aligned [OF fr(1)]] kpage_range(2) [OF mk]
      kpage_range(2) [OF fr(1)] by simp
  have other: "\<forall>q. q \<noteq> m \<longrightarrow> same_page (heap s) ?h q" by (simp add: same_page_def move)
  note tf = take_filled [OF inv other h3]
  have pw: "page_words ?h ?d (PDX fa) = page_words (heap s) ?d (PDX fa)" using tf(7) [OF PDX_less] .
  have pd3: "pd_present (heap s3) ?d (PDX fa)" "ptab (heap s3) ?d (PDX fa) = ptab (heap s) ?d (PDX fa)"
    using pd pw h3(1) by (simp_all add: pd_present_def ptab_def)
  note st0 = store_slot [OF tf(1) pd3(1), where v = 0, unfolded pd3(2)]
  define s4 where "s4 = s3\<lparr>heap := st32 (heap s3) ?slot 0\<rparr>"
  have inv4: "vm_inv s4 ?d ys" using pt_stepD(1) [OF st0(1)] by (simp add: s4_def)
  let ?a = "PGROUNDDOWN fa" and ?v = "private_pte e m"
  have ia: "PDX ?a = PDX fa" "PTX ?a = PTX fa"
    using va_indices_page [of ?a fa] pg_aligned_iff [of ?a] by simp_all
  have slotpage: "same_page (heap s3) (heap s4) ?d"
    using st32_same_page [OF ptab_kpage(2) [OF vm_invD(2) [OF tf(1)] PDX_less pd3(1)] PTX_less]
      ptab_kpage(3) [OF vm_invD(2) [OF tf(1)] PDX_less pd3(1)] by (simp add: s4_def pd3(2))
  have pw4: "page_words (heap s4) ?d (PDX fa) = page_words (heap s) ?d (PDX fa)"
    using page_words_same_page [OF slotpage vm_invD(5) [OF inv] PDX_less] pw h3(1) by simp
  have pd4: "pd_present (heap s4) ?d (PDX ?a)" "ptab (heap s4) ?d (PDX ?a) = ptab (heap s) ?d (PDX fa)"
    using pd pw4 by (simp_all add: pd_present_def ptab_def ia)
  have np4: "\<not> present (heap s4) ?d ?a"
    using st0(2) [of ?a] pg_aligned_iff [of ?a] by (simp add: present_def s4_def)
  have fl: "PTE_FLAGS (ld32 (heap s3) ?slot) = PTE_FLAGS e"
    using slot_word [OF pd3(1), unfolded pd3(2)] tf(3) [of fa] by (simp add: h3(1) e_def)
  define s5 where "s5 = s4\<lparr>heap := st32 (heap s4) ?slot ?v\<rparr>"
  have mp: "mappages ?d ?a PGSIZE (V2P m) ((PTE_FLAGS (ld32 (heap s3) ?slot) OR PTE_W) AND NOT PTE_COW) s4 = Ok (0, s5)"
    unfolding mappages_present [OF inv4 pg_aligned_PGROUNDDOWN pd4(1) np4] ia pd4(2) [unfolded ia] fl s5_def private_pte_def ..
  have nz: "m \<noteq> 0" using mk kpage_nonzero by blast
  have run: "handle_cow_fault p fa s = Ok (0, lcr3 (V2P ?d) (set_count (V2P m) 1 s5))"
    unfolding cow_ready_slot(3) [OF inv rd] Let_def kalloc_free_inv(1) [OF vm_invD(1) [OF inv]] split_conv
      e_def [symmetric] if_not_P [OF many] if_not_P [OF nz]
    using mp unfolding s4_def s3_def by simp
  note st1 = store_slot [OF inv4 pd4(1), where v = ?v, unfolded ia pd4(2) [unfolded ia], folded s5_def]
  have inv5: "vm_inv (lcr3 (V2P ?d) (set_count (V2P m) 1 s5)) ?d ys"
    using pt_stepD(1) [OF st1(1)] by (simp add: vm_inv_def free_inv_def pgdir_inv_def kpage_def)
  have pte: "pte_at (heap s5) ?d w = (if PGROUNDDOWN w = ?a then ?v else pte_at (heap s) ?d w)" for w
    using st1(2) [of w] st0(2) [of w] tf(3) [of w] pg_aligned_iff [of ?a]
    by (simp add: s4_def h3(1))
  have tabp: "pg_aligned (ptab (heap s) ?d (PDX fa))" "ptab (heap s) ?d (PDX fa) \<in> pt_pages (heap s) ?d"
    using ptab_kpage(2) [OF vm_invD(2) [OF inv] PDX_less pd] pt_pagesI [OF PDX_less pd] by auto
  have tail: "same_page ?h (heap s5) q" if "q \<noteq> ptab (heap s) ?d (PDX fa)" for q
    unfolding s5_def s4_def h3(1)
    using st32_same_page [OF tabp(1) PTX_less that] by (auto simp: h3(1) intro: same_page_trans)
  have "m \<noteq> ptab (heap s) ?d (PDX fa)" using tf(6) tabp(2) by auto
  then have "heap s5 (m + off) = heap s (?F + off)" if "unat off < 4096" for off
    using tail [of m] page_plus [OF kpage_aligned [OF mk] that] by (simp add: same_page_def move)
  moreover have "same_page (heap s) (heap s5) q" if "q \<notin> insert m (pt_pages (heap s) ?d)" for q
    using that other tail [of q] tabp(2) by (auto intro: same_page_trans)
  moreover have "cow_ref_counts (lcr3 (V2P ?d) (set_count (V2P m) 1 s5)) =
      (cow_ref_counts s)(PPN (PTE_ADDR e) := get_count (PTE_ADDR e) s - 1, PPN (V2P m) := 1)"
  proof -
    have "0 < get_count (PTE_ADDR e) s"
      using rd by (auto simp: cow_ready_def e_def Let_def word_greater_zero_iff)
    then have "cow_ref_counts s5 = (cow_ref_counts s)(PPN (PTE_ADDR e) := get_count (PTE_ADDR e) s - 1)"
      by (simp add: s5_def s4_def s3_def dec_count_def get_count_def Let_def)
    then show ?thesis by (simp add: set_count_def)
  qed
  ultimately show ?thesis using run inv5 pte by simp
qed

end
