(* ===== verification/Cow_Fork.thy ===== *)
theory Cow_Fork
  imports Cow_Fault
begin

text \<open>
  Correctness of \<open>copyuvm\<close>: after a successful copy, parent and child map every page of the parent
  to the same frame with the same read-only copy-on-write entry, no frame has changed, and every
  frame has one more reference for each page that maps it.
\<close>

section \<open>Shared entries\<close>

definition share :: "u32 \<Rightarrow> u32" where
  "share e = (if bit e 1 then ((e AND NOT PTE_W) OR PTE_COW) OR (PTE_P OR PTE_U) else e)"

lemma share_bit:
  "bit (share e) n \<longleftrightarrow> (if bit e 1 then bit e n \<and> n \<noteq> 1 \<or> n = 10 \<or> n = 0 \<or> n = 2 else bit e n)"
  unfolding share_def by (simp only: if_distrib [of "\<lambda>x. bit x n"] bit_and_iff bit_or_iff bit_not_iff const_bits)
    (auto simp: possible_bit_word dest: bit_imp_le_length)

lemma share_props:
  "PTE_ADDR (share e) = PTE_ADDR e" "\<not> bit (share e) 1" "bit e 0 \<Longrightarrow> bit (share e) 0"
  "bit e 1 \<Longrightarrow> bit (share e) 10"
proof -
  show "PTE_ADDR (share e) = PTE_ADDR e"
    by (rule bit_word_eqI) (auto simp: PTE_ADDR_bit share_bit)
qed (auto simp: share_bit)

text \<open>The child's entry, built from the parent's address and flags, is the parent's new entry.\<close>

lemma child_entry:
  assumes "bit e 0"
  defines "flags \<equiv> (if PTE_FLAGS e AND PTE_W \<noteq> 0
     then ((PTE_FLAGS e AND NOT PTE_W) OR PTE_COW) OR (PTE_P OR PTE_U) else PTE_FLAGS e)"
  shows "(PTE_ADDR e OR flags) OR PTE_P = share e"
proof -
  have f: "bit flags n \<longleftrightarrow> bit (share e) n \<and> n < 12" for n
    unfolding flags_def flag_bits PTE_FLAGS_bit share_bit
    by (simp only: if_distrib [of "\<lambda>x. bit x n"] bit_and_iff bit_or_iff bit_not_iff const_bits PTE_FLAGS_bit)
      (auto simp: possible_bit_word)
  show ?thesis
    by (rule bit_word_eqI, simp only: bit_or_iff f PTE_ADDR_bit const_bits share_bit) (use assms(1) in auto)
qed

section \<open>Two page tables side by side\<close>

lemma pt_step_other:
  assumes inv: "vm_inv s e xs" and st: "pt_step s d xs s' ys"
    and dj: "pt_pages (heap s) e \<inter> pt_pages (heap s) d = {}"
  shows "vm_inv s' e ys" "pt_pages (heap s') e = pt_pages (heap s) e"
    "pte_at (heap s') e w = pte_at (heap s) e w" "pt_pages (heap s') e \<inter> pt_pages (heap s') d = {}"
proof -
  have sp: "same_page (heap s) (heap s') p" if "p \<in> pt_pages (heap s) e" for p
    using that dj vm_invD(3) [OF inv] by (intro pt_step_frame [OF st]) auto
  note same = pt_same_pages [OF vm_invD(2) [OF inv] sp]
  show pe: "pt_pages (heap s') e = pt_pages (heap s) e" "pte_at (heap s') e w = pte_at (heap s) e w"
    using same by simp_all
  show "pt_pages (heap s') e \<inter> pt_pages (heap s') d = {}"
    using pe(1) pt_step_pages [OF st] dj vm_invD(3) [OF inv] by auto
  have "pgdir_inv s' e" using pgdir_inv_frame [OF vm_invD(2) [OF inv] pt_stepD(3) [OF st] sp] .
  moreover have "free_inv s' ys" using pt_stepD(1) [OF st] by (rule vm_invD)
  ultimately show "vm_inv s' e ys"
    using vm_invD(3) [OF inv] pe(1) pt_stepD(2) [OF st] by (auto simp: vm_inv_def)
qed

section \<open>Progress of the copy\<close>

definition refs :: "'a machine_scheme \<Rightarrow> u32 \<Rightarrow> u32 \<Rightarrow> u32 \<Rightarrow> nat" where
  "refs s pgdir i pa = card {v. pg_aligned v \<and> v < i \<and> PPN (frame_of (heap s) pgdir v) = PPN pa}"

definition shared :: "'a machine_scheme \<Rightarrow> u32 \<Rightarrow> u32 \<Rightarrow> u32 list \<Rightarrow> u32 \<Rightarrow> 'a machine_scheme \<Rightarrow> u32 list \<Rightarrow> bool" where
  "shared s0 pgdir d xs i s ys \<longleftrightarrow>
     vm_inv s pgdir ys \<and> vm_inv s d ys \<and> pt_pages (heap s) pgdir \<inter> pt_pages (heap s) d = {}
     \<and> set ys \<subseteq> set xs \<and> pt_pages (heap s) pgdir = pt_pages (heap s0) pgdir
     \<and> pt_pages (heap s) d = pt_pages (heap s0) d \<union> (set xs - set ys)
     \<and> (\<forall>w. pte_at (heap s) pgdir w =
          (if rng 0 i w then share (pte_at (heap s0) pgdir w) else pte_at (heap s0) pgdir w))
     \<and> (\<forall>w. pte_at (heap s) d w =
          (if rng 0 i w then share (pte_at (heap s0) pgdir w) else pte_at (heap s0) d w))
     \<and> (\<forall>p. p \<notin> pt_pages (heap s0) pgdir \<union> pt_pages (heap s0) d \<union> set xs \<longrightarrow> same_page (heap s0) (heap s) p)
     \<and> (\<forall>pa. unat (get_count pa s) = min 255 (unat (get_count pa s0) + refs s0 pgdir i pa))
     \<and> kend s = kend s0"

lemma sharedD:
  assumes "shared s0 pgdir d xs i s ys"
  shows "vm_inv s pgdir ys" "vm_inv s d ys" "pt_pages (heap s) pgdir \<inter> pt_pages (heap s) d = {}"
    "set ys \<subseteq> set xs" "pt_pages (heap s) pgdir = pt_pages (heap s0) pgdir"
    "pt_pages (heap s) d = pt_pages (heap s0) d \<union> (set xs - set ys)"
    "pte_at (heap s) pgdir w =
       (if rng 0 i w then share (pte_at (heap s0) pgdir w) else pte_at (heap s0) pgdir w)"
    "pte_at (heap s) d w = (if rng 0 i w then share (pte_at (heap s0) pgdir w) else pte_at (heap s0) d w)"
    "p \<notin> pt_pages (heap s0) pgdir \<union> pt_pages (heap s0) d \<union> set xs \<Longrightarrow> same_page (heap s0) (heap s) p"
    "unat (get_count pa s) = min 255 (unat (get_count pa s0) + refs s0 pgdir i pa)" "kend s = kend s0"
  using assms unfolding shared_def by blast+

lemma refs_0: "refs s pgdir 0 pa = 0"
  by (simp add: refs_def)

lemma refs_Suc:
  assumes "pg_aligned i" "unat i + 4096 < 4294967296"
  shows "refs s pgdir (i + PGSIZE) pa =
    refs s pgdir i pa + (if PPN (frame_of (heap s) pgdir i) = PPN pa then 1 else 0)"
proof -
  let ?P = "\<lambda>v. PPN (frame_of (heap s) pgdir v) = PPN pa"
  have u: "unat (i + PGSIZE) = unat i + 4096" using assms(2) by (simp add: unat_add32)
  have lt: "v < i + PGSIZE \<longleftrightarrow> v < i \<or> v = i" if v: "pg_aligned v" for v
  proof -
    obtain j k where "unat v = 4096 * j" "unat i = 4096 * k" using v assms(1) pg_alignedE by metis
    then show ?thesis by (auto simp: word_less_nat_alt u word_unat_eq_iff)
  qed
  have "{v. pg_aligned v \<and> v < i + PGSIZE \<and> ?P v} =
      {v. pg_aligned v \<and> v < i \<and> ?P v} \<union> (if ?P i then {i} else {})"
    using lt assms(1) by auto
  moreover have "finite {v. pg_aligned v \<and> v < i \<and> ?P v}" by simp
  ultimately show ?thesis by (simp add: refs_def)
qed

lemma shared_start:
  assumes "vm_inv s pgdir xs" "vm_inv s d xs" "pt_pages (heap s) pgdir \<inter> pt_pages (heap s) d = {}"
  shows "shared s pgdir d xs 0 s xs"
proof -
  have "unat (get_count pa s) = min 255 (unat (get_count pa s))" for pa
    using unat_lt_2_8 [of "get_count pa s"] by simp
  then show ?thesis
    using assms unfolding shared_def refs_0 by (simp add: rng_def)
qed

text \<open>Marking the parent's entry, by a store only where the entry was writable.\<close>

lemma mark_parent:
  assumes inv: "vm_inv s pgdir ys" and pr: "present (heap s) pgdir i" and al: "pg_aligned i"
  defines "slot \<equiv> ptab (heap s) pgdir (PDX i) + 4 * PTX i" and "e \<equiv> pte_at (heap s) pgdir i"
  defines "s2 \<equiv> (if PTE_FLAGS e AND PTE_W \<noteq> 0 then s\<lparr>heap := st32 (heap s) slot
      (((e AND NOT PTE_W) OR PTE_COW) OR (PTE_P OR PTE_U))\<rparr> else s)"
  shows "walkpgdir pgdir i False s = (slot, s)" "slot \<noteq> 0" "ld32 (heap s) slot = e" "bit e 0"
    "pt_step s pgdir ys s2 ys" "pt_pages (heap s2) pgdir = pt_pages (heap s) pgdir"
    "pte_at (heap s2) pgdir w = (if PGROUNDDOWN w = i then share e else pte_at (heap s) pgdir w)"
proof -
  have b: "bit e 0" using pr flag_bits(1) by (simp add: present_def e_def)
  then have pd: "pd_present (heap s) pgdir (PDX i)" by (auto simp: e_def pte_at_def split: if_splits)
  show "walkpgdir pgdir i False s = (slot, s)" "ld32 (heap s) slot = e" "bit e 0"
    using walk_present [OF pd] slot_word [OF pd] b by (simp_all add: slot_def e_def)
  show "slot \<noteq> 0"
    unfolding slot_def using slot_nonzero [OF ptab_kpage(1) [OF vm_invD(2) [OF inv] PDX_less pd] PTX_less] .
  have w: "PTE_FLAGS e AND PTE_W \<noteq> 0 \<longleftrightarrow> bit e 1" by (simp only: flag_bits PTE_FLAGS_bit) simp
  have st: "pt_step s pgdir ys s2 ys \<and> pt_pages (heap s2) pgdir = pt_pages (heap s) pgdir
    \<and> pte_at (heap s2) pgdir w = (if PGROUNDDOWN w = i then share e else pte_at (heap s) pgdir w)"
  proof (cases "bit e 1")
    case True
    then have s2: "s2 = s\<lparr>heap := st32 (heap s) slot (share e)\<rparr>" using w by (simp add: s2_def share_def)
    show ?thesis
      using store_slot [OF inv pd, where v = "share e"] al by (simp add: s2 slot_def pg_aligned_iff)
  next
    case False
    then have s2: "s2 = s" "share e = e" using w by (simp_all add: s2_def share_def)
    show ?thesis
      using pt_step_refl [OF inv] pte_at_page [of w i "heap s" pgdir] al s2(2)
      by (simp add: s2(1) e_def pg_aligned_iff)
  qed
  then show "pt_step s pgdir ys s2 ys" "pt_pages (heap s2) pgdir = pt_pages (heap s) pgdir"
    "pte_at (heap s2) pgdir w = (if PGROUNDDOWN w = i then share e else pte_at (heap s) pgdir w)"
    by blast+
qed

lemma inc_count_vm_inv: "vm_inv (lcr3 a (lcr3 b (inc_count pa s))) pgdir xs = vm_inv s pgdir xs"
  by (simp add: vm_inv_def free_inv_def pgdir_inv_def kpage_def)

lemma shared_next:
  assumes sh: "shared s0 pgdir d xs i s ys" and al: "pg_aligned i" and small: "unat i + 4096 < 4294967296"
    and s2: "pt_step s pgdir ys s2 ys" "pt_pages (heap s2) pgdir = pt_pages (heap s) pgdir"
      "\<And>w. pte_at (heap s2) pgdir w = (if PGROUNDDOWN w = i then share (pte_at (heap s0) pgdir i)
         else pte_at (heap s) pgdir w)"
    and s3: "pt_step s2 d ys s3 zs" "\<And>w. pte_at (heap s3) d w =
         (if PGROUNDDOWN w = i then share (pte_at (heap s0) pgdir i) else pte_at (heap s2) d w)"
    and s': "s' = lcr3 a (lcr3 b (inc_count (frame_of (heap s0) pgdir i) s3))"
  shows "shared s0 pgdir d xs (i + PGSIZE) s' zs"
  unfolding shared_def
proof (intro conjI allI impI)
  have dj: "pt_pages (heap s) d \<inter> pt_pages (heap s) pgdir = {}" using sharedD(3) [OF sh] by blast
  note od = pt_step_other [OF sharedD(2) [OF sh] s2(1) dj]
  have dj2: "pt_pages (heap s2) pgdir \<inter> pt_pages (heap s2) d = {}" using od(4) by blast
  note op = pt_step_other [OF pt_stepD(1) [OF s2(1)] s3(1) dj2]
  have h: "heap s' = heap s3" by (simp add: s')
  show "vm_inv s' pgdir zs" "vm_inv s' d zs"
    using op(1) pt_stepD(1) [OF s3(1)] by (simp_all only: s' inc_count_vm_inv)
  show "pt_pages (heap s') pgdir \<inter> pt_pages (heap s') d = {}" using op(4) by (simp add: h)
  note sub = sharedD(4) [OF sh] pt_stepD(2) [OF s3(1)]
  show "set zs \<subseteq> set xs" using sub by blast
  show "pt_pages (heap s') pgdir = pt_pages (heap s0) pgdir"
    using op(2) s2(2) sharedD(5) [OF sh] by (simp add: h)
  show "pt_pages (heap s') d = pt_pages (heap s0) d \<union> (set xs - set zs)"
    using pt_step_pages [OF s3(1)] od(2) sharedD(6) [OF sh] sub by (auto simp: h)
  have r: "rng 0 (i + PGSIZE) w \<longleftrightarrow> rng 0 i w \<or> PGROUNDDOWN w = i" for w
  proof -
    have "i \<le> i + PGSIZE" using small by (simp add: word_le_nat_alt unat_add32)
    then show ?thesis using rng_split [of 0 i "i + PGSIZE" w] rng_page [OF al small] by simp
  qed
  have page: "pte_at (heap s0) pgdir w = pte_at (heap s0) pgdir i" if "PGROUNDDOWN w = i" for w
    using that al pte_at_page [of w i] by (simp add: pg_aligned_iff)
  show "pte_at (heap s') pgdir w =
      (if rng 0 (i + PGSIZE) w then share (pte_at (heap s0) pgdir w) else pte_at (heap s0) pgdir w)" for w
    using op(3) [of w] s2(3) [of w] sharedD(7) [OF sh, of w] page [of w] by (auto simp: h r)
  show "pte_at (heap s') d w =
      (if rng 0 (i + PGSIZE) w then share (pte_at (heap s0) pgdir w) else pte_at (heap s0) d w)" for w
    using od(3) [of w] s3(2) [of w] sharedD(8) [OF sh, of w] page [of w] by (auto simp: h r)
  show "same_page (heap s0) (heap s') p"
    if "p \<notin> pt_pages (heap s0) pgdir \<union> pt_pages (heap s0) d \<union> set xs" for p
  proof -
    have "p \<notin> set ys" "p \<notin> pt_pages (heap s) pgdir" "p \<notin> pt_pages (heap s2) d"
      using that sub sharedD(5,6) [OF sh] od(2) by auto
    then have "same_page (heap s) (heap s2) p" "same_page (heap s2) (heap s3) p"
      using pt_step_frame [OF s2(1)] pt_step_frame [OF s3(1)] by auto
    then show ?thesis using sharedD(9) [OF sh that] unfolding h by (blast intro: same_page_trans)
  qed
  have c: "get_count pa s3 = get_count pa s" for pa
    using pt_stepD(5) [OF s2(1)] pt_stepD(5) [OF s3(1)] by (simp add: get_count_def)
  show "unat (get_count pa s') = min 255 (unat (get_count pa s0) + refs s0 pgdir (i + PGSIZE) pa)" for pa
  proof -
    have "get_count pa s' = get_count pa (inc_count (frame_of (heap s0) pgdir i) s3)"
      by (simp add: s' get_count_def)
    then show ?thesis
      using sharedD(10) [OF sh, of pa] by (auto simp: refs_Suc [OF al small] get_inc_count c)
  qed
  show "kend s' = kend s0"
    using pt_stepD(3) [OF s2(1)] pt_stepD(3) [OF s3(1)] sharedD(11) [OF sh] by (simp add: s')
qed

text \<open>One round of the loop.\<close>

lemma share_step:
  assumes sh: "shared s0 pgdir d xs i s ys" and al: "pg_aligned i" and small: "unat i + 4096 < 4294967296"
    and pr: "present (heap s0) pgdir i" and nd: "\<not> present (heap s0) d i"
  obtains (full) s3 where "ys = []"
      "copyuvm_loop (Suc fuel) pgdir d i sz s =
         (if i < sz then bindr (freevm d s3) (\<lambda>s4. Ok (0, s4)) else Ok (d, s))"
      "pt_step s pgdir [] s3 []"
      "\<And>w. pte_at (heap s3) pgdir w = (if PGROUNDDOWN w = i then share (pte_at (heap s0) pgdir w) else pte_at (heap s) pgdir w)"
  | (mapped) s' zs where "shared s0 pgdir d xs (i + PGSIZE) s' zs"
      "copyuvm_loop (Suc fuel) pgdir d i sz s =
         (if i < sz then copyuvm_loop fuel pgdir d (i + PGSIZE) sz s' else Ok (d, s))"
proof -
  define e where "e = pte_at (heap s) pgdir i"
  have nr: "\<not> rng 0 i i" using al by (simp add: rng_def pg_aligned_iff)
  then have e0: "e = pte_at (heap s0) pgdir i" using sharedD(7) [OF sh, of i] by (simp add: e_def)
  have pri: "present (heap s) pgdir i" using pr e0 by (simp add: present_def e_def)
  define slot where "slot = ptab (heap s) pgdir (PDX i) + 4 * PTX i"
  define flags where "flags = (if PTE_FLAGS e AND PTE_W \<noteq> 0
     then ((PTE_FLAGS e AND NOT PTE_W) OR PTE_COW) OR (PTE_P OR PTE_U) else PTE_FLAGS e)"
  define s2 where "s2 = (if PTE_FLAGS e AND PTE_W \<noteq> 0 then s\<lparr>heap := st32 (heap s) slot
      (((e AND NOT PTE_W) OR PTE_COW) OR (PTE_P OR PTE_U))\<rparr> else s)"
  note mk = mark_parent [OF sharedD(1) [OF sh] pri al, folded slot_def, folded e_def, folded s2_def]
  have dj: "pt_pages (heap s) d \<inter> pt_pages (heap s) pgdir = {}" using sharedD(3) [OF sh] by blast
  note od = pt_step_other [OF sharedD(2) [OF sh] mk(5) dj]
  have ndi: "\<not> present (heap s2) d i"
    using nd od(3) [of i] sharedD(8) [OF sh, of i] nr by (simp add: present_def)
  have child: "(PTE_ADDR e OR flags) OR PTE_P = share e"
    using child_entry [OF mk(4)] by (simp add: flags_def)
  have p0: "e AND PTE_P \<noteq> 0" using mk(4) flag_bits(1) by blast
  have loop: "copyuvm_loop (Suc fuel) pgdir d i sz s = (if i < sz then
      bindr (mappages d i PGSIZE (PTE_ADDR e) flags s2) (\<lambda>(r, s3).
         if r < 0 then bindr (freevm d s3) (\<lambda>s4. Ok (0, s4))
         else copyuvm_loop fuel pgdir d (i + PGSIZE) sz
                (lcr3 (V2P d) (lcr3 (V2P pgdir) (inc_count (PTE_ADDR e) s3)))) else Ok (d, s))"
    unfolding copyuvm_loop.simps mk(1) Let_def split_conv if_not_P [OF mk(2)] mk(3) if_not_P [OF p0]
      flags_def s2_def by (rule refl)
  from od(1) al ndi show ?thesis
  proof (cases rule: mappages_page [where pa = "PTE_ADDR e" and prm = flags])
    case full
    have "pte_at (heap s2) pgdir w =
        (if PGROUNDDOWN w = i then share (pte_at (heap s0) pgdir w) else pte_at (heap s) pgdir w)" for w
      using mk(7) [of w] e0 pte_at_page [of w i "heap s0" pgdir] al by (simp add: pg_aligned_iff)
    then show ?thesis using that(1) [of s2] full loop mk(5) by simp
  next
    case (mapped s3 zs)
    have "shared s0 pgdir d xs (i + PGSIZE)
        (lcr3 (V2P d) (lcr3 (V2P pgdir) (inc_count (PTE_ADDR e) s3))) zs"
      using mk(7) mapped(3) child
      by (intro shared_next [OF sh al small mk(5,6) _ mapped(2)]) (auto simp: e0 frame_of_def)
    then show ?thesis using that(2) mapped(1) loop by simp
  qed
qed

section \<open>The whole copy\<close>

lemma counted_refs:
  assumes sh: "shared s0 pgdir d xs i s ys" and w: "rng 0 i w" and al: "pg_aligned i"
  shows "get_count (frame_of (heap s0) pgdir w) s \<noteq> 0"
proof -
  let ?S = "{v. pg_aligned v \<and> v < i \<and> PPN (frame_of (heap s0) pgdir v) = PPN (frame_of (heap s0) pgdir w)}"
  have "PGROUNDDOWN w \<in> ?S"
    using w pte_at_page [of "PGROUNDDOWN w" w] pg_aligned_iff [of "PGROUNDDOWN w"]
    by (simp add: rng_def frame_of_def)
  then have "?S \<noteq> {}" by blast
  then have "0 < card ?S" unfolding card_gt_0_iff by simp
  then have "0 < unat (get_count (frame_of (heap s0) pgdir w) s)"
    using sharedD(10) [OF sh, of "frame_of (heap s0) pgdir w"] by (simp add: refs_def)
  then show ?thesis by (simp add: unat_gt_0)
qed

text \<open>A failed copy gives the child's table back; some of the parent's pages may stay shared.\<close>

definition fork_failed :: "'a machine_scheme \<Rightarrow> u32 \<Rightarrow> u32 set \<Rightarrow> 'a machine_scheme \<Rightarrow> u32 list \<Rightarrow> bool" where
  "fork_failed s0 pgdir P s' zs \<longleftrightarrow> vm_inv s' pgdir zs
     \<and> (\<forall>w. pte_at (heap s') pgdir w \<in> {pte_at (heap s0) pgdir w, share (pte_at (heap s0) pgdir w)})
     \<and> (\<forall>p. p \<notin> pt_pages (heap s0) pgdir \<union> P \<longrightarrow> same_page (heap s0) (heap s') p)"

lemma freevm_child:
  assumes sh: "shared s0 pgdir d xs i s []" and al: "pg_aligned i"
    and uf: "user_free (heap s0) d" and nz: "\<And>w. rng 0 i w \<Longrightarrow> frame_of (heap s0) pgdir w \<noteq> 0"
    and s3: "pt_step s pgdir [] s3 []"
      "\<And>w. pte_at (heap s3) pgdir w = (if PGROUNDDOWN w = i then share (pte_at (heap s0) pgdir w) else pte_at (heap s) pgdir w)"
  shows "\<exists>s4 zs. freevm d s3 = Ok s4 \<and> fork_failed s0 pgdir (pt_pages (heap s0) d \<union> set xs) s4 zs"
proof -
  have dj: "pt_pages (heap s) d \<inter> pt_pages (heap s) pgdir = {}" using sharedD(3) [OF sh] by blast
  note od = pt_step_other [OF sharedD(2) [OF sh] s3(1) dj]
  have gc: "get_count pa s3 = get_count pa s" for pa using pt_stepD(5) [OF s3(1)] by (simp add: get_count_def)
  have cnt: "frame_of (heap s3) d w \<noteq> 0 \<and> get_count (frame_of (heap s3) d w) s3 \<noteq> 0"
    if "rng 0 KERNBASE w" "present (heap s3) d w" for w
  proof -
    have r: "rng 0 i w"
      using that uf od(3) [of w] sharedD(8) [OF sh, of w] by (auto simp: user_free_def present_def rng_def split: if_split_asm)
    then have "frame_of (heap s3) d w = frame_of (heap s0) pgdir w"
      using od(3) [of w] sharedD(8) [OF sh, of w] by (simp add: frame_of_def share_props)
    then show ?thesis using nz [OF r] counted_refs [OF sh r al] gc by simp
  qed
  then have fo: "frames_ok s3 d [] 0 KERNBASE" and fe: "freed s3 d 0 KERNBASE = {}"
    by (auto simp: frames_ok_def freed_def)
  from freevm_correct [OF od(1) fo] obtain s4 zs where f: "freevm d s3 = Ok s4" "free_inv s4 zs"
    "set zs = {p \<in> pt_pages (heap s3) d. p = d \<or> get_count (V2P p) s3 = 0}"
    "s4 = s3\<lparr>heap := heap s4, kmem_freelist := kmem_freelist s4\<rparr>"
    "\<forall>p. p \<notin> pt_pages (heap s3) d \<longrightarrow> same_page (heap s3) (heap s4) p"
    unfolding fe by auto
  have dj3: "pt_pages (heap s3) pgdir \<inter> pt_pages (heap s3) d = {}" using od(4) by blast
  have sp: "same_page (heap s3) (heap s4) p" if "p \<in> pt_pages (heap s3) pgdir" for p using that f(5) dj3 by blast
  note inv3 = pt_stepD(1) [OF s3(1)]
  note same = pt_same_pages [OF vm_invD(2) [OF inv3] sp]
  have "vm_inv s4 pgdir zs"
    using f(2) pgdir_inv_frame [OF vm_invD(2) [OF inv3] heap_update_fields(1) [OF f(4)] sp] f(3) dj3 same(2)
    by (auto simp: vm_inv_def)
  moreover have "pte_at (heap s4) pgdir w \<in> {pte_at (heap s0) pgdir w, share (pte_at (heap s0) pgdir w)}" for w
    using same(3) [of w] s3(2) [of w] sharedD(7) [OF sh, of w] by auto
  moreover have "same_page (heap s0) (heap s4) p"
    if "p \<notin> pt_pages (heap s0) pgdir \<union> (pt_pages (heap s0) d \<union> set xs)" for p
  proof -
    have "same_page (heap s0) (heap s) p" using that by (intro sharedD(9) [OF sh]) auto
    also have "same_page (heap s) (heap s3) p"
      using that sharedD(5) [OF sh] by (intro pt_step_frame [OF s3(1)]) auto
    also have "same_page (heap s3) (heap s4) p" using that f(5) od(2) sharedD(6) [OF sh] by auto
    finally show ?thesis .
  qed
  ultimately show ?thesis using f(1) by (auto simp: fork_failed_def)
qed

lemma copyuvm_loop_correct:
  assumes "shared s0 pgdir d xs i s ys" "pg_aligned i" "i \<le> PGROUNDUP sz" "sz \<le> KERNBASE"
    and "user_free (heap s0) d"
    and "\<And>w. rng 0 (PGROUNDUP sz) w \<Longrightarrow> present (heap s0) pgdir w \<and> frame_of (heap s0) pgdir w \<noteq> 0"
    and "(unat (PGROUNDUP sz) - unat i) div 4096 < fuel"
  shows "\<exists>r s' zs. copyuvm_loop fuel pgdir d i sz s = Ok (r, s') \<and>
    (r = d \<and> shared s0 pgdir d xs (PGROUNDUP sz) s' zs
     \<or> r = 0 \<and> fork_failed s0 pgdir (pt_pages (heap s0) d \<union> set xs) s' zs)"
  using assms
proof (induction fuel arbitrary: s ys i)
  case (Suc fuel)
  let ?c = "PGROUNDUP sz"
  note sh = Suc.prems(1) and al = Suc.prems(2)
  note bd = PGROUNDUP_bounds [OF Suc.prems(4)]
  show ?case
  proof (cases "i < sz")
    case False
    then have "i = ?c" using bd(3) [OF al] Suc.prems(3) by simp
    then show ?thesis using sh False by auto
  next
    case lt: True
    then have ltc: "i < ?c" using bd(3) [OF al] by simp
    note np = next_page [OF al pg_aligned_PGROUNDUP ltc]
    have small: "unat i + 4096 < 4294967296" using np(1) unat_lt_2_32 [of "i + PGSIZE"] by simp
    have ri: "rng 0 ?c i" "PGROUNDDOWN i < KERNBASE"
      using al ltc bd(2) by (auto simp: rng_def pg_aligned_iff)
    have nd: "\<not> present (heap s0) d i" using Suc.prems(5) ri(2) by (simp add: user_free_def)
    have pr: "present (heap s0) pgdir i" using Suc.prems(6) [OF ri(1)] by simp
    from sh al small pr nd show ?thesis
    proof (cases rule: share_step [where fuel = fuel and sz = sz])
      case (full s3)
      have "frame_of (heap s0) pgdir w \<noteq> 0" if "rng 0 i w" for w
        using that Suc.prems(3,6) by (auto simp: rng_def)
      from freevm_child [OF sh [unfolded full(1)] al Suc.prems(5) this full(3,4)]
      show ?thesis using full(2) lt by auto
    next
      case (mapped s' zs)
      have "(unat ?c - unat (i + PGSIZE)) div 4096 < fuel"
        using Suc.prems(7) np(1,3) by (simp add: word_le_nat_alt)
      from Suc.IH [OF mapped(1) np(2,3) Suc.prems(4,5,6) this] show ?thesis using mapped(2) lt by simp
    qed
  qed
qed simp

text \<open>What a successful \<open>copyuvm\<close> promises, relative to the state before the call.\<close>

definition forked :: "'a machine_scheme \<Rightarrow> u32 \<Rightarrow> u32 \<Rightarrow> u32 list \<Rightarrow> u32 \<Rightarrow> 'a machine_scheme \<Rightarrow> u32 list \<Rightarrow> bool" where
  "forked s pgdir c xs d s' zs \<longleftrightarrow> vm_inv s' pgdir zs \<and> vm_inv s' d zs
     \<and> pt_pages (heap s') pgdir \<inter> pt_pages (heap s') d = {}
     \<and> (\<forall>w. rng 0 c w \<longrightarrow> pte_at (heap s') pgdir w = share (pte_at (heap s) pgdir w)
            \<and> pte_at (heap s') d w = share (pte_at (heap s) pgdir w))
     \<and> (\<forall>w. \<not> rng 0 c w \<longrightarrow> pte_at (heap s') pgdir w = pte_at (heap s) pgdir w
            \<and> pte_at (heap s') d w = kmap_pte (kmap s) (\<lambda>_. 0) w)
     \<and> (\<forall>p. p \<notin> pt_pages (heap s) pgdir \<union> set xs \<longrightarrow> same_page (heap s) (heap s') p)
     \<and> (\<forall>pa. unat (get_count pa s') = min 255 (unat (get_count pa s) + refs s pgdir c pa))
     \<and> pt_pages (heap s') pgdir = pt_pages (heap s) pgdir \<and> set zs \<union> pt_pages (heap s') d \<subseteq> set xs
     \<and> kend s' = kend s"

lemma refs_cong:
  "(\<And>w. pte_at (heap s) pgdir w = pte_at (heap t) pgdir w) \<Longrightarrow> refs s pgdir i pa = refs t pgdir i pa"
  by (simp add: refs_def frame_of_def)

lemma copyuvm_correct:
  assumes inv: "vm_inv s pgdir xs" and ln: "linked s" and sz: "sz \<le> KERNBASE"
    and pr: "\<And>w. rng 0 (PGROUNDUP sz) w \<Longrightarrow> present (heap s) pgdir w \<and> frame_of (heap s) pgdir w \<noteq> 0"
  shows "\<exists>r s' zs. copyuvm pgdir sz s = Ok (r, s') \<and>
    (r \<noteq> 0 \<and> forked s pgdir (PGROUNDUP sz) xs r s' zs \<or> r = 0 \<and> fork_failed s pgdir (set xs) s' zs)"
proof -
  from setupkvm_correct [OF vm_invD(1) [OF inv] ln] obtain d s1 ys where
    su: "setupkvm s = Ok (d, s1)" and c: "d \<noteq> 0 \<and> setup_post s xs d s1 ys
     \<or> d = 0 \<and> free_inv s1 ys \<and> s1 = s\<lparr>heap := heap s1, kmem_freelist := kmem_freelist s1\<rparr>
        \<and> (\<forall>p. p \<notin> set xs \<longrightarrow> same_page (heap s) (heap s1) p) \<and> set ys \<subseteq> set xs" by blast
  have e: "s1 = s\<lparr>heap := heap s1, kmem_freelist := kmem_freelist s1\<rparr>" and fi: "free_inv s1 ys"
    and fr: "p \<notin> set xs \<Longrightarrow> same_page (heap s) (heap s1) p" and sub: "set ys \<subseteq> set xs" for p
    using c by (auto simp: setup_post_def vm_inv_def)
  have sp: "same_page (heap s) (heap s1) p" if "p \<in> pt_pages (heap s) pgdir" for p
    using that vm_invD(3) [OF inv] by (intro fr) auto
  note same = pt_same_pages [OF vm_invD(2) [OF inv] sp]
  have pp1: "pt_pages (heap s1) pgdir = pt_pages (heap s) pgdir"
    and pte1: "pte_at (heap s1) pgdir w = pte_at (heap s) pgdir w" for w using same by simp_all
  have inv1: "vm_inv s1 pgdir ys"
    using fi pgdir_inv_frame [OF vm_invD(2) [OF inv] heap_update_fields(1) [OF e] sp] vm_invD(3) [OF inv] sub same(2)
    by (auto simp: vm_inv_def)
  show ?thesis
  proof (cases "d = 0")
    case True
    then show ?thesis using su inv1 fr same by (auto simp: copyuvm_def fork_failed_def)
  next
    case False
    then have post: "setup_post s xs d s1 ys" using c by blast
    then have pd: "vm_inv s1 d ys" "pt_pages (heap s1) d = set xs - set ys" by (simp_all add: setup_post_def)
    have dj: "pt_pages (heap s1) pgdir \<inter> pt_pages (heap s1) d = {}"
      using same(2) pd(2) vm_invD(3) [OF inv] by auto
    have uf: "user_free (heap s1) d" using setup_post_user [OF ln post] by (simp add: user_free_def present_def)
    have pr1: "present (heap s1) pgdir w \<and> frame_of (heap s1) pgdir w \<noteq> 0" if "rng 0 (PGROUNDUP sz) w" for w
      using pr [OF that] same(3) [of w] by (simp add: present_def frame_of_def)
    have fu: "(unat (PGROUNDUP sz) - unat 0) div 4096 < 1048577"
      using unat_lt_2_32 [of "PGROUNDUP sz"] by (simp add: div_less_iff_less_mult)
    from copyuvm_loop_correct [OF shared_start [OF inv1 pd(1) dj] _ _ sz uf pr1 fu] obtain r s' zs where
      l: "copyuvm_loop 0x100001 pgdir d 0 sz s1 = Ok (r, s')" and
      c': "r = d \<and> shared s1 pgdir d ys (PGROUNDUP sz) s' zs
        \<or> r = 0 \<and> fork_failed s1 pgdir (pt_pages (heap s1) d \<union> set ys) s' zs"
      by (auto simp: pg_aligned_def)
    have u: "pt_pages (heap s1) d \<union> set ys = set xs" using pd(2) sub by blast
    have run: "copyuvm pgdir sz s = Ok (r, s')" using su False l by (simp add: copyuvm_def)
    have frame: "same_page (heap s) (heap s') p" if "p \<notin> pt_pages (heap s) pgdir \<union> set xs"
      "same_page (heap s1) (heap s') p" for p
      using that fr [of p] by (auto intro: same_page_trans)
    from c' show ?thesis
    proof (elim disjE conjE)
      assume r: "r = d" and sh: "shared s1 pgdir d ys (PGROUNDUP sz) s' zs"
      have "same_page (heap s) (heap s') p" if "p \<notin> pt_pages (heap s) pgdir \<union> set xs" for p
        using that same(2) u by (intro frame sharedD(9) [OF sh]) auto
      moreover have "pte_at (heap s1) d w = kmap_pte (kmap s) (\<lambda>_. 0) w" for w
        using post by (simp add: setup_post_def)
      moreover have "refs s1 pgdir c pa = refs s pgdir c pa" for c pa using same(3) by (intro refs_cong) simp
      moreover have "set zs \<union> pt_pages (heap s') d \<subseteq> set xs"
        using sharedD(4,6) [OF sh] sub pd(2) by blast
      ultimately have "forked s pgdir (PGROUNDUP sz) xs r s' zs"
        using sharedD [OF sh] same(2,3) heap_update_fields [OF e] unfolding forked_def r by simp
      then show ?thesis using run r False by blast
    next
      assume r: "r = 0" and ff: "fork_failed s1 pgdir (pt_pages (heap s1) d \<union> set ys) s' zs"
      have "fork_failed s pgdir (set xs) s' zs"
        using ff frame unfolding fork_failed_def u pp1 pte1 by blast
      then show ?thesis using run r by blast
    qed
  qed
qed

end
