(* ===== verification/Cow_Props.thy ===== *)
theory Cow_Props
  imports Cow_Fork Mem_Props
begin

text \<open>
  The properties of the copy-on-write part of \<^verbatim>\<open>vm.c\<close> (\<^verbatim>\<open>copyuvm\<close>, \<^verbatim>\<open>handle_cow_fault\<close>) and of the
  kernel page tables (\<^verbatim>\<open>setupkvm\<close>, \<^verbatim>\<open>freevm\<close>), each with an instance on the machine \<open>demo_user\<close>, in
  which one user page is mapped at address 0.
\<close>

section \<open>A machine with one user page\<close>

definition demo_tab :: u32 where
  "demo_tab = 0x80510000"

definition demo_user :: "u32 \<Rightarrow> u8 \<Rightarrow> machine" where
  "demo_user e c = demo\<lparr>heap := st32 (st32 (heap demo) demo_pgdir 0x510007) demo_tab e,
     cow_ref_counts := (\<lambda>f. if f = 0x520 then c else 0)\<rparr>"

definition demo_owner :: proc where
  "demo_owner = zero_proc\<lparr>p_pid := 1, p_state := RUNNING, p_sz := 0x1000, p_pgdir := demo_pgdir\<rparr>"

lemma demo_user_fields [simp]:
  "kend (demo_user e c) = 0x80120000" "kdata (demo_user e c) = 0x80108000"
  "cow_ref_counts (demo_user e c) = (\<lambda>f. if f = 0x520 then c else 0)" "p_sz demo_owner = 0x1000" "p_pgdir demo_owner = demo_pgdir"
  by (simp_all add: demo_user_def demo_owner_def)

lemma demo_user_words:
  assumes "unat i < 1024"
  shows "page_words (heap (demo_user e c)) demo_pgdir i = (if i = 0 then 0x510007 else 0)"
    "page_words (heap (demo_user e c)) demo_tab i = (if i = 0 then e else 0)"
proof -
  have "page_words (heap demo) demo_tab i = 0"
    using assms by (simp add: demo_def page_words_st32_head demo_tab_def pg_aligned_def) (simp add: page_words_def ld32_def)
  then show "page_words (heap (demo_user e c)) demo_pgdir i = (if i = 0 then 0x510007 else 0)"
    "page_words (heap (demo_user e c)) demo_tab i = (if i = 0 then e else 0)"
    using assms demo_pgdir_words [OF assms, unfolded demo_pgdir_def]
    by (simp_all add: demo_user_def page_words_st32_head demo_pgdir_def demo_tab_def pg_aligned_def)
qed

lemma demo_user_tables:
  "pd_present (heap (demo_user e c)) demo_pgdir i \<and> unat i < 1024 \<longleftrightarrow> i = 0"
  "ptab (heap (demo_user e c)) demo_pgdir 0 = demo_tab"
  "pt_pages (heap (demo_user e c)) demo_pgdir = {demo_pgdir, demo_tab}"
proof -
  show 1: "pd_present (heap (demo_user e c)) demo_pgdir i \<and> unat i < 1024 \<longleftrightarrow> i = 0" for i
    by (cases "unat i < 1024") (auto simp: pd_present_def demo_user_words)
  show 2: "ptab (heap (demo_user e c)) demo_pgdir 0 = demo_tab"
    by (simp add: ptab_def demo_user_words PTE_ADDR_def P2V_def demo_tab_def)
  have "unat i < 1024 \<and> pd_present (heap (demo_user e c)) demo_pgdir i \<longleftrightarrow> i = 0" for i using 1 [of i] by blast
  then show "pt_pages (heap (demo_user e c)) demo_pgdir = {demo_pgdir, demo_tab}"
    using 2 by (simp add: pt_pages_def insert_commute)
qed

lemma demo_user_pte: "pte_at (heap (demo_user e c)) demo_pgdir w = (if PGROUNDDOWN w = 0 then e else 0)"
proof -
  have "PGROUNDDOWN w = 0 \<longleftrightarrow> PDX w = 0 \<and> PTX w = 0"
    using unat_lt_2_32 [of w] by (auto simp: word_unat_eq_iff unat_PDX unat_PTX unat_PGROUNDDOWN div_less_iff_less_mult mod_eq_0_iff_dvd)
  then show ?thesis
    using demo_user_tables(1) [of e c "PDX w"] PDX_less [of w] PTX_less [of w]
    by (auto simp: pte_at_def demo_user_words demo_user_tables)
qed

lemma demo_user_vm_inv: "vm_inv (demo_user e c) demo_pgdir demo_free"
proof -
  have f: "free_inv (demo_user e c) demo_free"
    using demo_free_inv unfolding free_inv_def demo_free_def
    by (simp add: demo_user_def kpage_def demo_def ld32_def st32_def demo_pgdir_def demo_tab_def)
  have k: "kpage (demo_user e c) demo_pgdir" "kpage (demo_user e c) demo_tab" "demo_tab \<noteq> demo_pgdir"
    by (simp_all add: kpage_def demo_pgdir_def demo_tab_def pg_aligned_def V2P_def)
  have z: "unat i < 1024 \<and> pd_present (heap (demo_user e c)) demo_pgdir i \<Longrightarrow> i = 0" for i
    using demo_user_tables(1) [of e c i] by blast
  have "pgdir_inv (demo_user e c) demo_pgdir"
    unfolding pgdir_inv_def using k z demo_user_tables(2) by metis
  then show ?thesis
    using f by (simp add: vm_inv_def demo_user_tables) (simp add: demo_free_def demo_pgdir_def demo_tab_def)
qed

section \<open>Copy-on-write\<close>

lemma rng_below: "fa < sz \<Longrightarrow> sz \<le> KERNBASE \<Longrightarrow> rng 0 (PGROUNDUP sz) fa"
  unfolding rng_def by (simp add: word_less_nat_alt word_le_nat_alt unat_PGROUNDDOWN unat_PGROUNDUP)

text \<open>A page shared by a fork is ready for a copy-on-write fault of either side, and counted more than once.\<close>

lemma forked_cow_ready:
  assumes f: "forked s pgdir (PGROUNDUP sz) xs d s1 zs" and sz: "fa < sz" "sz \<le> KERNBASE"
    and w: "bit (pte_at (heap s) pgdir fa) 1" and c: "get_count (frame_of (heap s) pgdir fa) s \<noteq> 0"
    and p: "p_pgdir p = d" "p_sz p = sz"
  shows "cow_ready s1 p fa" "get_count (frame_of (heap s) pgdir fa) s1 \<noteq> 1"
    "PTE_ADDR (pte_at (heap s1) d fa) = frame_of (heap s) pgdir fa"
proof -
  let ?F = "frame_of (heap s) pgdir fa" and ?S = "{v. pg_aligned v \<and> v < PGROUNDUP sz \<and> PPN (frame_of (heap s) pgdir v) = PPN (frame_of (heap s) pgdir fa)}"
  have r: "rng 0 (PGROUNDUP sz) fa" using sz by (rule rng_below)
  have "PGROUNDDOWN fa \<in> ?S"
    using r pte_at_page [of "PGROUNDDOWN fa" fa] pg_aligned_iff [of "PGROUNDDOWN fa"]
    by (simp add: rng_def frame_of_def)
  then have "0 < refs s pgdir (PGROUNDUP sz) ?F" unfolding refs_def by (intro card_gt_0_iff [THEN iffD2]) auto
  moreover have "unat (get_count ?F s1) = min 255 (unat (get_count ?F s) + refs s pgdir (PGROUNDUP sz) ?F)"
    using f by (simp add: forked_def)
  moreover have "0 < unat (get_count ?F s)" using c unat_eq_zero neq0_conv by blast
  ultimately have two: "2 \<le> unat (get_count ?F s1)" by linarith
  then show n1: "get_count ?F s1 \<noteq> 1" by auto
  have e: "pte_at (heap s1) d fa = share (pte_at (heap s) pgdir fa)" using f r by (simp add: forked_def)
  then show a: "PTE_ADDR (pte_at (heap s1) d fa) = ?F" by (simp add: share_props frame_of_def)
  have "get_count ?F s1 \<noteq> 0" using two by auto
  then show "cow_ready s1 p fa" using e w sz p a by (simp add: cow_ready_def share_bit)
qed


text \<open>The writable user page at address 0, owned once, is forked and then written by the child.\<close>

lemma demo_user_linked: "linked (demo_user e c)"
  by (simp add: linked_def pg_aligned_def P2V_def)

lemma demo_user_rng: "rng 0 (PGROUNDUP 0x1000) w \<longleftrightarrow> PGROUNDDOWN w = 0"
proof -
  have "unat (PGROUNDDOWN w) < 4096 \<longleftrightarrow> unat (PGROUNDDOWN w) = 0" by (simp add: unat_PGROUNDDOWN)
  then show ?thesis by (simp add: rng_def PGROUNDUP_def word_less_nat_alt unat_eq_zero)
qed

lemma demo_user_mapped:
  "rng 0 (PGROUNDUP 0x1000) w \<Longrightarrow> present (heap (demo_user 0x520007 c)) demo_pgdir w \<and> frame_of (heap (demo_user 0x520007 c)) demo_pgdir w \<noteq> 0"
  by (simp add: demo_user_rng present_def frame_of_def demo_user_pte PTE_ADDR_def)




text \<open>
  C34.  A fault is not repaired, and nothing changes, unless the address is below the process size
  and its page is present, user-accessible, marked copy-on-write and counted.
\<close>

theorem cow_fault_rejects:
  assumes "pgdir_inv s (p_pgdir p)" "\<not> cow_ready s p fa"
  shows "handle_cow_fault p fa s = Ok (-1, s)"
  using assms by (rule cow_fault_refuses)

theorem cow_fault_rejects_witness:
  "handle_cow_fault demo_owner 0 (demo_user 0x520007 1) = Ok (-1, demo_user 0x520007 1)"
proof (rule cow_fault_rejects)
  show "pgdir_inv (demo_user 0x520007 1) (p_pgdir demo_owner)" using vm_invD(2) [OF demo_user_vm_inv] by simp
  have "\<not> bit (0x520007 :: u32) 10" by (simp add: bit_numeral_rec)
  then show "\<not> cow_ready (demo_user 0x520007 1) demo_owner 0" by (simp add: cow_ready_def demo_user_pte PGROUNDDOWN_def)
qed

text \<open>
  C33.  The last holder of a copy-on-write page gets it back writable in place: the entry keeps its
  frame, no frame is allocated or copied, and the counts stay as they are.
\<close>

theorem cow_fault_last_owner:
  assumes "vm_inv s (p_pgdir p) xs" "cow_ready s p fa" "get_count (PTE_ADDR (pte_at (heap s) (p_pgdir p) fa)) s = 1"
  shows "\<exists>s'. handle_cow_fault p fa s = Ok (0, s') \<and> vm_inv s' (p_pgdir p) xs
    \<and> (\<forall>w. pte_at (heap s') (p_pgdir p) w = (if PGROUNDDOWN w = PGROUNDDOWN fa
          then upgrade_pte (pte_at (heap s) (p_pgdir p) fa) else pte_at (heap s) (p_pgdir p) w))
    \<and> cow_ref_counts s' = cow_ref_counts s
    \<and> (\<forall>q. q \<notin> pt_pages (heap s) (p_pgdir p) \<longrightarrow> same_page (heap s) (heap s') q)"
  using assms by (rule cow_fault_last)

theorem cow_fault_last_owner_witness:
  "let s = demo_user 0x520405 1; p = demo_owner in
   \<exists>s'. handle_cow_fault p 0 s = Ok (0, s') \<and> vm_inv s' (p_pgdir p) demo_free
    \<and> (\<forall>w. pte_at (heap s') (p_pgdir p) w = (if PGROUNDDOWN w = PGROUNDDOWN 0
          then upgrade_pte (pte_at (heap s) (p_pgdir p) 0) else pte_at (heap s) (p_pgdir p) w))
    \<and> cow_ref_counts s' = cow_ref_counts s
    \<and> (\<forall>q. q \<notin> pt_pages (heap s) (p_pgdir p) \<longrightarrow> same_page (heap s) (heap s') q)"
  unfolding Let_def
proof (rule cow_fault_last_owner)
  have "bit (0x520405 :: u32) 0" "bit (0x520405 :: u32) 2" "bit (0x520405 :: u32) 10" by (simp_all add: bit_numeral_rec)
  then show "cow_ready (demo_user 0x520405 1) demo_owner 0"
    by (simp add: cow_ready_def demo_user_pte PGROUNDDOWN_def PTE_ADDR_def get_count_def PPN_def)
qed (simp_all add: demo_user_vm_inv demo_user_pte PGROUNDDOWN_def PTE_ADDR_def get_count_def PPN_def)

section \<open>Whole address spaces\<close>

text \<open>
  C36.  \<^verbatim>\<open>setupkvm\<close> builds a page table that maps exactly the regions of \<open>kmap\<close>, from pages of the
  free list; when memory runs out it returns 0 with every page it took back on the free list.
\<close>

theorem setupkvm_maps_kernel:
  assumes "free_inv s xs" "linked s"
  shows "\<exists>r s' ys. setupkvm s = Ok (r, s') \<and>
    (r \<noteq> 0 \<and> setup_post s xs r s' ys
     \<or> r = 0 \<and> free_inv s' ys \<and> s' = s\<lparr>heap := heap s', kmem_freelist := kmem_freelist s'\<rparr>
        \<and> (\<forall>p. p \<notin> set xs \<longrightarrow> same_page (heap s) (heap s') p)
        \<and> set ys \<subseteq> set xs \<and> ((\<forall>p\<in>set xs. get_count (V2P p) s = 0) \<longrightarrow> set ys = set xs))"
  using assms by (rule setupkvm_correct)

theorem setupkvm_maps_kernel_witness:
  "\<exists>r s' ys. setupkvm demo = Ok (r, s') \<and>
    (r \<noteq> 0 \<and> setup_post demo demo_free r s' ys
     \<or> r = 0 \<and> free_inv s' ys \<and> s' = demo\<lparr>heap := heap s', kmem_freelist := kmem_freelist s'\<rparr>
        \<and> (\<forall>p. p \<notin> set demo_free \<longrightarrow> same_page (heap demo) (heap s') p)
        \<and> set ys \<subseteq> set demo_free \<and> ((\<forall>p\<in>set demo_free. get_count (V2P p) demo = 0) \<longrightarrow> set ys = set demo_free))"
  by (rule setupkvm_maps_kernel [OF demo_free_inv]) (simp add: linked_def pg_aligned_def P2V_def)

text \<open>
  C37.  \<^verbatim>\<open>freevm\<close> returns to the free list the page directory, the page tables whose count is zero
  and the mapped user frames whose count is zero, and nothing else; no other page is written.
\<close>

theorem freevm_returns_pages:
  assumes "vm_inv s pgdir xs" "frames_ok s pgdir xs 0 KERNBASE"
  shows "\<exists>s' ys. freevm pgdir s = Ok s' \<and> free_inv s' ys
    \<and> set ys = set xs \<union> freed s pgdir 0 KERNBASE \<union> {p \<in> pt_pages (heap s) pgdir. p = pgdir \<or> get_count (V2P p) s = 0}
    \<and> s' = s\<lparr>heap := heap s', kmem_freelist := kmem_freelist s'\<rparr>
    \<and> (\<forall>p. p \<notin> pt_pages (heap s) pgdir \<union> freed s pgdir 0 KERNBASE \<longrightarrow> same_page (heap s) (heap s') p)"
  using assms by (rule freevm_correct)

theorem freevm_returns_pages_witness:
  "let s = demo_user 0x520007 1 in \<exists>s' ys. freevm demo_pgdir s = Ok s' \<and> free_inv s' ys
    \<and> set ys = set demo_free \<union> freed s demo_pgdir 0 KERNBASE \<union> {p \<in> pt_pages (heap s) demo_pgdir. p = demo_pgdir \<or> get_count (V2P p) s = 0}
    \<and> s' = s\<lparr>heap := heap s', kmem_freelist := kmem_freelist s'\<rparr>
    \<and> (\<forall>p. p \<notin> pt_pages (heap s) demo_pgdir \<union> freed s demo_pgdir 0 KERNBASE \<longrightarrow> same_page (heap s) (heap s') p)"
  unfolding Let_def
  by (rule freevm_returns_pages [OF demo_user_vm_inv])
    (simp add: frames_ok_def present_def frame_of_def demo_user_pte PTE_ADDR_def get_count_def PPN_def)

end
