(* ===== verification/Ptable.thy ===== *)
theory Ptable
  imports Cow
begin

text \<open>
  The process table of \<^verbatim>\<open>proc.c\<close> and the operations that move processes between states.  The record
  \<open>pstate\<close> extends the machine with the table, the pid counter, what each CPU runs, and the clock;
  \<open>cpu_id\<close> is the CPU that executes the operation.  \<^verbatim>\<open>ptable.lock\<close> is held around every change of a
  process state, so each operation is one atomic step; an operation that sleeps is split at
  \<^verbatim>\<open>sched()\<close> into the part before and the part after.  The trap frame and the kernel context of a
  process are fields of its record instead of bytes of its kernel stack.
\<close>

record pstate = machine +
  ptable :: "proc list"
  nextpid :: int
  initproc :: "nat option"
  cpu_proc :: "nat \<Rightarrow> nat option"
  cpu_esp0 :: "nat \<Rightarrow> u32"
  cpu_id :: nat
  ticks :: u32
  kpgdir :: u32
  trapret :: u32
  forkret_addr :: u32

section \<open>Reading and updating processes\<close>

definition myproc :: "'a pstate_scheme \<Rightarrow> nat option" where
  "myproc s = cpu_proc s (cpu_id s)"

definition proc_at :: "'a pstate_scheme \<Rightarrow> nat \<Rightarrow> proc" where
  "proc_at s i = (if i < length (ptable s) then ptable s ! i else zero_proc)"

definition upd_proc :: "nat \<Rightarrow> (proc \<Rightarrow> proc) \<Rightarrow> 'a pstate_scheme \<Rightarrow> 'a pstate_scheme" where
  "upd_proc i f s = s\<lparr>ptable := (ptable s)[i := f (proc_at s i)]\<rparr>"

text \<open>\<open>with_myproc\<close> is the access \<^verbatim>\<open>myproc()->...\<close>: without a current process it dereferences NULL.\<close>

definition with_myproc :: "'a pstate_scheme \<Rightarrow> (nat \<Rightarrow> proc \<Rightarrow> 'b result) \<Rightarrow> 'b result" where
  "with_myproc s f = (case myproc s of None \<Rightarrow> UB ''myproc: null'' | Some i \<Rightarrow> f i (proc_at s i))"

section \<open>Sleeping, waking and killing\<close>

definition wakeup1 :: "chan \<Rightarrow> 'a pstate_scheme \<Rightarrow> 'a pstate_scheme" where
  "wakeup1 c s = s\<lparr>ptable := map (\<lambda>p. if p_state p = SLEEPING \<and> p_chan p = c
     then p\<lparr>p_state := RUNNABLE\<rparr> else p) (ptable s)\<rparr>"

definition wakeup :: "chan \<Rightarrow> 'a pstate_scheme \<Rightarrow> 'a pstate_scheme" where
  "wakeup c s = wakeup1 c s"

primrec kill_scan :: "int \<Rightarrow> nat \<Rightarrow> proc list \<Rightarrow> nat option" where
  "kill_scan pid i [] = None"
| "kill_scan pid i (p # ps) = (if p_pid p = pid then Some i else kill_scan pid (Suc i) ps)"

definition kill :: "int \<Rightarrow> 'a pstate_scheme \<Rightarrow> int \<times> 'a pstate_scheme" where
  "kill pid s = (case kill_scan pid 0 (ptable s) of
      None \<Rightarrow> (-1, s)
    | Some i \<Rightarrow> (0, upd_proc i (\<lambda>p. p\<lparr>p_killed := 1,
         p_state := (if p_state p = SLEEPING then RUNNABLE else p_state p)\<rparr>) s))"

text \<open>\<open>sched\<close> gives the CPU back to the scheduler, whose next step clears \<^verbatim>\<open>c->proc\<close>.\<close>

definition sched :: "'a pstate_scheme \<Rightarrow> 'a pstate_scheme result" where
  "sched s = with_myproc s (\<lambda>i p.
     if p_state p = RUNNING then Panic ''sched running''
     else Ok (lcr3 (V2P (kpgdir s)) (s\<lparr>cpu_proc := (cpu_proc s)(cpu_id s := None)\<rparr>)))"

definition yield :: "'a pstate_scheme \<Rightarrow> 'a pstate_scheme result" where
  "yield s = with_myproc s (\<lambda>i p. sched (upd_proc i (\<lambda>p. p\<lparr>p_state := RUNNABLE\<rparr>) s))"

text \<open>\<open>sleep\<close> up to the call of \<^verbatim>\<open>sched\<close>, and from its return on.\<close>

definition sleep_begin :: "chan \<Rightarrow> 'a pstate_scheme \<Rightarrow> 'a pstate_scheme result" where
  "sleep_begin c s = (case myproc s of
      None \<Rightarrow> Panic ''sleep''
    | Some i \<Rightarrow> sched (upd_proc i (\<lambda>p. p\<lparr>p_chan := c, p_state := SLEEPING\<rparr>) s))"

definition sleep_end :: "'a pstate_scheme \<Rightarrow> 'a pstate_scheme result" where
  "sleep_end s = with_myproc s (\<lambda>i p. Ok (upd_proc i (\<lambda>p. p\<lparr>p_chan := CNull\<rparr>) s))"

section \<open>Scheduling\<close>

definition switchuvm :: "proc \<Rightarrow> 'a pstate_scheme \<Rightarrow> 'a pstate_scheme result" where
  "switchuvm p s =
     (if p_kstack p = 0 then Panic ''switchuvm: no kstack''
      else if p_pgdir p = 0 then Panic ''switchuvm: no pgdir''
      else Ok (lcr3 (V2P (p_pgdir p)) (s\<lparr>cpu_esp0 := (cpu_esp0 s)(cpu_id s := p_kstack p + 4096)\<rparr>)))"

text \<open>One round of the scheduler's inner loop, for table slot \<open>i\<close>.\<close>

definition schedule :: "nat \<Rightarrow> 'a pstate_scheme \<Rightarrow> 'a pstate_scheme result" where
  "schedule i s =
     (if p_state (proc_at s i) \<noteq> RUNNABLE then Ok s
      else
        let s1 = s\<lparr>cpu_proc := (cpu_proc s)(cpu_id s := Some i)\<rparr> in
        bindr (switchuvm (proc_at s1 i) s1) (\<lambda>s2.
        Ok (upd_proc i (\<lambda>p. p\<lparr>p_state := RUNNING\<rparr>) s2)))"

section \<open>Creating processes\<close>

definition init_wmap :: "proc \<Rightarrow> proc" where
  "init_wmap p = p\<lparr>p_wmapInfo := (p_wmapInfo p)\<lparr>total_mmaps := 0, wm_addr := replicate MAX_WMMAP_INFO 0,
       wm_length := replicate MAX_WMMAP_INFO (-1), n_loaded_pages := replicate MAX_WMMAP_INFO 0\<rparr>,
     p_wmapInfoExtra := (p_wmapInfoExtra p)\<lparr>is_child := 0, file_backed := replicate MAX_WMMAP_INFO 0,
       wm_fd := replicate MAX_WMMAP_INFO (-1)\<rparr>\<rparr>"

primrec find_unused :: "nat \<Rightarrow> proc list \<Rightarrow> nat option" where
  "find_unused i [] = None"
| "find_unused i (p # ps) = (if p_state p = UNUSED then Some i else find_unused (Suc i) ps)"

definition allocproc :: "'a pstate_scheme \<Rightarrow> nat option \<times> 'a pstate_scheme" where
  "allocproc s = (case find_unused 0 (ptable s) of
      None \<Rightarrow> (None, s)
    | Some i \<Rightarrow>
        let s1 = (upd_proc i (\<lambda>p. p\<lparr>p_state := EMBRYO, p_pid := nextpid s\<rparr>) s)\<lparr>nextpid := nextpid s + 1\<rparr>;
            (k, s2) = kalloc s1;
            s3 = upd_proc i (\<lambda>p. p\<lparr>p_kstack := k\<rparr>) s2 in
        if k = 0 then (None, upd_proc i (\<lambda>p. p\<lparr>p_state := UNUSED\<rparr>) s3)
        else
          let sp = k + 4096 - 76 - 4;
              s4 = s3\<lparr>heap := st32 (heap s3) sp (trapret s3)\<rparr>
          in (Some i, upd_proc i (\<lambda>p. init_wmap (p\<lparr>p_context := zero_context\<lparr>ctx_eip := forkret_addr s\<rparr>\<rparr>)) s4))"

definition growproc :: "int \<Rightarrow> 'a pstate_scheme \<Rightarrow> (int \<times> 'a pstate_scheme) result" where
  "growproc n s = with_myproc s (\<lambda>i p.
     let sz = p_sz p;
         finish = (\<lambda>(sz', s').
           let s1 = upd_proc i (\<lambda>p. p\<lparr>p_sz := sz'\<rparr>) s' in
           bindr (switchuvm (proc_at s1 i) s1) (\<lambda>s2. Ok (0, s2)))
     in if n > 0 then
          bindr (allocuvm (p_pgdir p) sz (sz + word_of_int n) s) (\<lambda>(sz', s').
          if sz' = 0 then Ok (-1, s') else finish (sz', s'))
        else if n < 0 then
          bindr (deallocuvm (p_pgdir p) sz (sz + word_of_int n) s) (\<lambda>(sz', s').
          if sz' = 0 then Ok (-1, s') else finish (sz', s'))
        else finish (sz, s))"

text \<open>The part of \<^verbatim>\<open>fork\<close> that makes the new process \<open>np\<close> a child of \<open>cur\<close> with page table \<open>d\<close> and runnable.\<close>

definition fork_publish :: "nat \<Rightarrow> nat \<Rightarrow> u32 \<Rightarrow> 'a pstate_scheme \<Rightarrow> 'a pstate_scheme" where
  "fork_publish cur np d s =
     (let c = proc_at s cur in
      upd_proc np (\<lambda>p. p\<lparr>p_pgdir := d,
        p_wmapInfoExtra := (p_wmapInfoExtra p)\<lparr>is_child := 1\<rparr>,
        p_sz := p_sz c, p_parent := Some cur, p_tf := (p_tf c)\<lparr>tf_eax := 0\<rparr>,
        p_name := p_name c, p_state := RUNNABLE\<rparr>) s)"

section \<open>Exit and wait\<close>

definition parent_chan :: "nat option \<Rightarrow> chan" where
  "parent_chan q = (case q of None \<Rightarrow> CNull | Some i \<Rightarrow> CProc i)"

definition reparent1 :: "nat \<Rightarrow> nat \<Rightarrow> 'a pstate_scheme \<Rightarrow> 'a pstate_scheme" where
  "reparent1 cur i s =
     (if p_parent (proc_at s i) = Some cur then
        let s1 = upd_proc i (\<lambda>p. p\<lparr>p_parent := initproc s\<rparr>) s in
        if p_state (proc_at s1 i) = ZOMBIE then wakeup1 (parent_chan (initproc s1)) s1 else s1
      else s)"

text \<open>The end of \<^verbatim>\<open>exit\<close>, from the wakeup of the parent on; control does not come back.\<close>

definition exit_tail :: "'a pstate_scheme \<Rightarrow> 'a pstate_scheme result" where
  "exit_tail s = with_myproc s (\<lambda>cur p.
     let s1 = wakeup1 (parent_chan (p_parent p)) s;
         s2 = fold (reparent1 cur) [0..<length (ptable s)] s1
     in sched (upd_proc cur (\<lambda>p. p\<lparr>p_state := ZOMBIE\<rparr>) s2))"

primrec find_zombie :: "nat \<Rightarrow> nat \<Rightarrow> proc list \<Rightarrow> nat option" where
  "find_zombie cur i [] = None"
| "find_zombie cur i (p # ps) =
     (if p_parent p = Some cur \<and> p_state p = ZOMBIE then Some i else find_zombie cur (Suc i) ps)"

definition wait :: "'a pstate_scheme \<Rightarrow> (int \<times> 'a pstate_scheme) result" where
  "wait s = with_myproc s (\<lambda>cur c.
     case find_zombie cur 0 (ptable s) of
       Some i \<Rightarrow>
         let pid = p_pid (proc_at s i) in
         bindr (kfree (p_kstack (proc_at s i)) s) (\<lambda>s1.
         let s2 = upd_proc i (\<lambda>p. p\<lparr>p_kstack := 0\<rparr>) s1 in
         bindr (freevm (p_pgdir (proc_at s2 i)) s2) (\<lambda>s3.
         Ok (pid, upd_proc i (\<lambda>p. p\<lparr>p_pid := 0, p_parent := None, p_name := (p_name p)[0 := 0],
                    p_killed := 0, p_state := UNUSED\<rparr>) s3)))
     | None \<Rightarrow>
         if \<not> list_ex (\<lambda>p. p_parent p = Some cur) (ptable s) \<or> p_killed c \<noteq> 0 then Ok (-1, s)
         else Blocked ''wait'')"

end
