(* ===== verification/Sched.thy ===== *)
theory Sched
  imports Ptable
begin

text \<open>
  The life of processes as a transition system: CPUs take turns executing the atomic operations of
  \<^verbatim>\<open>proc.c\<close>, in any order.  The invariant says that a process runs on at most one CPU and exactly
  when its state says so, that live processes have distinct positive pids below the counter, and
  that everything the scheduler may pick has a kernel stack and a page table.
\<close>

section \<open>The invariant\<close>

definition proc_ok :: "int \<Rightarrow> proc \<Rightarrow> bool" where
  "proc_ok n p \<longleftrightarrow> (p_state p \<noteq> UNUSED \<longrightarrow> 0 < p_pid p \<and> p_pid p < n)
     \<and> (p_state p \<in> {SLEEPING, RUNNABLE, RUNNING, ZOMBIE} \<longrightarrow> p_kstack p \<noteq> 0 \<and> p_pgdir p \<noteq> 0)"

definition sched_inv :: "'a pstate_scheme \<Rightarrow> bool" where
  "sched_inv s \<longleftrightarrow> length (ptable s) = NPROC \<and> 0 < nextpid s
     \<and> (\<forall>i < NPROC. proc_ok (nextpid s) (ptable s ! i))
     \<and> (\<forall>i < NPROC. \<forall>j < NPROC. p_state (ptable s ! i) \<noteq> UNUSED \<and> p_state (ptable s ! j) \<noteq> UNUSED
          \<and> p_pid (ptable s ! i) = p_pid (ptable s ! j) \<longrightarrow> i = j)
     \<and> (\<forall>c i. cpu_proc s c = Some i \<longrightarrow> i < NPROC \<and> p_state (ptable s ! i) = RUNNING)
     \<and> (\<forall>i < NPROC. p_state (ptable s ! i) = RUNNING \<longrightarrow> (\<exists>c. cpu_proc s c = Some i))
     \<and> (\<forall>c d i. cpu_proc s c = Some i \<and> cpu_proc s d = Some i \<longrightarrow> c = d)"

section \<open>Steps\<close>

text \<open>
  \<open>turn\<close> moves to another CPU; \<open>alloc\<close> and \<open>publish\<close> are the two halves of \<^verbatim>\<open>fork\<close>, between which the
  new process is an embryo; \<open>reap\<close> is the successful path of \<^verbatim>\<open>wait\<close>.  \<open>wakeup\<close> also happens from
  interrupt handlers, so it needs no current process.
\<close>

inductive step :: "pstate \<Rightarrow> pstate \<Rightarrow> bool" where
  turn: "step s (s\<lparr>cpu_id := c\<rparr>)"
| run: "myproc s = None \<Longrightarrow> i < NPROC \<Longrightarrow> schedule i s = Ok s' \<Longrightarrow> step s s'"
| preempt: "yield s = Ok s' \<Longrightarrow> step s s'"
| sleeps: "sleep_begin c s = Ok s' \<Longrightarrow> step s s'"
| wakes: "sleep_end s = Ok s' \<Longrightarrow> step s s'"
| wake: "step s (wakeup c s)"
| kills: "kill pid s = (r, s') \<Longrightarrow> step s s'"
| alloc: "myproc s = Some cur \<Longrightarrow> allocproc s = (r, s') \<Longrightarrow> step s s'"
| publish: "myproc s = Some cur \<Longrightarrow> np < NPROC \<Longrightarrow> p_state (ptable s ! np) = EMBRYO \<Longrightarrow>
    p_kstack (ptable s ! np) \<noteq> 0 \<Longrightarrow> d \<noteq> 0 \<Longrightarrow> step s (fork_publish cur np d s)"
| exits: "exit_tail s = Ok s' \<Longrightarrow> step s s'"
| reap: "wait s = Ok (r, s') \<Longrightarrow> step s s'"

section \<open>Updates of one process\<close>

lemma upd_proc_simps [simp]:
  "ptable (upd_proc i f s) = (ptable s)[i := f (proc_at s i)]" "cpu_proc (upd_proc i f s) = cpu_proc s"
  "nextpid (upd_proc i f s) = nextpid s" "cpu_id (upd_proc i f s) = cpu_id s"
  "initproc (upd_proc i f s) = initproc s" "kpgdir (upd_proc i f s) = kpgdir s"
  "heap (upd_proc i f s) = heap s" "kmem_freelist (upd_proc i f s) = kmem_freelist s"
  "kend (upd_proc i f s) = kend s" "cow_ref_counts (upd_proc i f s) = cow_ref_counts s"
  "trapret (upd_proc i f s) = trapret s"
  by (simp_all add: upd_proc_def)

lemma proc_at_nth: "i < length (ptable s) \<Longrightarrow> proc_at s i = ptable s ! i"
  by (simp add: proc_at_def)

lemma sched_invD:
  assumes "sched_inv s"
  shows "length (ptable s) = NPROC" "0 < nextpid s" "i < NPROC \<Longrightarrow> proc_ok (nextpid s) (ptable s ! i)"
    "cpu_proc s c = Some i \<Longrightarrow> i < NPROC" "cpu_proc s c = Some i \<Longrightarrow> p_state (ptable s ! i) = RUNNING"
    "cpu_proc s c = Some i \<Longrightarrow> cpu_proc s d = Some i \<Longrightarrow> c = d"
    "i < NPROC \<Longrightarrow> p_state (ptable s ! i) = RUNNING \<Longrightarrow> \<exists>c. cpu_proc s c = Some i"
    "i < NPROC \<Longrightarrow> j < NPROC \<Longrightarrow> p_state (ptable s ! i) \<noteq> UNUSED \<Longrightarrow> p_state (ptable s ! j) \<noteq> UNUSED \<Longrightarrow>
       p_pid (ptable s ! i) = p_pid (ptable s ! j) \<Longrightarrow> i = j"
  using assms unfolding sched_inv_def by blast+

text \<open>
  A change of the table in which every slot keeps its pid or is unused afterwards, keeps what the
  state needs, and does not start or stop running, keeps the invariant.
\<close>

definition keeps :: "int \<Rightarrow> proc \<Rightarrow> proc \<Rightarrow> bool" where
  "keeps n p q \<longleftrightarrow> proc_ok n q \<and> (p_state q = RUNNING \<longleftrightarrow> p_state p = RUNNING)
     \<and> (p_state q \<noteq> UNUSED \<longrightarrow> p_state p \<noteq> UNUSED \<and> p_pid q = p_pid p)"

lemma keeps_refl: "proc_ok n p \<Longrightarrow> keeps n p p"
  by (simp add: keeps_def)

lemma keeps_sched_inv:
  assumes inv: "sched_inv s" and t: "length (ptable t) = NPROC" "nextpid t = nextpid s" "cpu_proc t = cpu_proc s"
    and k: "\<And>i. i < NPROC \<Longrightarrow> keeps (nextpid s) (ptable s ! i) (ptable t ! i)"
  shows "sched_inv t"
  unfolding sched_inv_def t
proof (intro conjI allI impI)
  show "0 < nextpid s" using inv by (rule sched_invD)
  fix i assume i: "i < NPROC"
  show "proc_ok (nextpid s) (ptable t ! i)" using k [OF i] by (simp add: keeps_def)
  show "\<exists>c. cpu_proc s c = Some i" if "p_state (ptable t ! i) = RUNNING"
    using that k [OF i] sched_invD(7) [OF inv i] by (simp add: keeps_def)
  fix j assume "j < NPROC" "p_state (ptable t ! i) \<noteq> UNUSED \<and> p_state (ptable t ! j) \<noteq> UNUSED \<and>
    p_pid (ptable t ! i) = p_pid (ptable t ! j)"
  then show "i = j"
    using sched_invD(8) [OF inv i, of j] k [OF i] k [of j] by (simp add: keeps_def)
next
  fix c i assume c: "cpu_proc s c = Some i"
  then show i: "i < NPROC" using sched_invD(4) [OF inv] by blast
  show "p_state (ptable t ! i) = RUNNING" using k [OF i] sched_invD(5) [OF inv c] by (simp add: keeps_def)
next
  fix c d i assume "cpu_proc s c = Some i \<and> cpu_proc s d = Some i"
  then show "c = d" using sched_invD(6) [OF inv] by blast
qed simp

lemma keeps_upd:
  assumes inv: "sched_inv s" and i: "i < NPROC" and k: "keeps (nextpid s) (ptable s ! i) (f (ptable s ! i))"
  shows "sched_inv (upd_proc i f s)"
proof (rule keeps_sched_inv [OF inv])
  fix j assume j: "j < NPROC"
  show "keeps (nextpid s) (ptable s ! j) (ptable (upd_proc i f s) ! j)"
    using k i j sched_invD(1) [OF inv] keeps_refl [OF sched_invD(3) [OF inv j]]
    by (cases "i = j") (simp_all add: proc_at_nth)
qed (use sched_invD(1) [OF inv] in simp_all)

section \<open>Each operation keeps the invariant\<close>

lemma wakeup1_inv:
  assumes inv: "sched_inv s"
  shows "sched_inv (wakeup1 c s)"
proof (rule keeps_sched_inv [OF inv])
  fix i assume i: "i < NPROC"
  then show "keeps (nextpid s) (ptable s ! i) (ptable (wakeup1 c s) ! i)"
    using sched_invD(1,3) [OF inv] by (auto simp: wakeup1_def keeps_def proc_ok_def)
qed (use sched_invD(1) [OF inv] in \<open>simp_all add: wakeup1_def\<close>)

lemma kill_scan_bound: "kill_scan pid i ps = Some j \<Longrightarrow> i \<le> j \<and> j < i + length ps \<and> p_pid (ps ! (j - i)) = pid"
proof (induction ps arbitrary: i)
  case (Cons p ps)
  then show ?case by (cases "p_pid p = pid") (fastforce simp: nth_Cons' Suc_diff_Suc)+
qed simp

lemma kill_inv:
  assumes inv: "sched_inv s" and k: "kill pid s = (r, s')"
  shows "sched_inv s'"
proof (cases "kill_scan pid 0 (ptable s)")
  case (Some i)
  then have i: "i < NPROC" using kill_scan_bound sched_invD(1) [OF inv] by fastforce
  have "s' = upd_proc i (\<lambda>p. p\<lparr>p_killed := 1,
      p_state := (if p_state p = SLEEPING then RUNNABLE else p_state p)\<rparr>) s"
    using k Some by (simp add: kill_def)
  then show ?thesis
    using keeps_upd [OF inv i] sched_invD(3) [OF inv i] by (simp add: keeps_def proc_ok_def)
qed (use inv k in \<open>simp add: kill_def\<close>)

text \<open>Leaving the CPU: the current process takes a state other than running.\<close>

lemma leave_inv:
  assumes inv: "sched_inv s" and me: "myproc s = Some i" and st: "p_state (f (ptable s ! i)) \<notin> {UNUSED, RUNNING}"
    and f: "p_pid (f (ptable s ! i)) = p_pid (ptable s ! i)" "p_kstack (f (ptable s ! i)) = p_kstack (ptable s ! i)"
      "p_pgdir (f (ptable s ! i)) = p_pgdir (ptable s ! i)"
    and r: "sched (upd_proc i f s) = Ok s'"
  shows "sched_inv s'"
proof -
  have c: "cpu_proc s (cpu_id s) = Some i" using me by (simp add: myproc_def)
  have i: "i < NPROC" "p_state (ptable s ! i) = RUNNING" using sched_invD(4,5) [OF inv c] by auto
  have len: "length (ptable s) = NPROC" using inv by (rule sched_invD)
  have t: "ptable s' = (ptable s)[i := f (ptable s ! i)]" "cpu_proc s' = (cpu_proc s)(cpu_id s := None)"
    "nextpid s' = nextpid s"
    using r me st i len by (auto simp: sched_def with_myproc_def myproc_def proc_at_def lcr3_def split: if_splits)
  have ok: "proc_ok (nextpid s) (f (ptable s ! i))"
    using sched_invD(3) [OF inv i(1)] i(2) f by (auto simp: proc_ok_def)
  show ?thesis
    unfolding sched_inv_def t
  proof (intro conjI allI impI)
    show "0 < nextpid s" using inv by (rule sched_invD)
    fix j assume j: "j < NPROC"
    show "proc_ok (nextpid s) ((ptable s)[i := f (ptable s ! i)] ! j)"
      using ok sched_invD(3) [OF inv j] j len by (cases "i = j") simp_all
    show "\<exists>ca. ((cpu_proc s)(cpu_id s := None)) ca = Some j"
      if "p_state ((ptable s)[i := f (ptable s ! i)] ! j) = RUNNING"
    proof -
      have ij: "j \<noteq> i" using that st i(1) len by auto
      then have "p_state (ptable s ! j) = RUNNING" using that by simp
      then obtain d where "cpu_proc s d = Some j" using sched_invD(7) [OF inv j] by blast
      then show ?thesis using ij c by (intro exI [of _ d]) auto
    qed
    fix k assume "k < NPROC" "p_state ((ptable s)[i := f (ptable s ! i)] ! j) \<noteq> UNUSED \<and>
      p_state ((ptable s)[i := f (ptable s ! i)] ! k) \<noteq> UNUSED \<and>
      p_pid ((ptable s)[i := f (ptable s ! i)] ! j) = p_pid ((ptable s)[i := f (ptable s ! i)] ! k)"
    moreover have "p_pid ((ptable s)[i := f (ptable s ! i)] ! m) = p_pid (ptable s ! m)" for m
      using f(1) i(1) len by (cases "i = m") simp_all
    moreover have "p_state (ptable s ! m) \<noteq> UNUSED"
      if "p_state ((ptable s)[i := f (ptable s ! i)] ! m) \<noteq> UNUSED" for m
      using that i(2) by (cases "i = m") simp_all
    ultimately show "j = k" using sched_invD(8) [OF inv j, of k] by simp
  next
    fix ca j assume a: "((cpu_proc s)(cpu_id s := None)) ca = Some j"
    then have ca: "cpu_proc s ca = Some j" "ca \<noteq> cpu_id s" by (auto split: if_splits)
    then have ij: "j \<noteq> i" using sched_invD(6) [OF inv _ c] by blast
    show "j < NPROC" using sched_invD(4) [OF inv ca(1)] .
    show "p_state ((ptable s)[i := f (ptable s ! i)] ! j) = RUNNING"
      using ij sched_invD(5) [OF inv ca(1)] by simp
  next
    fix ca d j assume "((cpu_proc s)(cpu_id s := None)) ca = Some j \<and> ((cpu_proc s)(cpu_id s := None)) d = Some j"
    then show "ca = d" using sched_invD(6) [OF inv, of ca j d] by (auto split: if_splits)
  qed (use len in simp)
qed

lemma yield_inv:
  assumes inv: "sched_inv s" and e: "yield s = Ok s'"
  shows "sched_inv s'"
proof -
  from e obtain i where i: "myproc s = Some i" "sched (upd_proc i (\<lambda>p. p\<lparr>p_state := RUNNABLE\<rparr>) s) = Ok s'"
    by (auto simp: yield_def with_myproc_def split: option.splits)
  show ?thesis by (rule leave_inv [OF inv i(1) _ _ _ _ i(2)]) simp_all
qed

lemma sleep_begin_inv:
  assumes inv: "sched_inv s" and e: "sleep_begin c s = Ok s'"
  shows "sched_inv s'"
proof -
  from e obtain i where i: "myproc s = Some i"
    "sched (upd_proc i (\<lambda>p. p\<lparr>p_chan := c, p_state := SLEEPING\<rparr>) s) = Ok s'"
    by (auto simp: sleep_begin_def split: option.splits)
  show ?thesis by (rule leave_inv [OF inv i(1) _ _ _ _ i(2)]) simp_all
qed

lemma sleep_end_inv:
  assumes inv: "sched_inv s" and e: "sleep_end s = Ok s'"
  shows "sched_inv s'"
proof -
  from e obtain i where i: "cpu_proc s (cpu_id s) = Some i" "s' = upd_proc i (\<lambda>p. p\<lparr>p_chan := CNull\<rparr>) s"
    by (auto simp: sleep_end_def with_myproc_def myproc_def split: option.splits)
  then show ?thesis
    using keeps_upd [OF inv sched_invD(4) [OF inv i(1)]] sched_invD(3) [OF inv sched_invD(4) [OF inv i(1)]]
    by (simp add: keeps_def proc_ok_def)
qed

text \<open>Taking a CPU that runs nothing.\<close>

lemma schedule_inv:
  assumes inv: "sched_inv s" and idle: "myproc s = None" and i: "i < NPROC" and e: "schedule i s = Ok s'"
  shows "sched_inv s'"
proof (cases "p_state (proc_at s i) = RUNNABLE")
  case True
  have len: "length (ptable s) = NPROC" using inv by (rule sched_invD)
  have st: "p_state (ptable s ! i) = RUNNABLE" using True i len by (simp add: proc_at_def)
  have free: "cpu_proc s (cpu_id s) = None" using idle by (simp add: myproc_def)
  let ?r = "(ptable s)[i := (ptable s ! i)\<lparr>p_state := RUNNING\<rparr>]"
  have t: "ptable s' = ?r" "cpu_proc s' = (cpu_proc s)(cpu_id s := Some i)" "nextpid s' = nextpid s"
    using e True i len
    by (auto simp: schedule_def switchuvm_def proc_at_def lcr3_def bindr_Ok_iff Let_def split: if_splits)
  have nr: "cpu_proc s c \<noteq> Some i" for c using sched_invD(5) [OF inv, of c i] st by auto
  have un: "p_state (?r ! m) = UNUSED \<longleftrightarrow> p_state (ptable s ! m) = UNUSED"
    and pid: "p_pid (?r ! m) = p_pid (ptable s ! m)" for m
    using st i len by (cases "i = m"; simp)+
  show ?thesis
    unfolding sched_inv_def t un pid
  proof (intro conjI allI impI)
    show "0 < nextpid s" using inv by (rule sched_invD)
    fix j assume j: "j < NPROC"
    show "proc_ok (nextpid s) (?r ! j)"
      using sched_invD(3) [OF inv j] st i len by (cases "i = j") (auto simp: proc_ok_def)
    show "\<exists>ca. ((cpu_proc s)(cpu_id s := Some i)) ca = Some j" if "p_state (?r ! j) = RUNNING"
    proof (cases "j = i")
      case False
      then obtain d where "cpu_proc s d = Some j" using sched_invD(7) [OF inv j] \<open>p_state (?r ! j) = RUNNING\<close> by auto
      then show ?thesis using free by (intro exI [of _ d]) auto
    qed auto
    fix k assume "k < NPROC" "p_state (ptable s ! j) \<noteq> UNUSED \<and> p_state (ptable s ! k) \<noteq> UNUSED \<and>
      p_pid (ptable s ! j) = p_pid (ptable s ! k)"
    then show "j = k" using sched_invD(8) [OF inv j, of k] by simp
  next
    fix ca j assume a: "((cpu_proc s)(cpu_id s := Some i)) ca = Some j"
    show "j < NPROC" using a i sched_invD(4) [OF inv, of ca j] by (auto split: if_splits)
    show "p_state (?r ! j) = RUNNING"
      using a i len sched_invD(5) [OF inv, of ca j] by (cases "j = i") (auto split: if_splits)
  next
    fix ca d j
    assume "((cpu_proc s)(cpu_id s := Some i)) ca = Some j \<and> ((cpu_proc s)(cpu_id s := Some i)) d = Some j"
    then show "ca = d" using sched_invD(6) [OF inv, of ca j d] nr by (auto split: if_splits)
  qed (use len in simp)
qed (use inv e in \<open>simp add: schedule_def\<close>)

text \<open>The scheduler never finds a process it cannot switch to.\<close>

lemma schedule_ok:
  assumes inv: "sched_inv s" and i: "i < NPROC"
  shows "\<exists>s'. schedule i s = Ok s'"
  using sched_invD(1) [OF inv] sched_invD(3) [OF inv i] i
  by (auto simp: schedule_def switchuvm_def proc_at_def proc_ok_def Let_def)

lemma find_unused_bound:
  "find_unused i ps = Some j \<Longrightarrow> i \<le> j \<and> j < i + length ps \<and> p_state (ps ! (j - i)) = UNUSED"
proof (induction ps arbitrary: i)
  case (Cons p ps)
  then show ?case by (cases "p_state p = UNUSED") (fastforce simp: nth_Cons' Suc_diff_Suc)+
qed simp

text \<open>A new process gets a pid that no live process has.\<close>

lemma alloc_slot_inv:
  assumes inv: "sched_inv s" and i: "i < NPROC" "p_state (ptable s ! i) = UNUSED"
    and q: "p_state q \<in> {EMBRYO, UNUSED}" "p_pid q = nextpid s"
    and t: "ptable t = (ptable s)[i := q]" "nextpid t = nextpid s + 1" "cpu_proc t = cpu_proc s"
  shows "sched_inv t"
  unfolding sched_inv_def t
proof (intro conjI allI impI)
  have len: "length (ptable s) = NPROC" using inv by (rule sched_invD)
  have pos: "0 < nextpid s" using inv by (rule sched_invD)
  then show "0 < nextpid s + 1" by simp
  fix j assume j: "j < NPROC"
  show "proc_ok (nextpid s + 1) ((ptable s)[i := q] ! j)"
    using sched_invD(3) [OF inv j] q pos i len by (cases "i = j") (auto simp: proc_ok_def)
  show "\<exists>c. cpu_proc s c = Some j" if "p_state ((ptable s)[i := q] ! j) = RUNNING"
    using that q(1) i len sched_invD(7) [OF inv j] by (cases "i = j") auto
  fix k assume k: "k < NPROC" "p_state ((ptable s)[i := q] ! j) \<noteq> UNUSED \<and>
    p_state ((ptable s)[i := q] ! k) \<noteq> UNUSED \<and> p_pid ((ptable s)[i := q] ! j) = p_pid ((ptable s)[i := q] ! k)"
  have lt: "p_pid (ptable s ! m) < nextpid s" if "m < NPROC" "p_state (ptable s ! m) \<noteq> UNUSED" for m
    using sched_invD(3) [OF inv that(1)] that(2) by (simp add: proc_ok_def)
  show "j = k"
  proof (rule ccontr)
    assume "j \<noteq> k"
    then consider "i = j" "i \<noteq> k" | "i \<noteq> j" "i = k" | "i \<noteq> j" "i \<noteq> k" by blast
    then show False
    proof cases
      case 1 then show False using k lt [OF k(1)] i(1) q(2) len by simp
    next
      case 2 then show False using k lt [OF j] i(1) q(2) len by simp
    next
      case 3 then show False using k sched_invD(8) [OF inv j k(1)] \<open>j \<noteq> k\<close> by simp
    qed
  qed
next
  have len: "length (ptable s) = NPROC" using inv by (rule sched_invD)
  fix c j assume c: "cpu_proc s c = Some j"
  show "j < NPROC" using sched_invD(4) [OF inv c] .
  show "p_state ((ptable s)[i := q] ! j) = RUNNING" using sched_invD(5) [OF inv c] i(2) by (cases "i = j") auto
next
  fix c d j assume "cpu_proc s c = Some j \<and> cpu_proc s d = Some j"
  then show "c = d" using sched_invD(6) [OF inv] by blast
qed (use sched_invD(1) [OF inv] in simp)

lemma kalloc_fields:
  assumes "kalloc s = (k, s')"
  shows "s' = s\<lparr>kmem_freelist := kmem_freelist s'\<rparr>"
  using assms by (auto simp: kalloc_def Let_def split: if_splits)

lemma allocproc_inv:
  assumes inv: "sched_inv s" and a: "allocproc s = (r, s')"
  shows "sched_inv s'"
proof (cases "find_unused 0 (ptable s)")
  case (Some i)
  have len: "length (ptable s) = NPROC" using inv by (rule sched_invD)
  have i: "i < NPROC" "p_state (ptable s ! i) = UNUSED" using find_unused_bound [OF Some] len by auto
  define s1 where "s1 = (upd_proc i (\<lambda>p. p\<lparr>p_state := EMBRYO, p_pid := nextpid s\<rparr>) s)\<lparr>nextpid := nextpid s + 1\<rparr>"
  obtain k s2 where k: "kalloc s1 = (k, s2)" by fastforce
  have s2: "ptable s2 = ptable s1" "nextpid s2 = nextpid s1" "cpu_proc s2 = cpu_proc s1" "kend s2 = kend s1"
    by (subst kalloc_fields [OF k], simp)+
  show ?thesis
  proof (cases "k = 0")
    case True
    then show ?thesis
      using a Some k i len s2
      by (intro alloc_slot_inv [OF inv i, where q = "ptable s' ! i"])
        (auto simp: allocproc_def s1_def [symmetric] Let_def proc_at_def, auto simp: s1_def proc_at_def)
  next
    case False
    then show ?thesis
      using a Some k i len s2
      by (intro alloc_slot_inv [OF inv i, where q = "ptable s' ! i"])
        (auto simp: allocproc_def s1_def [symmetric] Let_def proc_at_def init_wmap_def, auto simp: s1_def proc_at_def)
  qed
qed (use inv a in \<open>simp add: allocproc_def\<close>)

lemma fork_publish_inv:
  assumes inv: "sched_inv s" and np: "np < NPROC" "p_state (ptable s ! np) = EMBRYO"
    "p_kstack (ptable s ! np) \<noteq> 0" "d \<noteq> 0"
  shows "sched_inv (fork_publish cur np d s)"
  unfolding fork_publish_def Let_def
  using sched_invD(3) [OF inv np(1)] np
  by (intro keeps_upd [OF inv np(1)]) (simp add: keeps_def proc_ok_def)

lemma reparent1_inv:
  assumes inv: "sched_inv s" and i: "i < NPROC"
  shows "sched_inv (reparent1 cur i s)"
proof -
  have "sched_inv (upd_proc i (\<lambda>p. p\<lparr>p_parent := initproc s\<rparr>) s)"
    using sched_invD(3) [OF inv i] by (intro keeps_upd [OF inv i]) (simp add: keeps_def proc_ok_def)
  then show ?thesis using inv by (simp add: reparent1_def Let_def wakeup1_inv)
qed

lemma reparent1_cpu: "cpu_proc (reparent1 cur i s) = cpu_proc s" "cpu_id (reparent1 cur i s) = cpu_id s"
  by (simp_all add: reparent1_def Let_def wakeup1_def)

lemma reparent_inv:
  assumes "sched_inv s" "\<forall>i\<in>set is. i < NPROC"
  shows "sched_inv (fold (reparent1 cur) is s) \<and> cpu_proc (fold (reparent1 cur) is s) = cpu_proc s
    \<and> cpu_id (fold (reparent1 cur) is s) = cpu_id s"
  using assms by (induction "is" arbitrary: s) (simp_all add: reparent1_inv reparent1_cpu)

lemma exit_tail_inv:
  assumes inv: "sched_inv s" and e: "exit_tail s = Ok s'"
  shows "sched_inv s'"
proof -
  obtain cur where me: "myproc s = Some cur" using e by (auto simp: exit_tail_def with_myproc_def split: option.splits)
  define s2 where "s2 = fold (reparent1 cur) [0..<length (ptable s)]
    (wakeup1 (parent_chan (p_parent (proc_at s cur))) s)"
  have s2: "sched_inv s2 \<and> cpu_proc s2 = cpu_proc s \<and> cpu_id s2 = cpu_id s"
    using reparent_inv [OF wakeup1_inv [OF inv], of "[0..<length (ptable s)]" cur] sched_invD(1) [OF inv]
    unfolding s2_def by (simp add: wakeup1_def)
  have r: "sched (upd_proc cur (\<lambda>p. p\<lparr>p_state := ZOMBIE\<rparr>) s2) = Ok s'"
    using e me by (simp add: exit_tail_def with_myproc_def s2_def Let_def)
  have "myproc s2 = Some cur" using s2 me by (simp add: myproc_def)
  then show ?thesis using s2 by (intro leave_inv [OF _ _ _ _ _ _ r]) simp_all
qed

section \<open>Freeing memory touches memory only\<close>

lemma walk_noalloc_state: "snd (walkpgdir pgdir va False s) = s"
  by (simp add: walkpgdir_def Let_def)

lemma heap_update_refl: "s = s\<lparr>heap := heap s, kmem_freelist := kmem_freelist s\<rparr>"
  by simp

lemma heap_update_store:
  "t = s\<lparr>heap := heap t, kmem_freelist := kmem_freelist t\<rparr> \<Longrightarrow>
     t\<lparr>heap := h\<rparr> = s\<lparr>heap := heap (t\<lparr>heap := h\<rparr>), kmem_freelist := kmem_freelist (t\<lparr>heap := h\<rparr>)\<rparr>"
  by (cases s; cases t) simp

lemma deallocuvm_loop_fields:
  "deallocuvm_loop fuel pgdir a oldsz s = Ok s' \<Longrightarrow> s' = s\<lparr>heap := heap s', kmem_freelist := kmem_freelist s'\<rparr>"
proof (induction fuel arbitrary: a s)
  case (Suc fuel)
  obtain pte where w: "walkpgdir pgdir a False s = (pte, s)"
    using walk_noalloc_state [of pgdir a s] by (metis prod.collapse)
  show ?case
  proof (cases "a < oldsz")
    case True
    consider b where "deallocuvm_loop fuel pgdir b oldsz s = Ok s'"
      | b s2 where "s2 = s \<or> (\<exists>v. kfree v s = Ok s2)"
          "deallocuvm_loop fuel pgdir b oldsz (s2\<lparr>heap := st32 (heap s2) pte 0\<rparr>) = Ok s'"
      using Suc.prems True w
      by (auto simp: Let_def bindr_Ok_iff split: if_splits)
    then show ?thesis
    proof cases
      case 1 then show ?thesis by (rule Suc.IH)
    next
      case 2
      have "s2 = s\<lparr>heap := heap s2, kmem_freelist := kmem_freelist s2\<rparr>"
        using 2(1) kfree_fields heap_update_refl by metis
      from heap_update_trans [OF heap_update_store [OF this] Suc.IH [OF 2(2)]] show ?thesis .
    qed
  qed (use Suc.prems in simp)
qed simp

lemma freevm_loop_fields:
  "freevm_loop is pgdir s = Ok s' \<Longrightarrow> s' = s\<lparr>heap := heap s', kmem_freelist := kmem_freelist s'\<rparr>"
proof (induction "is" arbitrary: s)
  case (Cons i "is")
  show ?case
  proof (cases "freevm_loop is pgdir s = Ok s'")
    case False
    then obtain s1 where "kfree (P2V (PTE_ADDR (ld32 (heap s) (pgdir + 4 * i)))) s = Ok s1" "freevm_loop is pgdir s1 = Ok s'"
      using Cons.prems by (auto simp: Let_def bindr_Ok_iff split: if_splits)
    then show ?thesis using heap_update_trans [OF kfree_fields Cons.IH] by blast
  qed (rule Cons.IH)
qed simp

lemma freevm_fields:
  assumes "freevm pgdir s = Ok s'"
  shows "s' = s\<lparr>heap := heap s', kmem_freelist := kmem_freelist s'\<rparr>"
proof -
  from assms obtain r s1 s2 where "deallocuvm pgdir KERNBASE 0 s = Ok (r, s1)"
    and l: "freevm_loop (map of_nat [0..<1024]) pgdir s1 = Ok s2" and k: "kfree pgdir s2 = Ok s'"
    unfolding freevm_def by (auto simp: bindr_Ok_iff simp del: upt_rec_numeral split: if_splits)
  then have d: "deallocuvm_loop 0x100001 pgdir (PGROUNDUP 0) KERNBASE s = Ok s1"
    unfolding deallocuvm_def by (auto simp: bindr_Ok_iff)
  show ?thesis
    using heap_update_trans [OF heap_update_trans [OF deallocuvm_loop_fields [OF d] freevm_loop_fields [OF l]]
        kfree_fields [OF k]] .
qed

lemma heap_update_pstate:
  fixes s t :: "'a pstate_scheme"
  assumes "t = s\<lparr>heap := heap t, kmem_freelist := kmem_freelist t\<rparr>"
  shows "ptable t = ptable s" "cpu_proc t = cpu_proc s" "nextpid t = nextpid s" "cpu_id t = cpu_id s"
    "initproc t = initproc s" "kpgdir t = kpgdir s"
  by (subst assms, simp)+

lemma find_zombie_bound:
  "find_zombie cur i ps = Some j \<Longrightarrow> i \<le> j \<and> j < i + length ps \<and> p_state (ps ! (j - i)) = ZOMBIE
     \<and> p_parent (ps ! (j - i)) = Some cur"
proof (induction ps arbitrary: i)
  case (Cons p ps)
  then show ?case
    by (cases "p_parent p = Some cur \<and> p_state p = ZOMBIE") (fastforce simp: nth_Cons' Suc_diff_Suc)+
qed simp

lemma wait_inv:
  assumes inv: "sched_inv s" and w: "wait s = Ok (r, s')"
  shows "sched_inv s'"
proof -
  have len: "length (ptable s) = NPROC" using inv by (rule sched_invD)
  obtain cur where me: "myproc s = Some cur" using w by (auto simp: wait_def with_myproc_def split: option.splits)
  show ?thesis
  proof (cases "find_zombie cur 0 (ptable s)")
    case None
    then show ?thesis using w me inv by (auto simp: wait_def with_myproc_def split: if_splits)
  next
    case (Some i)
    have i: "i < NPROC" "p_state (ptable s ! i) = ZOMBIE" using find_zombie_bound [OF Some] len by auto
    obtain s1 s3 where k: "kfree (p_kstack (proc_at s i)) s = Ok s1"
      and f: "freevm (p_pgdir (proc_at (upd_proc i (\<lambda>p. p\<lparr>p_kstack := 0\<rparr>) s1) i)) (upd_proc i (\<lambda>p. p\<lparr>p_kstack := 0\<rparr>) s1) = Ok s3"
      and s': "s' = upd_proc i (\<lambda>p. p\<lparr>p_pid := 0, p_parent := None, p_name := (p_name p)[0 := 0],
                    p_killed := 0, p_state := UNUSED\<rparr>) s3"
      using w me Some by (auto simp: wait_def with_myproc_def Let_def bindr_Ok_iff)
    note e1 = heap_update_pstate [OF kfree_fields [OF k]] and e3 = heap_update_pstate [OF freevm_fields [OF f]]
    show ?thesis
    proof (rule keeps_sched_inv [OF inv])
      fix j assume j: "j < NPROC"
      show "keeps (nextpid s) (ptable s ! j) (ptable s' ! j)"
        using e1 e3 i j len keeps_refl [OF sched_invD(3) [OF inv j]]
        by (cases "i = j") (simp_all add: s' keeps_def proc_ok_def)
    qed (use e1 e3 len in \<open>simp_all add: s'\<close>)
  qed
qed

section \<open>Every reachable state\<close>

lemma step_inv: "step s s' \<Longrightarrow> sched_inv s \<Longrightarrow> sched_inv s'"
proof (induction rule: step.induct)
  case (turn s c) then show ?case by (simp add: sched_inv_def)
next
  case (run s i s') show ?case by (rule schedule_inv [OF run.prems run.hyps])
next
  case (preempt s s') show ?case by (rule yield_inv [OF preempt.prems preempt.hyps])
next
  case (sleeps c s s') show ?case by (rule sleep_begin_inv [OF sleeps.prems sleeps.hyps])
next
  case (wakes s s') show ?case by (rule sleep_end_inv [OF wakes.prems wakes.hyps])
next
  case (wake s c) then show ?case by (simp add: wakeup_def wakeup1_inv)
next
  case (kills pid s r s') show ?case by (rule kill_inv [OF kills.prems kills.hyps])
next
  case (alloc s cur r s') show ?case by (rule allocproc_inv [OF alloc.prems alloc.hyps(2)])
next
  case (publish s cur np d) show ?case by (rule fork_publish_inv [OF publish.prems publish.hyps(2-5)])
next
  case (exits s s') show ?case by (rule exit_tail_inv [OF exits.prems exits.hyps])
next
  case (reap s r s') show ?case by (rule wait_inv [OF reap.prems reap.hyps])
qed

lemma steps_inv: "step\<^sup>*\<^sup>* s s' \<Longrightarrow> sched_inv s \<Longrightarrow> sched_inv s'"
  by (induction rule: rtranclp_induct) (auto intro: step_inv)

end
