(* ===== verification/Spinlock.thy ===== *)
theory Spinlock
  imports Mmu
begin

text \<open>
  Spin locks (\<^verbatim>\<open>spinlock.c\<close>) at the granularity of their memory accesses.  \<open>pushcli\<close> and \<open>popcli\<close> nest
  the disabling of interrupts per CPU; \<open>acquire\<close> is split at the atomic exchange, which a CPU
  repeats until it reads zero, and \<open>release\<close> at the store that clears the word.  The transition
  system interleaves any number of CPUs; in every reachable state at most one of them is between
  its exchange and its clearing store, with its interrupts off, and no check panics.
\<close>

section \<open>Operations\<close>

record cpu =
  ncli :: int
  intena :: bool
  eflags_if :: bool

record spinlock =
  lk_locked :: u32
  lk_name :: string
  lk_cpu :: "nat option"
  lk_pcs :: "u32 list"

definition initlock :: "string \<Rightarrow> spinlock \<Rightarrow> spinlock" where
  "initlock name lk = lk\<lparr>lk_name := name, lk_locked := 0, lk_cpu := None\<rparr>"

definition pushcli :: "cpu \<Rightarrow> cpu" where
  "pushcli c =
     (let eflags = eflags_if c;
          c1 = c\<lparr>eflags_if := False\<rparr>;
          c2 = (if ncli c1 = 0 then c1\<lparr>intena := eflags\<rparr> else c1)
      in c2\<lparr>ncli := ncli c2 + 1\<rparr>)"

definition popcli :: "cpu \<Rightarrow> cpu result" where
  "popcli c =
     (if eflags_if c then Panic ''popcli - interruptible''
      else
        let c1 = c\<lparr>ncli := ncli c - 1\<rparr> in
        if ncli c1 < 0 then Panic ''popcli''
        else if ncli c1 = 0 \<and> intena c1 then Ok (c1\<lparr>eflags_if := True\<rparr>)
        else Ok c1)"

text \<open>\<open>i\<close> is the CPU that asks.\<close>

definition holding :: "nat \<Rightarrow> spinlock \<Rightarrow> cpu \<Rightarrow> (bool \<times> cpu) result" where
  "holding i lk c =
     (let c1 = pushcli c; r = (lk_locked lk \<noteq> 0 \<and> lk_cpu lk = Some i) in
      bindr (popcli c1) (\<lambda>c2. Ok (r, c2)))"

primrec getcallerpcs_loop :: "nat \<Rightarrow> mem \<Rightarrow> u32 \<Rightarrow> u32 list" where
  "getcallerpcs_loop 0 h ebp = []"
| "getcallerpcs_loop (Suc n) h ebp =
     (if ebp = 0 \<or> ebp < KERNBASE \<or> ebp = 0xFFFFFFFF then replicate (Suc n) 0
      else ld32 h (ebp + 4) # getcallerpcs_loop n h (ld32 h ebp))"

definition getcallerpcs :: "mem \<Rightarrow> u32 \<Rightarrow> u32 list" where
  "getcallerpcs h v = getcallerpcs_loop 10 h (v - 8)"

text \<open>The three atomic parts of \<open>acquire\<close>: up to the loop, one exchange, and the bookkeeping.\<close>

definition acquire_enter :: "nat \<Rightarrow> spinlock \<Rightarrow> cpu \<Rightarrow> cpu result" where
  "acquire_enter i lk c =
     bindr (holding i lk (pushcli c)) (\<lambda>(h, c1). if h then Panic ''acquire'' else Ok c1)"

definition xchg_lock :: "spinlock \<Rightarrow> u32 \<times> spinlock" where
  "xchg_lock lk = (lk_locked lk, lk\<lparr>lk_locked := 1\<rparr>)"

definition acquire_own :: "nat \<Rightarrow> u32 list \<Rightarrow> spinlock \<Rightarrow> spinlock" where
  "acquire_own i pcs lk = lk\<lparr>lk_cpu := Some i, lk_pcs := pcs\<rparr>"

definition acquire :: "nat \<Rightarrow> u32 list \<Rightarrow> spinlock \<Rightarrow> cpu \<Rightarrow> (spinlock \<times> cpu) result" where
  "acquire i pcs lk c =
     bindr (acquire_enter i lk c) (\<lambda>c1.
     let (old, lk1) = xchg_lock lk in
     if old \<noteq> 0 then Blocked ''spin'' else Ok (acquire_own i pcs lk1, c1))"

text \<open>The parts of \<open>release\<close>: the check and the bookkeeping, the clearing store, and \<open>popcli\<close>.\<close>

definition release_begin :: "nat \<Rightarrow> spinlock \<Rightarrow> cpu \<Rightarrow> (spinlock \<times> cpu) result" where
  "release_begin i lk c =
     bindr (holding i lk c) (\<lambda>(h, c1).
     if \<not> h then Panic ''release''
     else Ok (lk\<lparr>lk_pcs := (lk_pcs lk)[0 := 0], lk_cpu := None\<rparr>, c1))"

definition release_store :: "spinlock \<Rightarrow> spinlock" where
  "release_store lk = lk\<lparr>lk_locked := 0\<rparr>"

definition release :: "nat \<Rightarrow> spinlock \<Rightarrow> cpu \<Rightarrow> (spinlock \<times> cpu) result" where
  "release i lk c =
     bindr (release_begin i lk c) (\<lambda>(lk1, c1).
     let lk2 = release_store lk1 in
     bindr (popcli c1) (\<lambda>c2. Ok (lk2, c2)))"

section \<open>Nesting of interrupt disabling\<close>

text \<open>A CPU is consistent when interrupts are off exactly while some \<open>pushcli\<close> is unmatched.\<close>

definition cpu_ok :: "cpu \<Rightarrow> bool" where
  "cpu_ok c \<longleftrightarrow> 0 \<le> ncli c \<and> (0 < ncli c \<longrightarrow> \<not> eflags_if c)"

lemma pushcli_simps [simp]:
  "ncli (pushcli c) = ncli c + 1" "\<not> eflags_if (pushcli c)"
  "intena (pushcli c) = (if ncli c = 0 then eflags_if c else intena c)"
  by (simp_all add: pushcli_def Let_def)

lemma pushcli_ok: "cpu_ok c \<Longrightarrow> cpu_ok (pushcli c)"
  by (simp add: cpu_ok_def)

lemma popcli_pushcli:
  assumes "cpu_ok c"
  shows "\<exists>c'. popcli (pushcli c) = Ok c' \<and> ncli c' = ncli c \<and> eflags_if c' = eflags_if c
    \<and> (0 < ncli c \<longrightarrow> c' = c)"
  using assms by (cases c) (auto simp: popcli_def pushcli_def cpu_ok_def Let_def)

lemma popcli_ok:
  assumes "cpu_ok c" "0 < ncli c"
  shows "\<exists>c'. popcli c = Ok c' \<and> cpu_ok c' \<and> ncli c' = ncli c - 1"
  using assms by (auto simp: popcli_def cpu_ok_def Let_def)

lemma holding_ok:
  assumes "cpu_ok c" "0 < ncli c"
  shows "holding i lk c = Ok (lk_locked lk \<noteq> 0 \<and> lk_cpu lk = Some i, c)"
  using popcli_pushcli [OF assms(1)] assms(2) by (auto simp: holding_def Let_def)

lemma acquire_enter_ok:
  assumes "cpu_ok c" "\<not> (lk_locked lk \<noteq> 0 \<and> lk_cpu lk = Some i)"
  shows "acquire_enter i lk c = Ok (pushcli c)"
proof -
  have "0 < ncli (pushcli c)" using assms(1) by (simp add: cpu_ok_def)
  from holding_ok [OF pushcli_ok [OF assms(1)] this] assms(2) show ?thesis
    by (auto simp: acquire_enter_def)
qed

lemma acquire_enter_relock:
  assumes "cpu_ok c" "lk_locked lk \<noteq> 0" "lk_cpu lk = Some i"
  shows "acquire_enter i lk c = Panic ''acquire''"
proof -
  have "0 < ncli (pushcli c)" using assms(1) by (simp add: cpu_ok_def)
  from holding_ok [OF pushcli_ok [OF assms(1)] this] assms(2,3) show ?thesis
    by (simp add: acquire_enter_def)
qed

lemma length_getcallerpcs: "length (getcallerpcs h v) = 10"
proof -
  have "length (getcallerpcs_loop n h ebp) = n" for n ebp by (induction n arbitrary: ebp) auto
  then show ?thesis by (simp add: getcallerpcs_def)
qed

section \<open>Interleaving CPUs\<close>

datatype pc = Out | Spin | Got | Crit | Clearing | Popping

record lstate =
  lock :: spinlock
  cpus :: "nat \<Rightarrow> cpu"
  pcs :: "nat \<Rightarrow> pc"

inductive lstep :: "lstate \<Rightarrow> lstate \<Rightarrow> bool" where
  enter: "pcs s i = Out \<Longrightarrow> acquire_enter i (lock s) (cpus s i) = Ok c \<Longrightarrow>
    lstep s (s\<lparr>cpus := (cpus s)(i := c), pcs := (pcs s)(i := Spin)\<rparr>)"
| fail: "pcs s i = Spin \<Longrightarrow> xchg_lock (lock s) = (old, lk) \<Longrightarrow> old \<noteq> 0 \<Longrightarrow> lstep s (s\<lparr>lock := lk\<rparr>)"
| win: "pcs s i = Spin \<Longrightarrow> xchg_lock (lock s) = (0, lk) \<Longrightarrow>
    lstep s (s\<lparr>lock := lk, pcs := (pcs s)(i := Got)\<rparr>)"
| own: "pcs s i = Got \<Longrightarrow> lstep s (s\<lparr>lock := acquire_own i stk (lock s), pcs := (pcs s)(i := Crit)\<rparr>)"
| rel: "pcs s i = Crit \<Longrightarrow> release_begin i (lock s) (cpus s i) = Ok (lk, c) \<Longrightarrow>
    lstep s (s\<lparr>lock := lk, cpus := (cpus s)(i := c), pcs := (pcs s)(i := Clearing)\<rparr>)"
| clear: "pcs s i = Clearing \<Longrightarrow>
    lstep s (s\<lparr>lock := release_store (lock s), pcs := (pcs s)(i := Popping)\<rparr>)"
| pop: "pcs s i = Popping \<Longrightarrow> popcli (cpus s i) = Ok c \<Longrightarrow>
    lstep s (s\<lparr>cpus := (cpus s)(i := c), pcs := (pcs s)(i := Out)\<rparr>)"

definition holder :: "pc \<Rightarrow> bool" where
  "holder p \<longleftrightarrow> p = Got \<or> p = Crit \<or> p = Clearing"

definition lock_inv :: "lstate \<Rightarrow> bool" where
  "lock_inv s \<longleftrightarrow>
     (\<forall>i j. holder (pcs s i) \<and> holder (pcs s j) \<longrightarrow> i = j)
     \<and> (lk_locked (lock s) \<noteq> 0 \<longleftrightarrow> (\<exists>i. holder (pcs s i)))
     \<and> (\<forall>i. pcs s i = Crit \<longrightarrow> lk_cpu (lock s) = Some i)
     \<and> (\<forall>i. lk_cpu (lock s) = Some i \<longrightarrow> pcs s i = Crit)
     \<and> (\<forall>i. cpu_ok (cpus s i)) \<and> (\<forall>i. pcs s i \<noteq> Out \<longrightarrow> 0 < ncli (cpus s i))"

lemma lock_invD:
  assumes "lock_inv s"
  shows "holder (pcs s i) \<Longrightarrow> holder (pcs s j) \<Longrightarrow> i = j" "lk_locked (lock s) \<noteq> 0 \<longleftrightarrow> (\<exists>i. holder (pcs s i))"
    "pcs s i = Crit \<Longrightarrow> lk_cpu (lock s) = Some i" "lk_cpu (lock s) = Some i \<Longrightarrow> pcs s i = Crit"
    "cpu_ok (cpus s i)" "pcs s i \<noteq> Out \<Longrightarrow> 0 < ncli (cpus s i)"
  using assms unfolding lock_inv_def by blast+

lemma lock_invI:
  assumes "\<And>i j. holder (pcs s i) \<Longrightarrow> holder (pcs s j) \<Longrightarrow> i = j"
    "lk_locked (lock s) \<noteq> 0 \<longleftrightarrow> (\<exists>i. holder (pcs s i))"
    "\<And>i. pcs s i = Crit \<longleftrightarrow> lk_cpu (lock s) = Some i"
    "\<And>i. cpu_ok (cpus s i)" "\<And>i. pcs s i \<noteq> Out \<Longrightarrow> 0 < ncli (cpus s i)"
  shows "lock_inv s"
  using assms unfolding lock_inv_def by blast

lemma holder_simps [simp]:
  "holder Got" "holder Crit" "holder Clearing" "\<not> holder Out" "\<not> holder Spin" "\<not> holder Popping"
  by (simp_all add: holder_def)

text \<open>A CPU that does not hold the lock may move without the lock changing hands.\<close>

lemma move_inv:
  assumes inv: "lock_inv s" and p: "\<not> holder (pcs s i)" "\<not> holder q"
    and c: "cpu_ok c" "q \<noteq> Out \<Longrightarrow> 0 < ncli c"
  shows "lock_inv (s\<lparr>cpus := (cpus s)(i := c), pcs := (pcs s)(i := q)\<rparr>)"
proof -
  let ?s = "s\<lparr>cpus := (cpus s)(i := c), pcs := (pcs s)(i := q)\<rparr>"
  have h: "holder (pcs ?s j) = holder (pcs s j)" for j using p by simp
  have cr: "pcs ?s j = Crit \<longleftrightarrow> pcs s j = Crit" for j using p by auto
  show ?thesis
  proof (rule lock_invI)
    show "\<And>i j. holder (pcs ?s i) \<Longrightarrow> holder (pcs ?s j) \<Longrightarrow> i = j"
      unfolding h using lock_invD(1) [OF inv] by blast
    show "lk_locked (lock ?s) \<noteq> 0 \<longleftrightarrow> (\<exists>i. holder (pcs ?s i))"
      unfolding h using lock_invD(2) [OF inv] by simp
    show "pcs ?s j = Crit \<longleftrightarrow> lk_cpu (lock ?s) = Some j" for j
      unfolding cr using lock_invD(3,4) [OF inv, of j] by auto
    show "cpu_ok (cpus ?s j)" for j using lock_invD(5) [OF inv, of j] c(1) by simp
    show "pcs ?s j \<noteq> Out \<Longrightarrow> 0 < ncli (cpus ?s j)" for j
      using lock_invD(6) [OF inv, of j] c(2) by (cases "j = i") auto
  qed
qed

text \<open>The CPU that takes, keeps or gives up the lock; \<open>lk\<close> is the lock after its step.\<close>

lemma hold_inv:
  assumes inv: "lock_inv s" and only: "\<And>j. j \<noteq> i \<Longrightarrow> \<not> holder (pcs s j)"
    and act: "pcs s i \<noteq> Out" "q \<noteq> Out"
    and lk: "lk_locked lk \<noteq> 0 \<longleftrightarrow> holder q" "lk_cpu lk = (if q = Crit then Some i else None)"
  shows "lock_inv (s\<lparr>lock := lk, pcs := (pcs s)(i := q)\<rparr>)"
proof -
  let ?s = "s\<lparr>lock := lk, pcs := (pcs s)(i := q)\<rparr>"
  have h: "holder (pcs ?s j) \<longleftrightarrow> j = i \<and> holder q" for j using only [of j] by simp
  have cr: "pcs ?s j = Crit \<longleftrightarrow> j = i \<and> q = Crit" for j using only [of j] by (auto simp: holder_def)
  show ?thesis
  proof (rule lock_invI)
    show "\<And>i j. holder (pcs ?s i) \<Longrightarrow> holder (pcs ?s j) \<Longrightarrow> i = j" unfolding h by blast
    show "lk_locked (lock ?s) \<noteq> 0 \<longleftrightarrow> (\<exists>i. holder (pcs ?s i))" unfolding h using lk(1) by simp
    show "pcs ?s j = Crit \<longleftrightarrow> lk_cpu (lock ?s) = Some j" for j unfolding cr using lk(2) by auto
    show "cpu_ok (cpus ?s j)" for j using lock_invD(5) [OF inv, of j] by simp
    show "pcs ?s j \<noteq> Out \<Longrightarrow> 0 < ncli (cpus ?s j)" for j
      using lock_invD(6) [OF inv, of j] act by (cases "j = i") auto
  qed
qed

lemma lstep_inv: "lstep s t \<Longrightarrow> lock_inv s \<Longrightarrow> lock_inv t"
proof (induction rule: lstep.induct)
  case (enter s i c)
  have "\<not> (lk_locked (lock s) \<noteq> 0 \<and> lk_cpu (lock s) = Some i)"
    using enter.hyps(1) lock_invD(4) [OF enter.prems, of i] by auto
  then have "c = pushcli (cpus s i)"
    using enter.hyps(2) acquire_enter_ok [OF lock_invD(5) [OF enter.prems]] by simp
  moreover have "cpu_ok (cpus s i)" by (rule lock_invD(5) [OF enter.prems])
  ultimately show ?case
    using enter.hyps(1) by (intro move_inv [OF enter.prems]) (auto simp: pushcli_ok cpu_ok_def)
next
  case (fail s i old lk)
  then have lk: "lk_locked (lock s) \<noteq> 0" "lk_locked lk \<noteq> 0" "lk_cpu lk = lk_cpu (lock s)"
    by (auto simp: xchg_lock_def)
  note D = lock_invD [OF fail.prems]
  show ?case
  proof (rule lock_invI)
    show "holder (pcs (s\<lparr>lock := lk\<rparr>) i) \<Longrightarrow> holder (pcs (s\<lparr>lock := lk\<rparr>) j) \<Longrightarrow> i = j" for i j
      using D(1) [of i j] by simp
    show "lk_locked (lock (s\<lparr>lock := lk\<rparr>)) \<noteq> 0 \<longleftrightarrow> (\<exists>i. holder (pcs (s\<lparr>lock := lk\<rparr>) i))"
      using D(2) lk(1,2) by simp
    show "pcs (s\<lparr>lock := lk\<rparr>) i = Crit \<longleftrightarrow> lk_cpu (lock (s\<lparr>lock := lk\<rparr>)) = Some i" for i
      using D(3,4) [of i] lk(3) by auto
  qed (use D(5,6) in simp_all)
next
  case (win s i lk)
  then have z: "lk_locked (lock s) = 0" "lk = (lock s)\<lparr>lk_locked := 1\<rparr>" by (auto simp: xchg_lock_def)
  have free: "\<not> holder (pcs s j)" for j using lock_invD(2) [OF win.prems] z(1) by blast
  then have "lk_cpu (lock s) \<noteq> Some j" for j using lock_invD(4) [OF win.prems, of j] by (auto simp: holder_def)
  then have "lk_cpu (lock s) = None" by (cases "lk_cpu (lock s)") auto
  then show ?case using win.hyps(1) free z by (intro hold_inv [OF win.prems]) auto
next
  case (own s i stk)
  have only: "\<not> holder (pcs s j)" if "j \<noteq> i" for j using that own.hyps lock_invD(1) [OF own.prems, of j i] by auto
  have "\<exists>k. holder (pcs s k)" using own.hyps by (intro exI [of _ i]) simp
  then have "lk_locked (lock s) \<noteq> 0" using lock_invD(2) [OF own.prems] by simp
  then show ?case using own.hyps only by (intro hold_inv [OF own.prems]) (auto simp: acquire_own_def)
next
  case (rel s i lk c)
  have "0 < ncli (cpus s i)" using lock_invD(6) [OF rel.prems, of i] rel.hyps(1) by simp
  then have e: "lk = (lock s)\<lparr>lk_pcs := (lk_pcs (lock s))[0 := 0], lk_cpu := None\<rparr>" "c = cpus s i"
    using rel.hyps(2) holding_ok [OF lock_invD(5) [OF rel.prems]] by (auto simp: release_begin_def split: if_splits)
  have only: "\<not> holder (pcs s j)" if "j \<noteq> i" for j using that rel.hyps(1) lock_invD(1) [OF rel.prems, of j i] by auto
  have "\<exists>k. holder (pcs s k)" using rel.hyps(1) by (intro exI [of _ i]) simp
  then have "lk_locked (lock s) \<noteq> 0" using lock_invD(2) [OF rel.prems] by simp
  then have "lock_inv (s\<lparr>lock := lk, pcs := (pcs s)(i := Clearing)\<rparr>)"
    using rel.hyps(1) only e(1) by (intro hold_inv [OF rel.prems]) auto
  moreover have "(cpus s)(i := c) = cpus s" using e(2) by simp
  ultimately show ?case by simp
next
  case (clear s i)
  have only: "\<not> holder (pcs s j)" if "j \<noteq> i" for j using that clear.hyps lock_invD(1) [OF clear.prems, of j i] by auto
  have "lk_cpu (lock s) \<noteq> Some j" for j
    using lock_invD(4) [OF clear.prems, of j] only [of j] clear.hyps by (cases "j = i") auto
  then have "lk_cpu (lock s) = None" by (cases "lk_cpu (lock s)") auto
  then show ?case using clear.hyps only by (intro hold_inv [OF clear.prems]) (auto simp: release_store_def)
next
  case (pop s i c)
  have "0 < ncli (cpus s i)" using lock_invD(6) [OF pop.prems, of i] pop.hyps(1) by simp
  then have "cpu_ok c" using popcli_ok [OF lock_invD(5) [OF pop.prems], of i] pop.hyps(2) by auto
  then show ?case using pop.hyps(1) by (intro move_inv [OF pop.prems]) auto
qed

text \<open>From an initialised lock with consistent CPUs, every interleaving keeps the invariant.\<close>

definition lock_init :: "lstate \<Rightarrow> bool" where
  "lock_init s \<longleftrightarrow> (\<exists>name lk. lock s = initlock name lk) \<and> (\<forall>i. pcs s i = Out) \<and> (\<forall>i. cpu_ok (cpus s i))"

lemma lock_init_inv: "lock_init s \<Longrightarrow> lock_inv s"
  by (auto simp: lock_init_def lock_inv_def initlock_def)

lemma lsteps_inv: "lstep\<^sup>*\<^sup>* s t \<Longrightarrow> lock_init s \<Longrightarrow> lock_inv t"
  by (induction rule: rtranclp_induct) (auto intro: lstep_inv lock_init_inv)

end
