(* ===== verification/Sleeplock.thy ===== *)
theory Sleeplock
  imports Sched
begin

text \<open>
  Sleep locks (\<^verbatim>\<open>sleeplock.c\<close>).  The spin lock inside makes each operation atomic; a caller that
  finds the lock taken sleeps, which ends its operation as \<open>Blocked\<close> and lets others run.
\<close>

record sleeplock =
  sl_locked :: bool
  sl_name :: string
  sl_pid :: int

definition initsleeplock :: "string \<Rightarrow> sleeplock \<Rightarrow> sleeplock" where
  "initsleeplock name lk = lk\<lparr>sl_name := name, sl_locked := False, sl_pid := 0\<rparr>"

definition acquiresleep :: "sleeplock \<Rightarrow> 'a pstate_scheme \<Rightarrow> sleeplock result" where
  "acquiresleep lk s =
     (if sl_locked lk then Blocked ''acquiresleep''
      else with_myproc s (\<lambda>i p. Ok (lk\<lparr>sl_locked := True, sl_pid := p_pid p\<rparr>)))"

definition releasesleep :: "chan \<Rightarrow> sleeplock \<Rightarrow> 'a pstate_scheme \<Rightarrow> sleeplock \<times> 'a pstate_scheme" where
  "releasesleep c lk s = (lk\<lparr>sl_locked := False, sl_pid := 0\<rparr>, wakeup c s)"

definition holdingsleep :: "sleeplock \<Rightarrow> 'a pstate_scheme \<Rightarrow> bool result" where
  "holdingsleep lk s =
     (if sl_locked lk then with_myproc s (\<lambda>i p. Ok (sl_pid lk = p_pid p)) else Ok False)"

lemma acquiresleep_holding:
  "acquiresleep lk s = Ok lk' \<Longrightarrow> holdingsleep lk' s = Ok True \<and> acquiresleep lk' s = Blocked ''acquiresleep''"
  by (auto simp: acquiresleep_def holdingsleep_def with_myproc_def split: if_splits option.splits)

lemma releasesleep_frees:
  assumes "releasesleep c lk s = (lk', s')"
  shows "\<not> sl_locked lk'" "holdingsleep lk' s' = Ok False"
    "i < length (ptable s') \<Longrightarrow> \<not> (p_state (ptable s' ! i) = SLEEPING \<and> p_chan (ptable s' ! i) = c)"
  using assms by (auto simp: releasesleep_def holdingsleep_def wakeup_def wakeup1_def split: if_split_asm)

text \<open>
  With distinct pids no second process passes the check: whoever holds the lock according to
  \<open>holdingsleep\<close> is the process that acquired it.
\<close>

lemma holdingsleep_owner:
  assumes inv: "sched_inv s" and a: "acquiresleep lk s = Ok lk'" and h: "holdingsleep lk' (s\<lparr>cpu_id := c\<rparr>) = Ok True"
  shows "myproc (s\<lparr>cpu_id := c\<rparr>) = myproc s"
proof -
  from a obtain i where i: "cpu_proc s (cpu_id s) = Some i" "sl_pid lk' = p_pid (proc_at s i)" "sl_locked lk'"
    by (auto simp: acquiresleep_def with_myproc_def myproc_def split: if_splits option.splits)
  from h i(3) obtain j where j: "cpu_proc s c = Some j" "sl_pid lk' = p_pid (proc_at s j)"
    by (auto simp: holdingsleep_def with_myproc_def myproc_def proc_at_def split: option.splits)
  note bi = sched_invD(4,5) [OF inv i(1)] and bj = sched_invD(4,5) [OF inv j(1)]
  have "i = j"
    using sched_invD(8) [OF inv bi(1) bj(1)] bi(2) bj(2) i(2) j(2) bi(1) bj(1) sched_invD(1) [OF inv]
    by (simp add: proc_at_nth)
  then show ?thesis using i(1) j(1) by (simp add: myproc_def)
qed

end
