(* ===== verification/Pipe.thy ===== *)
theory Pipe
  imports Sched
begin

text \<open>
  Pipes (\<^verbatim>\<open>pipe.c\<close>): a ring of 512 bytes with free-running 32-bit counters.  The contract is the locale
  \<open>bounded_queue\<close>; \<open>pipe_put\<close> and \<open>pipe_get\<close>, the bodies of the two copy loops, implement it, also when
  the counters wrap around.  Writers and readers are then any interleaving of calls, each of
  which may stop half-way to sleep and continue later.
\<close>

section \<open>The contract of a bounded queue\<close>

locale bounded_queue =
  fixes inv :: "'s \<Rightarrow> bool" and contents :: "'s \<Rightarrow> 'a list" and cap :: nat
    and full :: "'s \<Rightarrow> bool" and empty :: "'s \<Rightarrow> bool"
    and put :: "'a \<Rightarrow> 's \<Rightarrow> 's" and get :: "'s \<Rightarrow> 'a \<times> 's"
  assumes full_iff: "inv s \<Longrightarrow> full s \<longleftrightarrow> length (contents s) = cap"
    and empty_iff: "inv s \<Longrightarrow> empty s \<longleftrightarrow> contents s = []"
    and cap_le: "inv s \<Longrightarrow> length (contents s) \<le> cap"
    and put_ok: "inv s \<Longrightarrow> \<not> full s \<Longrightarrow> inv (put a s) \<and> contents (put a s) = contents s @ [a]"
    and get_ok: "inv s \<Longrightarrow> \<not> empty s \<Longrightarrow> fst (get s) = hd (contents s) \<and> inv (snd (get s))
      \<and> contents (snd (get s)) = tl (contents s)"
begin

text \<open>Put as much as fits; take up to \<open>n\<close>.\<close>

fun fill :: "'a list \<Rightarrow> 's \<Rightarrow> 'a list \<times> 's" where
  "fill [] s = ([], s)"
| "fill (a # as) s = (if full s then (a # as, s) else fill as (put a s))"

fun drain :: "nat \<Rightarrow> 's \<Rightarrow> 'a list \<times> 's" where
  "drain 0 s = ([], s)"
| "drain (Suc n) s = (if empty s then ([], s)
     else let (a, s1) = get s; (as, s2) = drain n s1 in (a # as, s2))"

lemma fill_ok:
  "inv s \<Longrightarrow> fill as s = (rest, s') \<Longrightarrow>
     inv s' \<and> contents s' = contents s @ take (cap - length (contents s)) as
     \<and> rest = drop (cap - length (contents s)) as"
proof (induction as arbitrary: s)
  case (Cons a as)
  show ?case
  proof (cases "full s")
    case True
    then show ?thesis using Cons.prems full_iff [OF Cons.prems(1)] by auto
  next
    case False
    have lt: "length (contents s) < cap"
      using False full_iff [OF Cons.prems(1)] cap_le [OF Cons.prems(1)] by simp
    then have "cap - length (contents s) = Suc (cap - Suc (length (contents s)))" by simp
    then show ?thesis
      using Cons.IH [of "put a s"] put_ok [OF Cons.prems(1) False, of a] Cons.prems(2) False by simp
  qed
qed simp

lemma drain_ok:
  "inv s \<Longrightarrow> drain n s = (as, s') \<Longrightarrow>
     inv s' \<and> as = take n (contents s) \<and> contents s' = drop n (contents s)"
proof (induction n arbitrary: s as)
  case (Suc n)
  show ?case
  proof (cases "empty s")
    case True
    then show ?thesis using Suc.prems empty_iff [OF Suc.prems(1)] by simp
  next
    case False
    obtain a s1 bs where g: "get s = (a, s1)" "drain n s1 = (bs, s')" "as = a # bs"
      using Suc.prems(2) False by (auto split: prod.splits)
    obtain x xs where c: "contents s = x # xs"
      using False empty_iff [OF Suc.prems(1)] by (cases "contents s") auto
    have "a = x" "inv s1" "contents s1 = xs" using get_ok [OF Suc.prems(1) False] g(1) c by auto
    then show ?thesis using Suc.IH [OF _ g(2)] g(3) c by simp
  qed
qed simp

text \<open>
  Any sequence of fills and drains: what was read, followed by what is still inside, is what was
  inside at first followed by what was accepted, in order.
\<close>

inductive run :: "'s \<Rightarrow> 'a list \<Rightarrow> 'a list \<Rightarrow> 's \<Rightarrow> bool" where
  start: "run s [] [] s"
| fills: "run s w r t \<Longrightarrow> fill as t = (rest, u) \<Longrightarrow> run s (w @ take (length as - length rest) as) r u"
| drains: "run s w r t \<Longrightarrow> drain n t = (bs, u) \<Longrightarrow> run s w (r @ bs) u"

lemma run_fifo: "run s w r t \<Longrightarrow> inv s \<Longrightarrow> inv t \<and> r @ contents t = contents s @ w"
proof (induction rule: run.induct)
  case (fills s w r t as rest u)
  let ?k = "cap - length (contents t)"
  have f: "inv u" "contents u = contents t @ take ?k as" "rest = drop ?k as"
    using fill_ok [OF _ fills.hyps(2)] fills.IH [OF fills.prems] by blast+
  have "take (length as - length rest) as = take ?k as"
    using f(3) by (cases "?k \<le> length as") simp_all
  then show ?case using f fills.IH [OF fills.prems] by simp
next
  case (drains s w r t n bs u)
  then show ?case using drain_ok [OF _ drains.hyps(2)] by auto
qed simp

end

section \<open>The ring\<close>

record pipe =
  pdata :: "u8 list"
  nread :: u32
  nwrite :: u32
  readopen :: int
  writeopen :: int

definition pipe_full :: "pipe \<Rightarrow> bool" where
  "pipe_full p \<longleftrightarrow> nwrite p = nread p + 512"

definition pipe_empty :: "pipe \<Rightarrow> bool" where
  "pipe_empty p \<longleftrightarrow> nread p = nwrite p"

definition pipe_put :: "u8 \<Rightarrow> pipe \<Rightarrow> pipe" where
  "pipe_put b p = p\<lparr>pdata := (pdata p)[unat (nwrite p mod 512) := b], nwrite := nwrite p + 1\<rparr>"

definition pipe_get :: "pipe \<Rightarrow> u8 \<times> pipe" where
  "pipe_get p = (pdata p ! unat (nread p mod 512), p\<lparr>nread := nread p + 1\<rparr>)"

definition pipe_inv :: "pipe \<Rightarrow> bool" where
  "pipe_inv p \<longleftrightarrow> length (pdata p) = 512 \<and> unat (nwrite p - nread p) \<le> 512"

definition pipe_contents :: "pipe \<Rightarrow> u8 list" where
  "pipe_contents p = map (\<lambda>k. pdata p ! ((unat (nread p) + k) mod 512)) [0..<unat (nwrite p - nread p)]"

lemma unat_mod512: "unat (x mod 512) = unat x mod 512" for x :: u32
  by (simp add: unat_mod_distrib)

lemma ring_index: "unat (nwrite p mod 512) = (unat (nread p) + unat (nwrite p - nread p)) mod 512"
proof -
  have "nwrite p = nread p + (nwrite p - nread p)" by simp
  then show ?thesis using ring_plus [of 512 "nread p" "nwrite p - nread p"] by (simp add: unat_mod512)
qed

lemma pipe_full_iff: "pipe_full p \<longleftrightarrow> unat (nwrite p - nread p) = 512"
proof -
  have "pipe_full p \<longleftrightarrow> nwrite p - nread p = 512" by (auto simp: pipe_full_def algebra_simps)
  also have "\<dots> \<longleftrightarrow> unat (nwrite p - nread p) = unat (512 :: u32)" by (rule word_unat_eq_iff)
  finally show ?thesis by simp
qed

lemma length_contents [simp]: "length (pipe_contents p) = unat (nwrite p - nread p)"
  by (simp add: pipe_contents_def)

lemma pipe_put_ok:
  assumes inv: "pipe_inv p" and nf: "\<not> pipe_full p"
  shows "pipe_inv (pipe_put b p) \<and> pipe_contents (pipe_put b p) = pipe_contents p @ [b]"
proof -
  let ?n = "unat (nwrite p - nread p)" and ?r = "unat (nread p)"
  have n: "?n < 512" "length (pdata p) = 512" using inv nf by (auto simp: pipe_inv_def pipe_full_iff)
  have "nwrite p + 1 - nread p = (nwrite p - nread p) + 1" by simp
  then have s: "unat (nwrite p + 1 - nread p) = Suc ?n" using n(1) by (simp only: unat_add32) simp
  have idx: "(?r + ?n) mod 512 < length (pdata p)" using n(2) by simp
  have "pdata (pipe_put b p) ! ((?r + k) mod 512) = pdata p ! ((?r + k) mod 512)" if "k < ?n" for k
    using ring_distinct [OF that n(1), of ?r] by (simp add: pipe_put_def ring_index)
  then have "pipe_contents (pipe_put b p) = pipe_contents p @ [b]"
    using s idx by (simp add: pipe_contents_def pipe_put_def ring_index)
  then show ?thesis using s n by (simp add: pipe_inv_def pipe_put_def)
qed

lemma pipe_get_ok:
  assumes inv: "pipe_inv p" and ne: "\<not> pipe_empty p"
  shows "fst (pipe_get p) = hd (pipe_contents p) \<and> pipe_inv (snd (pipe_get p))
    \<and> pipe_contents (snd (pipe_get p)) = tl (pipe_contents p)"
proof -
  let ?n = "unat (nwrite p - nread p)" and ?r = "unat (nread p)"
  have nz: "nwrite p - nread p \<noteq> 0" using ne by (auto simp: pipe_empty_def)
  have e: "nwrite p - (nread p + 1) = nwrite p - nread p - 1" by simp
  then have s: "unat (nwrite p - (nread p + 1)) = ?n - 1" using unat_minus_one [OF nz] by (simp only: e)
  have pos: "0 < ?n" using nz by (simp add: unat_gt_0)
  then have u: "[0..<?n] = 0 # map Suc [0..<?n - 1]" by (simp add: map_Suc_upt upt_conv_Cons)
  have c: "pipe_contents p = pdata p ! (?r mod 512) #
      map (\<lambda>k. pdata p ! ((?r + Suc k) mod 512)) [0..<?n - 1]"
    unfolding pipe_contents_def u by (simp add: o_def)
  have "(unat (nread p + 1) + k) mod 512 = (?r + Suc k) mod 512" for k by (rule ring_next) simp
  then have "pipe_contents (snd (pipe_get p)) = tl (pipe_contents p)"
    unfolding c by (simp add: pipe_contents_def pipe_get_def s)
  moreover have "?n - 1 \<le> 512" using inv unfolding pipe_inv_def by linarith
  ultimately show ?thesis
    using inv s c by (simp add: pipe_get_def pipe_inv_def unat_mod512)
qed

interpretation ring: bounded_queue pipe_inv pipe_contents 512 pipe_full pipe_empty pipe_put pipe_get
proof unfold_locales
  fix p b
  show "pipe_full p \<longleftrightarrow> length (pipe_contents p) = 512" by (simp add: pipe_full_iff)
  show "pipe_empty p \<longleftrightarrow> pipe_contents p = []"
  proof -
    have "pipe_contents p = [] \<longleftrightarrow> unat (nwrite p - nread p) = 0" by (simp flip: length_0_conv)
    then show ?thesis by (auto simp: pipe_empty_def unat_eq_zero)
  qed
  show "pipe_inv p \<Longrightarrow> length (pipe_contents p) \<le> 512" by (simp add: pipe_inv_def)
  show "pipe_inv p \<Longrightarrow> \<not> pipe_full p \<Longrightarrow> pipe_inv (pipe_put b p) \<and> pipe_contents (pipe_put b p) = pipe_contents p @ [b]"
    by (rule pipe_put_ok)
  show "pipe_inv p \<Longrightarrow> \<not> pipe_empty p \<Longrightarrow> fst (pipe_get p) = hd (pipe_contents p) \<and> pipe_inv (snd (pipe_get p))
    \<and> pipe_contents (snd (pipe_get p)) = tl (pipe_contents p)"
    by (rule pipe_get_ok)
qed

section \<open>The system calls' loops\<close>

text \<open>
  \<open>a\<close> is the address of the pipe, which names its two sleep channels.  A call returns \<open>Some r\<close>, or
  \<open>None\<close> when the process has gone to sleep, with the bytes it has still to write.
\<close>

fun pipewrite_loop :: "u32 \<Rightarrow> int \<Rightarrow> u8 list \<Rightarrow> pipe \<Rightarrow> 'a pstate_scheme \<Rightarrow>
    (int option \<times> u8 list \<times> pipe \<times> 'a pstate_scheme) result" where
  "pipewrite_loop a n [] p s = Ok (Some n, [], p, wakeup (CPipeR a) s)"
| "pipewrite_loop a n (b # bs) p s =
     (if pipe_full p then
        with_myproc s (\<lambda>i me.
        if readopen p = 0 \<or> p_killed me \<noteq> 0 then Ok (Some (-1), b # bs, p, s)
        else bindr (sleep_begin (CPipeW a) (wakeup (CPipeR a) s)) (\<lambda>s'. Ok (None, b # bs, p, s')))
      else pipewrite_loop a n bs (pipe_put b p) s)"

definition pipewrite :: "u32 \<Rightarrow> u8 list \<Rightarrow> pipe \<Rightarrow> 'a pstate_scheme \<Rightarrow>
    (int option \<times> u8 list \<times> pipe \<times> 'a pstate_scheme) result" where
  "pipewrite a bs p s = pipewrite_loop a (int (length bs)) bs p s"

fun piperead_copy :: "nat \<Rightarrow> pipe \<Rightarrow> u8 list \<times> pipe" where
  "piperead_copy 0 p = ([], p)"
| "piperead_copy (Suc n) p =
     (if nread p = nwrite p then ([], p)
      else let (b, p1) = pipe_get p; (bs, p2) = piperead_copy n p1 in (b # bs, p2))"

definition piperead :: "u32 \<Rightarrow> nat \<Rightarrow> pipe \<Rightarrow> 'a pstate_scheme \<Rightarrow>
    (int option \<times> u8 list \<times> pipe \<times> 'a pstate_scheme) result" where
  "piperead a n p s =
     (if nread p = nwrite p \<and> writeopen p \<noteq> 0 then
        with_myproc s (\<lambda>i me.
        if p_killed me \<noteq> 0 then Ok (Some (-1), [], p, s)
        else bindr (sleep_begin (CPipeR a) s) (\<lambda>s'. Ok (None, [], p, s')))
      else
        let (bs, p') = piperead_copy n p in
        Ok (Some (int (length bs)), bs, p', wakeup (CPipeW a) s))"

lemma piperead_copy_drain: "piperead_copy n p = ring.drain n p"
  by (induction n arbitrary: p) (simp_all add: pipe_empty_def)

lemma pipewrite_loop_fill:
  "pipewrite_loop a n bs p s = Ok (r, rest, p', s') \<Longrightarrow> ring.fill bs p = (rest, p')
     \<and> (r = Some n \<and> rest = [] \<or> rest \<noteq> [] \<and> pipe_full p' \<and> (r = None \<or> r = Some (-1)))"
proof (induction bs arbitrary: p)
  case (Cons b bs)
  show ?case
  proof (cases "pipe_full p")
    case True
    then show ?thesis
      using Cons.prems by (auto simp: with_myproc_def bindr_Ok_iff split: option.splits if_splits)
  qed (use Cons in simp)
qed simp

lemma ring_put_open: "readopen (pipe_put b p) = readopen p" "writeopen (pipe_put b p) = writeopen p"
  by (simp_all add: pipe_put_def)

lemma piperead_result:
  assumes inv: "pipe_inv p" and r: "piperead a n p s = Ok (Some k, bs, p', s')" and k: "0 \<le> k"
  shows "bs = take n (pipe_contents p) \<and> pipe_contents p' = drop n (pipe_contents p) \<and> pipe_inv p'
    \<and> k = int (length bs)"
proof -
  obtain cs q where d: "piperead_copy n p = (cs, q)" by fastforce
  have "bs = cs" "p' = q" "k = int (length cs)"
    using r k d by (auto simp: piperead_def with_myproc_def bindr_Ok_iff split: if_splits option.splits)
  then show ?thesis using ring.drain_ok [OF inv] d by (auto simp: piperead_copy_drain)
qed

end
