(* ===== verification/Proc_Props.thy ===== *)
theory Proc_Props
  imports Sched Spinlock Sleeplock Pipe
begin

text \<open>
  The properties of processes, locks and pipes (\<^verbatim>\<open>proc.c\<close>, \<^verbatim>\<open>spinlock.c\<close>, \<^verbatim>\<open>sleeplock.c\<close>, \<^verbatim>\<open>pipe.c\<close>),
  with instances on a machine that has just booted: the first process is runnable in slot 0 and
  every CPU is in its scheduler.
\<close>

section \<open>A booted machine\<close>

definition first_proc :: proc where
  "first_proc = zero_proc\<lparr>p_pid := 1, p_state := RUNNABLE, p_kstack := 0x80510000, p_pgdir := 0x80500000\<rparr>"

definition demo_boot :: pstate where
  "demo_boot = \<lparr>heap = (\<lambda>_. 0), kmem_freelist = 0, kmem_use_lock = True, cow_ref_counts = (\<lambda>_. 0),
     cr3 = 0, kend = 0x80120000, kdata = 0x80108000,
     ptable = first_proc # replicate 63 zero_proc, nextpid = 2, initproc = Some 0,
     cpu_proc = (\<lambda>c. None), cpu_esp0 = (\<lambda>_. 0), cpu_id = 0, ticks = 0, kpgdir = 0, trapret = 0, forkret_addr = 0\<rparr>"

lemma first_proc_simps [simp]: "p_pid first_proc = 1" "p_state first_proc = RUNNABLE" "p_kstack first_proc \<noteq> 0"
  "p_pgdir first_proc \<noteq> 0" "p_state zero_proc = UNUSED"
  by (simp_all add: first_proc_def zero_proc_def)

lemma demo_boot_inv: "sched_inv demo_boot"
proof -
  have t: "ptable demo_boot ! i = (if i = 0 then first_proc else zero_proc)" if "i < NPROC" for i
    using that by (simp add: demo_boot_def nth_Cons')
  show ?thesis
    unfolding sched_inv_def by (auto simp: t proc_ok_def) (auto simp: demo_boot_def)
qed

section \<open>Processes\<close>



text \<open>What \<^verbatim>\<open>wakeup1\<close> and re-parenting keep of one slot.\<close>

lemma wakeup1_slot:
  assumes "i < length (ptable s)"
  shows "p_parent (ptable (wakeup1 c s) ! i) = p_parent (ptable s ! i)"
    "p_state (ptable (wakeup1 c s) ! i) = SLEEPING \<longleftrightarrow> p_state (ptable s ! i) = SLEEPING \<and> p_chan (ptable s ! i) \<noteq> c"
    "p_chan (ptable (wakeup1 c s) ! i) = p_chan (ptable s ! i)" "length (ptable (wakeup1 c s)) = length (ptable s)"
  using assms by (auto simp: wakeup1_def)

lemma reparent_slot:
  assumes "i < length (ptable s)" and t: "t = fold (reparent1 cur) js s"
  shows "length (ptable t) = length (ptable s) \<and> p_chan (ptable t ! i) = p_chan (ptable s ! i) \<and>
    (p_parent (ptable s ! i) \<noteq> Some cur \<longrightarrow> p_parent (ptable t ! i) = p_parent (ptable s ! i)) \<and>
    (p_state (ptable t ! i) = SLEEPING \<longrightarrow> p_state (ptable s ! i) = SLEEPING)"
  using assms(1) unfolding t
proof (induction js arbitrary: s)
  case (Cons j js)
  let ?u = "reparent1 cur j s"
  have "length (ptable ?u) = length (ptable s) \<and> p_chan (ptable ?u ! i) = p_chan (ptable s ! i) \<and>
    (p_parent (ptable s ! i) \<noteq> Some cur \<longrightarrow> p_parent (ptable ?u ! i) = p_parent (ptable s ! i)) \<and>
    (p_state (ptable ?u ! i) = SLEEPING \<longrightarrow> p_state (ptable s ! i) = SLEEPING)"
    using Cons.prems by (auto simp: reparent1_def wakeup1_slot proc_at_def Let_def nth_list_update)
  then show ?case using Cons.IH [of ?u] Cons.prems by auto
qed simp

lemma find_zombie_some:
  "j < length ps \<Longrightarrow> p_parent (ps ! j) = Some cur \<Longrightarrow> p_state (ps ! j) = ZOMBIE \<Longrightarrow> find_zombie cur i ps \<noteq> None"
proof (induction ps arbitrary: i j)
  case (Cons p ps)
  then show ?case by (cases j) auto
qed simp


text \<open>The first process forks a child into slot 1; the child runs and exits while the parent waits.\<close>

definition demo_family :: pstate where
  "demo_family = demo_boot\<lparr>ptable := first_proc\<lparr>p_state := SLEEPING, p_chan := CProc 0\<rparr> #
     first_proc\<lparr>p_pid := 2, p_state := RUNNING, p_parent := Some 0\<rparr> # replicate 62 zero_proc,
     cpu_proc := (\<lambda>c. if c = 0 then Some 1 else None), nextpid := 3\<rparr>"

lemma demo_family_inv: "sched_inv demo_family"
proof -
  have t: "ptable demo_family ! i = (if i = 0 then first_proc\<lparr>p_state := SLEEPING, p_chan := CProc 0\<rparr>
      else if i = 1 then first_proc\<lparr>p_pid := 2, p_state := RUNNING, p_parent := Some 0\<rparr> else zero_proc)" if "i < NPROC" for i
    using that by (simp add: demo_family_def nth_Cons')
  show ?thesis
    unfolding sched_inv_def by (auto simp: t proc_ok_def) (auto simp: demo_family_def split: if_splits)
qed


section \<open>Locks\<close>

text \<open>
  C4.  Mutual exclusion: from an initialised spinlock, in every interleaving of the atomic steps of
  \<^verbatim>\<open>acquire\<close> and \<^verbatim>\<open>release\<close> by any number of CPUs, at most one CPU is between winning the exchange
  and clearing the lock, the lock is set exactly when there is one, and whoever is inside has
  interrupts disabled and is the CPU the lock records.
\<close>

theorem spinlock_mutual_exclusion:
  assumes "lstep\<^sup>*\<^sup>* s t" "lock_init s"
  shows "(\<forall>i j. holder (pcs t i) \<and> holder (pcs t j) \<longrightarrow> i = j) \<and>
    (lk_locked (lock t) \<noteq> 0 \<longleftrightarrow> (\<exists>i. holder (pcs t i))) \<and>
    (\<forall>i. pcs t i = Crit \<longrightarrow> lk_cpu (lock t) = Some i \<and> 0 < ncli (cpus t i))"
proof -
  note inv = lsteps_inv [OF assms]
  show ?thesis using lock_invD [OF inv] by (metis pc.distinct(5))
qed

definition demo_lock :: lstate where
  "demo_lock = \<lparr>lock = initlock ''demo'' \<lparr>lk_locked = 0, lk_name = [], lk_cpu = None, lk_pcs = replicate 10 0\<rparr>,
     cpus = (\<lambda>_. \<lparr>ncli = 0, intena = False, eflags_if = True\<rparr>), pcs = (\<lambda>_. Out)\<rparr>"

text \<open>CPU 0 enters and wins the exchange.\<close>

definition demo_taken :: lstate where
  "demo_taken = demo_lock\<lparr>cpus := (cpus demo_lock)(0 := pushcli (cpus demo_lock 0)),
     lock := (lock demo_lock)\<lparr>lk_locked := 1\<rparr>, pcs := (pcs demo_lock)(0 := Got)\<rparr>"

lemma demo_lock_init: "lock_init demo_lock"
  by (auto simp: lock_init_def demo_lock_def cpu_ok_def)

lemma demo_lock_steps:
  "lstep\<^sup>*\<^sup>* demo_lock demo_taken"
proof -
  let ?s1 = "demo_lock\<lparr>cpus := (cpus demo_lock)(0 := pushcli (cpus demo_lock 0)), pcs := (pcs demo_lock)(0 := Spin)\<rparr>"
  have "lstep demo_lock ?s1"
    by (rule lstep.enter)
      (simp_all add: demo_lock_def acquire_enter_def holding_def pushcli_def popcli_def initlock_def Let_def)
  moreover have "lstep ?s1 (?s1\<lparr>lock := (lock demo_lock)\<lparr>lk_locked := 1\<rparr>, pcs := (pcs ?s1)(0 := Got)\<rparr>)"
    by (rule lstep.win) (simp_all add: demo_lock_def xchg_lock_def initlock_def)
  ultimately show ?thesis by (simp add: demo_taken_def converse_rtranclp_into_rtranclp r_into_rtranclp)
qed

theorem spinlock_mutual_exclusion_witness:
  "let t = demo_taken in
   (\<forall>i j. holder (pcs t i) \<and> holder (pcs t j) \<longrightarrow> i = j) \<and>
    (lk_locked (lock t) \<noteq> 0 \<longleftrightarrow> (\<exists>i. holder (pcs t i))) \<and>
    (\<forall>i. pcs t i = Crit \<longrightarrow> lk_cpu (lock t) = Some i \<and> 0 < ncli (cpus t i))"
  unfolding Let_def by (rule spinlock_mutual_exclusion [OF demo_lock_steps demo_lock_init])

text \<open>
  C38.  None of the lock's own checks fires: in every reachable state a CPU outside can start
  \<^verbatim>\<open>acquire\<close>, one inside can start \<^verbatim>\<open>release\<close> and one that has cleared the lock can restore its
  interrupt flag, without a panic.
\<close>

theorem spinlock_never_panics:
  assumes "lstep\<^sup>*\<^sup>* s t" "lock_init s"
  shows "(pcs t i = Out \<longrightarrow> (\<exists>c. acquire_enter i (lock t) (cpus t i) = Ok c)) \<and>
    (pcs t i = Crit \<longrightarrow> (\<exists>r. release_begin i (lock t) (cpus t i) = Ok r)) \<and>
    (pcs t i = Popping \<longrightarrow> (\<exists>c. popcli (cpus t i) = Ok c))"
proof -
  note D = lock_invD [OF lsteps_inv [OF assms]]
  have a: "\<exists>c. acquire_enter i (lock t) (cpus t i) = Ok c" if "pcs t i = Out"
    using acquire_enter_ok [OF D(5)] D(4) [of i] that by fastforce
  have "\<exists>r. release_begin i (lock t) (cpus t i) = Ok r" if p: "pcs t i = Crit"
  proof -
    have "0 < ncli (cpus t i)" "lk_cpu (lock t) = Some i" "lk_locked (lock t) \<noteq> 0"
      using D(2) D(3) [of i] D(6) [of i] p by (auto intro: exI [of _ i])
    then show ?thesis using holding_ok [OF D(5)] by (auto simp: release_begin_def)
  qed
  moreover have "\<exists>c. popcli (cpus t i) = Ok c" if "pcs t i = Popping"
    using popcli_ok [OF D(5)] D(6) [of i] that by auto
  ultimately show ?thesis using a by blast
qed

theorem spinlock_never_panics_witness:
  "let t = demo_taken in
   (pcs t 1 = Out \<longrightarrow> (\<exists>c. acquire_enter 1 (lock t) (cpus t 1) = Ok c)) \<and>
    (pcs t 1 = Crit \<longrightarrow> (\<exists>r. release_begin 1 (lock t) (cpus t 1) = Ok r)) \<and>
    (pcs t 1 = Popping \<longrightarrow> (\<exists>c. popcli (cpus t 1) = Ok c))"
  unfolding Let_def by (rule spinlock_never_panics [OF demo_lock_steps demo_lock_init])

text \<open>
  C39.  A sleep lock belongs to the process that acquired it: a second \<^verbatim>\<open>acquiresleep\<close> waits, and
  \<^verbatim>\<open>holdingsleep\<close> answers true only to the process that holds it, whichever CPU asks.
\<close>

theorem sleeplock_has_one_owner:
  assumes "sched_inv s" "acquiresleep lk s = Ok lk'"
  shows "holdingsleep lk' s = Ok True \<and> acquiresleep lk' s = Blocked ''acquiresleep'' \<and>
    (\<forall>c. holdingsleep lk' (s\<lparr>cpu_id := c\<rparr>) = Ok True \<longrightarrow> myproc (s\<lparr>cpu_id := c\<rparr>) = myproc s)"
  using acquiresleep_holding [OF assms(2)] holdingsleep_owner [OF assms] by blast

theorem sleeplock_has_one_owner_witness:
  "let s = demo_family; lk' = \<lparr>sl_locked = True, sl_name = [], sl_pid = 2\<rparr> in
   holdingsleep lk' s = Ok True \<and> acquiresleep lk' s = Blocked ''acquiresleep'' \<and>
    (\<forall>c. holdingsleep lk' (s\<lparr>cpu_id := c\<rparr>) = Ok True \<longrightarrow> myproc (s\<lparr>cpu_id := c\<rparr>) = myproc s)"
  unfolding Let_def
  by (rule sleeplock_has_one_owner [OF demo_family_inv, of "\<lparr>sl_locked = False, sl_name = [], sl_pid = 0\<rparr>"])
    (simp add: acquiresleep_def with_myproc_def demo_family_def demo_boot_def myproc_def proc_at_def)

section \<open>Pipes\<close>

text \<open>Any sequence of calls of \<^verbatim>\<open>pipewrite\<close> and \<^verbatim>\<open>piperead\<close> on one pipe, with what they moved.\<close>

inductive pipe_calls :: "pipe \<Rightarrow> u8 list \<Rightarrow> u8 list \<Rightarrow> pipe \<Rightarrow> bool" where
  none: "pipe_calls p [] [] p"
| writes: "pipe_calls p w r q \<Longrightarrow> pipewrite a bs q (s :: pstate) = Ok (res, rest, q', s') \<Longrightarrow>
    pipe_calls p (w @ take (length bs - length rest) bs) r q'"
| reads: "pipe_calls p w r q \<Longrightarrow> piperead a n q (s :: pstate) = Ok (res, bs, q', s') \<Longrightarrow> pipe_calls p w (r @ bs) q'"

lemma piperead_drain:
  assumes "piperead a n q s = Ok (res, bs, q', s')"
  shows "\<exists>k. ring.drain k q = (bs, q')"
proof -
  consider "bs = []" "q' = q" | "piperead_copy n q = (bs, q')"
    using assms by (auto simp: piperead_def with_myproc_def bindr_Ok_iff split: if_splits option.splits prod.splits)
  then show ?thesis
  proof cases
    case 1
    then show ?thesis by (intro exI [of _ 0]) simp
  next
    case 2
    then show ?thesis unfolding piperead_copy_drain by blast
  qed
qed

lemma pipe_calls_run: "pipe_calls p w r q \<Longrightarrow> ring.run p w r q"
proof (induction rule: pipe_calls.induct)
  case (writes p w r q a bs s res rest q' s')
  then show ?case using pipewrite_loop_fill [of a _ bs q s] by (intro ring.run.fills) (auto simp: pipewrite_def)
next
  case (reads p w r q a n s res bs q' s')
  obtain k where "ring.drain k q = (bs, q')" using piperead_drain [OF reads.hyps(2)] by blast
  then show ?case using reads.IH by (intro ring.run.drains)
qed (rule ring.run.start)

text \<open>
  C5.  A pipe is a first-in first-out queue of bytes.  For every sequence of writes and reads,
  each of which may be cut short by a full or an empty pipe, the bytes read followed by the bytes
  still inside are the bytes that were inside followed by the bytes accepted, in order, and at most
  512 bytes are inside, also when the 32-bit counters wrap around.
\<close>

theorem pipe_is_fifo:
  assumes "pipe_calls p w r q" "pipe_inv p"
  shows "r @ pipe_contents q = pipe_contents p @ w \<and> length (pipe_contents q) \<le> 512"
  using ring.run_fifo [OF pipe_calls_run [OF assms(1)] assms(2)] ring.cap_le by blast

text \<open>Counters about to wrap: three bytes are written and two of them read.\<close>

definition demo_pipe :: pipe where
  "demo_pipe = \<lparr>pdata = replicate 512 0, nread = 0xFFFFFFFF, nwrite = 0xFFFFFFFF, readopen = 1, writeopen = 1\<rparr>"

lemma demo_pipe_inv: "pipe_inv demo_pipe" "pipe_contents demo_pipe = []"
  by (simp_all add: pipe_inv_def pipe_contents_def demo_pipe_def)

lemma demo_pipe_calls: "\<exists>q. pipe_calls demo_pipe [1, 2, 3] [1, 2] q"
proof -
  let ?p = "pipe_put 3 (pipe_put 2 (pipe_put 1 demo_pipe))"
  have w: "pipewrite 0 [1, 2, 3] demo_pipe demo_boot = Ok (Some 3, [], ?p, wakeup (CPipeR 0) demo_boot)"
    by (simp add: pipewrite_def demo_pipe_def pipe_full_def pipe_put_def)
  have "pipe_calls demo_pipe [1, 2, 3] [] ?p" using pipe_calls.writes [OF pipe_calls.none w] by simp
  moreover have "piperead 0 (Suc (Suc 0)) ?p demo_boot =
      Ok (Some 2, [1, 2], snd (pipe_get (snd (pipe_get ?p))), wakeup (CPipeW 0) demo_boot)"
    by (simp add: piperead_def demo_pipe_def pipe_put_def pipe_get_def)
  ultimately show ?thesis using pipe_calls.reads [of demo_pipe "[1, 2, 3]" "[]" ?p 0 "Suc (Suc 0)"] by fastforce
qed

theorem pipe_is_fifo_witness:
  "\<exists>q. pipe_calls demo_pipe [1, 2, 3] [1, 2] q \<and>
     [1, 2] @ pipe_contents q = pipe_contents demo_pipe @ [1, 2, 3] \<and> length (pipe_contents q) \<le> 512"
  using demo_pipe_calls pipe_is_fifo [OF _ demo_pipe_inv(1)] by blast

lemma pipewrite_loop_cases:
  assumes "pipe_inv p" "room = 512 - length (pipe_contents p)" "myproc s = Some i" "p' = snd (ring.fill bs p)"
  shows "pipewrite_loop a n bs p s =
    (if length bs \<le> room then Ok (Some n, [], p', wakeup (CPipeR a) s)
     else if readopen p = 0 \<or> p_killed (proc_at s i) \<noteq> 0 then Ok (Some (-1), drop room bs, p', s)
     else bindr (sleep_begin (CPipeW a) (wakeup (CPipeR a) s)) (\<lambda>s'. Ok (None, drop room bs, p', s')))"
  using assms(1,2,4)
proof (induction bs arbitrary: p room)
  case (Cons b bs)
  show ?case
  proof (cases "pipe_full p")
    case True
    then have "room = 0" using Cons.prems ring.full_iff by simp
    then show ?thesis using True Cons.prems assms(3) by (simp add: with_myproc_def)
  next
    case False
    note put = ring.put_ok [OF Cons.prems(1) False, of b]
    have "length (pipe_contents p) < 512"
      using False ring.full_iff [OF Cons.prems(1)] ring.cap_le [OF Cons.prems(1)] by linarith
    then have r: "room = Suc (512 - length (pipe_contents (pipe_put b p)))" using Cons.prems(2) put by simp
    show ?thesis
      using Cons.IH [OF _ refl, of "pipe_put b p"] put False Cons.prems(3) ring_put_open [of b p] r by simp
  qed
qed simp

text \<open>
  What \<^verbatim>\<open>pipewrite\<close> returns: all bytes are accepted and the readers woken when they fit;
  otherwise as many as fit are stored, and the call fails with \<open>-1\<close> when the read end is closed or
  the writer has been killed, and else goes to sleep with the rest still to write.
\<close>

theorem pipewrite_outcome:
  assumes "pipe_inv p" "room = 512 - length (pipe_contents p)" "myproc s = Some i" "i < length (ptable s)"
  shows "\<exists>p' s' res. pipewrite a bs p s = Ok (res, drop room bs, p', s') \<and> pipe_inv p' \<and>
    pipe_contents p' = pipe_contents p @ take room bs \<and>
    res = (if length bs \<le> room then Some (int (length bs))
           else if readopen p = 0 \<or> p_killed (proc_at s i) \<noteq> 0 then Some (-1) else None) \<and>
    (res = None \<longrightarrow> p_state (proc_at s' i) = SLEEPING \<and> p_chan (proc_at s' i) = CPipeW a)"
proof -
  obtain rest p' where f: "ring.fill bs p = (rest, p')" by fastforce
  note F = ring.fill_ok [OF assms(1) f]
  let ?s1 = "wakeup (CPipeR a) s"
  let ?s2 = "upd_proc i (\<lambda>p. p\<lparr>p_chan := CPipeW a, p_state := SLEEPING\<rparr>) ?s1"
  let ?s3 = "lcr3 (V2P (kpgdir ?s2)) (?s2\<lparr>cpu_proc := (cpu_proc ?s2)(cpu_id ?s2 := None)\<rparr>)"
  have my: "myproc ?s1 = Some i" "i < length (ptable ?s1)" using assms(3,4) by (simp_all add: wakeup_def wakeup1_def myproc_def)
  then have sl: "sleep_begin (CPipeW a) ?s1 = Ok ?s3"
    by (simp add: sleep_begin_def sched_def with_myproc_def myproc_def proc_at_def)
  have "p_state (proc_at ?s3 i) = SLEEPING" "p_chan (proc_at ?s3 i) = CPipeW a" using my(2) by (simp_all add: proc_at_def lcr3_def)
  moreover have "pipewrite a bs p s =
    (if length bs \<le> room then Ok (Some (int (length bs)), [], p', ?s1)
     else if readopen p = 0 \<or> p_killed (proc_at s i) \<noteq> 0 then Ok (Some (-1), drop room bs, p', s)
     else Ok (None, drop room bs, p', ?s3))"
    using pipewrite_loop_cases [OF assms(1-3), of p' bs] f sl by (simp add: pipewrite_def)
  ultimately show ?thesis using F assms(2) by (auto split: if_splits)
qed

theorem pipewrite_outcome_witness:
  "let s = demo_family; p = demo_pipe; bs = [1, 2, 3] in
   \<exists>p' s' res. pipewrite 0 bs p s = Ok (res, drop 512 bs, p', s') \<and> pipe_inv p' \<and>
    pipe_contents p' = pipe_contents p @ take 512 bs \<and>
    res = (if length bs \<le> 512 then Some (int (length bs))
           else if readopen p = 0 \<or> p_killed (proc_at s 1) \<noteq> 0 then Some (-1) else None) \<and>
    (res = None \<longrightarrow> p_state (proc_at s' 1) = SLEEPING \<and> p_chan (proc_at s' 1) = CPipeW 0)"
  unfolding Let_def
  by (rule pipewrite_outcome [OF demo_pipe_inv(1)]) (simp_all add: demo_pipe_inv(2) demo_family_def demo_boot_def myproc_def)

end
