(* ===== verification/Lebytes.thy ===== *)
theory Lebytes
  imports Xv6_Prelude
begin

text \<open>
  Byte lists as the C code uses the arrays of a disk block: \<open>slice\<close> is what \<^verbatim>\<open>memmove\<close> copies out of
  an array, \<open>splice\<close> what it leaves after copying into it, and the little-endian readings of 16
  and 32 bits are what a cast of the array to a struct pointer gives.
\<close>

definition slice :: "nat \<Rightarrow> nat \<Rightarrow> 'a list \<Rightarrow> 'a list" where
  "slice off n bs = take n (drop off bs)"

definition splice :: "nat \<Rightarrow> 'a list \<Rightarrow> 'a list \<Rightarrow> 'a list" where
  "splice off xs bs = take off bs @ xs @ drop (off + length xs) bs"

definition bytes16 :: "u16 \<Rightarrow> u8 list" where
  "bytes16 v = [ucast v, ucast (drop_bit 8 v)]"

definition bytes32 :: "u32 \<Rightarrow> u8 list" where
  "bytes32 v = [ucast v, ucast (drop_bit 8 v), ucast (drop_bit 16 v), ucast (drop_bit 24 v)]"

definition rd16 :: "u8 list \<Rightarrow> nat \<Rightarrow> u16" where
  "rd16 bs off = ucast (bs ! off) OR push_bit 8 (ucast (bs ! (off + 1)))"

definition rd32 :: "u8 list \<Rightarrow> nat \<Rightarrow> u32" where
  "rd32 bs off = ucast (bs ! off) OR push_bit 8 (ucast (bs ! (off + 1)))
     OR push_bit 16 (ucast (bs ! (off + 2))) OR push_bit 24 (ucast (bs ! (off + 3)))"

definition wr16 :: "nat \<Rightarrow> u16 \<Rightarrow> u8 list \<Rightarrow> u8 list" where
  "wr16 off v bs = splice off (bytes16 v) bs"

definition wr32 :: "nat \<Rightarrow> u32 \<Rightarrow> u8 list \<Rightarrow> u8 list" where
  "wr32 off v bs = splice off (bytes32 v) bs"

section \<open>Slices\<close>

lemma length_bytes [simp]: "length (bytes16 v) = 2" "length (bytes32 w) = 4"
  by (simp_all add: bytes16_def bytes32_def)

lemma length_slice [simp]: "off + n \<le> length bs \<Longrightarrow> length (slice off n bs) = n"
  by (simp add: slice_def)

lemma length_splice [simp]: "off + length xs \<le> length bs \<Longrightarrow> length (splice off xs bs) = length bs"
  by (simp add: splice_def)

lemma length_wr [simp]:
  "off + 2 \<le> length bs \<Longrightarrow> length (wr16 off v bs) = length bs"
  "off + 4 \<le> length bs \<Longrightarrow> length (wr32 off w bs) = length bs"
  by (simp_all add: wr16_def wr32_def)

lemma nth_splice:
  assumes "off + length xs \<le> length bs" "i < length bs"
  shows "splice off xs bs ! i = (if off \<le> i \<and> i < off + length xs then xs ! (i - off) else bs ! i)"
  using assms by (auto simp: splice_def nth_append)

lemma slice_splice_same [simp]:
  "off + length xs \<le> length bs \<Longrightarrow> slice off (length xs) (splice off xs bs) = xs"
  by (simp add: slice_def splice_def)

lemma slice_splice_disj:
  assumes "off + length xs \<le> length bs" "o' + n \<le> length bs" "o' + n \<le> off \<or> off + length xs \<le> o'"
  shows "slice o' n (splice off xs bs) = slice o' n bs"
proof (rule nth_equalityI)
  have l: "length (slice o' n (splice off xs bs)) = n" using assms by simp
  show "length (slice o' n (splice off xs bs)) = length (slice o' n bs)" using assms by simp
  fix i assume "i < length (slice o' n (splice off xs bs))"
  then have i: "i < n" by (simp only: l)
  then show "slice o' n (splice off xs bs) ! i = slice o' n bs ! i"
    using assms by (auto simp: slice_def nth_splice)
qed

section \<open>Little-endian values\<close>

lemma word16_of_bytes: "ucast (ucast v :: u8) OR push_bit 8 (ucast (ucast (drop_bit 8 v) :: u8)) = v" for v :: u16
proof (rule bit_word_eqI)
  fix n :: nat
  assume n: "n < LENGTH(16)"
  consider "n < 8" | "8 \<le> n" by linarith
  then show "bit (ucast (ucast v :: u8) OR push_bit 8 (ucast (ucast (drop_bit 8 v) :: u8)) :: u16) n = bit v n"
    using n by cases (auto simp: bit_simps)
qed

lemma rd_wr_same [simp]:
  "off + 2 \<le> length bs \<Longrightarrow> rd16 (wr16 off v bs) off = v"
  "off + 4 \<le> length bs \<Longrightarrow> rd32 (wr32 off w bs) off = w"
  by (simp_all add: rd16_def wr16_def rd32_def wr32_def nth_splice bytes16_def bytes32_def
    word16_of_bytes word_of_bytes)

lemma rd_splice_disj:
  "off + length xs \<le> length bs \<Longrightarrow> o' + 2 \<le> length bs \<Longrightarrow> o' + 2 \<le> off \<or> off + length xs \<le> o' \<Longrightarrow>
     rd16 (splice off xs bs) o' = rd16 bs o'"
  "off + length xs \<le> length bs \<Longrightarrow> o' + 4 \<le> length bs \<Longrightarrow> o' + 4 \<le> off \<or> off + length xs \<le> o' \<Longrightarrow>
     rd32 (splice off xs bs) o' = rd32 bs o'"
  by (auto simp: rd16_def rd32_def nth_splice)

lemma rd_slice:
  "k + 2 \<le> n \<Longrightarrow> off + n \<le> length bs \<Longrightarrow> rd16 (slice off n bs) k = rd16 bs (off + k)"
  "k + 4 \<le> n \<Longrightarrow> off + n \<le> length bs \<Longrightarrow> rd32 (slice off n bs) k = rd32 bs (off + k)"
  by (simp_all add: rd16_def rd32_def slice_def add.assoc)

text \<open>An array of 32-bit words: \<^verbatim>\<open>a[k]\<close> for \<^verbatim>\<open>a = (uint*)data\<close>.\<close>

lemma rd32_wr32_index:
  assumes "4 * k + 4 \<le> length bs" "4 * j + 4 \<le> length bs"
  shows "rd32 (wr32 (4 * j) v bs) (4 * k) = (if k = j then v else rd32 bs (4 * k))"
proof (cases "k = j")
  case False
  then have "4 * k + 4 \<le> 4 * j \<or> 4 * j + 4 \<le> 4 * k" by linarith
  then show ?thesis using False assms rd_splice_disj(2) [of "4 * j" "bytes32 v" bs "4 * k"] by (simp add: wr32_def)
qed (use assms in simp)

end
