(* ===== verification/Bio.thy ===== *)
theory Bio
  imports Sleeplock Lebytes
begin

text \<open>
  The disk driver (\<^verbatim>\<open>ide.c\<close>) and the buffer cache (\<^verbatim>\<open>bio.c\<close>).  A \<^verbatim>\<open>struct buf*\<close> is an index into the
  cache's array; the cache's list is the list of indices from the most recently used buffer to
  the least, and the driver's queue the list of the indices its \<^verbatim>\<open>qnext\<close> pointers link.  The device
  is the map from drive and sector to the sector's 512 bytes.  \<open>disk_writes\<close> is not a variable of the
  kernel: it records the writes the device has performed, in order, so that the disk after a
  crash in the middle of an operation can be named.
\<close>

record buf =
  b_flags :: u32
  b_dev :: u32
  b_blockno :: u32
  b_lock :: sleeplock
  b_refcnt :: u32
  b_data :: "u8 list"

record bstate = pstate +
  bufs :: "buf list"
  bmru :: "nat list"
  idequeue :: "nat list"
  havedisk1 :: bool
  ide_err :: bool
  disk :: "u32 \<Rightarrow> u32 \<Rightarrow> u8 list"
  disk_writes :: "(u32 \<times> u32 \<times> u8 list) list"

abbreviation (input) BSIZE :: nat where "BSIZE \<equiv> 512"
abbreviation (input) FSSIZE :: u32 where "FSSIZE \<equiv> 1000"
abbreviation (input) NBUF :: nat where "NBUF \<equiv> 30"
abbreviation (input) B_VALID :: u32 where "B_VALID \<equiv> 2"
abbreviation (input) B_DIRTY :: u32 where "B_DIRTY \<equiv> 4"

definition buf_at :: "'a bstate_scheme \<Rightarrow> nat \<Rightarrow> buf" where
  "buf_at s i = bufs s ! i"

definition upd_buf :: "nat \<Rightarrow> (buf \<Rightarrow> buf) \<Rightarrow> 'a bstate_scheme \<Rightarrow> 'a bstate_scheme" where
  "upd_buf i f s = s\<lparr>bufs := (bufs s)[i := f (buf_at s i)]\<rparr>"

section \<open>The disk driver\<close>

text \<open>Once the disk is ready, its status says whether the last command failed.\<close>

definition idewait :: "bool \<Rightarrow> 'a bstate_scheme \<Rightarrow> int" where
  "idewait checkerr s = (if checkerr \<and> ide_err s then -1 else 0)"

definition idestart :: "nat \<Rightarrow> 'a bstate_scheme \<Rightarrow> 'a bstate_scheme result" where
  "idestart i s =
     (let b = buf_at s i in
      if b_blockno b \<ge> FSSIZE then Panic ''incorrect blockno''
      else if b_flags b AND B_DIRTY \<noteq> 0 then
        Ok (s\<lparr>disk := (disk s)(b_dev b AND 1 := (disk s (b_dev b AND 1))(b_blockno b := b_data b)),
              disk_writes := disk_writes s @ [(b_dev b AND 1, b_blockno b, b_data b)]\<rparr>)
      else Ok s)"

definition ideintr :: "'a bstate_scheme \<Rightarrow> 'a bstate_scheme result" where
  "ideintr s = (case idequeue s of
      [] \<Rightarrow> Ok s
    | i # q \<Rightarrow>
        let s1 = s\<lparr>idequeue := q\<rparr>;
            b = buf_at s1 i;
            s2 = (if b_flags b AND B_DIRTY = 0 \<and> idewait True s1 \<ge> 0
                  then upd_buf i (\<lambda>b. b\<lparr>b_data := disk s1 (b_dev b AND 1) (b_blockno b)\<rparr>) s1 else s1);
            s3 = upd_buf i (\<lambda>b. b\<lparr>b_flags := (b_flags b OR B_VALID) AND NOT B_DIRTY\<rparr>) s2;
            s4 = wakeup (CBuf i) s3
        in case idequeue s4 of [] \<Rightarrow> Ok s4 | j # _ \<Rightarrow> idestart j s4)"

text \<open>
  A process that waits for its request sleeps while the disk's interrupts arrive, one for each
  request in the queue.
\<close>

primrec ide_wait :: "nat \<Rightarrow> nat \<Rightarrow> 'a bstate_scheme \<Rightarrow> 'a bstate_scheme result" where
  "ide_wait 0 i s = (if b_flags (buf_at s i) AND (B_VALID OR B_DIRTY) = B_VALID then Ok s else Blocked ''iderw'')"
| "ide_wait (Suc n) i s =
     (if b_flags (buf_at s i) AND (B_VALID OR B_DIRTY) = B_VALID then Ok s
      else bindr (ideintr s) (ide_wait n i))"

definition iderw :: "nat \<Rightarrow> 'a bstate_scheme \<Rightarrow> 'a bstate_scheme result" where
  "iderw i s =
     bindr (holdingsleep (b_lock (buf_at s i)) s) (\<lambda>h.
     if \<not> h then Panic ''iderw: buf not locked''
     else if b_flags (buf_at s i) AND (B_VALID OR B_DIRTY) = B_VALID then Panic ''iderw: nothing to do''
     else if b_dev (buf_at s i) \<noteq> 0 \<and> \<not> havedisk1 s then Panic ''iderw: ide disk 1 not present''
     else
       let s1 = s\<lparr>idequeue := idequeue s @ [i]\<rparr> in
       bindr (if hd (idequeue s1) = i then idestart i s1 else Ok s1) (\<lambda>s2.
       ide_wait (length (idequeue s2)) i s2))"

section \<open>The buffer cache\<close>

definition binit :: "'a bstate_scheme \<Rightarrow> 'a bstate_scheme" where
  "binit s = s\<lparr>bufs := map (\<lambda>b. b\<lparr>b_lock := initsleeplock ''buffer'' (b_lock b)\<rparr>) (bufs s),
     bmru := rev [0..<NBUF]\<rparr>"

definition lock_buf :: "nat \<Rightarrow> 'a bstate_scheme \<Rightarrow> (nat \<times> 'a bstate_scheme) result" where
  "lock_buf i s = bindr (acquiresleep (b_lock (buf_at s i)) s) (\<lambda>lk.
     Ok (i, upd_buf i (\<lambda>b. b\<lparr>b_lock := lk\<rparr>) s))"

definition bget :: "u32 \<Rightarrow> u32 \<Rightarrow> 'a bstate_scheme \<Rightarrow> (nat \<times> 'a bstate_scheme) result" where
  "bget dev blockno s =
     (case find (\<lambda>i. b_dev (buf_at s i) = dev \<and> b_blockno (buf_at s i) = blockno) (bmru s) of
        Some i \<Rightarrow> lock_buf i (upd_buf i (\<lambda>b. b\<lparr>b_refcnt := b_refcnt b + 1\<rparr>) s)
      | None \<Rightarrow>
          (case find (\<lambda>i. b_refcnt (buf_at s i) = 0 \<and> b_flags (buf_at s i) AND B_DIRTY = 0) (rev (bmru s)) of
             Some i \<Rightarrow> lock_buf i (upd_buf i (\<lambda>b. b\<lparr>b_dev := dev, b_blockno := blockno, b_flags := 0, b_refcnt := 1\<rparr>) s)
           | None \<Rightarrow> Panic ''bget: no buffers''))"

definition bread :: "u32 \<Rightarrow> u32 \<Rightarrow> 'a bstate_scheme \<Rightarrow> (nat \<times> 'a bstate_scheme) result" where
  "bread dev blockno s = bindr (bget dev blockno s) (\<lambda>(i, s1).
     if b_flags (buf_at s1 i) AND B_VALID = 0 then bindr (iderw i s1) (\<lambda>s2. Ok (i, s2))
     else Ok (i, s1))"

definition bwrite :: "nat \<Rightarrow> 'a bstate_scheme \<Rightarrow> 'a bstate_scheme result" where
  "bwrite i s = bindr (holdingsleep (b_lock (buf_at s i)) s) (\<lambda>h.
     if \<not> h then Panic ''bwrite''
     else iderw i (upd_buf i (\<lambda>b. b\<lparr>b_flags := b_flags b OR B_DIRTY\<rparr>) s))"

definition brelse :: "nat \<Rightarrow> 'a bstate_scheme \<Rightarrow> 'a bstate_scheme result" where
  "brelse i s = bindr (holdingsleep (b_lock (buf_at s i)) s) (\<lambda>h.
     if \<not> h then Panic ''brelse''
     else
       let (lk, s1) = releasesleep (CBuf i) (b_lock (buf_at s i)) s;
           s2 = upd_buf i (\<lambda>b. b\<lparr>b_lock := lk, b_refcnt := b_refcnt b - 1\<rparr>) s1
       in Ok (if b_refcnt (buf_at s2 i) = 0 then s2\<lparr>bmru := i # remove1 i (bmru s2)\<rparr> else s2))"

end
