(* ===== verification/Bcache.thy ===== *)
theory Bcache
  imports Bio
begin

text \<open>
  What the buffer cache promises to the code above it.  \<open>bview\<close> is the contents of a block as the
  file system sees it: the cached copy if there is one, the disk's copy otherwise.  \<open>pinned\<close> is the
  set of blocks whose cached copy is newer than the disk and must stay in the cache, \<open>held\<close> the set
  of blocks some caller has locked.  Reading a block returns a locked buffer with the block's
  contents and changes neither the view nor the disk; only \<^verbatim>\<open>bwrite\<close> changes the disk; releasing a
  buffer needs its contents to be on the disk or pinned.  The results hold for the root device,
  the only one the kernel uses, while one process runs inside the file system.
\<close>

section \<open>The invariant\<close>

definition curpid :: "'a pstate_scheme \<Rightarrow> int" where
  "curpid s = p_pid (proc_at s (the (myproc s)))"

definition buf_ok :: "int \<Rightarrow> (u32 \<Rightarrow> u8 list) \<Rightarrow> buf \<Rightarrow> bool" where
  "buf_ok pid d b \<longleftrightarrow> length (b_data b) = BSIZE \<and>
     (b_dev b = 0 \<and> b_flags b = 0 \<and> \<not> sl_locked (b_lock b) \<and> b_refcnt b = 0 \<or>
      b_dev b = 1 \<and> b_blockno b < FSSIZE \<and> (b_flags b = 2 \<or> b_flags b = 6) \<and>
      b_refcnt b = (if sl_locked (b_lock b) then 1 else 0) \<and>
      (sl_locked (b_lock b) \<longrightarrow> sl_pid (b_lock b) = pid) \<and>
      (b_flags b = 2 \<and> \<not> sl_locked (b_lock b) \<longrightarrow> b_data b = d (b_blockno b)))"

definition bio_inv :: "'a bstate_scheme \<Rightarrow> bool" where
  "bio_inv s \<longleftrightarrow> length (bufs s) = NBUF \<and> distinct (bmru s) \<and> set (bmru s) = {..<NBUF} \<and>
     idequeue s = [] \<and> havedisk1 s \<and> \<not> ide_err s \<and> myproc s \<noteq> None \<and>
     (\<forall>b. length (disk s 1 b) = BSIZE) \<and>
     (\<forall>i<NBUF. buf_ok (curpid s) (disk s 1) (bufs s ! i)) \<and>
     (\<forall>i<NBUF. \<forall>j<NBUF. b_dev (bufs s ! i) = 1 \<and> b_dev (bufs s ! j) = 1 \<and>
        b_blockno (bufs s ! i) = b_blockno (bufs s ! j) \<longrightarrow> i = j)"

definition holds :: "'a bstate_scheme \<Rightarrow> nat \<Rightarrow> u32 \<Rightarrow> bool" where
  "holds s i b \<longleftrightarrow> i < NBUF \<and> b_dev (bufs s ! i) = 1 \<and> b_blockno (bufs s ! i) = b \<and> sl_locked (b_lock (bufs s ! i))"

definition held :: "'a bstate_scheme \<Rightarrow> u32 set" where
  "held s = {b. \<exists>i. holds s i b}"

definition pinned :: "'a bstate_scheme \<Rightarrow> u32 set" where
  "pinned s = {b. \<exists>i<NBUF. b_dev (bufs s ! i) = 1 \<and> b_blockno (bufs s ! i) = b \<and> b_flags (bufs s ! i) = 6}"

definition bview :: "'a bstate_scheme \<Rightarrow> u32 \<Rightarrow> u8 list" where
  "bview s b = (case find (\<lambda>i. b_dev (bufs s ! i) = 1 \<and> b_blockno (bufs s ! i) = b) [0..<NBUF] of
      Some i \<Rightarrow> b_data (bufs s ! i) | None \<Rightarrow> disk s 1 b)"

text \<open>What the operations leave alone: everything but the cache, the disk and the states of sleepers.\<close>

definition same_procs :: "'a pstate_scheme \<Rightarrow> 'b pstate_scheme \<Rightarrow> bool" where
  "same_procs s t \<longleftrightarrow> map (\<lambda>p. p\<lparr>p_state := UNUSED\<rparr>) (ptable s) = map (\<lambda>p. p\<lparr>p_state := UNUSED\<rparr>) (ptable t)"

definition bframe :: "'a bstate_scheme \<Rightarrow> 'a bstate_scheme \<Rightarrow> bool" where
  "bframe s t \<longleftrightarrow> (\<exists>pt bf mr dk dw. t = s\<lparr>ptable := pt, bufs := bf, bmru := mr, disk := dk, disk_writes := dw\<rparr>)
     \<and> same_procs s t"

lemma bio_invD:
  assumes "bio_inv s"
  shows "length (bufs s) = NBUF" "distinct (bmru s)" "set (bmru s) = {..<NBUF}" "idequeue s = []"
    "havedisk1 s" "\<not> ide_err s" "myproc s \<noteq> None" "length (disk s 1 b) = BSIZE"
    "i < NBUF \<Longrightarrow> buf_ok (curpid s) (disk s 1) (bufs s ! i)"
    "i < NBUF \<Longrightarrow> j < NBUF \<Longrightarrow> b_dev (bufs s ! i) = 1 \<Longrightarrow> b_dev (bufs s ! j) = 1 \<Longrightarrow>
       b_blockno (bufs s ! i) = b_blockno (bufs s ! j) \<Longrightarrow> i = j"
  using assms unfolding bio_inv_def by (blast | simp)+

lemma wakeup_same_procs: "same_procs s (wakeup c s)"
  by (auto simp: same_procs_def wakeup_def wakeup1_def)

lemma same_procs_refl [simp]: "same_procs s s"
  by (simp add: same_procs_def)

lemma same_procs_trans: "same_procs s t \<Longrightarrow> same_procs t u \<Longrightarrow> same_procs s u"
  by (simp add: same_procs_def)

lemma same_procs_pid:
  assumes "same_procs s t" shows "p_pid (proc_at t i) = p_pid (proc_at s i)"
proof -
  have l: "length (ptable t) = length (ptable s)"
    using assms unfolding same_procs_def by (metis length_map)
  show ?thesis
  proof (cases "i < length (ptable s)")
    case True
    have "(\<lambda>p. p\<lparr>p_state := UNUSED\<rparr>) (ptable s ! i) = (\<lambda>p. p\<lparr>p_state := UNUSED\<rparr>) (ptable t ! i)"
      using assms True l unfolding same_procs_def by (metis nth_map)
    then have "p_pid ((ptable s ! i)\<lparr>p_state := UNUSED\<rparr>) = p_pid ((ptable t ! i)\<lparr>p_state := UNUSED\<rparr>)" by simp
    then show ?thesis using True l by (simp add: proc_at_def)
  qed (simp add: proc_at_def l)
qed

lemma bframeI:
  "t = s\<lparr>ptable := pt, bufs := bf, bmru := mr, disk := dk, disk_writes := dw\<rparr> \<Longrightarrow> same_procs s t \<Longrightarrow> bframe s t"
  unfolding bframe_def by blast

lemma bframe_refl [simp]: "bframe s s"
  by (rule bframeI [where pt = "ptable s" and bf = "bufs s" and mr = "bmru s" and dk = "disk s" and dw = "disk_writes s"])
    simp_all

lemma bframe_trans:
  assumes "bframe s t" "bframe t u" shows "bframe s u"
proof -
  obtain p1 b1 m1 d1 w1 where t: "t = s\<lparr>ptable := p1, bufs := b1, bmru := m1, disk := d1, disk_writes := w1\<rparr>"
    using assms(1) unfolding bframe_def by blast
  obtain p2 b2 m2 d2 w2 where "u = t\<lparr>ptable := p2, bufs := b2, bmru := m2, disk := d2, disk_writes := w2\<rparr>"
    using assms(2) unfolding bframe_def by blast
  then have "u = s\<lparr>ptable := p2, bufs := b2, bmru := m2, disk := d2, disk_writes := w2\<rparr>" using t by simp
  then show ?thesis using assms by (intro bframeI) (auto simp: bframe_def intro: same_procs_trans)
qed

lemma bframe_curpid:
  assumes "bframe s t" shows "curpid t = curpid s" "myproc t = myproc s"
proof -
  show m: "myproc t = myproc s" using assms by (auto simp: bframe_def myproc_def)
  show "curpid t = curpid s"
    using same_procs_pid [of s t "the (myproc s)"] assms unfolding curpid_def m bframe_def by blast
qed

section \<open>Reading the cache\<close>

lemma find_exists: "x \<in> set xs \<Longrightarrow> P x \<Longrightarrow> \<exists>y. find P xs = Some y \<and> y \<in> set xs"
  by (induction xs) auto

lemma find_upt_unique:
  assumes "i < n" "P i" "\<And>j. j < n \<Longrightarrow> P j \<Longrightarrow> j = i"
  shows "find P [0..<n] = Some i"
proof (cases "find P [0..<n]")
  case None
  then show ?thesis using assms(1,2) by (auto simp: find_None_iff)
next
  case (Some k)
  then have "k < n" "P k" by (auto simp: find_Some_iff)
  then show ?thesis using Some assms(3) by simp
qed

lemma bview_cached:
  assumes "bio_inv s" "i < NBUF" "b_dev (bufs s ! i) = 1"
  shows "bview s (b_blockno (bufs s ! i)) = b_data (bufs s ! i)"
proof -
  have "find (\<lambda>j. b_dev (bufs s ! j) = 1 \<and> b_blockno (bufs s ! j) = b_blockno (bufs s ! i)) [0..<NBUF] = Some i"
    by (rule find_upt_unique) (use assms bio_invD(10) [OF assms(1)] in auto)
  then show ?thesis by (simp add: bview_def del: upt_rec_numeral)
qed

lemma bview_uncached:
  assumes "\<And>i. i < NBUF \<Longrightarrow> b_dev (bufs s ! i) = 1 \<Longrightarrow> b_blockno (bufs s ! i) \<noteq> b"
  shows "bview s b = disk s 1 b"
proof -
  have "find (\<lambda>j. b_dev (bufs s ! j) = 1 \<and> b_blockno (bufs s ! j) = b) [0..<NBUF] = None"
    using assms by (auto simp: find_None_iff simp del: upt_rec_numeral)
  then show ?thesis by (simp add: bview_def del: upt_rec_numeral)
qed

lemma bview_holds: "bio_inv s \<Longrightarrow> holds s i b \<Longrightarrow> b_data (bufs s ! i) = bview s b"
  using bview_cached [of s i] by (auto simp: holds_def)

lemma length_bview: "bio_inv s \<Longrightarrow> length (bview s b) = BSIZE"
proof (cases "\<exists>i<NBUF. b_dev (bufs s ! i) = 1 \<and> b_blockno (bufs s ! i) = b")
  case True
  then obtain i where i: "i < NBUF" "b_dev (bufs s ! i) = 1" "b_blockno (bufs s ! i) = b" by blast
  assume inv: "bio_inv s"
  show ?thesis using bview_cached [OF inv i(1,2)] bio_invD(9) [OF inv i(1)] i(3) by (simp add: buf_ok_def)
next
  case False
  assume "bio_inv s"
  then show ?thesis using bview_uncached [of s b] False by (simp add: bio_invD(8))
qed

lemma holds_unique: "bio_inv s \<Longrightarrow> holds s i b \<Longrightarrow> holds s j b \<Longrightarrow> i = j"
  unfolding holds_def by (metis bio_invD(10))

lemma pinned_holds: "bio_inv s \<Longrightarrow> holds s i b \<Longrightarrow> b \<in> pinned s \<longleftrightarrow> b_flags (bufs s ! i) = 6"
  unfolding holds_def pinned_def by (auto dest: bio_invD(10))

text \<open>A block that is neither pinned nor held is on the disk as the file system sees it.\<close>

lemma bview_clean:
  assumes inv: "bio_inv s" and b: "b \<notin> pinned s" "b \<notin> held s"
  shows "bview s b = disk s 1 b"
proof (cases "\<exists>i<NBUF. b_dev (bufs s ! i) = 1 \<and> b_blockno (bufs s ! i) = b")
  case True
  then obtain i where i: "i < NBUF" "b_dev (bufs s ! i) = 1" "b_blockno (bufs s ! i) = b" by blast
  have "b_flags (bufs s ! i) \<noteq> 6" "\<not> sl_locked (b_lock (bufs s ! i))"
    using b i by (auto simp: pinned_def held_def holds_def)
  then show ?thesis using bview_cached [OF inv i(1,2)] bio_invD(9) [OF inv i(1)] i by (auto simp: buf_ok_def)
qed (use bview_uncached [of s b] in blast)

section \<open>Replacing one buffer\<close>

text \<open>Every operation replaces one buffer \<open>i\<close> by \<open>B\<close>, possibly with a write of \<open>B\<close>'s block.\<close>

definition put_buf :: "nat \<Rightarrow> buf \<Rightarrow> 'a bstate_scheme \<Rightarrow> 'a bstate_scheme \<Rightarrow> bool" where
  "put_buf i B s t \<longleftrightarrow> bframe s t \<and> i < NBUF \<and> bufs t = (bufs s)[i := B] \<and> distinct (bmru t) \<and>
     set (bmru t) = {..<NBUF} \<and> b_dev B = 1 \<and> buf_ok (curpid s) (disk t 1) B \<and>
     (\<forall>j<NBUF. j \<noteq> i \<longrightarrow> b_dev (bufs s ! j) = 1 \<longrightarrow> b_blockno (bufs s ! j) \<noteq> b_blockno B) \<and>
     (\<forall>b. length (disk t 1 b) = BSIZE) \<and> (\<forall>b. b \<noteq> b_blockno B \<longrightarrow> disk t 1 b = disk s 1 b)"

lemma put_buf_nth:
  assumes "bio_inv s" "put_buf i B s t" "j < NBUF"
  shows "bufs t ! j = (if j = i then B else bufs s ! j)"
proof -
  have "bufs t = (bufs s)[i := B]" using assms(2) unfolding put_buf_def by blast
  then show ?thesis using bio_invD(1) [OF assms(1)] assms(3) by (simp add: nth_list_update)
qed

lemma put_bufI:
  assumes "bframe s t" "i < NBUF" "bufs t = (bufs s)[i := B]" "distinct (bmru t)" "set (bmru t) = {..<NBUF}"
    "b_dev B = 1" "buf_ok (curpid s) (disk t 1) B" "\<And>b. length (disk t 1 b) = BSIZE"
    "\<And>b. b \<noteq> b_blockno B \<Longrightarrow> disk t 1 b = disk s 1 b"
    "\<And>j. j < NBUF \<Longrightarrow> j \<noteq> i \<Longrightarrow> b_dev (bufs s ! j) = 1 \<Longrightarrow> b_blockno (bufs s ! j) \<noteq> b_blockno B"
  shows "put_buf i B s t"
  using assms unfolding put_buf_def by blast

lemma put_bufD:
  assumes "put_buf i B s t"
  shows "bframe s t" "i < NBUF" "bufs t = (bufs s)[i := B]" "distinct (bmru t)" "set (bmru t) = {..<NBUF}"
    "b_dev B = 1" "buf_ok (curpid s) (disk t 1) B" "length (disk t 1 b) = BSIZE"
    "b \<noteq> b_blockno B \<Longrightarrow> disk t 1 b = disk s 1 b"
    "j < NBUF \<Longrightarrow> j \<noteq> i \<Longrightarrow> b_dev (bufs s ! j) = 1 \<Longrightarrow> b_blockno (bufs s ! j) \<noteq> b_blockno B"
  using assms unfolding put_buf_def by blast+

lemma put_buf_inv:
  assumes inv: "bio_inv s" and p: "put_buf i B s t" shows "bio_inv t"
proof -
  note P = put_bufD [OF p] and n = put_buf_nth [OF inv p]
  have fr: "idequeue t = []" "havedisk1 t" "\<not> ide_err t" "myproc t \<noteq> None" "curpid t = curpid s"
    using P(1) bio_invD(4-7) [OF inv] bframe_curpid [OF P(1)] by (auto simp: bframe_def)
  have ok: "buf_ok (curpid t) (disk t 1) (bufs t ! j)" if j: "j < NBUF" for j
  proof (cases "j = i")
    case False
    have "disk t 1 (b_blockno (bufs s ! j)) = disk s 1 (b_blockno (bufs s ! j))" if "b_dev (bufs s ! j) = 1"
      using P(9,10) j False that by blast
    then show ?thesis
      using bio_invD(9) [OF inv j] n [OF j] False fr(5) by (auto simp: buf_ok_def)
  qed (use P(7) n [OF j] fr(5) in simp)
  have uq: "j = k" if "j < NBUF" "k < NBUF" "b_dev (bufs t ! j) = 1" "b_dev (bufs t ! k) = 1"
    "b_blockno (bufs t ! j) = b_blockno (bufs t ! k)" for j k
  proof (cases "j = i \<or> k = i")
    case True
    then show ?thesis using that n [OF that(1)] n [OF that(2)] P(10) by (auto split: if_split_asm)
  next
    case False
    then show ?thesis using that n [OF that(1)] n [OF that(2)] bio_invD(10) [OF inv that(1,2)] by simp
  qed
  show ?thesis
    unfolding bio_inv_def
  proof (intro conjI allI impI)
    show "length (bufs t) = NBUF" using P(3) bio_invD(1) [OF inv] by simp
    fix j k
    assume "j < NBUF" "k < NBUF" "b_dev (bufs t ! j) = 1 \<and> b_dev (bufs t ! k) = 1 \<and> b_blockno (bufs t ! j) = b_blockno (bufs t ! k)"
    then show "j = k" using uq by blast
  qed (use P(4,5,8) fr ok in simp_all)
qed

text \<open>The buffer that is replaced held the same block, or nothing that is not on the disk.\<close>

definition evictable :: "'a bstate_scheme \<Rightarrow> nat \<Rightarrow> u32 \<Rightarrow> bool" where
  "evictable s i b \<longleftrightarrow> b_dev (bufs s ! i) = 1 \<and> b_blockno (bufs s ! i) = b \<or>
     b_flags (bufs s ! i) \<noteq> 6 \<and> \<not> sl_locked (b_lock (bufs s ! i))"

lemma put_buf_holds:
  assumes inv: "bio_inv s" and p: "put_buf i B s t"
  shows "holds t j c \<longleftrightarrow> (if j = i then c = b_blockno B \<and> sl_locked (b_lock B) else holds s j c)"
  using put_buf_nth [OF inv p, of j] put_bufD(2,6) [OF p] by (auto simp: holds_def)

lemma put_buf_view:
  assumes inv: "bio_inv s" and p: "put_buf i B s t" and e: "evictable s i (b_blockno B)"
  shows "bview t = (bview s)(b_blockno B := b_data B)"
proof
  fix c
  note P = put_bufD [OF p] and n = put_buf_nth [OF inv p] and inv' = put_buf_inv [OF inv p]
  show "bview t c = ((bview s)(b_blockno B := b_data B)) c"
  proof (cases "c = b_blockno B")
    case True
    then show ?thesis using bview_cached [OF inv', of i] n [of i] P(2,6) by simp
  next
    case False
    then have d: "disk t 1 c = disk s 1 c" using P(9) by blast
    show ?thesis
    proof (cases "\<exists>j<NBUF. j \<noteq> i \<and> b_dev (bufs s ! j) = 1 \<and> b_blockno (bufs s ! j) = c")
      case True
      then obtain j where j: "j < NBUF" "j \<noteq> i" "b_dev (bufs s ! j) = 1" "b_blockno (bufs s ! j) = c" by blast
      then show ?thesis
        using bview_cached [OF inv' j(1)] bview_cached [OF inv j(1)] n [OF j(1)] False by simp
    next
      case none: False
      then have t: "bview t c = disk t 1 c" using n False by (intro bview_uncached) (auto split: if_split_asm)
      show ?thesis
      proof (cases "b_dev (bufs s ! i) = 1 \<and> b_blockno (bufs s ! i) = c")
        case True
        then have "b_flags (bufs s ! i) \<noteq> 6 \<and> \<not> sl_locked (b_lock (bufs s ! i))"
          using e False by (auto simp: evictable_def)
        then have "b_data (bufs s ! i) = disk s 1 c"
          using bio_invD(9) [OF inv P(2)] True by (auto simp: buf_ok_def)
        then show ?thesis using t d False True bview_cached [OF inv P(2)] by simp
      next
        case other: False
        have "bview s c = disk s 1 c" using none other by (intro bview_uncached) metis
        then show ?thesis using t d False by simp
      qed
    qed
  qed
qed

lemma put_buf_pinned:
  assumes inv: "bio_inv s" and p: "put_buf i B s t" and e: "evictable s i (b_blockno B)"
  shows "pinned t = (if b_flags B = 6 then insert (b_blockno B) (pinned s) else pinned s - {b_blockno B})"
proof -
  note P = put_bufD [OF p] and n = put_buf_nth [OF inv p]
  have other: "c \<in> pinned t \<longleftrightarrow> c \<in> pinned s" if c: "c \<noteq> b_blockno B" for c
  proof
    assume "c \<in> pinned t"
    then obtain j where "j < NBUF" "b_dev (bufs t ! j) = 1" "b_blockno (bufs t ! j) = c" "b_flags (bufs t ! j) = 6"
      by (auto simp: pinned_def)
    then show "c \<in> pinned s" using n [of j] c by (auto simp: pinned_def split: if_split_asm)
  next
    assume "c \<in> pinned s"
    then obtain j where j: "j < NBUF" "b_dev (bufs s ! j) = 1" "b_blockno (bufs s ! j) = c" "b_flags (bufs s ! j) = 6"
      by (auto simp: pinned_def)
    then have "j \<noteq> i" using e c by (auto simp: evictable_def)
    then show "c \<in> pinned t" using n [OF j(1)] j by (auto simp: pinned_def)
  qed
  have same: "b_blockno B \<in> pinned t \<longleftrightarrow> b_flags B = 6"
  proof -
    have "bufs t ! i = B" "i < NBUF" "b_dev B = 1" using n [of i] P(2,6) by auto
    then show ?thesis using bio_invD(10) [OF put_buf_inv [OF inv p]] by (auto simp: pinned_def)
  qed
  show ?thesis
  proof (rule set_eqI)
    fix c
    show "c \<in> pinned t \<longleftrightarrow> c \<in> (if b_flags B = 6 then insert (b_blockno B) (pinned s) else pinned s - {b_blockno B})"
      using other [of c] same by (cases "c = b_blockno B") auto
  qed
qed

lemma put_buf_held:
  assumes inv: "bio_inv s" and p: "put_buf i B s t" and e: "evictable s i (b_blockno B)"
  shows "held t = (if sl_locked (b_lock B) then insert (b_blockno B) (held s) else held s - {b_blockno B})"
proof -
  note P = put_bufD [OF p] and h = put_buf_holds [OF inv p]
  have "holds s i c \<Longrightarrow> c = b_blockno B" for c using e by (auto simp: evictable_def holds_def)
  moreover have "holds s j (b_blockno B) \<Longrightarrow> j = i" for j using P(10) by (auto simp: holds_def)
  ultimately show ?thesis
    by (auto simp: held_def h split: if_split_asm) metis+
qed

section \<open>The operations\<close>

lemma buf_at_upd [simp]:
  "i < length (bufs s) \<Longrightarrow> buf_at (upd_buf i f s) i = f (buf_at s i)"
  by (simp add: buf_at_def upd_buf_def)

lemma bufs_upd [simp]: "bufs (upd_buf i f s) = (bufs s)[i := f (buf_at s i)]"
  by (simp add: upd_buf_def)

lemma upd_buf_fields [simp]:
  "bmru (upd_buf i f s) = bmru s" "idequeue (upd_buf i f s) = idequeue s" "havedisk1 (upd_buf i f s) = havedisk1 s"
  "ide_err (upd_buf i f s) = ide_err s" "disk (upd_buf i f s) = disk s" "disk_writes (upd_buf i f s) = disk_writes s"
  "ptable (upd_buf i f s) = ptable s" "myproc (upd_buf i f s) = myproc s" "proc_at (upd_buf i f s) j = proc_at s j"
  by (simp_all add: upd_buf_def myproc_def proc_at_def)

lemma wakeup_fields [simp]:
  "bufs (wakeup c s) = bufs s" "bmru (wakeup c s) = bmru s" "idequeue (wakeup c s) = idequeue s"
  "disk (wakeup c s) = disk s" "disk_writes (wakeup c s) = disk_writes s" "buf_at (wakeup c s) i = buf_at s i"
  "myproc (wakeup c s) = myproc s"
  by (simp_all add: wakeup_def wakeup1_def buf_at_def myproc_def)

lemma acquiresleep_ok:
  assumes "myproc s \<noteq> None" "\<not> sl_locked lk"
  shows "acquiresleep lk s = Ok (lk\<lparr>sl_locked := True, sl_pid := curpid s\<rparr>)"
  using assms by (auto simp: acquiresleep_def with_myproc_def curpid_def)

lemma holdingsleep_ok:
  assumes "myproc s \<noteq> None" "sl_locked lk" "sl_pid lk = curpid s"
  shows "holdingsleep lk s = Ok True"
  using assms by (auto simp: holdingsleep_def with_myproc_def curpid_def)

lemma curpid_upd [simp]: "curpid (upd_buf i f s) = curpid s"
  by (simp add: curpid_def)

lemma bufs_update_simps [simp]:
  "myproc (s\<lparr>bufs := X\<rparr>) = myproc s" "curpid (s\<lparr>bufs := X\<rparr>) = curpid s"
  "acquiresleep lk (s\<lparr>bufs := X\<rparr>) = acquiresleep lk s" "holdingsleep lk (s\<lparr>bufs := X\<rparr>) = holdingsleep lk s"
  by (simp_all add: myproc_def curpid_def proc_at_def acquiresleep_def holdingsleep_def with_myproc_def split: option.splits)

text \<open>The driver, for a request that finds the queue empty: a read, and a write.\<close>

lemma iderw_read:
  assumes s: "i < length (bufs s)" "idequeue s = []" "havedisk1 s" "\<not> ide_err s" "myproc s \<noteq> None"
    and b: "sl_locked (b_lock (bufs s ! i))" "sl_pid (b_lock (bufs s ! i)) = curpid s"
      "b_flags (bufs s ! i) = 0" "b_blockno (bufs s ! i) < FSSIZE" "b_dev (bufs s ! i) = 1"
  shows "iderw i s = Ok (wakeup (CBuf i)
    (s\<lparr>bufs := (bufs s)[i := (bufs s ! i)\<lparr>b_data := disk s 1 (b_blockno (bufs s ! i)), b_flags := 2\<rparr>]\<rparr>))"
proof -
  have q: "s\<lparr>idequeue := [], bufs := B\<rparr> = s\<lparr>bufs := B\<rparr>" for B using s(2) by (cases s) simp
  have n: "\<not> 1000 \<le> b_blockno (bufs s ! i)" using b(4) by simp
  show ?thesis
    using s b(3,5) n holdingsleep_ok [OF s(5) b(1,2)]
    by (simp add: iderw_def idestart_def ideintr_def idewait_def Let_def q upd_buf_def buf_at_def)
qed

lemma iderw_write:
  assumes s: "i < length (bufs s)" "idequeue s = []" "havedisk1 s" "myproc s \<noteq> None"
    and b: "sl_locked (b_lock (bufs s ! i))" "sl_pid (b_lock (bufs s ! i)) = curpid s"
      "b_flags (bufs s ! i) = 6" "b_blockno (bufs s ! i) < FSSIZE" "b_dev (bufs s ! i) = 1"
  shows "iderw i s = Ok (wakeup (CBuf i)
    (s\<lparr>bufs := (bufs s)[i := (bufs s ! i)\<lparr>b_flags := 2\<rparr>],
       disk := (disk s)(1 := (disk s 1)(b_blockno (bufs s ! i) := b_data (bufs s ! i))),
       disk_writes := disk_writes s @ [(1, b_blockno (bufs s ! i), b_data (bufs s ! i))]\<rparr>))"
proof -
  have q: "s\<lparr>disk := D, disk_writes := W, idequeue := [], bufs := B\<rparr> = s\<lparr>bufs := B, disk := D, disk_writes := W\<rparr>" for B D W
    using s(2) by (cases s) simp
  have n: "\<not> 1000 \<le> b_blockno (bufs s ! i)" using b(4) by simp
  show ?thesis
    using s b(3,5) n holdingsleep_ok [OF s(4) b(1,2)]
    by (simp add: iderw_def idestart_def ideintr_def idewait_def Let_def q upd_buf_def buf_at_def)
qed

lemma wakeup_frame: "bframe s t \<Longrightarrow> bframe s (wakeup c t)"
  by (rule bframe_trans, assumption, rule bframeI [where bf = "bufs t" and mr = "bmru t" and dk = "disk t"
        and dw = "disk_writes t", OF _ wakeup_same_procs])
    (simp add: wakeup_def wakeup1_def)

lemma bufs_frame: "bframe s (s\<lparr>bufs := bf\<rparr>)"
  by (rule bframeI [where pt = "ptable s" and mr = "bmru s" and dk = "disk s" and dw = "disk_writes s"])
    (simp_all add: same_procs_def)

text \<open>
  There is a free buffer as long as fewer blocks are pinned or held than the cache has buffers.
\<close>

lemma buffer_free:
  assumes inv: "bio_inv s" and c: "card (pinned s \<union> held s) < NBUF"
  shows "\<exists>i<NBUF. b_flags (bufs s ! i) \<noteq> 6 \<and> \<not> sl_locked (b_lock (bufs s ! i))"
proof (rule ccontr)
  assume no: "\<not> ?thesis"
  let ?f = "\<lambda>i. b_blockno (bufs s ! i)"
  have dev: "b_dev (bufs s ! i) = 1" if "i < NBUF" for i
    using bio_invD(9) [OF inv that] no that by (auto simp: buf_ok_def)
  have "inj_on ?f {..<NBUF}" by (rule inj_onI) (use bio_invD(10) [OF inv] dev in auto)
  then have "card (?f ` {..<NBUF}) = NBUF" by (simp add: card_image)
  moreover have "?f ` {..<NBUF} \<subseteq> pinned s \<union> held s"
    using no dev by (auto simp: pinned_def held_def holds_def)
  moreover have "pinned s \<union> held s \<subseteq> ?f ` {..<NBUF}" by (auto simp: pinned_def held_def holds_def)
  ultimately show False using c by (metis less_irrefl subset_antisym)
qed

definition read_into :: "'a bstate_scheme \<Rightarrow> u32 \<Rightarrow> nat \<Rightarrow> buf \<Rightarrow> 'a bstate_scheme \<Rightarrow> bool" where
  "read_into s b i B t \<longleftrightarrow> put_buf i B s t \<and> evictable s i b \<and> \<not> sl_locked (b_lock (bufs s ! i)) \<and>
     b_blockno B = b \<and> sl_locked (b_lock B) \<and> b_data B = bview s b \<and> (b_flags B = 6 \<longleftrightarrow> b \<in> pinned s) \<and>
     disk t = disk s \<and> disk_writes t = disk_writes s"

lemma bread_hit:
  assumes inv: "bio_inv s" and b: "b < FSSIZE" "b \<notin> held s" and i: "i < NBUF"
    and hit: "find (\<lambda>i. b_dev (bufs s ! i) = 1 \<and> b_blockno (bufs s ! i) = b) (bmru s) = Some i"
  shows "\<exists>B t. bread 1 b s = Ok (i, t) \<and> read_into s b i B t"
proof -
  note I = bio_invD [OF inv]
  have k: "b_dev (bufs s ! i) = 1" "b_blockno (bufs s ! i) = b" using hit by (auto simp: find_Some_iff)
  have key: "b_blockno (bufs s ! j) \<noteq> b" if "j < NBUF" "j \<noteq> i" "b_dev (bufs s ! j) = 1" for j
    using I(10) [OF that(1) i that(3) k(1)] k(2) that(2) by auto
  from k have nl: "\<not> sl_locked (b_lock (bufs s ! i))" using b(2) i by (auto simp: held_def holds_def)
  let ?B = "(bufs s ! i)\<lparr>b_refcnt := 1, b_lock := (b_lock (bufs s ! i))\<lparr>sl_locked := True, sl_pid := curpid s\<rparr>\<rparr>"
  let ?t = "s\<lparr>bufs := (bufs s)[i := ?B]\<rparr>"
  have ok: "b_refcnt (bufs s ! i) = 0" "b_flags (bufs s ! i) = 2 \<or> b_flags (bufs s ! i) = 6" "length (b_data (bufs s ! i)) = BSIZE"
    using I(9) [OF i] k nl by (auto simp: buf_ok_def)
  have "bread 1 b s = Ok (i, ?t)"
    using hit ok(1,2) I(1) i acquiresleep_ok [OF I(7) nl]
    by (auto simp: bread_def bget_def lock_buf_def buf_at_def upd_buf_def)
  moreover have "put_buf i ?B s ?t"
    by (rule put_bufI) (use i k I(1,2,3,8) b(1) ok key in \<open>simp_all add: bufs_frame buf_ok_def\<close>)
  moreover have "b_data ?B = bview s b" using bview_cached [OF inv i] k by simp
  moreover have "b_flags ?B = 6 \<longleftrightarrow> b \<in> pinned s" using i k key by (auto simp: pinned_def)
  ultimately show ?thesis
    using k nl unfolding read_into_def evictable_def by (intro exI [of _ ?B] exI [of _ ?t]) simp
qed

lemma bread_miss:
  assumes inv: "bio_inv s" and b: "b < FSSIZE" and i: "i < NBUF"
    and miss: "find (\<lambda>i. b_dev (bufs s ! i) = 1 \<and> b_blockno (bufs s ! i) = b) (bmru s) = None"
    and free: "find (\<lambda>i. b_refcnt (bufs s ! i) = 0 \<and> b_flags (bufs s ! i) AND B_DIRTY = 0) (rev (bmru s)) = Some i"
  shows "\<exists>B t. bread 1 b s = Ok (i, t) \<and> read_into s b i B t"
proof -
  note I = bio_invD [OF inv]
  have no: "\<not> (b_dev (bufs s ! j) = 1 \<and> b_blockno (bufs s ! j) = b)" if "j < NBUF" for j
    using miss that I(3) by (auto simp: find_None_iff)
  have f: "b_refcnt (bufs s ! i) = 0" "b_flags (bufs s ! i) AND B_DIRTY = 0" using free by (auto simp: find_Some_iff)
  have nl: "\<not> sl_locked (b_lock (bufs s ! i))" "b_flags (bufs s ! i) \<noteq> 6" using I(9) [OF i] f by (auto simp: buf_ok_def)
  let ?lk = "(b_lock (bufs s ! i))\<lparr>sl_locked := True, sl_pid := curpid s\<rparr>"
  let ?B1 = "(bufs s ! i)\<lparr>b_dev := 1, b_blockno := b, b_flags := 0, b_refcnt := 1, b_lock := ?lk\<rparr>"
  let ?B = "?B1\<lparr>b_data := disk s 1 b, b_flags := 2\<rparr>"
  let ?s1 = "s\<lparr>bufs := (bufs s)[i := ?B1]\<rparr>"
  let ?t = "wakeup (CBuf i) (s\<lparr>bufs := (bufs s)[i := ?B]\<rparr>)"
  have "bget 1 b s = Ok (i, ?s1)"
    using miss free I(1) i acquiresleep_ok [OF I(7) nl(1)]
    by (simp add: bget_def lock_buf_def buf_at_def upd_buf_def)
  moreover have "iderw i ?s1 = Ok ?t"
    using iderw_read [of i ?s1] i I(1,4-7) b by simp
  ultimately have "bread 1 b s = Ok (i, ?t)" using i I(1) by (simp add: bread_def buf_at_def)
  moreover have "put_buf i ?B s ?t"
    by (rule put_bufI) (use i I(1,2,3,8) b no in \<open>simp_all add: bufs_frame wakeup_frame buf_ok_def\<close>)
  moreover have "bview s b = disk s 1 b" using no by (intro bview_uncached) blast
  moreover have "b \<notin> pinned s" using no by (auto simp: pinned_def)
  ultimately show ?thesis
    using nl unfolding read_into_def evictable_def by (intro exI [of _ ?B] exI [of _ ?t]) simp
qed

lemma bread_put:
  assumes inv: "bio_inv s" and b: "b < FSSIZE" "b \<notin> held s" and room: "b \<in> pinned s \<or> card (pinned s \<union> held s) < NBUF"
  shows "\<exists>i B t. bread 1 b s = Ok (i, t) \<and> read_into s b i B t"
proof (cases "find (\<lambda>i. b_dev (bufs s ! i) = 1 \<and> b_blockno (bufs s ! i) = b) (bmru s)")
  case (Some i)
  then have "i \<in> set (bmru s)" by (auto simp: find_Some_iff)
  then have "i < NBUF" using bio_invD(3) [OF inv] by simp
  then show ?thesis using bread_hit [OF inv b _ Some] by blast
next
  case None
  then have "b \<notin> pinned s" using bio_invD(3) [OF inv] by (auto simp: find_None_iff pinned_def)
  then obtain j where j: "j < NBUF" "b_flags (bufs s ! j) \<noteq> 6" "\<not> sl_locked (b_lock (bufs s ! j))"
    using buffer_free [OF inv] room by blast
  then have "b_refcnt (bufs s ! j) = 0 \<and> (b_flags (bufs s ! j) = 0 \<or> b_flags (bufs s ! j) = 2)"
    using bio_invD(9) [OF inv j(1)] unfolding buf_ok_def by (elim conjE disjE) simp_all
  then have "b_refcnt (bufs s ! j) = 0 \<and> b_flags (bufs s ! j) AND B_DIRTY = 0" by auto
  moreover have "j \<in> set (rev (bmru s))" using bio_invD(3) [OF inv] j(1) by simp
  ultimately obtain i where i: "find (\<lambda>i. b_refcnt (bufs s ! i) = 0 \<and> b_flags (bufs s ! i) AND B_DIRTY = 0) (rev (bmru s)) = Some i"
    and "i \<in> set (rev (bmru s))"
    using find_exists [of j "rev (bmru s)" "\<lambda>i. b_refcnt (bufs s ! i) = 0 \<and> b_flags (bufs s ! i) AND B_DIRTY = 0"] by blast
  then have "i < NBUF" using bio_invD(3) [OF inv] by simp
  then show ?thesis using bread_miss [OF inv b(1) _ None i] by blast
qed

text \<open>The contract of \<^verbatim>\<open>bread\<close>.\<close>

lemma bread_ok:
  assumes inv: "bio_inv s" and b: "b < FSSIZE" "b \<notin> held s" and room: "b \<in> pinned s \<or> card (pinned s \<union> held s) < NBUF"
  obtains i t where "bread 1 b s = Ok (i, t)" "bio_inv t" "bframe s t" "disk t = disk s" "disk_writes t = disk_writes s"
    "bview t = bview s" "pinned t = pinned s" "held t = insert b (held s)" "holds t i b"
    "\<And>j c. holds s j c \<Longrightarrow> holds t j c"
proof -
  obtain i B t where r: "bread 1 b s = Ok (i, t)" "read_into s b i B t" using bread_put [OF assms] by blast
  note R = r(2) [unfolded read_into_def]
  then have p: "put_buf i B s t" and e: "evictable s i (b_blockno B)" by auto
  have "\<not> holds s i c" for c using R by (auto simp: holds_def)
  then have h: "holds s j c \<Longrightarrow> holds t j c" for j c using put_buf_holds [OF inv p, of j c] by auto
  show thesis
    by (rule that [OF r(1) put_buf_inv [OF inv p] put_bufD(1) [OF p] _ _ _ _ _ _ h])
      (use R put_buf_view [OF inv p e] put_buf_pinned [OF inv p e] put_buf_held [OF inv p e] put_buf_holds [OF inv p] in auto)
qed

text \<open>Facts about a held buffer, and the effect of replacing it by \<open>B\<close> for the same block.\<close>

lemma holds_buf:
  assumes inv: "bio_inv s" and h: "holds s i b"
  shows "i < NBUF" "b_dev (bufs s ! i) = 1" "b_blockno (bufs s ! i) = b" "b < FSSIZE"
    "sl_locked (b_lock (bufs s ! i))" "sl_pid (b_lock (bufs s ! i)) = curpid s" "b_refcnt (bufs s ! i) = 1"
    "length (b_data (bufs s ! i)) = BSIZE" "b_flags (bufs s ! i) = (if b \<in> pinned s then 6 else 2)"
    "evictable s i b" "holdingsleep (b_lock (bufs s ! i)) s = Ok True"
proof -
  show 1: "i < NBUF" "b_dev (bufs s ! i) = 1" "b_blockno (bufs s ! i) = b" "sl_locked (b_lock (bufs s ! i))"
    using h by (auto simp: holds_def)
  note ok = bio_invD(9) [OF inv 1(1), unfolded buf_ok_def]
  show "b < FSSIZE" "length (b_data (bufs s ! i)) = BSIZE" "b_refcnt (bufs s ! i) = 1" using ok 1 by auto
  show 2: "sl_pid (b_lock (bufs s ! i)) = curpid s" using ok 1 by auto
  show "b_flags (bufs s ! i) = (if b \<in> pinned s then 6 else 2)" using ok 1 pinned_holds [OF inv h] by auto
  show "evictable s i b" using 1 by (simp add: evictable_def)
  show "holdingsleep (b_lock (bufs s ! i)) s = Ok True" by (rule holdingsleep_ok [OF bio_invD(7) [OF inv] 1(4) 2])
qed

lemma holds_put:
  assumes inv: "bio_inv s" and h: "holds s i b" and fr: "bframe s t" "bufs t = (bufs s)[i := B]"
    "distinct (bmru t)" "set (bmru t) = {..<NBUF}" and B: "b_dev B = 1" "b_blockno B = b"
    "buf_ok (curpid s) (disk t 1) B" "disk t 1 = disk s 1 \<or> disk t 1 = (disk s 1)(b := b_data B)"
  shows "put_buf i B s t"
proof (rule put_bufI)
  note H = holds_buf [OF inv h]
  have "length (b_data B) = BSIZE" using B(3) by (simp add: buf_ok_def)
  then show "length (disk t 1 c) = BSIZE" for c using B(4) bio_invD(8) [OF inv, of c] by (elim disjE) simp_all
  show "b_blockno (bufs s ! j) \<noteq> b_blockno B" if "j < NBUF" "j \<noteq> i" "b_dev (bufs s ! j) = 1" for j
    using bio_invD(10) [OF inv that(1) H(1) that(3) H(2)] that(2) H(3) B(2) by auto
  show "disk t 1 c = disk s 1 c" if "c \<noteq> b_blockno B" for c using B(4) that B(2) by (elim disjE) simp_all
qed (use fr B(1,3) holds_buf(1) [OF inv h] in simp_all)

lemma holds_put_same:
  assumes inv: "bio_inv s" and h: "holds s i b" and p: "put_buf i B s t" and B: "b_blockno B = b" "sl_locked (b_lock B)"
  shows "holds t j c \<longleftrightarrow> holds s j c" "held t = held s"
proof -
  have "holds s i c \<longleftrightarrow> c = b" for c using h by (auto simp: holds_def)
  then show 1: "holds t j c \<longleftrightarrow> holds s j c" for j c
    using put_buf_holds [OF inv p, of j c] B by (cases "j = i") simp_all
  show "held t = held s" by (simp add: held_def 1)
qed

lemma set_data_ok:
  assumes inv: "bio_inv s" and h: "holds s i b" and l: "length bs = BSIZE"
    and t: "t = upd_buf i (\<lambda>b. b\<lparr>b_data := bs\<rparr>) s"
  shows "bio_inv t" "bframe s t" "bview t = (bview s)(b := bs)" "pinned t = pinned s" "held t = held s"
    "holds t j c \<longleftrightarrow> holds s j c" "disk t = disk s" "disk_writes t = disk_writes s"
proof -
  note H = holds_buf [OF inv h]
  let ?B = "(bufs s ! i)\<lparr>b_data := bs\<rparr>"
  have tt: "t = s\<lparr>bufs := (bufs s)[i := ?B]\<rparr>" by (simp add: t upd_buf_def buf_at_def)
  have p: "put_buf i ?B s t"
    by (rule holds_put [OF inv h])
      (use H l bio_invD(2,3) [OF inv] in \<open>auto simp: tt bufs_frame buf_ok_def\<close>)
  have e: "evictable s i (b_blockno ?B)" using H(3,10) by simp
  show "bio_inv t" "bframe s t" by (rule put_buf_inv [OF inv p], rule put_bufD(1) [OF p])
  show "bview t = (bview s)(b := bs)" using put_buf_view [OF inv p e] H(3) by simp
  show "pinned t = pinned s" using put_buf_pinned [OF inv p e] H(3,9) by (auto split: if_split_asm)
  show "holds t j c \<longleftrightarrow> holds s j c" "held t = held s" using holds_put_same [OF inv h p] H(3,5) by simp_all
  show "disk t = disk s" "disk_writes t = disk_writes s" by (simp_all add: tt)
qed

lemma set_dirty_ok:
  assumes inv: "bio_inv s" and h: "holds s i b" and t: "t = upd_buf i (\<lambda>b. b\<lparr>b_flags := b_flags b OR B_DIRTY\<rparr>) s"
  shows "bio_inv t" "bframe s t" "bview t = bview s" "pinned t = insert b (pinned s)" "held t = held s"
    "holds t j c \<longleftrightarrow> holds s j c" "disk t = disk s" "disk_writes t = disk_writes s"
proof -
  note H = holds_buf [OF inv h]
  have "b_flags (bufs s ! i) OR B_DIRTY = 6" using H(9) by (simp split: if_splits)
  then have tt: "t = s\<lparr>bufs := (bufs s)[i := (bufs s ! i)\<lparr>b_flags := 6\<rparr>]\<rparr>" by (simp add: t upd_buf_def buf_at_def)
  let ?B = "(bufs s ! i)\<lparr>b_flags := 6\<rparr>"
  have p: "put_buf i ?B s t"
    by (rule holds_put [OF inv h])
      (use H bio_invD(2,3) [OF inv] in \<open>auto simp: tt bufs_frame buf_ok_def\<close>)
  have e: "evictable s i (b_blockno ?B)" using H(3,10) by simp
  show "bio_inv t" "bframe s t" by (rule put_buf_inv [OF inv p], rule put_bufD(1) [OF p])
  show "bview t = bview s" using put_buf_view [OF inv p e] H(3) bview_holds [OF inv h] by auto
  show "pinned t = insert b (pinned s)" using put_buf_pinned [OF inv p e] H(3) by simp
  show "holds t j c \<longleftrightarrow> holds s j c" "held t = held s" using holds_put_same [OF inv h p] H(3,5) by simp_all
  show "disk t = disk s" "disk_writes t = disk_writes s" by (simp_all add: tt)
qed

text \<open>The contracts of \<^verbatim>\<open>bwrite\<close> and \<^verbatim>\<open>brelse\<close>.\<close>

lemma bwrite_ok:
  assumes inv: "bio_inv s" and h: "holds s i b"
  obtains t where "bwrite i s = Ok t" "bio_inv t" "bframe s t" "bview t = bview s" "pinned t = pinned s - {b}"
    "held t = held s" "\<And>j c. holds t j c \<longleftrightarrow> holds s j c" "disk t 1 = (disk s 1)(b := bview s b)"
    "disk_writes t = disk_writes s @ [(1, b, bview s b)]"
proof -
  note H = holds_buf [OF inv h] and I = bio_invD [OF inv]
  let ?d = "bview s b" and ?B = "(bufs s ! i)\<lparr>b_flags := 2\<rparr>"
  let ?s1 = "s\<lparr>bufs := (bufs s)[i := (bufs s ! i)\<lparr>b_flags := 6\<rparr>]\<rparr>"
  let ?s2 = "s\<lparr>bufs := (bufs s)[i := ?B], disk := (disk s)(1 := (disk s 1)(b := ?d)),
    disk_writes := disk_writes s @ [(1, b, ?d)]\<rparr>"
  let ?t = "wakeup (CBuf i) ?s2"
  have d: "b_data (bufs s ! i) = ?d" by (rule bview_holds [OF inv h])
  have six: "b_flags (bufs s ! i) OR B_DIRTY = 6" using H(9) by (simp split: if_splits)
  have w: "bwrite i s = Ok ?t"
    using iderw_write [of i ?s1] H I(1,4,5,7) d six
    by (simp add: bwrite_def buf_at_def upd_buf_def)
  have "bframe s ?s2"
    by (rule bframeI [where pt = "ptable s" and mr = "bmru s"]) (simp_all add: same_procs_def)
  then have fr: "bframe s ?t" by (rule wakeup_frame)
  have p: "put_buf i ?B s ?t"
    by (rule holds_put [OF inv h fr]) (use H I(2,3) d in \<open>simp_all add: buf_ok_def\<close>)
  have e: "evictable s i (b_blockno ?B)" using H(3,10) by simp
  show thesis
  proof (rule that [OF w put_buf_inv [OF inv p] fr])
    show "bview ?t = bview s" using put_buf_view [OF inv p e] H(3) d by auto
    show "pinned ?t = pinned s - {b}" using put_buf_pinned [OF inv p e] H(3) by simp
    show "holds ?t j c \<longleftrightarrow> holds s j c" "held ?t = held s" for j c using holds_put_same [OF inv h p] H(3,5) by simp_all
  qed simp_all
qed

lemma brelse_ok:
  assumes inv: "bio_inv s" and h: "holds s i b" and c: "b \<in> pinned s \<or> bview s b = disk s 1 b"
  obtains t where "brelse i s = Ok t" "bio_inv t" "bframe s t" "bview t = bview s" "pinned t = pinned s"
    "held t = held s - {b}" "\<And>j c. holds t j c \<longleftrightarrow> holds s j c \<and> j \<noteq> i" "disk t = disk s" "disk_writes t = disk_writes s"
proof -
  note H = holds_buf [OF inv h] and I = bio_invD [OF inv]
  let ?lk = "(b_lock (bufs s ! i))\<lparr>sl_locked := False, sl_pid := 0\<rparr>"
  let ?B = "(bufs s ! i)\<lparr>b_lock := ?lk, b_refcnt := 0\<rparr>"
  let ?t = "(wakeup (CBuf i) s)\<lparr>bufs := (bufs s)[i := ?B], bmru := i # remove1 i (bmru s)\<rparr>"
  have d: "b_data (bufs s ! i) = bview s b" by (rule bview_holds [OF inv h])
  have r: "brelse i s = Ok ?t"
    using H(1,7,11) I(1) by (simp add: brelse_def releasesleep_def buf_at_def upd_buf_def Let_def)
  have fr: "bframe s ?t"
    by (rule bframeI [where pt = "ptable (wakeup (CBuf i) s)" and dk = "disk s" and dw = "disk_writes s"])
      (use wakeup_same_procs [of s "CBuf i"] in \<open>simp_all add: wakeup_def wakeup1_def same_procs_def\<close>)
  have c': "b \<notin> pinned s \<longrightarrow> bview s b = disk s 1 b" using c by blast
  have "set (i # remove1 i (bmru s)) = {..<NBUF}" using I(2,3) H(1) by auto
  then have p: "put_buf i ?B s ?t"
    by (intro holds_put [OF inv h fr]) (use H I(2) d c' in \<open>simp_all add: buf_ok_def\<close>)
  have e: "evictable s i (b_blockno ?B)" using H(3,10) by simp
  show thesis
  proof (rule that [OF r put_buf_inv [OF inv p] fr])
    show "bview ?t = bview s" using put_buf_view [OF inv p e] H(3) d by auto
    show "pinned ?t = pinned s" using put_buf_pinned [OF inv p e] H(3,9) by (auto split: if_split_asm)
    show "held ?t = held s - {b}" using put_buf_held [OF inv p e] H(3) by simp
    show "holds ?t j c \<longleftrightarrow> holds s j c \<and> j \<noteq> i" for j c using put_buf_holds [OF inv p] by (simp add: H(3))
  qed simp_all
qed

end
