(* ===== verification/Log.thy ===== *)
theory Log
  imports Bcache
begin

text \<open>
  The redo log (\<^verbatim>\<open>log.c\<close>), with \<^verbatim>\<open>readsb\<close> of \<^verbatim>\<open>fs.c\<close>, which it calls.  The in-memory header is \<open>lh_n\<close> and
  the 30 entries of \<open>lh_block\<close>; on disk the header is the block \<open>log_start\<close>, an array of 32-bit words,
  and the logged blocks follow it.  \<^verbatim>\<open>begin_op\<close> returns \<open>Blocked\<close> where the code goes to sleep until
  the log has room.
\<close>

record superblock =
  sb_size :: u32
  sb_nblocks :: u32
  sb_ninodes :: u32
  sb_nlog :: u32
  sb_logstart :: u32
  sb_inodestart :: u32
  sb_bmapstart :: u32

record lgstate = bstate +
  log_start :: u32
  log_size :: int
  log_outstanding :: int
  log_committing :: bool
  log_dev :: u32
  lh_n :: int
  lh_block :: "u32 list"

abbreviation (input) MAXOPBLOCKS :: int where "MAXOPBLOCKS \<equiv> 10"
abbreviation (input) LOGSIZE :: nat where "LOGSIZE \<equiv> 30"

definition readsb :: "u32 \<Rightarrow> 'a bstate_scheme \<Rightarrow> (superblock \<times> 'a bstate_scheme) result" where
  "readsb dev s = bindr (bread dev 1 s) (\<lambda>(bp, s1).
     let d = b_data (buf_at s1 bp);
         sb = \<lparr>sb_size = rd32 d 0, sb_nblocks = rd32 d 4, sb_ninodes = rd32 d 8, sb_nlog = rd32 d 12,
           sb_logstart = rd32 d 16, sb_inodestart = rd32 d 20, sb_bmapstart = rd32 d 24\<rparr>
     in bindr (brelse bp s1) (\<lambda>s2. Ok (sb, s2)))"

section \<open>Installing and recovering\<close>

primrec install_trans_from :: "nat \<Rightarrow> nat \<Rightarrow> 'a lgstate_scheme \<Rightarrow> 'a lgstate_scheme result" where
  "install_trans_from tail 0 s = Ok s"
| "install_trans_from tail (Suc k) s =
     bindr (bread (log_dev s) (log_start s + of_nat tail + 1) s) (\<lambda>(lbuf, s1).
     bindr (bread (log_dev s) (lh_block s ! tail) s1) (\<lambda>(dbuf, s2).
     let s3 = upd_buf dbuf (\<lambda>b. b\<lparr>b_data := b_data (buf_at s2 lbuf)\<rparr>) s2 in
     bindr (bwrite dbuf s3) (\<lambda>s4.
     bindr (brelse lbuf s4) (\<lambda>s5.
     bindr (brelse dbuf s5) (\<lambda>s6.
     install_trans_from (Suc tail) k s6)))))"

definition install_trans :: "'a lgstate_scheme \<Rightarrow> 'a lgstate_scheme result" where
  "install_trans s = install_trans_from 0 (nat (lh_n s)) s"

text \<open>A header on disk that claims more than 30 blocks makes \<^verbatim>\<open>read_head\<close> write beyond the array.\<close>

definition read_head :: "'a lgstate_scheme \<Rightarrow> 'a lgstate_scheme result" where
  "read_head s = bindr (bread (log_dev s) (log_start s) s) (\<lambda>(buf, s1).
     let d = b_data (buf_at s1 buf);
         n = sint (rd32 d 0)
     in if n > int LOGSIZE then UB ''read_head: block out of bounds''
        else
          let s2 = s1\<lparr>lh_n := n, lh_block := map (\<lambda>i. rd32 d (4 + 4 * i)) [0..<nat n] @ drop (nat n) (lh_block s1)\<rparr>
          in brelse buf s2)"

definition header :: "int \<Rightarrow> u32 list \<Rightarrow> u8 list \<Rightarrow> u8 list" where
  "header n blocks d = fold (\<lambda>i. wr32 (4 + 4 * i) (blocks ! i)) [0..<nat n] (wr32 0 (word_of_int n) d)"

definition write_head :: "'a lgstate_scheme \<Rightarrow> 'a lgstate_scheme result" where
  "write_head s = bindr (bread (log_dev s) (log_start s) s) (\<lambda>(buf, s1).
     let s2 = upd_buf buf (\<lambda>b. b\<lparr>b_data := header (lh_n s1) (lh_block s1) (b_data b)\<rparr>) s1 in
     bindr (bwrite buf s2) (brelse buf))"

definition recover_from_log :: "'a lgstate_scheme \<Rightarrow> 'a lgstate_scheme result" where
  "recover_from_log s =
     bindr (read_head s) (\<lambda>s1.
     bindr (install_trans s1) (\<lambda>s2.
     write_head (s2\<lparr>lh_n := 0\<rparr>)))"

definition initlog :: "u32 \<Rightarrow> 'a lgstate_scheme \<Rightarrow> 'a lgstate_scheme result" where
  "initlog dev s =
     bindr (readsb dev s) (\<lambda>(sb, s1).
     recover_from_log (s1\<lparr>log_start := sb_logstart sb, log_size := sint (sb_nlog sb), log_dev := dev\<rparr>))"

section \<open>Transactions\<close>

definition begin_op :: "'a lgstate_scheme \<Rightarrow> 'a lgstate_scheme result" where
  "begin_op s =
     (if log_committing s then Blocked ''begin_op: committing''
      else if lh_n s + (log_outstanding s + 1) * MAXOPBLOCKS > int LOGSIZE then Blocked ''begin_op: log space''
      else Ok (s\<lparr>log_outstanding := log_outstanding s + 1\<rparr>))"

primrec write_log_from :: "nat \<Rightarrow> nat \<Rightarrow> 'a lgstate_scheme \<Rightarrow> 'a lgstate_scheme result" where
  "write_log_from tail 0 s = Ok s"
| "write_log_from tail (Suc k) s =
     bindr (bread (log_dev s) (log_start s + of_nat tail + 1) s) (\<lambda>(to, s1).
     bindr (bread (log_dev s) (lh_block s ! tail) s1) (\<lambda>(frm, s2).
     let s3 = upd_buf to (\<lambda>b. b\<lparr>b_data := b_data (buf_at s2 frm)\<rparr>) s2 in
     bindr (bwrite to s3) (\<lambda>s4.
     bindr (brelse frm s4) (\<lambda>s5.
     bindr (brelse to s5) (\<lambda>s6.
     write_log_from (Suc tail) k s6)))))"

definition write_log :: "'a lgstate_scheme \<Rightarrow> 'a lgstate_scheme result" where
  "write_log s = write_log_from 0 (nat (lh_n s)) s"

definition commit :: "'a lgstate_scheme \<Rightarrow> 'a lgstate_scheme result" where
  "commit s =
     (if lh_n s > 0 then
        bindr (write_log s) (\<lambda>s1.
        bindr (write_head s1) (\<lambda>s2.
        bindr (install_trans s2) (\<lambda>s3.
        write_head (s3\<lparr>lh_n := 0\<rparr>))))
      else Ok s)"

definition end_op :: "'a lgstate_scheme \<Rightarrow> 'a lgstate_scheme result" where
  "end_op s =
     (let s1 = s\<lparr>log_outstanding := log_outstanding s - 1\<rparr> in
      if log_committing s1 then Panic ''log.committing''
      else if log_outstanding s1 = 0 then
        bindr (commit (s1\<lparr>log_committing := True\<rparr>)) (\<lambda>s2.
        Ok (wakeup CLog (s2\<lparr>log_committing := False\<rparr>)))
      else Ok (wakeup CLog s1))"

primrec find_block :: "u32 \<Rightarrow> nat \<Rightarrow> nat \<Rightarrow> u32 list \<Rightarrow> nat" where
  "find_block b i 0 blocks = i"
| "find_block b i (Suc k) blocks = (if blocks ! i = b then i else find_block b (Suc i) k blocks)"

definition log_write :: "nat \<Rightarrow> 'a lgstate_scheme \<Rightarrow> 'a lgstate_scheme result" where
  "log_write bp s =
     (if lh_n s \<ge> int LOGSIZE \<or> lh_n s \<ge> log_size s - 1 then Panic ''too big a transaction''
      else if log_outstanding s < 1 then Panic ''log_write outside of trans''
      else
        let b = b_blockno (buf_at s bp);
            i = find_block b 0 (nat (lh_n s)) (lh_block s);
            s1 = s\<lparr>lh_block := (lh_block s)[i := b]\<rparr>;
            s2 = (if int i = lh_n s1 then s1\<lparr>lh_n := lh_n s1 + 1\<rparr> else s1)
        in Ok (upd_buf bp (\<lambda>b. b\<lparr>b_flags := b_flags b OR B_DIRTY\<rparr>) s2))"

end
