(* ===== verification/Log_Crash.thy ===== *)
theory Log_Crash
  imports Log
begin

text \<open>
  Crash safety of the log.  A commit performs a sequence of block writes; a crash leaves the disk
  after some prefix of it.  Recovery is characterised by the writes \<open>recovery_ws\<close> it performs on a
  disk.  The main facts: the tail of a commit after its header write is the recovery of the disk
  at that point, and a crash in the middle of a recovery does not change what recovery finally
  produces.  Together they give atomicity of a commit under any number of crashes.
\<close>

section \<open>Sequences of block writes\<close>

definition app :: "(u32 \<Rightarrow> u8 list) \<Rightarrow> (u32 \<times> u8 list) list \<Rightarrow> u32 \<Rightarrow> u8 list" where
  "app d ws = fold (\<lambda>(b, x) d. d(b := x)) ws d"

definition wrote :: "'a bstate_scheme \<Rightarrow> 'b bstate_scheme \<Rightarrow> (u32 \<times> u8 list) list \<Rightarrow> bool" where
  "wrote s t ws \<longleftrightarrow> disk t 1 = app (disk s 1) ws \<and> disk_writes t = disk_writes s @ map (Pair 1) ws"

lemma app_simps [simp]: "app d [] = d" "app d ((b, x) # ws) = app (d(b := x)) ws" "app d (vs @ ws) = app (app d vs) ws"
  by (simp_all add: app_def)

lemma app_other: "b \<notin> fst ` set ws \<Longrightarrow> app d ws b = d b"
  by (induction ws arbitrary: d) auto

lemma app_cong: "b \<in> fst ` set ws \<or> d b = e b \<Longrightarrow> app d ws b = app e ws b"
proof (induction ws arbitrary: d e)
  case (Cons w ws)
  then show ?case by (cases w) auto
qed simp

lemma app_absorb: "fst ` set vs \<subseteq> fst ` set ws \<Longrightarrow> app (app d vs) ws = app d ws"
  by (rule ext, rule app_cong) (use app_other in blast)

lemma app_distinct: "distinct (map fst ws) \<Longrightarrow> (b, x) \<in> set ws \<Longrightarrow> app d ws b = x"
proof (induction ws arbitrary: d)
  case (Cons w ws)
  then show ?case by (cases w) (auto simp: app_other rev_image_eqI)
qed simp

lemma wrote_trans: "wrote s t vs \<Longrightarrow> wrote t u ws \<Longrightarrow> wrote s u (vs @ ws)"
  by (simp add: wrote_def)

section \<open>The bodies of the two loops\<close>

lemma bframe_log:
  assumes "bframe s (t :: 'a lgstate_scheme)"
  shows "log_start t = log_start s" "log_size t = log_size s" "log_outstanding t = log_outstanding s"
    "log_committing t = log_committing s" "log_dev t = log_dev s" "lh_n t = lh_n s" "lh_block t = lh_block s"
  using assms by (auto simp: bframe_def)

text \<open>Both loops lock two blocks, copy one to the other, write it and release both.\<close>

lemma lock_two:
  assumes inv: "bio_inv s" and h0: "held s = {}" and a: "a < FSSIZE" and b: "b < FSSIZE" "a \<noteq> b"
    and room: "card (pinned s) < NBUF" "b \<in> pinned s \<or> card (insert a (pinned s)) < NBUF"
  obtains i s1 j s2 where "bread 1 a s = Ok (i, s1)" "bread 1 b s1 = Ok (j, s2)" "bio_inv s2" "bframe s s2" "disk s2 = disk s"
    "disk_writes s2 = disk_writes s" "bview s2 = bview s" "pinned s2 = pinned s" "held s2 = {a, b}" "holds s2 i a" "holds s2 j b"
proof -
  obtain i s1 where 1: "bread 1 a s = Ok (i, s1)" "bio_inv s1" "bframe s s1" "disk s1 = disk s" "disk_writes s1 = disk_writes s"
    "bview s1 = bview s" "pinned s1 = pinned s" "held s1 = {a}" "holds s1 i a"
    by (rule bread_ok [OF inv a]) (use h0 room(1) in auto)
  obtain j s2 where 2: "bread 1 b s1 = Ok (j, s2)" "bio_inv s2" "bframe s1 s2" "disk s2 = disk s1" "disk_writes s2 = disk_writes s1"
    "bview s2 = bview s1" "pinned s2 = pinned s1" "held s2 = {a, b}" "holds s2 j b" "holds s2 i a"
    by (rule bread_ok [OF 1(2) b(1)]) (use 1(7,8,9) b(2) room(2) in \<open>auto simp: insert_commute\<close>)
  show thesis
    by (rule that [OF 1(1) 2(1,2) bframe_trans [OF 1(3) 2(3)]]) (use 1 2 in simp_all)
qed

lemma release_two:
  assumes inv: "bio_inv s" and h: "held s = {a, b}" "a \<noteq> b" "holds s i a" "holds s j b"
    and c: "a \<in> pinned s \<or> bview s a = disk s 1 a" "b \<in> pinned s \<or> bview s b = disk s 1 b"
  obtains s1 t where "brelse i s = Ok s1" "brelse j s1 = Ok t" "bio_inv t" "bframe s t" "disk t = disk s"
    "disk_writes t = disk_writes s" "bview t = bview s" "pinned t = pinned s" "held t = {}"
proof -
  have ij: "j \<noteq> i" "{a, b} - {a} = {b}" using h by (auto simp: holds_def)
  obtain s1 where 1: "brelse i s = Ok s1" "bio_inv s1" "bframe s s1" "bview s1 = bview s" "pinned s1 = pinned s"
    "held s1 = {b}" "holds s1 j b" "disk s1 = disk s" "disk_writes s1 = disk_writes s"
    by (rule brelse_ok [OF inv h(3) c(1)]) (use h ij in simp)
  obtain t where t: "brelse j s1 = Ok t" "bio_inv t" "bframe s1 t" "bview t = bview s1" "pinned t = pinned s1"
    "held t = {}" "disk t = disk s1" "disk_writes t = disk_writes s1"
    by (rule brelse_ok [OF 1(2,7)]) (use 1 c in simp_all)
  show thesis
    by (rule that [OF 1(1) t(1,2) bframe_trans [OF 1(3) t(3)]]) (use 1 t in simp_all)
qed

lemma copy_to_first:
  assumes inv: "bio_inv s" and h0: "held s = {}" and a: "a < FSSIZE" "a \<notin> pinned s" and b: "b < FSSIZE" "a \<noteq> b" "b \<in> pinned s"
    and room: "card (pinned s) < NBUF"
  obtains i s1 j s2 s4 s5 t where "bread 1 a s = Ok (i, s1)" "bread 1 b s1 = Ok (j, s2)"
    "bwrite i (upd_buf i (\<lambda>x. x\<lparr>b_data := b_data (buf_at s2 j)\<rparr>) s2) = Ok s4" "brelse j s4 = Ok s5" "brelse i s5 = Ok t"
    "bio_inv t" "bframe s t" "held t = {}" "pinned t = pinned s" "bview t = (bview s)(a := bview s b)"
    "wrote s t [(a, bview s b)]"
proof -
  obtain i s1 j s2 where 2: "bread 1 a s = Ok (i, s1)" "bread 1 b s1 = Ok (j, s2)" "bio_inv s2" "bframe s s2" "disk s2 = disk s"
    "disk_writes s2 = disk_writes s" "bview s2 = bview s" "pinned s2 = pinned s" "held s2 = {a, b}" "holds s2 i a" "holds s2 j b"
    by (rule lock_two [OF inv h0 a(1) b(1,2) room]) (use b(3) in auto)
  have l: "length (b_data (buf_at s2 j)) = BSIZE" "b_data (buf_at s2 j) = bview s b"
    using holds_buf(8) [OF 2(3,11)] bview_holds [OF 2(3,11)] 2(7) by (simp_all add: buf_at_def)
  let ?s3 = "upd_buf i (\<lambda>x. x\<lparr>b_data := b_data (buf_at s2 j)\<rparr>) s2"
  note d = set_data_ok [OF 2(3,10) l(1) refl]
  have h3: "holds ?s3 i a" "holds ?s3 j b" using d(6) 2(10,11) by blast+
  obtain s4 where 4: "bwrite i ?s3 = Ok s4" "bio_inv s4" "bframe ?s3 s4" "bview s4 = (bview s)(a := bview s b)" "pinned s4 = pinned s"
    "held s4 = {b, a}" "holds s4 i a" "holds s4 j b" "disk s4 1 = (disk s 1)(a := bview s b)"
    "disk_writes s4 = disk_writes s @ [(1, a, bview s b)]"
    by (rule bwrite_ok [OF d(1) h3(1)]) (use d 2 a l h3 in auto)
  obtain s5 t where t: "brelse j s4 = Ok s5" "brelse i s5 = Ok t" "bio_inv t" "bframe s4 t" "disk t = disk s4"
    "disk_writes t = disk_writes s4" "bview t = bview s4" "pinned t = pinned s4" "held t = {}"
    by (rule release_two [OF 4(2,6) _ 4(8,7)]) (use 4 b in auto)
  have "bframe s t" by (meson 2(4) d(2) 4(3) t(4) bframe_trans)
  then show thesis
    by (rule that [OF 2(1,2) 4(1) t(1,2,3)]) (use 4 t in \<open>simp_all add: wrote_def\<close>)
qed

lemma copy_to_second:
  assumes inv: "bio_inv s" and h0: "held s = {}" and a: "a < FSSIZE" "a \<notin> pinned s" and b: "b < FSSIZE" "a \<noteq> b"
    and room: "card (pinned s) < NBUF" "b \<in> pinned s \<or> card (insert a (pinned s)) < NBUF"
  obtains i s1 j s2 s4 s5 t where "bread 1 a s = Ok (i, s1)" "bread 1 b s1 = Ok (j, s2)"
    "bwrite j (upd_buf j (\<lambda>x. x\<lparr>b_data := b_data (buf_at s2 i)\<rparr>) s2) = Ok s4" "brelse i s4 = Ok s5" "brelse j s5 = Ok t"
    "bio_inv t" "bframe s t" "held t = {}" "pinned t = pinned s - {b}" "bview t = (bview s)(b := bview s a)"
    "wrote s t [(b, bview s a)]"
proof -
  obtain i s1 j s2 where 2: "bread 1 a s = Ok (i, s1)" "bread 1 b s1 = Ok (j, s2)" "bio_inv s2" "bframe s s2" "disk s2 = disk s"
    "disk_writes s2 = disk_writes s" "bview s2 = bview s" "pinned s2 = pinned s" "held s2 = {a, b}" "holds s2 i a" "holds s2 j b"
    by (rule lock_two [OF inv h0 a(1) b room])
  have l: "length (b_data (buf_at s2 i)) = BSIZE" "b_data (buf_at s2 i) = bview s a"
    using holds_buf(8) [OF 2(3,10)] bview_holds [OF 2(3,10)] 2(7) by (simp_all add: buf_at_def)
  have cl: "bview s a = disk s 1 a" using bview_clean [OF inv a(2)] h0 by simp
  let ?s3 = "upd_buf j (\<lambda>x. x\<lparr>b_data := b_data (buf_at s2 i)\<rparr>) s2"
  note d = set_data_ok [OF 2(3,11) l(1) refl]
  have h3: "holds ?s3 i a" "holds ?s3 j b" using d(6) 2(10,11) by blast+
  obtain s4 where 4: "bwrite j ?s3 = Ok s4" "bio_inv s4" "bframe ?s3 s4" "bview s4 = (bview s)(b := bview s a)" "pinned s4 = pinned s - {b}"
    "held s4 = {a, b}" "holds s4 i a" "holds s4 j b" "disk s4 1 = (disk s 1)(b := bview s a)"
    "disk_writes s4 = disk_writes s @ [(1, b, bview s a)]"
    by (rule bwrite_ok [OF d(1) h3(2)]) (use d 2 a l h3 in auto)
  obtain s5 t where t: "brelse i s4 = Ok s5" "brelse j s5 = Ok t" "bio_inv t" "bframe s4 t" "disk t = disk s4"
    "disk_writes t = disk_writes s4" "bview t = bview s4" "pinned t = pinned s4" "held t = {}"
    by (rule release_two [OF 4(2,6) _ 4(7,8)]) (use 4 b cl in auto)
  have "bframe s t" by (meson 2(4) d(2) 4(3) t(4) bframe_trans)
  then show thesis
    by (rule that [OF 2(1,2) 4(1) t(1,2,3)]) (use 4 t in \<open>simp_all add: wrote_def\<close>)
qed

section \<open>The log on disk\<close>

definition lpos :: "u32 \<Rightarrow> nat \<Rightarrow> u32" where
  "lpos start j = start + of_nat j + 1"

definition area :: "u32 \<Rightarrow> u32 set" where
  "area start = {b. unat start \<le> unat b \<and> unat b < unat start + LOGSIZE}"

definition lwf :: "u32 \<Rightarrow> u32 list \<Rightarrow> bool" where
  "lwf start blks \<longleftrightarrow> unat start + LOGSIZE < 1000 \<and> length blks < LOGSIZE \<and> distinct blks \<and>
     (\<forall>b\<in>set blks. b < FSSIZE \<and> b \<notin> area start)"

text \<open>The header in memory lists the blocks \<open>blks\<close>.\<close>

definition lists :: "'a lgstate_scheme \<Rightarrow> u32 list \<Rightarrow> bool" where
  "lists s blks \<longleftrightarrow> log_dev s = 1 \<and> length (lh_block s) = LOGSIZE \<and> take (length blks) (lh_block s) = blks \<and> lwf (log_start s) blks"

lemma unat_lpos: "unat start + LOGSIZE < 1000 \<Longrightarrow> Suc j < LOGSIZE \<Longrightarrow> unat (lpos start j) = unat start + j + 1"
  by (simp add: lpos_def unat_add32 unsigned_of_nat take_bit_nat_eq_self)

lemma lpos_facts:
  assumes "lwf start blks" "Suc j < LOGSIZE"
  shows "lpos start j < FSSIZE" "lpos start j \<in> area start" "lpos start j \<noteq> start" "start < FSSIZE" "start \<in> area start"
    "Suc i < LOGSIZE \<Longrightarrow> lpos start i = lpos start j \<longleftrightarrow> i = j"
  using unat_lpos [of start j] unat_lpos [of start i] assms
  by (auto simp: lwf_def area_def word_less_nat_alt word_unat_eq_iff)

lemma listsD:
  assumes "lists s blks"
  shows "log_dev s = 1" "length (lh_block s) = LOGSIZE" "lwf (log_start s) blks" "j < length blks \<Longrightarrow> lh_block s ! j = blks ! j"
    "length blks < LOGSIZE" "distinct blks" "b \<in> set blks \<Longrightarrow> b < FSSIZE" "b \<in> set blks \<Longrightarrow> b \<notin> area (log_start s)"
  using assms by (auto simp: lists_def lwf_def) (metis nth_take)

lemma lists_frame: "bframe s t \<Longrightarrow> lists s blks \<Longrightarrow> lists t blks"
  by (simp add: lists_def bframe_log)

text \<open>The writes of the two loops, for the positions \<open>is\<close> of the log.\<close>

definition log_ws :: "(u32 \<Rightarrow> u8 list) \<Rightarrow> u32 \<Rightarrow> u32 list \<Rightarrow> nat list \<Rightarrow> (u32 \<times> u8 list) list" where
  "log_ws v start blks is = map (\<lambda>j. (lpos start j, v (blks ! j))) is"

definition home_ws :: "(u32 \<Rightarrow> u8 list) \<Rightarrow> u32 \<Rightarrow> u32 list \<Rightarrow> nat list \<Rightarrow> (u32 \<times> u8 list) list" where
  "home_ws v start blks is = map (\<lambda>j. (blks ! j, v (lpos start j))) is"

lemma home_ws_keys:
  "map fst (home_ws v start blks [0..<length blks]) = blks" "fst ` set (home_ws v start blks [0..<length blks]) = set blks"
proof -
  show "map fst (home_ws v start blks [0..<length blks]) = blks" by (simp add: home_ws_def o_def map_nth)
  then show "fst ` set (home_ws v start blks [0..<length blks]) = set blks" by (metis list.set_map)
qed

lemma log_ws_keys: "lwf start blks \<Longrightarrow> fst ` set (log_ws v start blks [0..<length blks]) \<subseteq> area start - {start}"
  using lpos_facts(2,3) [of start blks] by (auto simp: log_ws_def lwf_def)

lemma upt_step: "[tail..<tail + Suc k] = tail # [Suc tail..<Suc tail + k]"
  by (subst upt_conv_Cons) simp_all

lemma write_log_loop:
  "bio_inv s \<Longrightarrow> held s = {} \<Longrightarrow> lists s blks \<Longrightarrow> set blks \<subseteq> pinned s \<Longrightarrow> pinned s \<inter> area (log_start s) = {} \<Longrightarrow>
   card (pinned s) < NBUF \<Longrightarrow> tail + k = length blks \<Longrightarrow>
   \<exists>t. write_log_from tail k s = Ok t \<and> bio_inv t \<and> bframe s t \<and> held t = {} \<and> pinned t = pinned s \<and>
     wrote s t (log_ws (bview s) (log_start s) blks [tail..<tail + k]) \<and>
     bview t = app (bview s) (log_ws (bview s) (log_start s) blks [tail..<tail + k])"
proof (induction k arbitrary: tail s)
  case 0
  then show ?case by (simp add: wrote_def log_ws_def)
next
  case (Suc k)
  note L = listsD [OF Suc.prems(3)]
  let ?a = "lpos (log_start s) tail" and ?b = "blks ! tail"
  have tl: "tail < length blks" "Suc tail < LOGSIZE" using Suc.prems(7) L(5) by auto
  note P = lpos_facts [OF L(3) tl(2)]
  have b: "?b \<in> set blks" using tl by simp
  then have pb: "?b \<in> pinned s" "?a \<notin> pinned s" using Suc.prems(4,5) P(2) by auto
  have ab: "?a \<noteq> ?b" using P(2) L(8) [OF b] by auto
  obtain i s1 j s2 s4 s5 t where c: "bread 1 ?a s = Ok (i, s1)" "bread 1 ?b s1 = Ok (j, s2)"
    "bwrite i (upd_buf i (\<lambda>x. x\<lparr>b_data := b_data (buf_at s2 j)\<rparr>) s2) = Ok s4" "brelse j s4 = Ok s5" "brelse i s5 = Ok t"
    "bio_inv t" "bframe s t" "held t = {}" "pinned t = pinned s" "bview t = (bview s)(?a := bview s ?b)" "wrote s t [(?a, bview s ?b)]"
    by (rule copy_to_first [OF Suc.prems(1,2) P(1) pb(2) L(7) [OF b] ab pb(1) Suc.prems(6)])
  note F = bframe_log [OF c(7)]
  have "write_log_from tail (Suc k) s = write_log_from (Suc tail) k t"
    using c(1-5) L(1) L(4) [OF tl(1)] by (simp add: Let_def lpos_def)
  moreover obtain u where u: "write_log_from (Suc tail) k t = Ok u" "bio_inv u" "bframe t u" "held u = {}" "pinned u = pinned t"
    "wrote t u (log_ws (bview t) (log_start t) blks [Suc tail..<Suc tail + k])"
    "bview u = app (bview t) (log_ws (bview t) (log_start t) blks [Suc tail..<Suc tail + k])"
    using Suc.IH [OF c(6,8) lists_frame [OF c(7) Suc.prems(3)], of "Suc tail"] Suc.prems c(9) F by auto
  moreover have "log_ws (bview t) (log_start t) blks [Suc tail..<Suc tail + k] = log_ws (bview s) (log_start s) blks [Suc tail..<Suc tail + k]"
    unfolding log_ws_def F c(10) using P(2) Suc.prems(7) L(8) by (auto simp: fun_upd_def) (metis nth_mem)
  moreover have "log_ws v st blks [tail..<tail + Suc k] = (lpos st tail, v (blks ! tail)) # log_ws v st blks [Suc tail..<Suc tail + k]" for v st
    unfolding log_ws_def upt_step by simp
  ultimately show ?case
    using wrote_trans [OF c(11) u(6)] bframe_trans [OF c(7) u(3)] c(9,10) by (intro exI [of _ u]) simp
qed

lemma install_loop:
  "bio_inv s \<Longrightarrow> held s = {} \<Longrightarrow> lists s blks \<Longrightarrow> pinned s \<inter> area (log_start s) = {} \<Longrightarrow> card (pinned s) < NBUF \<Longrightarrow>
   set (drop tail blks) \<subseteq> pinned s \<or> pinned s = {} \<Longrightarrow> tail + k = length blks \<Longrightarrow>
   \<exists>t. install_trans_from tail k s = Ok t \<and> bio_inv t \<and> bframe s t \<and> held t = {} \<and> pinned t = pinned s - set (drop tail blks) \<and>
     wrote s t (home_ws (bview s) (log_start s) blks [tail..<tail + k]) \<and>
     bview t = app (bview s) (home_ws (bview s) (log_start s) blks [tail..<tail + k])"
proof (induction k arbitrary: tail s)
  case 0
  then show ?case by (simp add: wrote_def home_ws_def)
next
  case (Suc k)
  note L = listsD [OF Suc.prems(3)]
  let ?a = "lpos (log_start s) tail" and ?b = "blks ! tail"
  have tl: "tail < length blks" "Suc tail < LOGSIZE" using Suc.prems(7) L(5) by auto
  note P = lpos_facts [OF L(3) tl(2)]
  have dr: "drop tail blks = ?b # drop (Suc tail) blks" using tl(1) by (simp add: Cons_nth_drop_Suc)
  have b: "?b \<in> set blks" "?b \<notin> set (drop (Suc tail) blks)" using tl L(6) distinct_drop [OF L(6), of tail] dr by auto
  have pa: "?a \<notin> pinned s" using Suc.prems(4) P(2) by auto
  have ab: "?a \<noteq> ?b" using P(2) L(8) [OF b(1)] by auto
  have ne: "lpos (log_start s) x \<noteq> ?b" if "x < length blks" for x
    using lpos_facts(2) [OF L(3), of x] that L(5) L(8) [OF b(1)] by auto
  have room: "?b \<in> pinned s \<or> card (insert ?a (pinned s)) < NBUF" using Suc.prems(6) dr by auto
  obtain i s1 j s2 s4 s5 t where c: "bread 1 ?a s = Ok (i, s1)" "bread 1 ?b s1 = Ok (j, s2)"
    "bwrite j (upd_buf j (\<lambda>x. x\<lparr>b_data := b_data (buf_at s2 i)\<rparr>) s2) = Ok s4" "brelse i s4 = Ok s5" "brelse j s5 = Ok t"
    "bio_inv t" "bframe s t" "held t = {}" "pinned t = pinned s - {?b}" "bview t = (bview s)(?b := bview s ?a)" "wrote s t [(?b, bview s ?a)]"
    by (rule copy_to_second [OF Suc.prems(1,2) P(1) pa L(7) [OF b(1)] ab Suc.prems(5) room])
  note F = bframe_log [OF c(7)]
  have "install_trans_from tail (Suc k) s = install_trans_from (Suc tail) k t"
    using c(1-5) L(1) L(4) [OF tl(1)] by (simp add: Let_def lpos_def)
  moreover have "card (pinned t) < NBUF" unfolding c(9) by (rule le_less_trans [OF card_Diff1_le Suc.prems(5)])
  moreover have "set (drop (Suc tail) blks) \<subseteq> pinned t \<or> pinned t = {}" using Suc.prems(6) c(9) dr b(2) by auto
  moreover have "pinned t \<inter> area (log_start t) = {}" using Suc.prems(4) c(9) F by auto
  moreover note Suc.IH [OF c(6,8) lists_frame [OF c(7) Suc.prems(3)], of "Suc tail"]
  ultimately obtain u where u: "install_trans_from tail (Suc k) s = Ok u" "bio_inv u" "bframe t u" "held u = {}" "pinned u = pinned t - set (drop (Suc tail) blks)"
    "wrote t u (home_ws (bview t) (log_start t) blks [Suc tail..<Suc tail + k])"
    "bview u = app (bview t) (home_ws (bview t) (log_start t) blks [Suc tail..<Suc tail + k])"
    using Suc.prems(7) by auto
  moreover have "home_ws (bview t) (log_start t) blks [Suc tail..<Suc tail + k] = home_ws (bview s) (log_start s) blks [Suc tail..<Suc tail + k]"
    unfolding home_ws_def F c(10) using ne Suc.prems(7) by auto
  moreover have "home_ws v st blks [tail..<tail + Suc k] = (blks ! tail, v (lpos st tail)) # home_ws v st blks [Suc tail..<Suc tail + k]" for v st
    unfolding home_ws_def upt_step by simp
  ultimately show ?case
    using wrote_trans [OF c(11) u(6)] bframe_trans [OF c(7) u(3)] c(9,10) dr by (intro exI [of _ u]) auto
qed

section \<open>The header\<close>

lemma header_fold:
  assumes "length d = BSIZE" "n \<le> LOGSIZE"
  shows "length (fold (\<lambda>i. wr32 (4 + 4 * i) (blks ! i)) [0..<n] d) = BSIZE"
    "rd32 (fold (\<lambda>i. wr32 (4 + 4 * i) (blks ! i)) [0..<n] d) 0 = rd32 d 0"
    "j < n \<Longrightarrow> rd32 (fold (\<lambda>i. wr32 (4 + 4 * i) (blks ! i)) [0..<n] d) (4 + 4 * j) = blks ! j"
  using assms(2)
proof (induction n)
  case (Suc n)
  { case 1 then show ?case using Suc(1) by (simp del: upt_rec_numeral) }
  { case 2 then show ?case using Suc(1,2) rd32_wr32_index [of 0 _ "Suc n"] by (simp del: upt_rec_numeral) }
  { case 3 then show ?case using Suc(1,3) rd32_wr32_index [of "Suc j" _ "Suc n"] by (cases "j = n") (simp_all del: upt_rec_numeral) }
qed (use assms(1) in simp_all)

lemma header_ok:
  assumes "length d = BSIZE" "length blks \<le> LOGSIZE" "n = int (length blks)"
  shows "length (header n bs d) = BSIZE" "rd32 (header n bs d) 0 = of_nat (length blks)"
    "j < length blks \<Longrightarrow> rd32 (header n bs d) (4 + 4 * j) = bs ! j"
  using header_fold [where d = "wr32 0 (word_of_int n) d" and n = "length blks" and blks = bs] assms
  by (simp_all add: header_def)

lemma header_zero: "header 0 bs d = wr32 0 0 d"
  by (simp add: header_def)

lemma wr32_twice: "4 + off \<le> length d \<Longrightarrow> wr32 off v (wr32 off w d) = wr32 off v d"
  by (simp add: wr32_def splice_def)

lemma write_head_ok:
  assumes inv: "bio_inv s" and h0: "held s = {}" and l: "lists s blks" "pinned s \<inter> area (log_start s) = {}" "card (pinned s) < NBUF"
    and n: "lh_n s = int (length cs)" "length cs \<le> LOGSIZE"
  obtains t where "write_head s = Ok t" "bio_inv t" "bframe s t" "held t = {}" "pinned t = pinned s"
    "wrote s t [(log_start s, header (lh_n s) (lh_block s) (bview s (log_start s)))]"
    "bview t = app (bview s) [(log_start s, header (lh_n s) (lh_block s) (bview s (log_start s)))]"
proof -
  note P = lpos_facts [OF listsD(3) [OF l(1)], of 0, simplified]
  have np: "log_start s \<notin> pinned s" using l(2) P(5) by blast
  obtain i s1 where 1: "bread 1 (log_start s) s = Ok (i, s1)" "bio_inv s1" "bframe s s1" "disk s1 = disk s" "disk_writes s1 = disk_writes s"
    "bview s1 = bview s" "pinned s1 = pinned s" "held s1 = {log_start s}" "holds s1 i (log_start s)"
    by (rule bread_ok [OF inv P(4)]) (use h0 l(3) in auto)
  note F = bframe_log [OF 1(3)]
  let ?h = "header (lh_n s) (lh_block s) (bview s (log_start s))"
  have d: "b_data (buf_at s1 i) = bview s (log_start s)" using bview_holds [OF 1(2,9)] 1(6) by (simp add: buf_at_def)
  have lh: "length ?h = BSIZE" using header_ok(1) [OF length_bview [OF inv] n(2,1)] by simp
  let ?s2 = "upd_buf i (\<lambda>b. b\<lparr>b_data := ?h\<rparr>) s1"
  have u: "upd_buf i (\<lambda>b. b\<lparr>b_data := header (lh_n s1) (lh_block s1) (b_data b)\<rparr>) s1 = ?s2"
    by (simp add: upd_buf_def F d)
  note D = set_data_ok [OF 1(2,9) lh refl]
  have h2: "holds ?s2 i (log_start s)" using D(6) 1(9) by blast
  obtain s3 where 3: "bwrite i ?s2 = Ok s3" "bio_inv s3" "bframe ?s2 s3" "bview s3 = (bview s)(log_start s := ?h)" "pinned s3 = pinned s"
    "held s3 = {log_start s}" "holds s3 i (log_start s)" "disk s3 1 = (disk s 1)(log_start s := ?h)"
    "disk_writes s3 = disk_writes s @ [(1, log_start s, ?h)]"
    by (rule bwrite_ok [OF D(1) h2]) (use D 1 h2 np in auto)
  obtain t where t: "brelse i s3 = Ok t" "bio_inv t" "bframe s3 t" "bview t = bview s3" "pinned t = pinned s3"
    "held t = {}" "disk t = disk s3" "disk_writes t = disk_writes s3"
    by (rule brelse_ok [OF 3(2,7)]) (use 3 in auto)
  have w: "write_head s = Ok t" using 1(1) 3(1) t(1) u listsD(1) [OF l(1)] by (simp add: write_head_def)
  have "bframe s t" by (meson 1(3) D(2) 3(3) t(3) bframe_trans)
  then show thesis by (rule that [OF w t(2)]) (use 3 t in \<open>simp_all add: wrote_def\<close>)
qed

section \<open>Recovery\<close>

definition hdr_blks :: "(u32 \<Rightarrow> u8 list) \<Rightarrow> u32 \<Rightarrow> u32 list" where
  "hdr_blks d start = map (\<lambda>i. rd32 (d start) (4 + 4 * i)) [0..<nat (sint (rd32 (d start) 0))]"

definition recovery_ws :: "(u32 \<Rightarrow> u8 list) \<Rightarrow> u32 \<Rightarrow> (u32 \<times> u8 list) list" where
  "recovery_ws d start = home_ws d start (hdr_blks d start) [0..<length (hdr_blks d start)] @ [(start, wr32 0 0 (d start))]"

definition wf_log :: "(u32 \<Rightarrow> u8 list) \<Rightarrow> u32 \<Rightarrow> bool" where
  "wf_log d start \<longleftrightarrow> (\<forall>b. length (d b) = BSIZE) \<and> sint (rd32 (d start) 0) < int LOGSIZE \<and> lwf start (hdr_blks d start)"

definition booted :: "'a lgstate_scheme \<Rightarrow> bool" where
  "booted s \<longleftrightarrow> bio_inv s \<and> held s = {} \<and> pinned s = {} \<and> log_dev s = 1 \<and> length (lh_block s) = LOGSIZE"

lemma lh_update_simps [simp]:
  "bio_inv (s\<lparr>lh_n := n\<rparr>) = bio_inv s" "bio_inv (s\<lparr>lh_block := bl\<rparr>) = bio_inv s"
  "holds (s\<lparr>lh_n := n\<rparr>) i b = holds s i b" "holds (s\<lparr>lh_block := bl\<rparr>) i b = holds s i b"
  "held (s\<lparr>lh_n := n\<rparr>) = held s" "held (s\<lparr>lh_block := bl\<rparr>) = held s"
  "pinned (s\<lparr>lh_n := n\<rparr>) = pinned s" "pinned (s\<lparr>lh_block := bl\<rparr>) = pinned s"
  "bview (s\<lparr>lh_n := n\<rparr>) = bview s" "bview (s\<lparr>lh_block := bl\<rparr>) = bview s"
  by (simp_all add: bio_inv_def curpid_def myproc_def proc_at_def holds_def held_def pinned_def bview_def fun_eq_iff
    del: upt_rec_numeral split: option.split)

lemma read_head_ok:
  assumes b: "booted s" and w: "wf_log (disk s 1) (log_start s)"
  obtains t where "read_head s = Ok t" "bio_inv t" "held t = {}" "pinned t = {}" "disk t = disk s" "disk_writes t = disk_writes s"
    "bview t = disk s 1" "lists t (hdr_blks (disk s 1) (log_start s))" "log_start t = log_start s"
    "lh_n t = sint (rd32 (disk s 1 (log_start s)) 0)"
proof -
  have B: "bio_inv s" "held s = {}" "pinned s = {}" "log_dev s = 1" "length (lh_block s) = LOGSIZE" using b by (auto simp: booted_def)
  have W: "sint (rd32 (disk s 1 (log_start s)) 0) < int LOGSIZE" "lwf (log_start s) (hdr_blks (disk s 1) (log_start s))"
    using w by (auto simp: wf_log_def)
  have v: "bview s = disk s 1" using bview_clean [OF B(1)] B(2,3) by auto
  note P = lpos_facts [OF W(2), of 0, simplified]
  obtain i s1 where 1: "bread 1 (log_start s) s = Ok (i, s1)" "bio_inv s1" "bframe s s1" "disk s1 = disk s" "disk_writes s1 = disk_writes s"
    "bview s1 = bview s" "pinned s1 = pinned s" "held s1 = {log_start s}" "holds s1 i (log_start s)"
    by (rule bread_ok [OF B(1) P(4)]) (use B in auto)
  note F = bframe_log [OF 1(3)]
  have d: "b_data (buf_at s1 i) = disk s 1 (log_start s)" using bview_holds [OF 1(2,9)] 1(6) v by (simp add: buf_at_def)
  let ?n = "sint (rd32 (disk s 1 (log_start s)) 0)" and ?bl = "hdr_blks (disk s 1) (log_start s)"
  let ?s2 = "s1\<lparr>lh_n := ?n, lh_block := ?bl @ drop (nat ?n) (lh_block s1)\<rparr>"
  obtain t where t: "brelse i ?s2 = Ok t" "bio_inv t" "bframe ?s2 t" "bview t = bview ?s2" "pinned t = pinned ?s2"
    "held t = held ?s2 - {log_start s}" "disk t = disk ?s2" "disk_writes t = disk_writes ?s2"
    by (rule brelse_ok [of ?s2 i "log_start s"]) (use 1 v in auto)
  note G = bframe_log [OF t(3)]
  have r: "read_head s = Ok t" using 1(1) t(1) d W(1) B(4) by (simp add: read_head_def Let_def hdr_blks_def)
  have l: "lists t ?bl" using B(4,5) W F G by (simp add: lists_def) (simp add: hdr_blks_def)
  show thesis by (rule that [OF r t(2)]) (use l 1 t B F G v in auto)
qed

lemma recover_ok:
  assumes b: "booted s" and w: "wf_log (disk s 1) (log_start s)"
  obtains t where "recover_from_log s = Ok t" "bio_inv t" "held t = {}" "pinned t = {}" "lh_n t = 0" "log_start t = log_start s"
    "wrote s t (recovery_ws (disk s 1) (log_start s))"
proof -
  let ?d = "disk s 1" and ?st = "log_start s"
  let ?bl = "hdr_blks ?d ?st"
  obtain s1 where 1: "read_head s = Ok s1" "bio_inv s1" "held s1 = {}" "pinned s1 = {}" "disk s1 = disk s" "disk_writes s1 = disk_writes s"
    "bview s1 = ?d" "lists s1 ?bl" "log_start s1 = ?st" "lh_n s1 = sint (rd32 (?d ?st) 0)"
    by (rule read_head_ok [OF b w])
  have n: "nat (lh_n s1) = length ?bl" by (simp add: 1(10) hdr_blks_def)
  obtain s2 where 2: "install_trans s1 = Ok s2" "bio_inv s2" "bframe s1 s2" "held s2 = {}" "pinned s2 = {}"
    "wrote s1 s2 (home_ws ?d ?st ?bl [0..<length ?bl])" "bview s2 = app ?d (home_ws ?d ?st ?bl [0..<length ?bl])"
    using install_loop [OF 1(2,3,8), of 0 "length ?bl"] 1(4,7,9) n by (auto simp: install_trans_def)
  let ?s3 = "s2\<lparr>lh_n := 0\<rparr>"
  note F = bframe_log [OF 2(3)]
  have l3: "lists ?s3 ?bl" using lists_frame [OF 2(3) 1(8)] by (simp add: lists_def)
  have st: "bview s2 ?st = ?d ?st"
    unfolding 2(7) using listsD(8) [OF 1(8)] lpos_facts(5) [OF listsD(3) [OF 1(8)], of 0] 1(9)
    by (intro app_other) (simp add: home_ws_keys, blast)
  obtain t where t: "write_head ?s3 = Ok t" "bio_inv t" "bframe ?s3 t" "held t = {}" "pinned t = pinned ?s3"
    "wrote ?s3 t [(log_start ?s3, header (lh_n ?s3) (lh_block ?s3) (bview ?s3 (log_start ?s3)))]"
    by (rule write_head_ok [of ?s3 ?bl "[]"]) (use 2 l3 in auto)
  have w2: "wrote s2 t [(?st, wr32 0 0 (?d ?st))]" using t(6) F 1(9) st by (simp add: wrote_def header_zero)
  have "wrote s t (recovery_ws ?d ?st)"
    using wrote_trans [OF 2(6) w2] 1(5,6) unfolding recovery_ws_def by (simp add: wrote_def)
  then show thesis
    using that [of t] 1(1,9) 2(1,5) t bframe_log [OF t(3)] F by (simp add: recover_from_log_def)
qed

section \<open>Crashes\<close>

text \<open>The disk after a crash in the middle of a recovery.\<close>

definition crash :: "u32 \<Rightarrow> (u32 \<Rightarrow> u8 list) \<Rightarrow> (u32 \<Rightarrow> u8 list) \<Rightarrow> bool" where
  "crash start d d' \<longleftrightarrow> (\<exists>k. d' = app d (take k (recovery_ws d start)))"

definition recovered :: "(u32 \<Rightarrow> u8 list) \<Rightarrow> u32 \<Rightarrow> u32 \<Rightarrow> u8 list" where
  "recovered d start = app d (recovery_ws d start)"

lemma recovery_ws_cong: "d' start = d start \<Longrightarrow> (\<And>j. j < length (hdr_blks d start) \<Longrightarrow> d' (lpos start j) = d (lpos start j)) \<Longrightarrow>
   recovery_ws d' start = recovery_ws d start"
  by (simp add: recovery_ws_def home_ws_def hdr_blks_def)

lemma length_app: "(\<And>b. length (d b) = BSIZE) \<Longrightarrow> (\<And>w. w \<in> set ws \<Longrightarrow> length (snd w) = BSIZE) \<Longrightarrow> length (app d ws b) = BSIZE"
proof (induction ws arbitrary: d)
  case (Cons w ws)
  have "length (app (d(fst w := snd w)) ws b) = BSIZE"
    using Cons.prems(1) Cons.prems(2) [of w] Cons.prems(2) by (intro Cons.IH) auto
  then show ?case by (cases w) simp
qed simp

lemma empty_log: "rd32 (d start) 0 = 0 \<Longrightarrow> hdr_blks d start = []" "hdr_blks d start = [] \<Longrightarrow> recovery_ws d start = [(start, wr32 0 0 (d start))]"
  by (simp_all add: hdr_blks_def recovery_ws_def home_ws_def)

text \<open>A crash during recovery changes neither well-formedness nor what the next recovery produces.\<close>

lemma crash_keeps:
  assumes w: "wf_log d start" and c: "crash start d d'"
  shows "wf_log d' start \<and> recovered d' start = recovered d start"
proof -
  let ?bl = "hdr_blks d start"
  let ?h = "home_ws d start ?bl [0..<length ?bl]"
  have W: "length (d b) = BSIZE" "sint (rd32 (d start) 0) < int LOGSIZE" "lwf start ?bl" for b using w by (auto simp: wf_log_def)
  obtain k where k: "d' = app d (take k (recovery_ws d start))" using c by (auto simp: crash_def)
  have nl: "start \<notin> set ?bl" "lpos start j \<notin> set ?bl" if "Suc j < LOGSIZE" for j
    using lpos_facts(2,5) [OF W(3) that] W(3) by (auto simp: lwf_def)
  have len: "length (d' b) = BSIZE" for b
    unfolding k using W(1) by (intro length_app) (auto dest!: in_set_takeD simp: recovery_ws_def home_ws_def)
  have lb: "length ?bl < LOGSIZE" using W(3) by (simp add: lwf_def)
  show ?thesis
  proof (cases "k \<le> length ?bl")
    case True
    then have d': "d' = app d (take k ?h)" by (simp add: k recovery_ws_def home_ws_def)
    have keys: "fst ` set (take k ?h) \<subseteq> set ?bl" 
      using image_mono [OF set_take_subset, of fst k ?h] by (simp only: home_ws_keys)
    have same: "d' b = d b" if "b \<notin> set ?bl" for b unfolding d' by (rule app_other) (use keys that in blast)
    have st: "d' (lpos start j) = d (lpos start j)" if "j < length ?bl" for j
      using same nl(2) [of j] that lb by simp
    have s0: "d' start = d start" using same nl(1) [of 0] by simp
    have r: "recovery_ws d' start = recovery_ws d start" "hdr_blks d' start = ?bl"
      by (rule recovery_ws_cong [OF s0 st], assumption) (simp add: hdr_blks_def s0)
    have "fst ` set (take k ?h) \<subseteq> fst ` set (recovery_ws d start)" using keys home_ws_keys(2) by (auto simp: recovery_ws_def)
    then show ?thesis using len W s0 r unfolding wf_log_def recovered_def by (simp add: d' app_absorb)
  next
    case False
    then have d': "d' = app d (recovery_ws d start)" by (simp add: k recovery_ws_def home_ws_def)
    have st: "d' start = wr32 0 0 (d start)" by (simp add: d' recovery_ws_def)
    then have e: "hdr_blks d' start = []" "rd32 (d' start) 0 = 0" using W(1) by (simp_all add: empty_log(1))
    have "app d' (recovery_ws d' start) = d'" using st W(1) by (simp add: empty_log(2) [of d', OF e(1)] wr32_twice fun_upd_idem)
    then show ?thesis using len W(3) e unfolding wf_log_def recovered_def by (simp add: d' lwf_def)
  qed
qed

lemma crashes_keep:
  assumes "(crash start)\<^sup>*\<^sup>* d d'" "wf_log d start"
  shows "wf_log d' start \<and> recovered d' start = recovered d start"
  using assms by (induction rule: rtranclp_induct) (auto dest: crash_keeps)

section \<open>Committing\<close>

text \<open>
  The state in which the last operation of a transaction ends: the blocks of the transaction are
  those the header lists and exactly they are pinned, no buffer is locked, and the log on disk
  is empty.  The log holds at most 29 blocks, so one of the 30 buffers of the cache is left for the
  commit's own reads.
\<close>

definition commit_ready :: "'a lgstate_scheme \<Rightarrow> u32 list \<Rightarrow> bool" where
  "commit_ready s blks \<longleftrightarrow> bio_inv s \<and> held s = {} \<and> lists s blks \<and> lh_n s = int (length blks) \<and> pinned s = set blks \<and>
     0 < length blks \<and> rd32 (disk s 1 (log_start s)) 0 = 0"

text \<open>The disk at the commit point: the logged blocks and the header are written.\<close>

definition commit_ws :: "'a lgstate_scheme \<Rightarrow> u32 list \<Rightarrow> (u32 \<times> u8 list) list" where
  "commit_ws s blks = log_ws (bview s) (log_start s) blks [0..<length blks] @
     [(log_start s, header (lh_n s) (lh_block s) (disk s 1 (log_start s)))]"

lemma commit_readyD:
  assumes "commit_ready s blks"
  shows "bio_inv s" "held s = {}" "lists s blks" "lh_n s = int (length blks)" "pinned s = set blks" "0 < length blks"
    "length blks < NBUF" "rd32 (disk s 1 (log_start s)) 0 = 0" "card (pinned s) < NBUF" "pinned s \<inter> area (log_start s) = {}"
    "log_start s \<in> area (log_start s)" "log_start s \<notin> fst ` set (log_ws v (log_start s) blks [0..<length blks])"
proof -
  show l: "bio_inv s" "held s = {}" "lists s blks" "lh_n s = int (length blks)" "pinned s = set blks" "0 < length blks"
    "rd32 (disk s 1 (log_start s)) 0 = 0" using assms unfolding commit_ready_def by blast+
  show n: "length blks < NBUF" by (rule listsD(5) [OF l(3)])
  show "card (pinned s) < NBUF" using l(5) n distinct_card [OF listsD(6) [OF l(3)]] by simp
  show "pinned s \<inter> area (log_start s) = {}" using l(5) listsD(8) [OF l(3)] by blast
  show "log_start s \<in> area (log_start s)" using lpos_facts(5) [OF listsD(3) [OF l(3)], of 0] by simp
  show "log_start s \<notin> fst ` set (log_ws v (log_start s) blks [0..<length blks])"
    using log_ws_keys [OF listsD(3) [OF l(3)], of v] by blast
qed

lemma commit_point:
  assumes c: "commit_ready s blks"
  obtains s1 s2 where "write_log s = Ok s1" "write_head s1 = Ok s2" "bio_inv s2" "bframe s s2" "held s2 = {}" "pinned s2 = pinned s"
    "wrote s s2 (commit_ws s blks)"
proof -
  note C = commit_readyD [OF c]
  let ?W = "log_ws (bview s) (log_start s) blks [0..<length blks]"
  obtain s1 where 1: "write_log s = Ok s1" "bio_inv s1" "bframe s s1" "held s1 = {}" "pinned s1 = pinned s" "wrote s s1 ?W" "bview s1 = app (bview s) ?W"
    using write_log_loop [OF C(1,2,3) _ C(10,9), of 0 "length blks"] C(4,5) by (auto simp: write_log_def)
  note F = bframe_log [OF 1(3)]
  have st: "bview s1 (log_start s) = disk s 1 (log_start s)"
    unfolding 1(7) using C(10,11,12) bview_clean [OF C(1), of "log_start s"] C(2) by (subst app_other) auto
  obtain s2 where 2: "write_head s1 = Ok s2" "bio_inv s2" "bframe s1 s2" "held s2 = {}" "pinned s2 = pinned s1"
    "wrote s1 s2 [(log_start s1, header (lh_n s1) (lh_block s1) (bview s1 (log_start s1)))]"
    by (rule write_head_ok [OF 1(2,4) lists_frame [OF 1(3) C(3)], of blks]) (use C 1 F listsD(5) [OF C(3)] in auto)
  have "wrote s s2 (commit_ws s blks)" using wrote_trans [OF 1(6) 2(6)] unfolding commit_ws_def F st .
  then show thesis using that [OF 1(1) 2(1,2) bframe_trans [OF 1(3) 2(3)] 2(4)] 1(5) 2(5) by simp
qed

text \<open>The disk at the commit point holds a well-formed log of the transaction.\<close>

lemma commit_log:
  assumes c: "commit_ready s blks" and d: "d = app (disk s 1) (commit_ws s blks)"
  shows "hdr_blks d (log_start s) = blks" "j < length blks \<Longrightarrow> d (lpos (log_start s) j) = bview s (blks ! j)"
    "wf_log d (log_start s)" "b \<notin> area (log_start s) \<Longrightarrow> d b = disk s 1 b"
proof -
  note C = commit_readyD [OF c] and L = listsD [OF commit_readyD(3) [OF c]]
  let ?st = "log_start s" and ?h = "header (lh_n s) (lh_block s) (disk s 1 (log_start s))"
  note H = header_ok [where d = "disk s 1 ?st" and bs = "lh_block s", OF bio_invD(8) [OF C(1)] less_imp_le [OF L(5)] C(4)]
  have st: "d ?st = ?h" by (simp add: d commit_ws_def)
  have "sint (of_nat (length blks) :: u32) = int (length blks)"
    using L(5) by (simp add: signed_of_nat signed_take_bit_int_eq_self)
  then have n: "sint (rd32 (d ?st) 0) = int (length blks)" using st H(2) by simp
  show hb: "hdr_blks d ?st = blks"
    by (rule nth_equalityI) (use n st H(3) L(4) in \<open>auto simp: hdr_blks_def\<close>)
  show "d (lpos ?st j) = bview s (blks ! j)" if "j < length blks"
  proof -
    have "distinct (map fst (commit_ws s blks))"
      using C(12) lpos_facts(6) [OF L(3)] L(5) by (auto simp: commit_ws_def log_ws_def distinct_map inj_on_def o_def image_image)
    then show ?thesis unfolding d by (rule app_distinct) (use that in \<open>simp add: commit_ws_def log_ws_def\<close>)
  qed
  have "length (d b) = BSIZE" for b
    unfolding d using bio_invD(8) [OF C(1)] length_bview [OF C(1)] H(1) by (intro length_app) (auto simp: commit_ws_def log_ws_def)
  then show "wf_log d ?st" using n hb L(3,5) by (simp add: wf_log_def)
  show "d b = disk s 1 b" if "b \<notin> area ?st" unfolding d
    by (rule app_other) (use that log_ws_keys [OF L(3), of "bview s"] C(11) in \<open>auto simp: commit_ws_def\<close>)
qed

text \<open>What a commit writes after its commit point is what a recovery from there would write.\<close>

lemma commit_ok:
  assumes c: "commit_ready s blks" and d: "d = app (disk s 1) (commit_ws s blks)"
  obtains t where "commit s = Ok t" "bio_inv t" "held t = {}" "pinned t = {}" "lh_n t = 0"
    "wrote s t (commit_ws s blks @ recovery_ws d (log_start s))" "log_outstanding t = log_outstanding s"
proof -
  note C = commit_readyD [OF c] and D = commit_log [OF c d]
  obtain s1 s2 where 2: "write_log s = Ok s1" "write_head s1 = Ok s2" "bio_inv s2" "bframe s s2" "held s2 = {}" "pinned s2 = pinned s"
    "wrote s s2 (commit_ws s blks)" by (rule commit_point [OF c])
  note F = bframe_log [OF 2(4)] and L2 = lists_frame [OF 2(4) C(3)]
  have d2: "disk s2 1 = d" using 2(7) by (simp add: wrote_def d)
  have v: "bview s2 b = d b" if "b \<in> area (log_start s)" for b
    using bview_clean [OF 2(3), of b] that C(10) 2(5,6) d2 by auto
  have hw: "home_ws (bview s2) (log_start s) blks [0..<length blks] = home_ws d (log_start s) blks [0..<length blks]"
    using v lpos_facts(2) [OF listsD(3) [OF C(3)]] listsD(5) [OF C(3)] by (simp add: home_ws_def)
  obtain s3 where 3: "install_trans s2 = Ok s3" "bio_inv s3" "bframe s2 s3" "held s3 = {}" "pinned s3 = {}"
    "wrote s2 s3 (home_ws d (log_start s) blks [0..<length blks])" "bview s3 = app (bview s2) (home_ws d (log_start s) blks [0..<length blks])"
    using install_loop [OF 2(3,5) L2, of 0 "length blks"] C(4,5,9,10) 2(6) F hw by (auto simp: install_trans_def)
  note G = bframe_log [OF 3(3)]
  have st: "bview s3 (log_start s) = d (log_start s)"
    unfolding 3(7) using C(5,10,11) v by (subst app_other) (auto simp: home_ws_keys)
  obtain t where t: "write_head (s3\<lparr>lh_n := 0\<rparr>) = Ok t" "bio_inv t" "bframe (s3\<lparr>lh_n := 0\<rparr>) t" "held t = {}" "pinned t = {}"
    "wrote (s3\<lparr>lh_n := 0\<rparr>) t [(log_start s3, header 0 (lh_block s3) (bview s3 (log_start s3)))]"
    by (rule write_head_ok [of "s3\<lparr>lh_n := 0\<rparr>" blks "[]"])
      (use 3 lists_frame [OF 3(3) L2] in \<open>auto simp: lists_def\<close>)
  have w3: "wrote s3 t [(log_start s, wr32 0 0 (d (log_start s)))]" using t(6) F G st by (simp add: wrote_def header_zero)
  have "wrote s t (commit_ws s blks @ recovery_ws d (log_start s))"
    using wrote_trans [OF 2(7) wrote_trans [OF 3(6) w3]] by (simp add: recovery_ws_def D(1))
  then show thesis
    using that [of t] 2(1,2) 3(1) t C(4,6) bframe_log [OF t(3)] F G by (simp add: commit_def)
qed

lemma recovered_commit:
  assumes c: "commit_ready s blks" and d: "d = app (disk s 1) (commit_ws s blks)" and b: "b \<notin> area (log_start s)"
  shows "recovered d (log_start s) b = bview s b"
proof -
  note C = commit_readyD [OF c] and D = commit_log [OF c d]
  have r: "recovered d (log_start s) b = app d (home_ws d (log_start s) blks [0..<length blks]) b"
    using b C(11) by (auto simp: recovered_def recovery_ws_def D(1))
  show ?thesis
  proof (cases "b \<in> set blks")
    case True
    then obtain j where j: "j < length blks" "b = blks ! j" by (auto simp: in_set_conv_nth)
    have "distinct (map fst (home_ws d (log_start s) blks [0..<length blks]))"
      unfolding home_ws_keys by (rule listsD(6) [OF C(3)])
    then have "app d (home_ws d (log_start s) blks [0..<length blks]) b = bview s (blks ! j)"
      by (rule app_distinct) (use j D(2) in \<open>auto simp: home_ws_def intro!: image_eqI [of _ _ j]\<close>)
    then show ?thesis using r j by simp
  next
    case False
    then show ?thesis using r app_other [of b _ d] D(4) [OF b] bview_clean [OF C(1)] C(2,5) by (simp add: home_ws_keys)
  qed
qed

text \<open>The disk after a crash at write \<open>k\<close> of the commit, and what recovery makes of it.\<close>

lemma crash_disk:
  assumes c: "commit_ready s blks" and d: "d = app (disk s 1) (commit_ws s blks)"
    and dk: "dk = app (disk s 1) (take k (commit_ws s blks @ recovery_ws d (log_start s)))" and b: "b \<notin> area (log_start s)"
  shows "wf_log dk (log_start s) \<and> recovered dk (log_start s) b = (if k \<le> length blks then disk s 1 b else bview s b)"
proof (cases "k \<le> length blks")
  case False
  note D = commit_log [OF c d]
  have "take k (commit_ws s blks) = commit_ws s blks" using False by (simp add: commit_ws_def log_ws_def)
  then have "dk = app d (take (k - length (commit_ws s blks)) (recovery_ws d (log_start s)))" by (simp add: dk d)
  then have "crash (log_start s) d dk" by (auto simp: crash_def)
  then show ?thesis using crash_keeps [OF D(3)] recovered_commit [OF c d b] False by simp
next
  case True
  note C = commit_readyD [OF c] and L = listsD [OF commit_readyD(3) [OF c]]
  let ?st = "log_start s" and ?W = "take k (log_ws (bview s) (log_start s) blks [0..<length blks])"
  have k: "dk = app (disk s 1) ?W" using True by (simp add: dk commit_ws_def log_ws_def)
  have keys: "fst ` set ?W \<subseteq> area ?st - {?st}"
    using log_ws_keys [OF L(3), of "bview s"] set_take_subset [of k] by (meson image_mono order_trans)
  have st: "dk ?st = disk s 1 ?st" "dk b = disk s 1 b" unfolding k using keys b by (auto intro!: app_other)
  then have e: "hdr_blks dk ?st = []" "rd32 (dk ?st) 0 = 0" using C(8) by (simp_all add: empty_log(1))
  have "length (dk c) = BSIZE" for c
    unfolding k using bio_invD(8) [OF C(1)] length_bview [OF C(1)] by (intro length_app) (auto dest!: in_set_takeD simp: log_ws_def)
  then have "wf_log dk ?st" using e L(3) by (simp add: wf_log_def lwf_def)
  moreover have "recovered dk ?st b = dk b" using b C(11) by (auto simp: recovered_def empty_log(2) [OF e(1)])
  ultimately show ?thesis using st(2) True by simp
qed

section \<open>Transactions\<close>

text \<open>
  The invariant inside a transaction: the header lists the pinned blocks, and together with the
  space the running operations have reserved it fits the log.
\<close>

definition log_inv :: "'a lgstate_scheme \<Rightarrow> u32 list \<Rightarrow> bool" where
  "log_inv s blks \<longleftrightarrow> bio_inv s \<and> lists s blks \<and> lh_n s = int (length blks) \<and> pinned s = set blks \<and>
     log_size s = int LOGSIZE \<and> rd32 (disk s 1 (log_start s)) 0 = 0"

lemma find_block_spec:
  "i + k \<le> length xs \<Longrightarrow> find_block b i k xs \<le> i + k \<and> (find_block b i k xs < i + k \<longrightarrow> xs ! find_block b i k xs = b) \<and>
     (find_block b i k xs = i + k \<longrightarrow> (\<forall>j. i \<le> j \<and> j < i + k \<longrightarrow> xs ! j \<noteq> b))"
proof (induction k arbitrary: i)
  case (Suc k)
  show ?case
  proof (cases "xs ! i = b")
    case False
    have "xs ! j \<noteq> b" if "find_block b (Suc i) k xs = Suc i + k" "i \<le> j" "j < Suc i + k" for j
      using Suc.IH [of "Suc i"] Suc.prems False that by (cases "j = i") auto
    then show ?thesis using False Suc.IH [of "Suc i"] Suc.prems by auto
  qed simp
qed auto

lemma log_write_ok:
  assumes inv: "log_inv s blks" and h: "holds s bp b" and b: "b \<notin> area (log_start s)" and n: "Suc (length blks) < LOGSIZE"
    and o: "1 \<le> log_outstanding s"
  obtains t where "log_write bp s = Ok t" "log_inv t (if b \<in> set blks then blks else blks @ [b])" "held t = held s"
    "\<And>j c. holds t j c \<longleftrightarrow> holds s j c" "bview t = bview s" "disk t = disk s" "disk_writes t = disk_writes s"
    "log_outstanding t = log_outstanding s" "log_start t = log_start s"
proof -
  have I: "bio_inv s" "lists s blks" "lh_n s = int (length blks)" "pinned s = set blks" "log_size s = int LOGSIZE"
    "rd32 (disk s 1 (log_start s)) 0 = 0" using inv by (auto simp: log_inv_def)
  note L = listsD [OF I(2)] and H = holds_buf [OF I(1) h]
  let ?i = "find_block b 0 (length blks) (lh_block s)" and ?bl = "if b \<in> set blks then blks else blks @ [b]"
  let ?lb = "(lh_block s)[?i := b]" and ?n = "if ?i = length blks then lh_n s + 1 else lh_n s"
  have fb: "?i \<le> length blks" "?i < length blks \<Longrightarrow> blks ! ?i = b" "?i = length blks \<Longrightarrow> b \<notin> set blks"
    using find_block_spec [of 0 "length blks" "lh_block s" b] L(2,4,5) by (auto simp: in_set_conv_nth)
  have tk: "take (length blks) (lh_block s) = blks" using I(2) by (simp add: lists_def)
  have mem: "?i < length blks \<longleftrightarrow> b \<in> set blks" using fb by (metis le_neq_implies_less nth_mem)
  have mem2: "?i = length blks \<longleftrightarrow> b \<notin> set blks" using mem fb(1) by linarith
  have bl: "take (length ?bl) ?lb = ?bl"
  proof (cases "b \<in> set blks")
    case True
    then have "(take (length blks) (lh_block s))[?i := b] = blks" using fb(2) mem tk by (metis list_update_id)
    then show ?thesis using True by (simp add: take_update_swap)
  next
    case False
    then have "?i = length blks" using mem fb(1) by simp
    then show ?thesis using False tk n L(2) by (simp add: take_Suc_conv_app_nth)
  qed
  let ?s2 = "s\<lparr>lh_block := ?lb, lh_n := ?n\<rparr>"
  let ?t = "upd_buf bp (\<lambda>b. b\<lparr>b_flags := b_flags b OR B_DIRTY\<rparr>) ?s2"
  have same: "s\<lparr>lh_block := X, lh_n := int (length blks)\<rparr> = s\<lparr>lh_block := X\<rparr>" for X using I(3) by (cases s) simp
  have w: "log_write bp s = Ok ?t"
    using n o I(3,5) H(3) by (simp add: log_write_def Let_def buf_at_def same)
  have i2: "bio_inv ?s2" "holds ?s2 bp b" using I(1) h by simp_all
  note D = set_dirty_ok [OF i2 refl]
  have "lwf (log_start s) ?bl" using L(3) n b H(4) by (simp add: lwf_def)
  then have "lists ?t ?bl" using bl L(1,2) by (simp add: lists_def upd_buf_def)
  moreover have "lh_n ?t = int (length ?bl)" using I(3) mem2 by (simp add: upd_buf_def)
  ultimately have "log_inv ?t ?bl" using D I by (auto simp: log_inv_def) (auto simp: upd_buf_def)
  then show thesis by (rule that [OF w]) (use D in \<open>simp_all add: upd_buf_def\<close>)
qed

end
