(* ===== verification/Console.thy ===== *)
theory Console
  imports Xv6_Prelude
begin

text \<open>
  The console (\<^verbatim>\<open>console.c\<close>): number formatting, formatted output, the CGA screen with its cursor
  register, and the input ring that the keyboard and serial interrupts edit.  \<open>c_uart\<close> is what has been
  sent to the serial port; \<open>c_crt\<close> the screen memory by cell and \<open>c_pos\<close> the cursor register.  Characters
  are bytes; \<^verbatim>\<open>BACKSPACE\<close> is 256.
\<close>

record console =
  c_uart :: "u8 list"
  c_crt :: "nat \<Rightarrow> u16"
  c_pos :: nat
  c_buf :: "u8 list"
  c_r :: u32
  c_w :: u32
  c_e :: u32

abbreviation (input) INPUT_BUF :: u32 where "INPUT_BUF \<equiv> 128"
abbreviation (input) BACKSPACE :: int where "BACKSPACE \<equiv> 256"

section \<open>Formatting numbers\<close>

definition digits :: "u8 list" where
  "digits = [0x30, 0x31, 0x32, 0x33, 0x34, 0x35, 0x36, 0x37, 0x38, 0x39, 0x61, 0x62, 0x63, 0x64, 0x65, 0x66]"

text \<open>The digits of \<open>x\<close>, least significant first, as the loop stores them.\<close>

function printint_digits :: "u32 \<Rightarrow> u32 \<Rightarrow> u8 list" where
  "printint_digits x base =
     (if base < 2 then [] else
      let c = digits ! unat (x mod base); x' = x div base
      in if x' \<noteq> 0 then c # printint_digits x' base else [c])"
  by pat_completeness auto
termination
proof (relation "measure (\<lambda>(x, b). unat x)")
  fix x base :: u32 and x' c
  assume b: "\<not> base < 2" and x': "x' = x div base" "x' \<noteq> 0"
  have "1 < unat base" using b by (simp add: word_less_nat_alt)
  moreover have "unat x \<noteq> 0" using x' by (auto simp: unat_eq_0)
  ultimately have "unat x div unat base < unat x" by simp
  then show "((x', base), x, base) \<in> measure (\<lambda>(x, b). unat x)" by (simp add: x' unat_div_distrib)
qed simp

declare printint_digits.simps [simp del]

definition printint :: "u32 \<Rightarrow> u32 \<Rightarrow> bool \<Rightarrow> u8 list" where
  "printint xx base sign =
     (let neg = sign \<and> sint xx < 0;
          x = (if neg then - xx else xx);
          buf = printint_digits x base @ (if neg then [0x2d] else [])
      in rev buf)"

section \<open>Output\<close>

definition cgaputc :: "int \<Rightarrow> console \<Rightarrow> console result" where
  "cgaputc c s =
     (let pos = c_pos s;
          (pos1, crt1) =
            (if c = 0x0a then (pos + (80 - pos mod 80), c_crt s)
             else if c = BACKSPACE then (pos - 1, c_crt s)
             else (pos + 1, (c_crt s)(pos := (word_of_int c AND 0xff) OR 0x0700)))
      in if pos1 > 25 * 80 then Panic ''pos under/overflow''
         else
           let (pos2, crt2) =
             (if pos1 div 80 \<ge> 24 then
                let crt' = (\<lambda>i. if i < 23 * 80 then crt1 (i + 80) else crt1 i); p = pos1 - 80
                in (p, \<lambda>i. if p \<le> i \<and> i < 24 * 80 then 0 else crt' i)
              else (pos1, crt1))
           in Ok (s\<lparr>c_crt := crt2(pos2 := 0x0720), c_pos := pos2\<rparr>))"

definition consputc :: "int \<Rightarrow> console \<Rightarrow> console result" where
  "consputc c s =
     cgaputc c (s\<lparr>c_uart := c_uart s @ (if c = BACKSPACE then [0x08, 0x20, 0x08] else [word_of_int c])\<rparr>)"

fun consputs :: "u8 list \<Rightarrow> console \<Rightarrow> console result" where
  "consputs [] s = Ok s"
| "consputs (c # cs) s = bindr (consputc (uint c) s) (consputs cs)"

text \<open>The arguments of \<^verbatim>\<open>cprintf\<close>: words, and strings (or a null pointer) for \<^verbatim>\<open>\<percent>s\<close>.\<close>

datatype carg = CWord u32 | CStr "u8 list option"

fun cprintf :: "u8 list \<Rightarrow> carg list \<Rightarrow> console \<Rightarrow> console result" where
  "cprintf [] args s = Ok s"
| "cprintf [c] args s = (if c = 0 \<or> c = 0x25 then Ok s else consputc (uint c) s)"
| "cprintf (c # c2 # fmt) args s =
     (if c = 0 then Ok s
      else if c \<noteq> 0x25 then bindr (consputc (uint c) s) (cprintf (c2 # fmt) args)
      else if c2 = 0 then Ok s
      else if c2 = 0x64 then
        (case args of CWord x # as \<Rightarrow> bindr (consputs (printint x 10 True) s) (cprintf fmt as)
         | _ \<Rightarrow> UB ''cprintf: argument'')
      else if c2 = 0x78 \<or> c2 = 0x70 then
        (case args of CWord x # as \<Rightarrow> bindr (consputs (printint x 16 False) s) (cprintf fmt as)
         | _ \<Rightarrow> UB ''cprintf: argument'')
      else if c2 = 0x73 then
        (case args of CStr p # as \<Rightarrow>
           bindr (consputs (case p of None \<Rightarrow> [0x28, 0x6e, 0x75, 0x6c, 0x6c, 0x29] | Some t \<Rightarrow> t) s) (cprintf fmt as)
         | _ \<Rightarrow> UB ''cprintf: argument'')
      else if c2 = 0x25 then bindr (consputc 0x25 s) (cprintf fmt args)
      else bindr (consputc 0x25 s) (\<lambda>s1. bindr (consputc (uint c2) s1) (cprintf fmt args)))"

section \<open>Input\<close>

definition input_at :: "console \<Rightarrow> u32 \<Rightarrow> u8" where
  "input_at s i = c_buf s ! unat (i mod INPUT_BUF)"

text \<open>Killing the line steps the edit index back to the last newline or to what is already committed.\<close>

function kill_line :: "console \<Rightarrow> console result" where
  "kill_line s =
     (if c_e s \<noteq> c_w s \<and> input_at s (c_e s - 1) \<noteq> 0x0a
      then bindr (consputc BACKSPACE (s\<lparr>c_e := c_e s - 1\<rparr>)) kill_line
      else Ok s)"
  by pat_completeness auto
termination
proof (relation "measure (\<lambda>s. unat (c_e s - c_w s))")
  fix s t
  assume c: "c_e s \<noteq> c_w s \<and> input_at s (c_e s - 1) \<noteq> 0x0a" and t: "consputc BACKSPACE (s\<lparr>c_e := c_e s - 1\<rparr>) = Ok t"
  have "c_e t = c_e s - 1" "c_w t = c_w s"
    using t by (auto simp: consputc_def cgaputc_def Let_def split: if_splits)
  moreover have ne: "c_e s - c_w s \<noteq> 0" using c by simp
  moreover have "c_e s - 1 - c_w s = c_e s - c_w s - 1" by simp
  from this unat_minus_one [OF ne] have "unat (c_e s - 1 - c_w s) = unat (c_e s - c_w s) - 1" by (simp only:)
  moreover have "0 < unat (c_e s - c_w s)" using ne unat_eq_zero [of "c_e s - c_w s"] neq0_conv by blast
  ultimately show "(t, s) \<in> measure (\<lambda>s. unat (c_e s - c_w s))" by simp
qed simp

declare kill_line.simps [simp del]

text \<open>One character of input; the flag says whether readers are woken.  \<^verbatim>\<open>procdump\<close> only prints.\<close>

definition console_char :: "int \<Rightarrow> console \<Rightarrow> (bool \<times> console) result" where
  "console_char c s =
     (if c = 0x10 then Ok (False, s)
      else if c = 0x15 then bindr (kill_line s) (\<lambda>s'. Ok (False, s'))
      else if c = 0x08 \<or> c = 0x7f then
        (if c_e s \<noteq> c_w s then bindr (consputc BACKSPACE (s\<lparr>c_e := c_e s - 1\<rparr>)) (\<lambda>s'. Ok (False, s')) else Ok (False, s))
      else if c \<noteq> 0 \<and> c_e s - c_r s < INPUT_BUF then
        let c' = (if c = 0x0d then 0x0a else c);
            s1 = s\<lparr>c_buf := (c_buf s)[unat (c_e s mod INPUT_BUF) := word_of_int c'], c_e := c_e s + 1\<rparr>
        in bindr (consputc c' s1) (\<lambda>s2.
           if c' = 0x0a \<or> c' = 0x04 \<or> c_e s2 = c_r s2 + INPUT_BUF then Ok (True, s2\<lparr>c_w := c_e s2\<rparr>)
           else Ok (False, s2))
      else Ok (False, s))"

fun consoleintr :: "int list \<Rightarrow> console \<Rightarrow> (bool \<times> console) result" where
  "consoleintr [] s = Ok (False, s)"
| "consoleintr (c # cs) s =
     (if c < 0 then Ok (False, s)
      else bindr (console_char c s) (\<lambda>(w, s1). bindr (consoleintr cs s1) (\<lambda>(w', s2). Ok (w \<or> w', s2))))"

text \<open>
  The loop of \<^verbatim>\<open>consoleread\<close>: the bytes read so far are the result; \<open>False\<close> says that the reader waits for
  more input.
\<close>

fun consoleread_loop :: "nat \<Rightarrow> u8 list \<Rightarrow> console \<Rightarrow> bool \<times> u8 list \<times> console" where
  "consoleread_loop 0 got s = (True, got, s)"
| "consoleread_loop (Suc n) got s =
     (if c_r s = c_w s then (False, got, s)
      else
        let c = input_at s (c_r s); s1 = s\<lparr>c_r := c_r s + 1\<rparr> in
        if c = 0x04 then (True, got, if got \<noteq> [] then s1\<lparr>c_r := c_r s1 - 1\<rparr> else s1)
        else if c = 0x0a then (True, got @ [c], s1)
        else consoleread_loop n (got @ [c]) s1)"

section \<open>Numbers are printed as their value\<close>

definition digit_val :: "u8 \<Rightarrow> nat" where
  "digit_val c = (if c < 0x3a then unat c - 0x30 else unat c - 0x61 + 10)"

text \<open>The value of a string of digits, most significant first.\<close>

definition value_of :: "nat \<Rightarrow> u8 list \<Rightarrow> nat" where
  "value_of base cs = foldl (\<lambda>n c. base * n + digit_val c) 0 cs"

lemma digit_val_digits: "d < 16 \<Longrightarrow> digit_val (digits ! d) = d"
proof -
  have "list_all (\<lambda>d. digit_val (digits ! d) = d) [0..<16]" by code_simp
  then show "d < 16 \<Longrightarrow> digit_val (digits ! d) = d" by (simp add: list_all_iff)
qed

lemma value_of_snoc: "value_of b (cs @ [c]) = b * value_of b cs + digit_val c"
  by (simp add: value_of_def)

lemma printint_digits_value:
  "2 \<le> base \<Longrightarrow> base \<le> 16 \<Longrightarrow> value_of (unat base) (rev (printint_digits x base)) = unat x"
proof (induction x base rule: printint_digits.induct)
  case (1 x base)
  have b: "\<not> base < 2" "unat base \<le> 16" "0 < unat base" using "1.prems" by (auto simp: word_le_nat_alt word_less_nat_alt)
  have "unat (x mod base) < 16" using b by (simp add: unat_mod_distrib less_le_trans [OF mod_less_divisor])
  then have d: "digit_val (digits ! unat (x mod base)) = unat x mod unat base"
    by (simp add: digit_val_digits unat_mod_distrib)
  show ?case
  proof (cases "x div base = 0")
    case True
    then have "unat x div unat base = 0" by (simp add: unat_div_distrib [symmetric])
    then have "unat x mod unat base = unat x" using b(3) by (simp add: div_eq_0_iff)
    then show ?thesis using True b d by (subst printint_digits.simps) (simp add: value_of_def)
  next
    case False
    have "value_of (unat base) (rev (printint_digits (x div base) base)) = unat x div unat base"
      using "1.IH" [OF b(1) refl refl False] "1.prems" by (simp add: unat_div_distrib)
    then show ?thesis using False b d
      by (subst printint_digits.simps) (simp add: Let_def value_of_snoc)
  qed
qed

lemma printint_digits_length:
  "2 \<le> base \<Longrightarrow> unat x < unat base ^ n \<Longrightarrow> 0 < n \<Longrightarrow> length (printint_digits x base) \<le> n"
proof (induction n arbitrary: x)
  case (Suc n)
  have b: "\<not> base < 2" "0 < unat base" using Suc.prems(1) by (auto simp: word_le_nat_alt word_less_nat_alt)
  show ?case
  proof (cases "x div base = 0")
    case False
    have "unat (x div base) < unat base ^ n"
      using Suc.prems(2) b(2) by (simp add: unat_div_distrib less_mult_imp_div_less mult.commute)
    moreover have "0 < n" using calculation False by (cases n) (auto simp: unat_eq_0)
    ultimately show ?thesis using Suc.IH [OF Suc.prems(1)] b False by (subst printint_digits.simps) (simp add: Let_def)
  qed (use b in \<open>subst printint_digits.simps, simp\<close>)
qed simp

section \<open>The screen\<close>

text \<open>The cursor stays on the first 24 lines, so no output panics or writes outside the screen.\<close>

lemma line_break: "q < 24 \<Longrightarrow> r < 80 \<Longrightarrow> p = 80 * q + r \<Longrightarrow> p + (80 - r) \<le> 24 * 80" for p q r :: nat
  by simp

lemma cgaputc_ok:
  assumes p: "c_pos s < 24 * 80"
  shows "\<exists>crt pos. cgaputc c s = Ok (s\<lparr>c_crt := crt, c_pos := pos\<rparr>) \<and> pos < 24 * 80 \<and> (\<forall>i\<ge>24 * 80. crt i = c_crt s i)"
proof -
  let ?step = "if c = 0x0a then (c_pos s + (80 - c_pos s mod 80), c_crt s)
    else if c = BACKSPACE then (c_pos s - 1, c_crt s)
    else (c_pos s + 1, (c_crt s)(c_pos s := (word_of_int c AND 0xff) OR 0x0700))"
  have "c_pos s div 80 < 24" using p by (simp add: less_mult_imp_div_less)
  then have n: "c_pos s + (80 - c_pos s mod 80) \<le> 24 * 80" by (rule line_break) simp_all
  have "c_pos s - 1 \<le> 24 * 80" "c_pos s + 1 \<le> 24 * 80" using p by linarith+
  then obtain q crt where st: "?step = (q, crt)" "q \<le> 24 * 80" "\<forall>i\<ge>24 * 80. crt i = c_crt s i"
    using n p by (cases "c = 0x0a"; cases "c = BACKSPACE") auto
  have eq: "cgaputc c s = (let (pos2, crt2) =
             (if q div 80 \<ge> 24 then
                let crt' = (\<lambda>i. if i < 23 * 80 then crt (i + 80) else crt i); p = q - 80
                in (p, \<lambda>i. if p \<le> i \<and> i < 24 * 80 then 0 else crt' i)
              else (q, crt))
           in Ok (s\<lparr>c_crt := crt2(pos2 := 0x0720), c_pos := pos2\<rparr>))"
    unfolding cgaputc_def Let_def st(1) prod.case using st(2) by simp
  show ?thesis
  proof (cases "q = 24 * 80")
    case True
    let ?crt = "(\<lambda>i. if 1840 \<le> i \<and> i < 1920 then 0 else if i < 1840 then crt (i + 80) else crt i)(1840 := 0x0720)"
    have "cgaputc c s = Ok (s\<lparr>c_crt := ?crt, c_pos := 1840\<rparr>)" by (simp add: eq True)
    then show ?thesis using st(3) by (intro exI [of _ ?crt] exI [of _ 1840]) simp
  next
    case False
    then have "\<not> q div 80 \<ge> 24" "q < 24 * 80" using st(2) less_mult_imp_div_less [of q 24 80] by simp_all
    then have "cgaputc c s = Ok (s\<lparr>c_crt := crt(q := 0x0720), c_pos := q\<rparr>)" "q < 24 * 80" by (simp_all add: eq)
    then show ?thesis using st(3) by (intro exI [of _ "crt(q := 0x0720)"] exI [of _ q]) simp
  qed
qed

lemma consputc_ok:
  assumes "c_pos s < 24 * 80"
  shows "\<exists>out crt pos. consputc c s = Ok (s\<lparr>c_uart := c_uart s @ out, c_crt := crt, c_pos := pos\<rparr>) \<and> pos < 24 * 80"
proof -
  let ?out = "if c = BACKSPACE then [0x08, 0x20, 0x08] else [word_of_int c]"
  obtain crt pos where "cgaputc c (s\<lparr>c_uart := c_uart s @ ?out\<rparr>) = Ok (s\<lparr>c_uart := c_uart s @ ?out, c_crt := crt, c_pos := pos\<rparr>)" "pos < 24 * 80"
    using cgaputc_ok [of "s\<lparr>c_uart := c_uart s @ ?out\<rparr>" c] assms by auto
  then show ?thesis by (intro exI [of _ ?out] exI [of _ crt] exI [of _ pos]) (simp add: consputc_def)
qed

section \<open>The input ring\<close>

definition con_inv :: "console \<Rightarrow> bool" where
  "con_inv s \<longleftrightarrow> c_pos s < 24 * 80 \<and> length (c_buf s) = 128 \<and> c_w s - c_r s \<le> c_e s - c_r s \<and> c_e s - c_r s \<le> INPUT_BUF"

text \<open>The committed input that readers have not consumed.\<close>

definition ready :: "console \<Rightarrow> u8 list" where
  "ready s = map (\<lambda>k. c_buf s ! ((unat (c_r s) + k) mod 128)) [0..<unat (c_w s - c_r s)]"

text \<open>Editing: output and the edit index change, the committed part does not.\<close>

definition edits :: "console \<Rightarrow> console \<Rightarrow> bool" where
  "edits s t \<longleftrightarrow> con_inv t \<and> c_buf t = c_buf s \<and> c_r t = c_r s \<and> c_w t = c_w s"

lemma edits_ready: "edits s t \<Longrightarrow> con_inv t \<and> ready t = ready s \<and> c_r t = c_r s"
  by (simp add: edits_def ready_def)

lemma edit_back:
  assumes inv: "con_inv s" and ne: "c_e s \<noteq> c_w s"
  obtains t where "consputc BACKSPACE (s\<lparr>c_e := c_e s - 1\<rparr>) = Ok t" "edits s t" "c_e t = c_e s - 1"
proof -
  have I: "c_pos s < 24 * 80" "c_w s - c_r s \<le> c_e s - c_r s" "c_e s - c_r s \<le> 128" "length (c_buf s) = 128"
    using inv by (auto simp: con_inv_def)
  have lt: "c_w s - c_r s < c_e s - c_r s" using I(2) ne by (simp add: order_less_le)
  then have nz: "c_e s - c_r s \<noteq> 0" by auto
  have e: "c_e s - 1 - c_r s = c_e s - c_r s - 1" by simp
  have u: "unat (c_e s - c_r s - 1) = unat (c_e s - c_r s) - 1" by (rule unat_minus_one [OF nz])
  have "c_w s - c_r s \<le> c_e s - 1 - c_r s" "c_e s - 1 - c_r s \<le> 128"
    unfolding e word_le_nat_alt u using lt I(3) by (auto simp: word_less_nat_alt word_le_nat_alt)
  then show thesis
    using consputc_ok [of "s\<lparr>c_e := c_e s - 1\<rparr>" BACKSPACE] I that by (auto simp: edits_def con_inv_def)
qed

lemma kill_line_ok: "con_inv s \<Longrightarrow> \<exists>t. kill_line s = Ok t \<and> edits s t"
proof (induction s rule: kill_line.induct)
  case (1 s)
  show ?case
  proof (cases "c_e s \<noteq> c_w s \<and> input_at s (c_e s - 1) \<noteq> 0x0a")
    case True
    then obtain t where t: "consputc BACKSPACE (s\<lparr>c_e := c_e s - 1\<rparr>) = Ok t" "edits s t"
      using edit_back [OF "1.prems"] by blast
    then obtain u where "kill_line t = Ok u" "edits t u" using "1.IH" [OF True t(1)] by (auto simp: edits_def)
    then show ?thesis using True t by (subst kill_line.simps) (auto simp: edits_def)
  next
    case False
    then have "kill_line s = Ok s" by (subst kill_line.simps) auto
    then show ?thesis using "1.prems" by (auto simp: edits_def)
  qed
qed

lemma ready_put:
  assumes inv: "con_inv s" and lt: "c_e s - c_r s < INPUT_BUF" and b: "c_buf t = (c_buf s)[unat (c_e s mod INPUT_BUF) := c]"
    and r: "c_r t = c_r s" "c_w t = c_w s"
  shows "ready t = ready s"
proof -
  have n: "unat (c_w s - c_r s) \<le> unat (c_e s - c_r s)" "unat (c_e s - c_r s) < 128" "length (c_buf s) = 128"
    using inv lt by (auto simp: con_inv_def word_le_nat_alt word_less_nat_alt)
  have "c_e s = c_r s + (c_e s - c_r s)" by simp
  then have "unat (c_e s) mod 128 = (unat (c_r s) + unat (c_e s - c_r s)) mod 128"
    using ring_plus [of 128 "c_r s" "c_e s - c_r s"] by simp
  then have i: "unat (c_e s mod 128) = (unat (c_r s) + unat (c_e s - c_r s)) mod 128" by (simp add: unat_mod_distrib)
  have "c_buf t ! ((unat (c_r s) + k) mod 128) = c_buf s ! ((unat (c_r s) + k) mod 128)" if "k < unat (c_w s - c_r s)" for k
    using ring_distinct [of k "unat (c_e s - c_r s)" 128 "unat (c_r s)"] that n i by (simp add: b)
  then show ?thesis unfolding ready_def r by simp
qed

lemma ready_extend:
  assumes "con_inv s" "c_w t = c_e s" "c_r t = c_r s" "c_buf t = c_buf s"
  shows "\<exists>more. ready t = ready s @ more"
proof -
  have "unat (c_w s - c_r s) \<le> unat (c_e s - c_r s)" using assms(1) by (simp add: con_inv_def word_le_nat_alt)
  then obtain d where "unat (c_e s - c_r s) = unat (c_w s - c_r s) + d" by (metis le_iff_add)
  then have "[0..<unat (c_e s - c_r s)] = [0..<unat (c_w s - c_r s)] @ [unat (c_w s - c_r s)..<unat (c_w s - c_r s) + d]"
    using upt_add_eq_append [of 0 "unat (c_w s - c_r s)" d] by simp
  then show ?thesis unfolding ready_def assms(2-4) by simp
qed

lemma console_char_ok:
  assumes inv: "con_inv s"
  shows "\<exists>w t more. console_char c s = Ok (w, t) \<and> con_inv t \<and> c_r t = c_r s \<and> ready t = ready s @ more \<and> (\<not> w \<longrightarrow> more = [])"
proof -
  have edit: ?thesis if "console_char c s = Ok (False, t)" "edits s t" for t
    using that(1) edits_ready [OF that(2)] by (intro exI [of _ False] exI [of _ t] exI [of _ "[]"]) simp
  consider "c = 0x10" | "c = 0x15" | "c = 0x08 \<or> c = 0x7f" "c_e s \<noteq> c_w s" | "c = 0x08 \<or> c = 0x7f" "c_e s = c_w s"
    | "c \<noteq> 0" "c_e s - c_r s < 128" "c \<notin> {0x10, 0x15, 0x08, 0x7f}" | "c \<notin> {0x10, 0x15, 0x08, 0x7f}" "c = 0 \<or> \<not> c_e s - c_r s < 128" by blast
  then show ?thesis
  proof cases
    case 2
    then show ?thesis using kill_line_ok [OF inv] edit by (auto simp: console_char_def)
  next
    case 3
    obtain t where "consputc BACKSPACE (s\<lparr>c_e := c_e s - 1\<rparr>) = Ok t" "edits s t" using edit_back [OF inv 3(2)] by blast
    then show ?thesis using edit 3 by (auto simp: console_char_def)
  next
    case 5
    let ?c = "if c = 0x0d then 0x0a else c"
    let ?s1 = "s\<lparr>c_buf := (c_buf s)[unat (c_e s mod INPUT_BUF) := word_of_int ?c], c_e := c_e s + 1\<rparr>"
    have n: "c_pos s < 24 * 80" "length (c_buf s) = 128" "c_w s - c_r s \<le> c_e s - c_r s" using inv by (auto simp: con_inv_def)
    have "c_e s + 1 - c_r s = (c_e s - c_r s) + 1" by simp
    then have u: "unat (c_e s + 1 - c_r s) = Suc (unat (c_e s - c_r s))" using 5(2) by (simp only: unat_add32) (simp add: word_less_nat_alt)
    have le: "c_w s - c_r s \<le> c_e s + 1 - c_r s" "c_e s + 1 - c_r s \<le> 128"
      unfolding word_le_nat_alt u using n(3) 5(2) by (auto simp: word_le_nat_alt word_less_nat_alt)
    obtain out crt pos where o: "consputc ?c ?s1 = Ok (?s1\<lparr>c_uart := c_uart ?s1 @ out, c_crt := crt, c_pos := pos\<rparr>)" "pos < 24 * 80"
      using consputc_ok [of ?s1 ?c] n(1) by auto
    let ?s2 = "?s1\<lparr>c_uart := c_uart ?s1 @ out, c_crt := crt, c_pos := pos\<rparr>"
    have i2: "con_inv ?s2" "ready ?s2 = ready s"
      using n o(2) le ready_put [OF inv 5(2), of ?s2] by (simp_all add: con_inv_def)
    let ?w = "?c = 0x0a \<or> ?c = 0x04 \<or> c_e ?s2 = c_r ?s2 + INPUT_BUF"
    have cc: "console_char c s = Ok (?w, if ?w then ?s2\<lparr>c_w := c_e ?s2\<rparr> else ?s2)"
      using 5 o(1) by (auto simp: console_char_def Let_def)
    have "con_inv (?s2\<lparr>c_w := c_e ?s2\<rparr>)" using i2(1) by (simp add: con_inv_def)
    moreover obtain more where "ready (?s2\<lparr>c_w := c_e ?s2\<rparr>) = ready ?s2 @ more" using ready_extend [OF i2(1)] by fastforce
    ultimately show ?thesis using cc i2 by (cases ?w) auto
  qed (use edit [of s] inv in \<open>auto simp: console_char_def edits_def\<close>)
qed

text \<open>
  Any input: the interrupt handler neither panics nor loses committed input, and it wakes readers
  whenever it commits some.
\<close>

lemma consoleintr_ok:
  "con_inv s \<Longrightarrow> \<exists>w t more. consoleintr cs s = Ok (w, t) \<and> con_inv t \<and> c_r t = c_r s \<and> ready t = ready s @ more \<and> (\<not> w \<longrightarrow> more = [])"
proof (induction cs arbitrary: s)
  case (Cons c cs)
  show ?case
  proof (cases "c < 0")
    case False
    obtain w t more where 1: "console_char c s = Ok (w, t)" "con_inv t" "c_r t = c_r s" "ready t = ready s @ more" "\<not> w \<longrightarrow> more = []"
      using console_char_ok [OF Cons.prems] by blast
    obtain w' u more' where 2: "consoleintr cs t = Ok (w', u)" "con_inv u" "c_r u = c_r t" "ready u = ready t @ more'" "\<not> w' \<longrightarrow> more' = []"
      using Cons.IH [OF 1(2)] by blast
    show ?thesis using 1 2 False by (intro exI [of _ "w \<or> w'"] exI [of _ u] exI [of _ "more @ more'"]) auto
  qed (use Cons.prems in auto)
qed auto

lemma ready_get:
  assumes inv: "con_inv s" and ne: "c_r s \<noteq> c_w s" and t: "t = s\<lparr>c_r := c_r s + 1\<rparr>"
  shows "con_inv t" "ready s = input_at s (c_r s) # ready t"
proof -
  let ?n = "unat (c_w s - c_r s)" and ?r = "unat (c_r s)"
  have nz: "c_w s - c_r s \<noteq> 0" using ne by auto
  have le: "c_w s - c_r s \<le> c_e s - c_r s" "c_e s - c_r s \<le> 128" using inv by (auto simp: con_inv_def)
  then have nz2: "c_e s - c_r s \<noteq> 0" using nz by (metis word_le_0_iff)
  have e: "c_w s - (c_r s + 1) = c_w s - c_r s - 1" "c_e s - (c_r s + 1) = c_e s - c_r s - 1" by simp_all
  have u: "unat (c_w s - c_r s - 1) = ?n - 1" "unat (c_e s - c_r s - 1) = unat (c_e s - c_r s) - 1"
    by (rule unat_minus_one [OF nz], rule unat_minus_one [OF nz2])
  have "c_w s - (c_r s + 1) \<le> c_e s - (c_r s + 1)" "c_e s - (c_r s + 1) \<le> 128"
    unfolding e word_le_nat_alt u using le by (auto simp: word_le_nat_alt)
  then show "con_inv t" using inv by (simp add: con_inv_def t)
  have pos: "?n = Suc (?n - 1)" using nz unat_eq_zero [of "c_w s - c_r s"] by simp
  have "[0..<?n] = 0 # map Suc [0..<?n - 1]" by (subst pos) (simp add: map_Suc_upt upt_conv_Cons del: upt_Suc)
  then have "ready s = c_buf s ! (?r mod 128) # map (\<lambda>k. c_buf s ! ((?r + Suc k) mod 128)) [0..<?n - 1]"
    unfolding ready_def by (simp add: o_def)
  moreover have "ready t = map (\<lambda>k. c_buf s ! ((?r + Suc k) mod 128)) [0..<?n - 1]"
    unfolding ready_def t using ring_next [of 128 "c_r s"] by (simp add: e(1) u(1) del: add_Suc_right)
  ultimately show "ready s = input_at s (c_r s) # ready t" by (simp add: input_at_def unat_mod_distrib)
qed

text \<open>A reader gets a prefix of the committed input, at most up to the first newline; a \<open>^D\<close> ends the read.\<close>

lemma consoleread_loop_ok:
  "con_inv s \<Longrightarrow> consoleread_loop n got s = (fin, got', t) \<Longrightarrow>
   con_inv t \<and> (\<exists>xs. got' = got @ xs \<and> length xs \<le> n \<and> 0x0a \<notin> set (butlast xs) \<and> 0x04 \<notin> set xs \<and>
     (ready s = xs @ ready t \<or> got' = [] \<and> ready s = 0x04 # ready t))"
proof (induction n arbitrary: got s)
  case (Suc n)
  show ?case
  proof (cases "c_r s = c_w s")
    case False
    let ?c = "input_at s (c_r s)" and ?s1 = "s\<lparr>c_r := c_r s + 1\<rparr>"
    note g = ready_get [OF Suc.prems(1) False refl]
    have saved: "?s1\<lparr>c_r := c_r ?s1 - 1\<rparr> = s" by simp
    consider "?c = 0x04" | "?c = 0x0a" | "?c \<noteq> 0x04" "?c \<noteq> 0x0a" by blast
    then show ?thesis
    proof cases
      case 1
      then have "got' = got" "t = (if got \<noteq> [] then s else ?s1)" using Suc.prems(2) False saved by (auto simp: Let_def)
      then show ?thesis using g 1 Suc.prems(1) by (intro conjI exI [of _ "[]"]) auto
    next
      case 2
      then have "got' = got @ [?c]" "t = ?s1" using Suc.prems(2) False by (auto simp: Let_def)
      then show ?thesis using g 2 by (intro conjI exI [of _ "[?c]"]) auto
    next
      case 3
      then have "consoleread_loop n (got @ [?c]) ?s1 = (fin, got', t)" using Suc.prems(2) False by (auto simp: Let_def)
      from Suc.IH [OF g(1) this] obtain xs where "con_inv t" "got' = (got @ [?c]) @ xs" "length xs \<le> n" "0x0a \<notin> set (butlast xs)"
        "0x04 \<notin> set xs" "ready ?s1 = xs @ ready t" by auto
      then show ?thesis using g(2) 3 by (intro conjI exI [of _ "?c # xs"]) auto
    qed
  qed (use Suc.prems in auto)
qed auto

end
