(* ===== verification/Inode.thy ===== *)
theory Inode
  imports Log Console
begin

text \<open>
  The lower half of \<^verbatim>\<open>fs.c\<close>: the superblock, the block bitmap, and the inode cache with its operations up
  to truncation.  A \<^verbatim>\<open>struct inode*\<close> is an index into the cache's array of 50 entries.  The record
  \<open>fstate\<close> adds the superblock, the cache, the device switch (whose entries name the two driver
  functions the kernel installs) and the console.  \<^verbatim>\<open>short\<close> fields are 16-bit words.
\<close>

record inode =
  i_dev :: u32
  i_inum :: u32
  i_ref :: int
  i_lock :: sleeplock
  i_valid :: bool
  i_type :: u16
  i_major :: u16
  i_minor :: u16
  i_nlink :: u16
  i_size :: u32
  i_addrs :: "u32 list"

datatype devfun = Consoleread | Consolewrite

record fstate = lgstate +
  sb :: superblock
  icache :: "inode list"
  devsw :: "(devfun option \<times> devfun option) list"
  cons :: console

abbreviation (input) NDIRECT :: nat where "NDIRECT \<equiv> 12"
abbreviation (input) NINDIRECT :: nat where "NINDIRECT \<equiv> 128"
abbreviation (input) NINODE :: nat where "NINODE \<equiv> 50"
abbreviation (input) NDEV :: int where "NDEV \<equiv> 10"
abbreviation (input) BPB :: nat where "BPB \<equiv> 4096"
abbreviation (input) IPB :: u32 where "IPB \<equiv> 8"
abbreviation (input) T_DIR :: u16 where "T_DIR \<equiv> 1"
abbreviation (input) T_FILE :: u16 where "T_FILE \<equiv> 2"
abbreviation (input) T_DEV :: u16 where "T_DEV \<equiv> 3"
abbreviation (input) ROOTDEV :: u32 where "ROOTDEV \<equiv> 1"
abbreviation (input) ROOTINO :: u32 where "ROOTINO \<equiv> 1"

definition inode_at :: "'a fstate_scheme \<Rightarrow> nat \<Rightarrow> inode" where
  "inode_at s i = icache s ! i"

definition upd_inode :: "nat \<Rightarrow> (inode \<Rightarrow> inode) \<Rightarrow> 'a fstate_scheme \<Rightarrow> 'a fstate_scheme" where
  "upd_inode i f s = s\<lparr>icache := (icache s)[i := f (inode_at s i)]\<rparr>"

definition IBLOCK :: "u32 \<Rightarrow> superblock \<Rightarrow> u32" where
  "IBLOCK i b = i div IPB + sb_inodestart b"

definition BBLOCK :: "u32 \<Rightarrow> superblock \<Rightarrow> u32" where
  "BBLOCK b sp = b div of_nat BPB + sb_bmapstart sp"

section \<open>Blocks\<close>

definition bzero :: "u32 \<Rightarrow> u32 \<Rightarrow> 'a fstate_scheme \<Rightarrow> 'a fstate_scheme result" where
  "bzero dev bno s = bindr (bread dev bno s) (\<lambda>(bp, s1).
     bindr (log_write bp (upd_buf bp (\<lambda>b. b\<lparr>b_data := replicate BSIZE 0\<rparr>) s1)) (\<lambda>s2.
     brelse bp s2))"

text \<open>The bit of block \<open>bi\<close> in a bitmap block.\<close>

definition bitmap_free :: "u8 list \<Rightarrow> nat \<Rightarrow> bool" where
  "bitmap_free d bi \<longleftrightarrow> d ! (bi div 8) AND push_bit (bi mod 8) 1 = 0"

primrec balloc_scan :: "u8 list \<Rightarrow> nat \<Rightarrow> nat \<Rightarrow> nat \<Rightarrow> nat \<Rightarrow> nat option" where
  "balloc_scan d sz b bi 0 = None"
| "balloc_scan d sz b bi (Suc k) =
     (if \<not> b + bi < sz then None
      else if bitmap_free d bi then Some bi
      else balloc_scan d sz b (Suc bi) k)"

primrec balloc_from :: "u32 \<Rightarrow> nat \<Rightarrow> nat \<Rightarrow> 'a fstate_scheme \<Rightarrow> (u32 \<times> 'a fstate_scheme) result" where
  "balloc_from dev b 0 s = Panic ''balloc: out of blocks''"
| "balloc_from dev b (Suc k) s =
     bindr (bread dev (BBLOCK (of_nat b) (sb s)) s) (\<lambda>(bp, s1).
     case balloc_scan (b_data (buf_at s1 bp)) (unat (sb_size (sb s))) b 0 BPB of
       Some bi \<Rightarrow>
         let s2 = upd_buf bp (\<lambda>x. x\<lparr>b_data := (b_data x)[bi div 8 := b_data x ! (bi div 8) OR push_bit (bi mod 8) 1]\<rparr>) s1 in
         bindr (log_write bp s2) (\<lambda>s3.
         bindr (brelse bp s3) (\<lambda>s4.
         bindr (bzero dev (of_nat (b + bi)) s4) (\<lambda>s5.
         Ok (of_nat (b + bi), s5))))
     | None \<Rightarrow> bindr (brelse bp s1) (balloc_from dev (b + BPB) k))"

definition balloc :: "u32 \<Rightarrow> 'a fstate_scheme \<Rightarrow> (u32 \<times> 'a fstate_scheme) result" where
  "balloc dev s = balloc_from dev 0 ((unat (sb_size (sb s)) + BPB - 1) div BPB) s"

definition bfree :: "u32 \<Rightarrow> u32 \<Rightarrow> 'a fstate_scheme \<Rightarrow> 'a fstate_scheme result" where
  "bfree dev b s = bindr (bread dev (BBLOCK b (sb s)) s) (\<lambda>(bp, s1).
     let bi = unat b mod BPB in
     if bitmap_free (b_data (buf_at s1 bp)) bi then Panic ''freeing free block''
     else
       let s2 = upd_buf bp (\<lambda>x. x\<lparr>b_data := (b_data x)[bi div 8 := b_data x ! (bi div 8) AND NOT (push_bit (bi mod 8) 1)]\<rparr>) s1 in
       bindr (log_write bp s2) (\<lambda>s3. brelse bp s3))"

section \<open>Inodes\<close>

definition iinit :: "u32 \<Rightarrow> 'a fstate_scheme \<Rightarrow> 'a fstate_scheme result" where
  "iinit dev s =
     bindr (readsb dev (s\<lparr>icache := map (\<lambda>ip. ip\<lparr>i_lock := initsleeplock ''inode'' (i_lock ip)\<rparr>) (icache s)\<rparr>)) (\<lambda>(b, s1).
     Ok (s1\<lparr>sb := b\<rparr>))"

primrec iget_scan :: "u32 \<Rightarrow> u32 \<Rightarrow> nat \<Rightarrow> nat option \<Rightarrow> inode list \<Rightarrow> nat option \<times> nat option" where
  "iget_scan dev inum i free [] = (None, free)"
| "iget_scan dev inum i free (ip # ips) =
     (if i_ref ip > 0 \<and> i_dev ip = dev \<and> i_inum ip = inum then (Some i, free)
      else iget_scan dev inum (Suc i) (if free = None \<and> i_ref ip = 0 then Some i else free) ips)"

definition iget :: "u32 \<Rightarrow> u32 \<Rightarrow> 'a fstate_scheme \<Rightarrow> (nat \<times> 'a fstate_scheme) result" where
  "iget dev inum s = (case iget_scan dev inum 0 None (icache s) of
      (Some i, _) \<Rightarrow> Ok (i, upd_inode i (\<lambda>ip. ip\<lparr>i_ref := i_ref ip + 1\<rparr>) s)
    | (None, None) \<Rightarrow> Panic ''iget: no inodes''
    | (None, Some i) \<Rightarrow> Ok (i, upd_inode i (\<lambda>ip. ip\<lparr>i_dev := dev, i_inum := inum, i_ref := 1, i_valid := False\<rparr>) s))"

definition idup :: "nat \<Rightarrow> 'a fstate_scheme \<Rightarrow> nat \<times> 'a fstate_scheme" where
  "idup ip s = (ip, upd_inode ip (\<lambda>x. x\<lparr>i_ref := i_ref x + 1\<rparr>) s)"

text \<open>The on-disk inode: 64 bytes, eight to a block.\<close>

definition dinode_off :: "u32 \<Rightarrow> nat" where
  "dinode_off inum = 64 * unat (inum mod IPB)"

definition dinode_get :: "u8 list \<Rightarrow> nat \<Rightarrow> inode \<Rightarrow> inode" where
  "dinode_get d off ip = ip\<lparr>i_type := rd16 d off, i_major := rd16 d (off + 2), i_minor := rd16 d (off + 4),
     i_nlink := rd16 d (off + 6), i_size := rd32 d (off + 8), i_addrs := map (\<lambda>k. rd32 d (off + 12 + 4 * k)) [0..<NDIRECT + 1]\<rparr>"

definition dinode_put :: "inode \<Rightarrow> nat \<Rightarrow> u8 list \<Rightarrow> u8 list" where
  "dinode_put ip off d =
     (let d1 = wr32 (off + 8) (i_size ip) (wr16 (off + 6) (i_nlink ip) (wr16 (off + 4) (i_minor ip)
                 (wr16 (off + 2) (i_major ip) (wr16 off (i_type ip) d))))
      in splice (off + 12) (concat (map bytes32 (i_addrs ip))) d1)"

primrec ialloc_from :: "u32 \<Rightarrow> u16 \<Rightarrow> nat \<Rightarrow> nat \<Rightarrow> 'a fstate_scheme \<Rightarrow> (nat \<times> 'a fstate_scheme) result" where
  "ialloc_from dev ty inum 0 s = Panic ''ialloc: no inodes''"
| "ialloc_from dev ty inum (Suc k) s =
     bindr (bread dev (IBLOCK (of_nat inum) (sb s)) s) (\<lambda>(bp, s1).
     let off = dinode_off (of_nat inum) in
     if rd16 (b_data (buf_at s1 bp)) off = 0 then
       let s2 = upd_buf bp (\<lambda>x. x\<lparr>b_data := wr16 off ty (splice off (replicate 64 0) (b_data x))\<rparr>) s1 in
       bindr (log_write bp s2) (\<lambda>s3.
       bindr (brelse bp s3) (\<lambda>s4.
       iget dev (of_nat inum) s4))
     else bindr (brelse bp s1) (ialloc_from dev ty (Suc inum) k))"

definition ialloc :: "u32 \<Rightarrow> u16 \<Rightarrow> 'a fstate_scheme \<Rightarrow> (nat \<times> 'a fstate_scheme) result" where
  "ialloc dev ty s = ialloc_from dev ty 1 (unat (sb_ninodes (sb s)) - 1) s"

definition iupdate :: "nat \<Rightarrow> 'a fstate_scheme \<Rightarrow> 'a fstate_scheme result" where
  "iupdate ip s =
     (let x = inode_at s ip in
      bindr (bread (i_dev x) (IBLOCK (i_inum x) (sb s)) s) (\<lambda>(bp, s1).
      let s2 = upd_buf bp (\<lambda>b. b\<lparr>b_data := dinode_put x (dinode_off (i_inum x)) (b_data b)\<rparr>) s1 in
      bindr (log_write bp s2) (\<lambda>s3. brelse bp s3)))"

definition ilock :: "nat \<Rightarrow> 'a fstate_scheme \<Rightarrow> 'a fstate_scheme result" where
  "ilock ip s =
     (if i_ref (inode_at s ip) < 1 then Panic ''ilock''
      else
        bindr (acquiresleep (i_lock (inode_at s ip)) s) (\<lambda>lk.
        let s1 = upd_inode ip (\<lambda>x. x\<lparr>i_lock := lk\<rparr>) s; x = inode_at s1 ip in
        if i_valid x then Ok s1
        else
          bindr (bread (i_dev x) (IBLOCK (i_inum x) (sb s1)) s1) (\<lambda>(bp, s2).
          let s3 = upd_inode ip (dinode_get (b_data (buf_at s2 bp)) (dinode_off (i_inum x))) s2 in
          bindr (brelse bp s3) (\<lambda>s4.
          let s5 = upd_inode ip (\<lambda>x. x\<lparr>i_valid := True\<rparr>) s4 in
          if i_type (inode_at s5 ip) = 0 then Panic ''ilock: no type'' else Ok s5))))"

definition iunlock :: "nat \<Rightarrow> 'a fstate_scheme \<Rightarrow> 'a fstate_scheme result" where
  "iunlock ip s =
     bindr (holdingsleep (i_lock (inode_at s ip)) s) (\<lambda>h.
     if \<not> h \<or> i_ref (inode_at s ip) < 1 then Panic ''iunlock''
     else let (lk, s1) = releasesleep (CInode ip) (i_lock (inode_at s ip)) s
          in Ok (upd_inode ip (\<lambda>x. x\<lparr>i_lock := lk\<rparr>) s1))"

section \<open>Inode contents\<close>

definition bmap :: "nat \<Rightarrow> u32 \<Rightarrow> 'a fstate_scheme \<Rightarrow> (u32 \<times> 'a fstate_scheme) result" where
  "bmap ip bn s =
     (if unat bn < NDIRECT then
        let addr = i_addrs (inode_at s ip) ! unat bn in
        if addr = 0 then
          bindr (balloc (i_dev (inode_at s ip)) s) (\<lambda>(addr, s1).
          Ok (addr, upd_inode ip (\<lambda>x. x\<lparr>i_addrs := (i_addrs x)[unat bn := addr]\<rparr>) s1))
        else Ok (addr, s)
      else
        let bn' = unat bn - NDIRECT in
        if bn' < NINDIRECT then
          bindr (let addr = i_addrs (inode_at s ip) ! NDIRECT in
                 if addr = 0 then
                   bindr (balloc (i_dev (inode_at s ip)) s) (\<lambda>(addr, s1).
                   Ok (addr, upd_inode ip (\<lambda>x. x\<lparr>i_addrs := (i_addrs x)[NDIRECT := addr]\<rparr>) s1))
                 else Ok (addr, s)) (\<lambda>(addr, s1).
          bindr (bread (i_dev (inode_at s1 ip)) addr s1) (\<lambda>(bp, s2).
          let a = rd32 (b_data (buf_at s2 bp)) (4 * bn') in
          if a = 0 then
            bindr (balloc (i_dev (inode_at s2 ip)) s2) (\<lambda>(a, s3).
            bindr (log_write bp (upd_buf bp (\<lambda>b. b\<lparr>b_data := wr32 (4 * bn') a (b_data b)\<rparr>) s3)) (\<lambda>s4.
            bindr (brelse bp s4) (\<lambda>s5. Ok (a, s5))))
          else bindr (brelse bp s2) (\<lambda>s3. Ok (a, s3))))
        else Panic ''bmap: out of range'')"

primrec itrunc_direct :: "nat \<Rightarrow> nat \<Rightarrow> nat \<Rightarrow> 'a fstate_scheme \<Rightarrow> 'a fstate_scheme result" where
  "itrunc_direct ip i 0 s = Ok s"
| "itrunc_direct ip i (Suc k) s =
     bindr (if i_addrs (inode_at s ip) ! i \<noteq> 0 then
              bindr (bfree (i_dev (inode_at s ip)) (i_addrs (inode_at s ip) ! i) s) (\<lambda>s1.
              Ok (upd_inode ip (\<lambda>x. x\<lparr>i_addrs := (i_addrs x)[i := 0]\<rparr>) s1))
            else Ok s) (itrunc_direct ip (Suc i) k)"

text \<open>The indirect block is locked while its entries are freed; \<open>a\<close> is its contents.\<close>

primrec itrunc_indirect :: "u32 \<Rightarrow> nat \<Rightarrow> nat \<Rightarrow> nat \<Rightarrow> 'a fstate_scheme \<Rightarrow> 'a fstate_scheme result" where
  "itrunc_indirect dev bp j 0 s = Ok s"
| "itrunc_indirect dev bp j (Suc k) s =
     (let a = rd32 (b_data (buf_at s bp)) (4 * j) in
      bindr (if a \<noteq> 0 then bfree dev a s else Ok s) (itrunc_indirect dev bp (Suc j) k))"

definition itrunc :: "nat \<Rightarrow> 'a fstate_scheme \<Rightarrow> 'a fstate_scheme result" where
  "itrunc ip s =
     bindr (itrunc_direct ip 0 NDIRECT s) (\<lambda>s1.
     bindr (if i_addrs (inode_at s1 ip) ! NDIRECT \<noteq> 0 then
              bindr (bread (i_dev (inode_at s1 ip)) (i_addrs (inode_at s1 ip) ! NDIRECT) s1) (\<lambda>(bp, s2).
              bindr (itrunc_indirect (i_dev (inode_at s2 ip)) bp 0 NINDIRECT s2) (\<lambda>s3.
              bindr (brelse bp s3) (\<lambda>s4.
              bindr (bfree (i_dev (inode_at s4 ip)) (i_addrs (inode_at s4 ip) ! NDIRECT) s4) (\<lambda>s5.
              Ok (upd_inode ip (\<lambda>x. x\<lparr>i_addrs := (i_addrs x)[NDIRECT := 0]\<rparr>) s5)))))
            else Ok s1) (\<lambda>s6.
     iupdate ip (upd_inode ip (\<lambda>x. x\<lparr>i_size := 0\<rparr>) s6)))"

definition iput :: "nat \<Rightarrow> 'a fstate_scheme \<Rightarrow> 'a fstate_scheme result" where
  "iput ip s =
     bindr (acquiresleep (i_lock (inode_at s ip)) s) (\<lambda>lk.
     let s1 = upd_inode ip (\<lambda>x. x\<lparr>i_lock := lk\<rparr>) s; x = inode_at s1 ip in
     bindr (if i_valid x \<and> i_nlink x = 0 \<and> i_ref x = 1 then
              bindr (itrunc ip s1) (\<lambda>s2.
              bindr (iupdate ip (upd_inode ip (\<lambda>x. x\<lparr>i_type := 0\<rparr>) s2)) (\<lambda>s3.
              Ok (upd_inode ip (\<lambda>x. x\<lparr>i_valid := False\<rparr>) s3)))
            else Ok s1) (\<lambda>s4.
     let (lk', s5) = releasesleep (CInode ip) (i_lock (inode_at s4 ip)) s4 in
     Ok (upd_inode ip (\<lambda>x. x\<lparr>i_lock := lk', i_ref := i_ref x - 1\<rparr>) s5)))"

definition iunlockput :: "nat \<Rightarrow> 'a fstate_scheme \<Rightarrow> 'a fstate_scheme result" where
  "iunlockput ip s = bindr (iunlock ip s) (iput ip)"

end
