(* ===== verification/Fs.thy ===== *)
theory Fs
  imports Inode
begin

text \<open>
  The upper half of \<^verbatim>\<open>fs.c\<close>: reading and writing inodes, directories and path names, with the console's
  driver functions, which unlock the inode around the device.  Data that moves between a file and
  a buffer is a list of bytes; path names are byte lists without their terminating zero, and the
  element \<^verbatim>\<open>name\<close> holds at most 14 bytes.
\<close>

section \<open>The console as a device\<close>

text \<open>A reader that finds no input sleeps (\<open>Blocked\<close>), or gives up when it has been killed.\<close>

definition consoleread :: "nat \<Rightarrow> nat \<Rightarrow> 'a fstate_scheme \<Rightarrow> (int \<times> u8 list \<times> 'a fstate_scheme) result" where
  "consoleread ip n s =
     bindr (iunlock ip s) (\<lambda>s1.
     let (fin, got, c) = consoleread_loop n [] (cons s1); s2 = s1\<lparr>cons := c\<rparr> in
     if fin then bindr (ilock ip s2) (\<lambda>s3. Ok (int (length got), got, s3))
     else with_myproc s2 (\<lambda>i p.
       if p_killed p \<noteq> 0 then bindr (ilock ip s2) (\<lambda>s3. Ok (-1, got, s3)) else Blocked ''consoleread''))"

definition consolewrite :: "nat \<Rightarrow> u8 list \<Rightarrow> 'a fstate_scheme \<Rightarrow> (int \<times> 'a fstate_scheme) result" where
  "consolewrite ip bs s =
     bindr (iunlock ip s) (\<lambda>s1.
     bindr (consputs bs (cons s1)) (\<lambda>c.
     bindr (ilock ip (s1\<lparr>cons := c\<rparr>)) (\<lambda>s2.
     Ok (int (length bs), s2))))"

definition consoleinit :: "'a fstate_scheme \<Rightarrow> 'a fstate_scheme" where
  "consoleinit s = s\<lparr>devsw := (devsw s)[1 := (Some Consoleread, Some Consolewrite)]\<rparr>"

text \<open>The driver function of a device, or \<open>None\<close> where \<^verbatim>\<open>readi\<close> and \<^verbatim>\<open>writei\<close> give up.\<close>

definition dev_entry :: "u16 \<Rightarrow> 'a fstate_scheme \<Rightarrow> (devfun option \<times> devfun option) option" where
  "dev_entry major s = (if sint major < 0 \<or> sint major \<ge> NDEV then None else Some (devsw s ! unat major))"

section \<open>Reading and writing\<close>

definition chunk :: "u32 \<Rightarrow> u32 \<Rightarrow> u32" where
  "chunk n off = min n (of_nat BSIZE - off mod of_nat BSIZE)"

lemma chunk_facts:
  assumes "n \<noteq> 0"
  shows "unat (chunk n off) = min (unat n) (512 - unat off mod 512)" "unat (n - chunk n off) < unat n" "0 < unat (chunk n off)"
proof -
  have lt: "unat off mod 512 < 512" by simp
  have "off mod 512 \<le> 512" by (simp add: word_le_nat_alt unat_mod_distrib less_imp_le [OF lt])
  then have "unat (512 - off mod 512) = 512 - unat off mod 512" by (simp add: unat_sub unat_mod_distrib)
  then show c: "unat (chunk n off) = min (unat n) (512 - unat off mod 512)"
    by (simp add: chunk_def min_def word_le_nat_alt)
  have n: "0 < unat n" using assms unat_eq_zero [of n] neq0_conv by blast
  then show pos: "0 < unat (chunk n off)" using c lt by simp
  have "chunk n off \<le> n" using c by (simp add: word_le_nat_alt)
  then show "unat (n - chunk n off) < unat n" using pos n by (simp add: unat_sub)
qed

function readi_loop :: "nat \<Rightarrow> u32 \<Rightarrow> u32 \<Rightarrow> 'a fstate_scheme \<Rightarrow> (u8 list \<times> 'a fstate_scheme) result" where
  "readi_loop ip off n s =
     (if n = 0 then Ok ([], s)
      else
        bindr (bmap ip (off div of_nat BSIZE) s) (\<lambda>(a, s1).
        bindr (bread (i_dev (inode_at s1 ip)) a s1) (\<lambda>(bp, s2).
        let m = chunk n off;
            bs = slice (unat (off mod of_nat BSIZE)) (unat m) (b_data (buf_at s2 bp))
        in bindr (brelse bp s2) (\<lambda>s3.
           bindr (readi_loop ip (off + m) (n - m) s3) (\<lambda>(rest, s4).
           Ok (bs @ rest, s4))))))"
  by pat_completeness auto
termination by (relation "measure (\<lambda>(ip, off, n, s). unat n)") (simp_all add: chunk_facts)

declare readi_loop.simps [simp del]

definition readi :: "nat \<Rightarrow> u32 \<Rightarrow> u32 \<Rightarrow> 'a fstate_scheme \<Rightarrow> (int \<times> u8 list \<times> 'a fstate_scheme) result" where
  "readi ip off n s =
     (let x = inode_at s ip in
      if i_type x = T_DEV then
        (case dev_entry (i_major x) s of
           Some (Some Consoleread, _) \<Rightarrow> consoleread ip (nat (sint n)) s
         | _ \<Rightarrow> Ok (-1, [], s))
      else if off > i_size x \<or> off + n < off then Ok (-1, [], s)
      else
        let n' = (if off + n > i_size x then i_size x - off else n) in
        bindr (readi_loop ip off n' s) (\<lambda>(bs, s'). Ok (sint n', bs, s')))"

function writei_loop :: "nat \<Rightarrow> u32 \<Rightarrow> u8 list \<Rightarrow> u32 \<Rightarrow> 'a fstate_scheme \<Rightarrow> 'a fstate_scheme result" where
  "writei_loop ip off src n s =
     (if n = 0 then Ok s
      else
        bindr (bmap ip (off div of_nat BSIZE) s) (\<lambda>(a, s1).
        bindr (bread (i_dev (inode_at s1 ip)) a s1) (\<lambda>(bp, s2).
        let m = chunk n off;
            s3 = upd_buf bp (\<lambda>b. b\<lparr>b_data := splice (unat (off mod of_nat BSIZE)) (take (unat m) src) (b_data b)\<rparr>) s2
        in bindr (log_write bp s3) (\<lambda>s4.
           bindr (brelse bp s4) (\<lambda>s5.
           writei_loop ip (off + m) (drop (unat m) src) (n - m) s5)))))"
  by pat_completeness auto
termination by (relation "measure (\<lambda>(ip, off, src, n, s). unat n)") (simp_all add: chunk_facts)

declare writei_loop.simps [simp del]

definition writei :: "nat \<Rightarrow> u8 list \<Rightarrow> u32 \<Rightarrow> 'a fstate_scheme \<Rightarrow> (int \<times> 'a fstate_scheme) result" where
  "writei ip src off s =
     (let x = inode_at s ip; n = of_nat (length src) in
      if i_type x = T_DEV then
        (case dev_entry (i_major x) s of
           Some (_, Some Consolewrite) \<Rightarrow> consolewrite ip src s
         | _ \<Rightarrow> Ok (-1, s))
      else if off > i_size x \<or> off + n < off then Ok (-1, s)
      else if off + n > of_nat ((NDIRECT + NINDIRECT) * BSIZE) then Ok (-1, s)
      else
        bindr (writei_loop ip off src n s) (\<lambda>s1.
        let off' = off + n in
        if n > 0 \<and> off' > i_size (inode_at s1 ip) then
          bindr (iupdate ip (upd_inode ip (\<lambda>x. x\<lparr>i_size := off'\<rparr>) s1)) (\<lambda>s2. Ok (sint n, s2))
        else Ok (sint n, s1)))"

record stat =
  st_type :: u16
  st_dev :: u32
  st_ino :: u32
  st_nlink :: u16
  st_size :: u32

definition stati :: "nat \<Rightarrow> 'a fstate_scheme \<Rightarrow> stat" where
  "stati ip s = (let x = inode_at s ip in
     \<lparr>st_type = i_type x, st_dev = i_dev x, st_ino = i_inum x, st_nlink = i_nlink x, st_size = i_size x\<rparr>)"

section \<open>Directories\<close>

definition char_at :: "u8 list \<Rightarrow> nat \<Rightarrow> u8" where
  "char_at cs i = (if i < length cs then cs ! i else 0)"

primrec namecmp_from :: "nat \<Rightarrow> nat \<Rightarrow> u8 list \<Rightarrow> u8 list \<Rightarrow> int" where
  "namecmp_from i 0 s t = 0"
| "namecmp_from i (Suc n) s t =
     (if char_at s i \<noteq> 0 \<and> char_at s i = char_at t i then namecmp_from (Suc i) n s t
      else uint (char_at s i) - uint (char_at t i))"

definition namecmp :: "u8 list \<Rightarrow> u8 list \<Rightarrow> int" where
  "namecmp s t = namecmp_from 0 14 s t"

text \<open>A directory entry: a 16-bit inode number and 14 bytes of name.\<close>

definition de_inum :: "u8 list \<Rightarrow> u16" where
  "de_inum de = rd16 de 0"

definition de_name :: "u8 list \<Rightarrow> u8 list" where
  "de_name de = slice 2 14 de"

text \<open>\<^verbatim>\<open>strncpy(de.name, name, DIRSIZ)\<close>: the name up to its zero byte, padded with zeros.\<close>

definition pad_name :: "u8 list \<Rightarrow> u8 list" where
  "pad_name name = (let cs = take 14 (takeWhile (\<lambda>c. c \<noteq> 0) name) in cs @ replicate (14 - length cs) 0)"

definition mk_dirent :: "u16 \<Rightarrow> u8 list \<Rightarrow> u8 list" where
  "mk_dirent inum name = bytes16 inum @ pad_name name"

primrec dirlookup_from :: "nat \<Rightarrow> u8 list \<Rightarrow> u32 \<Rightarrow> nat \<Rightarrow> 'a fstate_scheme \<Rightarrow> ((nat \<times> u32) option \<times> 'a fstate_scheme) result" where
  "dirlookup_from dp name off 0 s = Ok (None, s)"
| "dirlookup_from dp name off (Suc k) s =
     bindr (readi dp off 16 s) (\<lambda>(r, de, s1).
     if r \<noteq> 16 then Panic ''dirlookup read''
     else if de_inum de = 0 then dirlookup_from dp name (off + 16) k s1
     else if namecmp name (de_name de) = 0 then
       bindr (iget (i_dev (inode_at s1 dp)) (ucast (de_inum de)) s1) (\<lambda>(ip, s2). Ok (Some (ip, off), s2))
     else dirlookup_from dp name (off + 16) k s1)"

text \<open>The loop runs once for every started entry of the directory.\<close>

definition dir_entries :: "u32 \<Rightarrow> nat" where
  "dir_entries sz = (unat sz + 15) div 16"

definition dirlookup :: "nat \<Rightarrow> u8 list \<Rightarrow> 'a fstate_scheme \<Rightarrow> ((nat \<times> u32) option \<times> 'a fstate_scheme) result" where
  "dirlookup dp name s =
     (if i_type (inode_at s dp) \<noteq> T_DIR then Panic ''dirlookup not DIR''
      else dirlookup_from dp name 0 (dir_entries (i_size (inode_at s dp))) s)"

primrec dirlink_slot :: "nat \<Rightarrow> u32 \<Rightarrow> nat \<Rightarrow> 'a fstate_scheme \<Rightarrow> (u32 \<times> 'a fstate_scheme) result" where
  "dirlink_slot dp off 0 s = Ok (off, s)"
| "dirlink_slot dp off (Suc k) s =
     bindr (readi dp off 16 s) (\<lambda>(r, de, s1).
     if r \<noteq> 16 then Panic ''dirlink read''
     else if de_inum de = 0 then Ok (off, s1)
     else dirlink_slot dp (off + 16) k s1)"

definition dirlink :: "nat \<Rightarrow> u8 list \<Rightarrow> u32 \<Rightarrow> 'a fstate_scheme \<Rightarrow> (int \<times> 'a fstate_scheme) result" where
  "dirlink dp name inum s =
     bindr (dirlookup dp name s) (\<lambda>(r, s1).
     case r of
       Some (ip, _) \<Rightarrow> bindr (iput ip s1) (\<lambda>s2. Ok (-1, s2))
     | None \<Rightarrow>
         bindr (dirlink_slot dp 0 (dir_entries (i_size (inode_at s1 dp))) s1) (\<lambda>(off, s2).
         bindr (writei dp (mk_dirent (ucast inum) name) off s2) (\<lambda>(w, s3).
         if w \<noteq> 16 then Panic ''dirlink'' else Ok (0, s3))))"

section \<open>Paths\<close>

definition skipelem :: "u8 list \<Rightarrow> (u8 list \<times> u8 list) option" where
  "skipelem path =
     (let p = dropWhile (\<lambda>c. c = 0x2f) path in
      if p = [] then None
      else
        let elem = takeWhile (\<lambda>c. c \<noteq> 0x2f) p;
            rest = dropWhile (\<lambda>c. c = 0x2f) (dropWhile (\<lambda>c. c \<noteq> 0x2f) p)
        in Some (rest, take 14 elem))"

lemma skipelem_shorter:
  assumes "skipelem path = Some (rest, name)" shows "length rest < length path"
proof -
  let ?p = "dropWhile (\<lambda>c. c = 0x2f) path"
  from assms have ne: "?p \<noteq> []" and r: "rest = dropWhile (\<lambda>c. c = 0x2f) (dropWhile (\<lambda>c. c \<noteq> 0x2f) ?p)"
    by (auto simp: skipelem_def Let_def split: if_splits)
  obtain c cs where p: "?p = c # cs" using ne by (cases ?p) auto
  then have "c \<noteq> 0x2f" using hd_dropWhile [of "\<lambda>c. c = 0x2f" path] ne by simp
  then have "length rest \<le> length cs" unfolding r p using length_dropWhile_le order_trans by (metis (mono_tags, lifting) dropWhile.simps(2))
  moreover have "length ?p \<le> length path" by (rule length_dropWhile_le)
  ultimately show ?thesis using p by simp
qed

function namex_loop :: "nat \<Rightarrow> u8 list \<Rightarrow> bool \<Rightarrow> u8 list \<Rightarrow> 'a fstate_scheme \<Rightarrow> (nat option \<times> u8 list \<times> 'a fstate_scheme) result" where
  "namex_loop ip path nameiparent name s =
     (case skipelem path of
        None \<Rightarrow>
          if nameiparent then bindr (iput ip s) (\<lambda>s1. Ok (None, name, s1)) else Ok (Some ip, name, s)
      | Some (rest, name') \<Rightarrow>
          bindr (ilock ip s) (\<lambda>s1.
          if i_type (inode_at s1 ip) \<noteq> T_DIR then bindr (iunlockput ip s1) (\<lambda>s2. Ok (None, name', s2))
          else if nameiparent \<and> rest = [] then bindr (iunlock ip s1) (\<lambda>s2. Ok (Some ip, name', s2))
          else
            bindr (dirlookup ip name' s1) (\<lambda>(r, s2).
            case r of
              None \<Rightarrow> bindr (iunlockput ip s2) (\<lambda>s3. Ok (None, name', s3))
            | Some (next, _) \<Rightarrow> bindr (iunlockput ip s2) (\<lambda>s3. namex_loop next rest nameiparent name' s3))))"
  by pat_completeness auto
termination
  by (relation "measure (\<lambda>(ip, path, np, name, s). length path)") (auto dest: skipelem_shorter)

declare namex_loop.simps [simp del]

definition namex :: "u8 list \<Rightarrow> bool \<Rightarrow> 'a fstate_scheme \<Rightarrow> (nat option \<times> u8 list \<times> 'a fstate_scheme) result" where
  "namex path nameiparent s =
     bindr (if path \<noteq> [] \<and> hd path = 0x2f then iget ROOTDEV ROOTINO s
            else with_myproc s (\<lambda>i p. case p_cwd p of None \<Rightarrow> UB ''namex: no cwd'' | Some d \<Rightarrow> Ok (idup d s))) (\<lambda>(ip, s1).
     namex_loop ip path nameiparent [] s1)"

definition namei :: "u8 list \<Rightarrow> 'a fstate_scheme \<Rightarrow> (nat option \<times> 'a fstate_scheme) result" where
  "namei path s = bindr (namex path False s) (\<lambda>(r, _, s1). Ok (r, s1))"

definition nameiparent :: "u8 list \<Rightarrow> 'a fstate_scheme \<Rightarrow> (nat option \<times> u8 list \<times> 'a fstate_scheme) result" where
  "nameiparent path s = namex path True s"

end
