(* ===== verification/File.thy ===== *)
theory File
  imports Fs Pipe
begin

text \<open>
  The file table (\<^verbatim>\<open>file.c\<close>) and the life cycle of pipes (\<^verbatim>\<open>pipe.c\<close>).  A \<^verbatim>\<open>struct file*\<close> is an index into the
  table of 100 entries.  A pipe lives in a page of its own and is named by the page's address; its
  fields are kept in the map \<open>pipes\<close> instead of the bytes of the page.  A call that goes to sleep on
  a pipe ends as \<open>Blocked\<close>; how sleeping readers and writers interleave is the subject of the theory
  on pipes.
\<close>

datatype filetype = FD_NONE | FD_PIPE | FD_INODE

record kfile =
  f_type :: filetype
  f_ref :: int
  f_readable :: bool
  f_writable :: bool
  f_pipe :: u32
  f_ip :: nat
  f_off :: u32

record kstate = fstate +
  ftable :: "kfile list"
  pipes :: "u32 \<Rightarrow> pipe"

abbreviation (input) NFILE :: nat where "NFILE \<equiv> 100"

definition file_at :: "'a kstate_scheme \<Rightarrow> nat \<Rightarrow> kfile" where
  "file_at s f = ftable s ! f"

definition upd_file :: "nat \<Rightarrow> (kfile \<Rightarrow> kfile) \<Rightarrow> 'a kstate_scheme \<Rightarrow> 'a kstate_scheme" where
  "upd_file f g s = s\<lparr>ftable := (ftable s)[f := g (file_at s f)]\<rparr>"

primrec find_free_file :: "nat \<Rightarrow> kfile list \<Rightarrow> nat option" where
  "find_free_file i [] = None"
| "find_free_file i (f # fs) = (if f_ref f = 0 then Some i else find_free_file (Suc i) fs)"

definition filealloc :: "'a kstate_scheme \<Rightarrow> nat option \<times> 'a kstate_scheme" where
  "filealloc s = (case find_free_file 0 (ftable s) of
      None \<Rightarrow> (None, s)
    | Some f \<Rightarrow> (Some f, upd_file f (\<lambda>x. x\<lparr>f_ref := 1\<rparr>) s))"

definition filedup :: "nat \<Rightarrow> 'a kstate_scheme \<Rightarrow> 'a kstate_scheme result" where
  "filedup f s =
     (if f_ref (file_at s f) < 1 then Panic ''filedup''
      else Ok (upd_file f (\<lambda>x. x\<lparr>f_ref := f_ref x + 1\<rparr>) s))"

section \<open>Pipes as files\<close>

definition pipeclose :: "u32 \<Rightarrow> bool \<Rightarrow> 'a kstate_scheme \<Rightarrow> 'a kstate_scheme result" where
  "pipeclose p writable s =
     (let s1 = (if writable
                then wakeup (CPipeR p) (s\<lparr>pipes := (pipes s)(p := (pipes s p)\<lparr>writeopen := 0\<rparr>)\<rparr>)
                else wakeup (CPipeW p) (s\<lparr>pipes := (pipes s)(p := (pipes s p)\<lparr>readopen := 0\<rparr>)\<rparr>))
      in if readopen (pipes s1 p) = 0 \<and> writeopen (pipes s1 p) = 0 then kfree p s1 else Ok s1)"

section \<open>Closing\<close>

definition fileclose :: "nat \<Rightarrow> 'a kstate_scheme \<Rightarrow> 'a kstate_scheme result" where
  "fileclose f s =
     (if f_ref (file_at s f) < 1 then Panic ''fileclose''
      else
        let s1 = upd_file f (\<lambda>x. x\<lparr>f_ref := f_ref x - 1\<rparr>) s in
        if f_ref (file_at s1 f) > 0 then Ok s1
        else
          let ff = file_at s1 f; s2 = upd_file f (\<lambda>x. x\<lparr>f_ref := 0, f_type := FD_NONE\<rparr>) s1 in
          (case f_type ff of
             FD_PIPE \<Rightarrow> pipeclose (f_pipe ff) (f_writable ff) s2
           | FD_INODE \<Rightarrow> bindr (begin_op s2) (\<lambda>s3. bindr (iput (f_ip ff) s3) end_op)
           | FD_NONE \<Rightarrow> Ok s2))"

definition empty_pipe :: pipe where
  "empty_pipe = \<lparr>pdata = replicate 512 0, nread = 0, nwrite = 0, readopen = 1, writeopen = 1\<rparr>"

text \<open>
  \<^verbatim>\<open>pipealloc\<close> returns both files, or closes what it has allocated.  A new pipe has whatever bytes its
  page had; they are never read before they are written.
\<close>

definition pipealloc :: "'a kstate_scheme \<Rightarrow> ((nat \<times> nat) option \<times> 'a kstate_scheme) result" where
  "pipealloc s =
     (let (f0, s1) = filealloc s in
      case f0 of
        None \<Rightarrow> Ok (None, s1)
      | Some r \<Rightarrow>
          let (f1, s2) = filealloc s1 in
          (case f1 of
             None \<Rightarrow> bindr (fileclose r s2) (\<lambda>s3. Ok (None, s3))
           | Some w \<Rightarrow>
               let (p, s3) = kalloc s2 in
               if p = 0 then bindr (fileclose r s3) (\<lambda>s4. bindr (fileclose w s4) (\<lambda>s5. Ok (None, s5)))
               else
                 let s4 = s3\<lparr>pipes := (pipes s3)(p := empty_pipe)\<rparr>;
                     s5 = upd_file r (\<lambda>x. x\<lparr>f_type := FD_PIPE, f_readable := True, f_writable := False, f_pipe := p\<rparr>) s4;
                     s6 = upd_file w (\<lambda>x. x\<lparr>f_type := FD_PIPE, f_readable := False, f_writable := True, f_pipe := p\<rparr>) s5
                 in Ok (Some (r, w), s6)))"

section \<open>Reading and writing\<close>

definition filestat :: "nat \<Rightarrow> 'a kstate_scheme \<Rightarrow> (stat option \<times> 'a kstate_scheme) result" where
  "filestat f s =
     (if f_type (file_at s f) = FD_INODE then
        let ip = f_ip (file_at s f) in
        bindr (ilock ip s) (\<lambda>s1.
        let st = stati ip s1 in
        bindr (iunlock ip s1) (\<lambda>s2. Ok (Some st, s2)))
      else Ok (None, s))"

definition fileread :: "nat \<Rightarrow> u32 \<Rightarrow> 'a kstate_scheme \<Rightarrow> (int \<times> u8 list \<times> 'a kstate_scheme) result" where
  "fileread f n s =
     (let x = file_at s f in
      if \<not> f_readable x then Ok (-1, [], s)
      else (case f_type x of
        FD_PIPE \<Rightarrow>
          bindr (piperead (f_pipe x) (nat (sint n)) (pipes s (f_pipe x)) s) (\<lambda>(r, bs, p, s1).
          let s2 = s1\<lparr>pipes := (pipes s1)(f_pipe x := p)\<rparr> in
          (case r of None \<Rightarrow> Blocked ''piperead'' | Some k \<Rightarrow> Ok (k, bs, s2)))
      | FD_INODE \<Rightarrow>
          bindr (ilock (f_ip x) s) (\<lambda>s1.
          bindr (readi (f_ip x) (f_off x) n s1) (\<lambda>(r, bs, s2).
          let s3 = (if r > 0 then upd_file f (\<lambda>y. y\<lparr>f_off := f_off y + word_of_int r\<rparr>) s2 else s2) in
          bindr (iunlock (f_ip x) s3) (\<lambda>s4. Ok (r, bs, s4))))
      | FD_NONE \<Rightarrow> Panic ''fileread''))"

abbreviation (input) max_write :: nat where "max_write \<equiv> 1536"

text \<open>The result is whether all bytes have been written.\<close>

function filewrite_loop :: "nat \<Rightarrow> u8 list \<Rightarrow> 'a kstate_scheme \<Rightarrow> (bool \<times> 'a kstate_scheme) result" where
  "filewrite_loop f bs s =
     (if bs = [] then Ok (True, s)
      else
        let c = take max_write bs; ip = f_ip (file_at s f) in
        bindr (begin_op s) (\<lambda>s1.
        bindr (ilock ip s1) (\<lambda>s2.
        bindr (writei ip c (f_off (file_at s2 f)) s2) (\<lambda>(r, s3).
        let s4 = (if r > 0 then upd_file f (\<lambda>y. y\<lparr>f_off := f_off y + word_of_int r\<rparr>) s3 else s3) in
        bindr (iunlock ip s4) (\<lambda>s5.
        bindr (end_op s5) (\<lambda>s6.
        if r < 0 then Ok (False, s6)
        else if r \<noteq> int (length c) then Panic ''short filewrite''
        else filewrite_loop f (drop max_write bs) s6))))))"
  by pat_completeness auto
termination by (relation "measure (\<lambda>(f, bs, s). length bs)") auto

declare filewrite_loop.simps [simp del]

definition filewrite :: "nat \<Rightarrow> u8 list \<Rightarrow> 'a kstate_scheme \<Rightarrow> (int \<times> 'a kstate_scheme) result" where
  "filewrite f bs s =
     (let x = file_at s f in
      if \<not> f_writable x then Ok (-1, s)
      else (case f_type x of
        FD_PIPE \<Rightarrow>
          bindr (pipewrite (f_pipe x) bs (pipes s (f_pipe x)) s) (\<lambda>(r, rest, p, s1).
          let s2 = s1\<lparr>pipes := (pipes s1)(f_pipe x := p)\<rparr> in
          (case r of None \<Rightarrow> Blocked ''pipewrite'' | Some k \<Rightarrow> Ok (k, s2)))
      | FD_INODE \<Rightarrow>
          bindr (filewrite_loop f bs s) (\<lambda>(fin, s1). Ok (if fin then int (length bs) else -1, s1))
      | FD_NONE \<Rightarrow> Panic ''filewrite''))"

section \<open>Descriptors\<close>

primrec find_none :: "nat \<Rightarrow> 'a option list \<Rightarrow> nat option" where
  "find_none i [] = None"
| "find_none i (x # xs) = (if x = None then Some i else find_none (Suc i) xs)"

definition fdalloc :: "nat \<Rightarrow> 'a kstate_scheme \<Rightarrow> (int \<times> 'a kstate_scheme) result" where
  "fdalloc f s = with_myproc s (\<lambda>i p. case find_none 0 (p_ofile p) of
      None \<Rightarrow> Ok (-1, s)
    | Some fd \<Rightarrow> Ok (int fd, upd_proc i (\<lambda>p. p\<lparr>p_ofile := (p_ofile p)[fd := Some f]\<rparr>) s))"

text \<open>The open file of a descriptor: \<^verbatim>\<open>fd < 0 || fd >= NOFILE || (f = ofile[fd]) == 0\<close> fails.\<close>

definition fd_file :: "int \<Rightarrow> proc \<Rightarrow> nat option" where
  "fd_file fd p = (if fd < 0 \<or> fd \<ge> int NOFILE then None else p_ofile p ! nat fd)"

end
