(* ===== verification/Demo.thy ===== *)
theory Demo
  imports File
begin

text \<open>
  A small concrete kernel on which the theorems about the buffer cache, the log and the file
  system are shown to apply: one process runs on CPU 0, every block of the disk is zero, the log
  starts at block 2 as \<^verbatim>\<open>mkfs\<close> places it, and the cache holds the buffers given as an argument.
\<close>

definition demo_proc :: proc where
  "demo_proc = zero_proc\<lparr>p_pid := 1, p_state := RUNNING, p_sz := 0x4000, p_pgdir := 0x80500000,
     p_kstack := 0x80510000\<rparr>"

definition free_buf :: buf where
  "free_buf = \<lparr>b_flags = 0, b_dev = 0, b_blockno = 0, b_lock = \<lparr>sl_locked = False, sl_name = ''buffer'', sl_pid = 0\<rparr>,
     b_refcnt = 0, b_data = replicate 512 0\<rparr>"

definition cached_buf :: "u32 \<Rightarrow> u32 \<Rightarrow> u8 list \<Rightarrow> buf" where
  "cached_buf flags b d = free_buf\<lparr>b_flags := flags, b_dev := 1, b_blockno := b, b_data := d\<rparr>"

definition locked_buf :: "u32 \<Rightarrow> u32 \<Rightarrow> u8 list \<Rightarrow> buf" where
  "locked_buf flags b d = (cached_buf flags b d)\<lparr>b_refcnt := 1,
     b_lock := \<lparr>sl_locked = True, sl_name = ''buffer'', sl_pid = 1\<rparr>\<rparr>"

definition free_inode :: inode where
  "free_inode = \<lparr>i_dev = 0, i_inum = 0, i_ref = 0, i_lock = \<lparr>sl_locked = False, sl_name = ''inode'', sl_pid = 0\<rparr>,
     i_valid = False, i_type = 0, i_major = 0, i_minor = 0, i_nlink = 0, i_size = 0, i_addrs = replicate 13 0\<rparr>"

definition free_file :: kfile where
  "free_file = \<lparr>f_type = FD_NONE, f_ref = 0, f_readable = False, f_writable = False, f_pipe = 0, f_ip = 0, f_off = 0\<rparr>"

definition demo_cons :: console where
  "demo_cons = \<lparr>c_uart = [], c_crt = (\<lambda>_. 0), c_pos = 0, c_buf = replicate 128 0, c_r = 0, c_w = 0, c_e = 0\<rparr>"

definition demo_kernel :: "buf list \<Rightarrow> u32 list \<Rightarrow> kstate" where
  "demo_kernel bs blks = \<lparr>heap = (\<lambda>_. 0), kmem_freelist = 0, kmem_use_lock = True, cow_ref_counts = (\<lambda>_. 0),
     cr3 = 0, kend = 0x80120000, kdata = 0x80108000,
     ptable = demo_proc # replicate 63 zero_proc, nextpid = 2, initproc = Some 0,
     cpu_proc = (\<lambda>c. if c = 0 then Some 0 else None), cpu_esp0 = (\<lambda>_. 0), cpu_id = 0, ticks = 0, kpgdir = 0,
     trapret = 0, forkret_addr = 0,
     bufs = bs @ replicate (30 - length bs) free_buf, bmru = [0..<30], idequeue = [], havedisk1 = True,
     ide_err = False, disk = (\<lambda>_ _. replicate 512 0), disk_writes = [],
     log_start = 2, log_size = 30, log_outstanding = 1, log_committing = False, log_dev = 1,
     lh_n = int (length blks), lh_block = blks @ replicate (30 - length blks) 0,
     sb = \<lparr>sb_size = 1000, sb_nblocks = 941, sb_ninodes = 200, sb_nlog = 30, sb_logstart = 2,
       sb_inodestart = 32, sb_bmapstart = 58\<rparr>,
     icache = replicate 50 free_inode, devsw = replicate 10 (None, None), cons = demo_cons,
     ftable = replicate 100 free_file, pipes = (\<lambda>_. \<lparr>pdata = replicate 512 0, nread = 0, nwrite = 0,
       readopen = 0, writeopen = 0\<rparr>)\<rparr>"

lemma demo_kernel_simps [simp]:
  "myproc (demo_kernel bs blks) = Some 0" "proc_at (demo_kernel bs blks) 0 = demo_proc"
  "curpid (demo_kernel bs blks) = 1" "bmru (demo_kernel bs blks) = [0..<30]"
  "disk (demo_kernel bs blks) = (\<lambda>_ _. replicate 512 0)" "idequeue (demo_kernel bs blks) = []"
  "havedisk1 (demo_kernel bs blks)" "\<not> ide_err (demo_kernel bs blks)" "disk_writes (demo_kernel bs blks) = []"
  "log_start (demo_kernel bs blks) = 2" "log_size (demo_kernel bs blks) = 30"
  "log_outstanding (demo_kernel bs blks) = 1" "\<not> log_committing (demo_kernel bs blks)"
  "log_dev (demo_kernel bs blks) = 1" "lh_n (demo_kernel bs blks) = int (length blks)"
  "lh_block (demo_kernel bs blks) = blks @ replicate (30 - length blks) 0"
  "bufs (demo_kernel bs blks) = bs @ replicate (30 - length bs) free_buf"
  "icache (demo_kernel bs blks) = replicate 50 free_inode" "ftable (demo_kernel bs blks) = replicate 100 free_file"
  by (simp_all add: demo_kernel_def myproc_def proc_at_def curpid_def demo_proc_def del: upt_rec_numeral)

lemma demo_buf_simps [simp]:
  "b_flags free_buf = 0" "b_dev free_buf = 0" "\<not> sl_locked (b_lock free_buf)" "b_refcnt free_buf = 0" "length (b_data free_buf) = 512"
  "b_flags (cached_buf f b d) = f" "b_dev (cached_buf f b d) = 1" "b_blockno (cached_buf f b d) = b"
  "\<not> sl_locked (b_lock (cached_buf f b d))" "b_refcnt (cached_buf f b d) = 0" "b_data (cached_buf f b d) = d"
  "b_flags (locked_buf f b d) = f" "b_dev (locked_buf f b d) = 1" "b_blockno (locked_buf f b d) = b"
  "sl_locked (b_lock (locked_buf f b d))" "sl_pid (b_lock (locked_buf f b d)) = 1" "b_refcnt (locked_buf f b d) = 1"
  "b_data (locked_buf f b d) = d"
  by (simp_all add: free_buf_def cached_buf_def locked_buf_def)

lemma nth_demo_bufs:
  "length bs \<le> 30 \<Longrightarrow> i < 30 \<Longrightarrow> (bs @ replicate (30 - length bs) free_buf) ! i = (if i < length bs then bs ! i else free_buf)"
  by (simp add: nth_append)

text \<open>With at most one buffer in use the cache satisfies its invariant as soon as that buffer does.\<close>

lemma demo_bio_inv:
  assumes "buf_ok 1 (\<lambda>_. replicate 512 0) b"
  shows "bio_inv (demo_kernel [b] blks)"
  using assms
  by (auto simp: bio_inv_def nth_append nth_Cons' buf_ok_def atLeast0LessThan simp del: upt_rec_numeral)

lemma demo_bio_inv_empty: "bio_inv (demo_kernel [] blks)"
  by (auto simp: bio_inv_def buf_ok_def atLeast0LessThan simp del: upt_rec_numeral)

lemma demo_pinned:
  "pinned (demo_kernel [cached_buf 6 b d] blks) = {b}" "held (demo_kernel [cached_buf 6 b d] blks) = {}"
  "pinned (demo_kernel [locked_buf 2 b d] blks) = {}" "held (demo_kernel [locked_buf 2 b d] blks) = {b}"
  "pinned (demo_kernel [] blks) = {}" "held (demo_kernel [] blks) = {}"
  by (auto simp: pinned_def held_def holds_def nth_append nth_Cons' split: if_splits intro: exI [of _ 0])

end
