(* ===== verification/Log_Props.thy ===== *)
theory Log_Props
  imports Log_Crash Demo
begin

text \<open>
  What the log guarantees to the file system: a transaction whose last operation ends reaches the
  disk completely or not at all, wherever the machine stops and however often recovery itself is
  interrupted.
\<close>

section \<open>Crashes during recovery\<close>

text \<open>
  A reboot that is itself cut short: the kernel runs \<^verbatim>\<open>recover_from_log\<close> on the disk \<open>d\<close> and stops
  after some of its writes, leaving \<open>d'\<close>.
\<close>

definition reboot :: "u32 \<Rightarrow> (u32 \<Rightarrow> u8 list) \<Rightarrow> (u32 \<Rightarrow> u8 list) \<Rightarrow> bool" where
  "reboot start d d' \<longleftrightarrow> (\<exists>(s :: lgstate) t ws k. booted s \<and> log_start s = start \<and> disk s 1 = d \<and>
     recover_from_log s = Ok t \<and> disk_writes t = disk_writes s @ map (Pair 1) ws \<and> d' = app d (take k ws))"

lemma reboot_crash:
  assumes r: "reboot start d d'" and w: "wf_log d start"
  shows "crash start d d'"
proof -
  obtain s :: lgstate and t ws k where s: "booted s" "log_start s = start" "disk s 1 = d" "recover_from_log s = Ok t"
    "disk_writes t = disk_writes s @ map (Pair 1) ws" "d' = app d (take k ws)"
    using r unfolding reboot_def by blast
  obtain t' where "recover_from_log s = Ok t'" "wrote s t' (recovery_ws (disk s 1) (log_start s))"
    by (rule recover_ok [OF s(1)]) (use s(2,3) w in simp_all)
  then have "map (Pair 1) ws = (map (Pair 1) (recovery_ws d start) :: (u32 \<times> u32 \<times> u8 list) list)"
    using s by (simp add: wrote_def)
  then have "ws = recovery_ws d start" by (simp add: inj_map_eq_map inj_on_def)
  then show ?thesis using s(6) unfolding crash_def by blast
qed

lemma reboots_keep:
  assumes "(reboot start)\<^sup>*\<^sup>* d d'" "wf_log d start"
  shows "wf_log d' start \<and> recovered d' start = recovered d start"
  using assms by (induction rule: rtranclp_induct) (use crash_keeps reboot_crash in metis)+

lemma recover_result:
  assumes b: "booted s" and w: "wf_log (disk s 1) (log_start s)"
  shows "\<exists>u. recover_from_log s = Ok u \<and> disk u 1 = recovered (disk s 1) (log_start s) \<and> lh_n u = 0"
  by (rule recover_ok [OF b w]) (auto simp: wrote_def recovered_def)

section \<open>Ending a transaction\<close>

lemma bview_upd: "bview (s\<lparr>log_outstanding := n, log_committing := c\<rparr>) = bview s"
  by (simp add: bview_def fun_eq_iff del: upt_rec_numeral split: option.split)

lemma commit_ready_upd:
  "commit_ready (s\<lparr>log_outstanding := n, log_committing := c\<rparr>) blks = commit_ready s blks"
  "commit_ws (s\<lparr>log_outstanding := n, log_committing := c\<rparr>) blks = commit_ws s blks"
  by (simp_all add: commit_ready_def commit_ws_def bview_upd lists_def bio_inv_def curpid_def myproc_def proc_at_def
    held_def holds_def pinned_def)

lemma end_op_last:
  assumes c: "commit_ready s blks" and o: "log_outstanding s = 1" "\<not> log_committing s"
    and d: "d = app (disk s 1) (commit_ws s blks)"
  shows "\<exists>t. end_op s = Ok t \<and> wrote s t (commit_ws s blks @ recovery_ws d (log_start s)) \<and>
    lh_n t = 0 \<and> log_outstanding t = 0 \<and> \<not> log_committing t"
proof -
  let ?s = "s\<lparr>log_outstanding := 0, log_committing := True\<rparr>"
  have "commit_ready ?s blks" "d = app (disk ?s 1) (commit_ws ?s blks)" using c d by (simp_all add: commit_ready_upd)
  then obtain t where t: "commit ?s = Ok t" "lh_n t = 0"
    "wrote ?s t (commit_ws ?s blks @ recovery_ws d (log_start ?s))" "log_outstanding t = log_outstanding ?s"
    by (rule commit_ok)
  show ?thesis
    using t o by (simp add: end_op_def wrote_def commit_ready_upd wakeup_def wakeup1_def)
qed


text \<open>
  C1.  A transaction is atomic.  When the last operation of a transaction ends, \<^verbatim>\<open>end_op\<close> commits it
  by a sequence of block writes; let the machine stop after any number \<open>k\<close> of them, and let any
  number of reboots stop in the middle of recovery.  The next recovery that runs to its end
  succeeds and leaves every block outside the log area as it was before the transaction when at
  most the logged copies had been written, and as the transaction left it otherwise: the write of
  the header is the commit point.
\<close>

theorem end_op_atomic:
  assumes "commit_ready s blks" "log_outstanding s = 1" "\<not> log_committing s"
  shows "\<exists>t W. end_op s = Ok t \<and> log_outstanding t = 0 \<and> disk_writes t = disk_writes s @ map (Pair 1) W \<and>
    (\<forall>k d (s0 :: lgstate). (reboot (log_start s))\<^sup>*\<^sup>* (app (disk s 1) (take k W)) d \<and>
       booted s0 \<and> log_start s0 = log_start s \<and> disk s0 1 = d \<longrightarrow>
       (\<exists>u. recover_from_log s0 = Ok u \<and> (\<forall>b. b \<notin> area (log_start s) \<longrightarrow>
          disk u 1 b = (if k \<le> length blks then disk s 1 b else bview s b))))"
proof -
  let ?st = "log_start s" and ?d = "app (disk s 1) (commit_ws s blks)"
  let ?W = "commit_ws s blks @ recovery_ws ?d ?st"
  obtain t where t: "end_op s = Ok t" "wrote s t ?W" "log_outstanding t = 0" using end_op_last [OF assms refl] by blast
  have "\<exists>u. recover_from_log s0 = Ok u \<and> (\<forall>b. b \<notin> area ?st \<longrightarrow> disk u 1 b = (if k \<le> length blks then disk s 1 b else bview s b))"
    if r: "(reboot ?st)\<^sup>*\<^sup>* (app (disk s 1) (take k ?W)) d" "booted s0" "log_start s0 = ?st" "disk s0 1 = d" for k d and s0 :: lgstate
  proof -
    note cd = crash_disk [OF assms(1) refl refl, of _ k]
    obtain b0 where "b0 \<notin> area ?st" by (rule that [of "0xFFFFFFFF"]) (use listsD(3) [OF commit_readyD(3) [OF assms(1)]] in \<open>simp add: area_def lwf_def\<close>)
    then have w: "wf_log (app (disk s 1) (take k ?W)) ?st" using cd by blast
    note rk = reboots_keep [OF r(1) w]
    then obtain u where "recover_from_log s0 = Ok u" "disk u 1 = recovered d ?st"
      using recover_result [OF r(2)] r(3,4) by auto
    then show ?thesis using rk cd by auto
  qed
  then show ?thesis using t unfolding wrote_def by blast
qed

text \<open>One block is modified and pinned, and the transaction ends.\<close>

lemma demo_commit_ready: "commit_ready (demo_kernel [cached_buf 6 100 (replicate 512 1)] [100]) [100]"
  unfolding commit_ready_def
proof (intro conjI)
  show "bio_inv (demo_kernel [cached_buf 6 100 (replicate 512 1)] [100])"
    by (rule demo_bio_inv) (simp add: buf_ok_def)
qed (simp_all add: demo_pinned lists_def lwf_def area_def rd32_def)

theorem end_op_atomic_witness:
  "let s = demo_kernel [cached_buf 6 100 (replicate 512 1)] [100] in
   \<exists>t W. end_op s = Ok t \<and> log_outstanding t = 0 \<and> disk_writes t = disk_writes s @ map (Pair 1) W \<and>
    (\<forall>k d (s0 :: lgstate). (reboot (log_start s))\<^sup>*\<^sup>* (app (disk s 1) (take k W)) d \<and>
       booted s0 \<and> log_start s0 = log_start s \<and> disk s0 1 = d \<longrightarrow>
       (\<exists>u. recover_from_log s0 = Ok u \<and> (\<forall>b. b \<notin> area (log_start s) \<longrightarrow>
          disk u 1 b = (if k \<le> length [100::u32] then disk s 1 b else bview s b))))"
  unfolding Let_def by (rule end_op_atomic [OF demo_commit_ready]) simp_all

end
