(* ===== verification/Wmap.thy ===== *)
theory Wmap
  imports File
begin

text \<open>
  Memory mappings (the second half of \<^verbatim>\<open>vm.c\<close> and the page-fault case of \<^verbatim>\<open>trap.c\<close>).  A process has
  sixteen slots; a slot is free when its address is 0 and its length -1.  Pages of a mapping are
  allocated lazily by the page-fault handler, read from the file of the mapping if it has one,
  and written back and freed by \<^verbatim>\<open>wunmap\<close>.  The fuel \<open>0x100001\<close> of the page loops exceeds the number of
  pages of the address space.
\<close>

abbreviation (input) MAP_SHARED :: u32 where "MAP_SHARED \<equiv> 2"
abbreviation (input) MAP_ANONYMOUS :: u32 where "MAP_ANONYMOUS \<equiv> 4"
abbreviation (input) MAP_FIXED :: u32 where "MAP_FIXED \<equiv> 8"

definition vasIntersect :: "u32 \<Rightarrow> int \<Rightarrow> u32 \<Rightarrow> int \<Rightarrow> bool" where
  "vasIntersect addr1 length1 addr2 length2 =
     (if length1 \<le> 0 \<or> length2 \<le> 0 then False
      else if addr1 + word_of_int length1 \<le> addr2 \<or> addr2 + word_of_int length2 \<le> addr1 then False
      else True)"

definition updateWmap :: "nat \<Rightarrow> u32 \<Rightarrow> int \<Rightarrow> int \<Rightarrow> int \<Rightarrow> int \<Rightarrow> int \<Rightarrow> int \<Rightarrow> 'a pstate_scheme \<Rightarrow> int \<times> 'a pstate_scheme" where
  "updateWmap p addr len n_loaded fb fd tot index s =
     (if index < 0 then (-1, s)
      else if index \<ge> int MAX_WMMAP_INFO then (-1, s)
      else (0, upd_proc p (\<lambda>x. x\<lparr>
         p_wmapInfo := (p_wmapInfo x)\<lparr>wm_addr := (wm_addr (p_wmapInfo x))[nat index := addr],
           wm_length := (wm_length (p_wmapInfo x))[nat index := len],
           n_loaded_pages := (n_loaded_pages (p_wmapInfo x))[nat index := n_loaded], total_mmaps := tot\<rparr>,
         p_wmapInfoExtra := (p_wmapInfoExtra x)\<lparr>file_backed := (file_backed (p_wmapInfoExtra x))[nat index := fb],
           wm_fd := (wm_fd (p_wmapInfoExtra x))[nat index := fd]\<rparr>\<rparr>) s))"

text \<open>The fields of slot \<open>i\<close>.\<close>

definition wm_a :: "proc \<Rightarrow> nat \<Rightarrow> u32" where "wm_a p i = wm_addr (p_wmapInfo p) ! i"
definition wm_len :: "proc \<Rightarrow> nat \<Rightarrow> int" where "wm_len p i = wm_length (p_wmapInfo p) ! i"
definition wm_loaded :: "proc \<Rightarrow> nat \<Rightarrow> int" where "wm_loaded p i = n_loaded_pages (p_wmapInfo p) ! i"
definition wm_fb :: "proc \<Rightarrow> nat \<Rightarrow> int" where "wm_fb p i = file_backed (p_wmapInfoExtra p) ! i"
definition wm_desc :: "proc \<Rightarrow> nat \<Rightarrow> int" where "wm_desc p i = wm_fd (p_wmapInfoExtra p) ! i"
definition wm_total :: "proc \<Rightarrow> int" where "wm_total p = total_mmaps (p_wmapInfo p)"

definition slot_free :: "proc \<Rightarrow> nat \<Rightarrow> bool" where
  "slot_free p i \<longleftrightarrow> wm_a p i = 0 \<and> wm_len p i = -1"

definition duplicateFd :: "int \<Rightarrow> 'a kstate_scheme \<Rightarrow> (int \<times> 'a kstate_scheme) result" where
  "duplicateFd fd s = with_myproc s (\<lambda>i p.
     case fd_file fd p of
       None \<Rightarrow> Ok (-1, s)
     | Some f \<Rightarrow>
         (case find_none 0 (p_ofile p) of
            None \<Rightarrow> Ok (-1, s)
          | Some newfd \<Rightarrow>
              bindr (filedup f (upd_proc i (\<lambda>p. p\<lparr>p_ofile := (p_ofile p)[newfd := Some f]\<rparr>) s)) (\<lambda>s1.
              Ok (int newfd, s1))))"

section \<open>Unmapping\<close>

text \<open>The file of a mapping, for an array access \<^verbatim>\<open>ofile[fd]\<close> that the code does not guard.\<close>

definition wm_file :: "proc \<Rightarrow> nat \<Rightarrow> nat option result" where
  "wm_file p i =
     (let fd = wm_desc p i in
      if fd < 0 \<or> fd \<ge> int NOFILE then UB ''ofile out of bounds'' else Ok (p_ofile p ! nat fd))"

fun unmap_loop :: "nat \<Rightarrow> nat \<Rightarrow> u32 \<Rightarrow> u32 \<Rightarrow> nat \<Rightarrow> 'a kstate_scheme \<Rightarrow> (bool \<times> 'a kstate_scheme) result" where
  "unmap_loop 0 p a e i s = NoFuel"
| "unmap_loop (Suc fuel) p a e i s =
     (if \<not> a < e then Ok (True, s)
      else
        let x = proc_at s p; (pte, s1) = walkpgdir (p_pgdir x) a False s in
        if pte = 0 then unmap_loop fuel p (PGADDR (PDX a + 1) 0 0 - PGSIZE + PGSIZE) e i s1
        else if ld32 (heap s1) pte AND PTE_P \<noteq> 0 then
          let pa = PTE_ADDR (ld32 (heap s1) pte); v = P2V pa in
          if pa = 0 then Panic ''kfree''
          else
            bindr (if wm_fb x i \<noteq> 0 then
                     bindr (wm_file x i) (\<lambda>fo.
                     case fo of
                       None \<Rightarrow> Ok (False, s1)
                     | Some f \<Rightarrow>
                         bindr (filewrite f (ld_bytes (heap s1) v 4096)
                                 (upd_file f (\<lambda>y. y\<lparr>f_off := a - wm_a x i\<rparr>) s1)) (\<lambda>(r, s2).
                         Ok (\<not> r < 0, s2)))
                   else Ok (True, s1)) (\<lambda>(ok, s2).
            if \<not> ok then Ok (False, s2)
            else
              bindr (if is_child (p_wmapInfoExtra (proc_at s2 p)) = 0 then kfree v s2 else Ok s2) (\<lambda>s3.
              unmap_loop fuel p (a + PGSIZE) e i (s3\<lparr>heap := st32 (heap s3) pte 0\<rparr>)))
        else unmap_loop fuel p (a + PGSIZE) e i s1)"

definition dellocateAndUnmap :: "nat \<Rightarrow> u32 \<Rightarrow> int \<Rightarrow> nat \<Rightarrow> 'a kstate_scheme \<Rightarrow> (int \<times> 'a kstate_scheme) result" where
  "dellocateAndUnmap p addr len i s =
     bindr (if wm_loaded (proc_at s p) i > 0
            then unmap_loop 0x100001 p addr (addr + word_of_int len) i s else Ok (True, s)) (\<lambda>(ok, s1).
     if \<not> ok then Ok (-1, s1)
     else
       let (r, s2) = updateWmap p 0 (-1) 0 0 (-1) (wm_total (proc_at s1 p) - 1) (int i) s1
       in Ok (if r \<noteq> 0 then -1 else 0, s2))"

section \<open>Allocating\<close>

fun allocate_loop :: "nat \<Rightarrow> nat \<Rightarrow> u32 \<Rightarrow> u32 \<Rightarrow> nat \<Rightarrow> 'a kstate_scheme \<Rightarrow> (int \<times> 'a kstate_scheme) result" where
  "allocate_loop 0 p a e i s = NoFuel"
| "allocate_loop (Suc fuel) p a e i s =
     (if \<not> a < e then Ok (0, s)
      else
        let (m, s1) = kalloc s in
        if m = 0 then bindr (dellocateAndUnmap p e (sint a) i s1) (\<lambda>(_, s2). Ok (-1, s2))
        else
          let s2 = s1\<lparr>heap := memset (heap s1) m 0 PGSIZE\<rparr>; x = proc_at s2 p in
          bindr (if wm_fb x i \<noteq> 0 then
                   with_myproc s2 (\<lambda>c me.
                   bindr (let fd = wm_desc x i in
                          if fd < 0 \<or> fd \<ge> int NOFILE then UB ''ofile out of bounds'' else Ok (p_ofile me ! nat fd)) (\<lambda>fo.
                   case fo of
                     None \<Rightarrow> Ok (False, s2)
                   | Some f \<Rightarrow>
                       let ip = f_ip (file_at s2 f) in
                       bindr (ilock ip s2) (\<lambda>s3.
                       bindr (readi ip (a - wm_a x i) PGSIZE s3) (\<lambda>(r, bs, s4).
                       let s5 = s4\<lparr>heap := st_bytes (heap s4) m bs\<rparr> in
                       if r = 0 then Ok (False, s5)
                       else bindr (iunlock ip s5) (\<lambda>s6. Ok (True, s6))))))
                 else Ok (True, s2)) (\<lambda>(ok, s3).
          if \<not> ok then Ok (-1, s3)
          else
            bindr (mappages (p_pgdir (proc_at s3 p)) a PGSIZE (V2P m) ((PTE_W OR PTE_U) OR PTE_P) s3) (\<lambda>(r, s4).
            if r < 0 then
              bindr (kfree m s4) (\<lambda>s5.
              bindr (dellocateAndUnmap p e (sint a) i s5) (\<lambda>(_, s6). Ok (-1, s6)))
            else
              let y = proc_at s4 p;
                  (u, s5) = updateWmap p (wm_a y i) (wm_len y i) (wm_loaded y i + 1) (wm_fb y i) (wm_desc y i) (wm_total y) (int i) s4
              in if u \<noteq> 0 then Ok (-1, s5) else allocate_loop fuel p (a + PGSIZE) e i s5)))"

definition allocateAndMap :: "nat \<Rightarrow> u32 \<Rightarrow> int \<Rightarrow> nat \<Rightarrow> 'a kstate_scheme \<Rightarrow> (int \<times> 'a kstate_scheme) result" where
  "allocateAndMap p addr len i s =
     (let a = PGROUNDDOWN addr; e = a + PGROUNDUP (word_of_int len) in
      if e \<ge> KERNBASE then Ok (-1, s)
      else allocate_loop 0x100001 p a e i s)"

section \<open>Fork\<close>

fun copy_pages :: "nat \<Rightarrow> u32 \<Rightarrow> u32 \<Rightarrow> u32 \<Rightarrow> u32 \<Rightarrow> 'a machine_scheme \<Rightarrow> (int \<times> 'a machine_scheme) result" where
  "copy_pages 0 ppg cpg a e s = NoFuel"
| "copy_pages (Suc fuel) ppg cpg a e s =
     (if \<not> a < e then Ok (0, s)
      else
        let (pte, s1) = walkpgdir ppg a False s in
        if pte = 0 then copy_pages fuel ppg cpg (a + PGSIZE) e s1
        else if ld32 (heap s1) pte AND PTE_P \<noteq> 0 then
          let pa = PTE_ADDR (ld32 (heap s1) pte); prm = PTE_FLAGS (ld32 (heap s1) pte) in
          if pa = 0 then Panic ''copyWmap: kfree''
          else
            bindr (mappages cpg a PGSIZE pa prm s1) (\<lambda>(r, s2).
            if r < 0 then Ok (-1, s2) else copy_pages fuel ppg cpg (a + PGSIZE) e s2)
        else copy_pages fuel ppg cpg (a + PGSIZE) e s1)"

primrec copyWmap_from :: "nat \<Rightarrow> nat \<Rightarrow> nat \<Rightarrow> nat \<Rightarrow> 'a pstate_scheme \<Rightarrow> (int \<times> 'a pstate_scheme) result" where
  "copyWmap_from par child i 0 s = Ok (0, s)"
| "copyWmap_from par child i (Suc k) s =
     (let x = proc_at s par in
      if slot_free x i then copyWmap_from par child (Suc i) k s
      else
        bindr (copy_pages 0x100001 (p_pgdir x) (p_pgdir (proc_at s child)) (wm_a x i)
                (wm_a x i + PGROUNDUP (word_of_int (wm_len x i))) s) (\<lambda>(r, s1).
        if r < 0 then Ok (-1, s1)
        else
          let (u, s2) = updateWmap child (wm_a x i) (wm_len x i) (wm_loaded x i) (wm_fb x i) (wm_desc x i) (wm_total x) (int i) s1
          in if u \<noteq> 0 then Ok (-1, s2) else copyWmap_from par child (Suc i) k s2))"

definition copyWmap :: "nat \<Rightarrow> nat \<Rightarrow> 'a pstate_scheme \<Rightarrow> (int \<times> 'a pstate_scheme) result" where
  "copyWmap par child s = copyWmap_from par child 0 MAX_WMMAP_INFO s"

section \<open>The system calls\<close>

text \<open>The scan of \<^verbatim>\<open>wmap\<close>: \<open>Some spot\<close> when no slot intersects and the table is not full.\<close>

primrec wmap_scan :: "proc \<Rightarrow> u32 \<Rightarrow> int \<Rightarrow> int \<Rightarrow> nat \<Rightarrow> nat \<Rightarrow> int option" where
  "wmap_scan p addr len spot i 0 = Some spot"
| "wmap_scan p addr len spot i (Suc k) =
     (if wm_total p = int MAX_WMMAP_INFO then None
      else if slot_free p i then wmap_scan p addr len (if spot = -1 then int i else spot) (Suc i) k
      else if vasIntersect addr len (wm_a p i) (wm_len p i) then None
      else wmap_scan p addr len spot (Suc i) k)"

definition wmap :: "u32 \<Rightarrow> int \<Rightarrow> u32 \<Rightarrow> int \<Rightarrow> 'a kstate_scheme \<Rightarrow> (u32 \<times> 'a kstate_scheme) result" where
  "wmap addr len flags fd s =
     (let fileBacked = (if flags AND MAP_ANONYMOUS \<noteq> 0 then 0 else 1) in
      bindr (if fd \<ge> 0 then duplicateFd fd s else Ok (-1, s)) (\<lambda>(fdToStore, s1).
      with_myproc s1 (\<lambda>i p.
      case wmap_scan p addr len (-1) 0 MAX_WMMAP_INFO of
        None \<Rightarrow> Ok (-1, s1)
      | Some spot \<Rightarrow>
          if spot = -1 then Ok (-1, s1)
          else
            let (u, s2) = updateWmap i addr len 0 fileBacked fdToStore (wm_total p + 1) spot s1
            in Ok (if u \<noteq> 0 then -1 else addr, s2))))"

primrec wunmap_scan :: "proc \<Rightarrow> u32 \<Rightarrow> nat \<Rightarrow> nat \<Rightarrow> nat option" where
  "wunmap_scan p addr i 0 = None"
| "wunmap_scan p addr i (Suc k) =
     (if slot_free p i then wunmap_scan p addr (Suc i) k
      else if wm_a p i = addr then Some i else wunmap_scan p addr (Suc i) k)"

definition wunmap :: "u32 \<Rightarrow> 'a kstate_scheme \<Rightarrow> (int \<times> 'a kstate_scheme) result" where
  "wunmap addr s = with_myproc s (\<lambda>i p.
     if wm_total p = 0 then Ok (0, s)
     else (case wunmap_scan p addr 0 MAX_WMMAP_INFO of
        None \<Rightarrow> Ok (-1, s)
      | Some k \<Rightarrow> bindr (dellocateAndUnmap i addr (wm_len p k) k s) (\<lambda>(r, s1). Ok (if r \<noteq> 0 then -1 else 0, s1))))"

definition va2pa :: "u32 \<Rightarrow> 'a pstate_scheme \<Rightarrow> u32 result" where
  "va2pa va s = with_myproc s (\<lambda>i p.
     let (pte, s1) = walkpgdir (p_pgdir p) va False s in
     if pte = 0 then Ok (-1)
     else if ld32 (heap s1) pte AND PTE_P \<noteq> 0 then
       let pa = PTE_ADDR (ld32 (heap s1) pte) in
       if pa = 0 then Panic ''kfree'' else Ok (pa OR (va AND (PGSIZE - 1)))
     else Ok (-1))"

text \<open>\<^verbatim>\<open>getwmapinfo\<close> fills the caller's structure with these fields.\<close>

definition getwmapinfo :: "'a pstate_scheme \<Rightarrow> (int \<times> wmapinfo) result" where
  "getwmapinfo s = with_myproc s (\<lambda>i p. Ok (0, p_wmapInfo p))"

section \<open>Page faults\<close>

primrec fault_scan :: "proc \<Rightarrow> u32 \<Rightarrow> nat \<Rightarrow> nat \<Rightarrow> nat option" where
  "fault_scan p a i 0 = None"
| "fault_scan p a i (Suc k) =
     (if slot_free p i then fault_scan p a (Suc i) k
      else if vasIntersect a 1 (wm_a p i) (wm_len p i) then Some i
      else fault_scan p a (Suc i) k)"

definition page_fault :: "u32 \<Rightarrow> 'a kstate_scheme \<Rightarrow> 'a kstate_scheme result" where
  "page_fault fault_addr s = with_myproc s (\<lambda>i p.
     if fault_addr < 0x60000000 \<or> fault_addr \<ge> 0x80000000 then
       bindr (handle_cow_fault p fault_addr s) (\<lambda>(han, s1).
       Ok (if han \<noteq> 0 then upd_proc i (\<lambda>p. p\<lparr>p_killed := 1\<rparr>) s1 else s1))
     else (case fault_scan p fault_addr 0 MAX_WMMAP_INFO of
        None \<Rightarrow> Ok s
      | Some k \<Rightarrow>
          bindr (allocateAndMap i fault_addr 4096 k s) (\<lambda>(r, s1).
          Ok (if r \<noteq> 0 then upd_proc i (\<lambda>p. p\<lparr>p_killed := 1\<rparr>) s1 else s1))))"

end
