(* ===== verification/Kcalls.thy ===== *)
theory Kcalls
  imports Wmap
begin

text \<open>
  The process life cycle with files and memory: \<^verbatim>\<open>fork\<close>, \<^verbatim>\<open>exit\<close>, \<^verbatim>\<open>userinit\<close> and the first return to user
  space (\<^verbatim>\<open>proc.c\<close>), and \<^verbatim>\<open>exec\<close> with \<^verbatim>\<open>loaduvm\<close> (\<^verbatim>\<open>exec.c\<close>, \<^verbatim>\<open>vm.c\<close>).  The parts that move a process between
  states are those of the process table.
\<close>

section \<open>Fork\<close>

primrec fork_files :: "nat \<Rightarrow> nat option list \<Rightarrow> nat \<Rightarrow> 'a kstate_scheme \<Rightarrow> 'a kstate_scheme result" where
  "fork_files np [] i s = Ok s"
| "fork_files np (fo # fs) i s =
     (case fo of
        None \<Rightarrow> fork_files np fs (Suc i) s
      | Some f \<Rightarrow>
          bindr (filedup f s) (\<lambda>s1.
          fork_files np fs (Suc i) (upd_proc np (\<lambda>p. p\<lparr>p_ofile := (p_ofile p)[i := Some f]\<rparr>) s1)))"

definition fork :: "'a kstate_scheme \<Rightarrow> (int \<times> 'a kstate_scheme) result" where
  "fork s = with_myproc s (\<lambda>cur c.
     let (r, s1) = allocproc s in
     case r of
       None \<Rightarrow> Ok (-1, s1)
     | Some np \<Rightarrow>
         bindr (copyuvm (p_pgdir c) (p_sz c) s1) (\<lambda>(d, s2).
         if d = 0 then
           bindr (kfree (p_kstack (proc_at s2 np)) (upd_proc np (\<lambda>p. p\<lparr>p_pgdir := 0\<rparr>) s2)) (\<lambda>s3.
           Ok (-1, upd_proc np (\<lambda>p. p\<lparr>p_kstack := 0, p_state := UNUSED\<rparr>) s3))
         else
           bindr (fork_files np (p_ofile c) 0 (lcr3 (V2P d) (lcr3 (V2P (p_pgdir c)) s2))) (\<lambda>s3.
           case p_cwd c of
             None \<Rightarrow> UB ''fork: no cwd''
           | Some cw \<Rightarrow>
               let s4 = upd_proc np (\<lambda>p. p\<lparr>p_cwd := Some cw\<rparr>) (snd (idup cw s3));
                   pid = p_pid (proc_at s4 np);
                   s5 = fork_publish cur np d s4
               in bindr (copyWmap cur np s5) (\<lambda>(w, s6).
                  if w \<noteq> 0 then
                    bindr (kfree (p_kstack (proc_at s6 np)) s6) (\<lambda>s7.
                    Ok (-1, upd_proc np (\<lambda>p. p\<lparr>p_kstack := 0, p_state := UNUSED\<rparr>) s7))
                  else Ok (pid, s6)))))"

section \<open>Exit\<close>

primrec exit_unmap :: "nat \<Rightarrow> nat \<Rightarrow> nat \<Rightarrow> 'a kstate_scheme \<Rightarrow> 'a kstate_scheme result" where
  "exit_unmap cur i 0 s = Ok s"
| "exit_unmap cur i (Suc k) s =
     (if slot_free (proc_at s cur) i then exit_unmap cur (Suc i) k s
      else bindr (wunmap (wm_a (proc_at s cur) i) s) (\<lambda>(_, s1). exit_unmap cur (Suc i) k s1))"

primrec exit_counts :: "u32 \<Rightarrow> u32 list \<Rightarrow> 'a machine_scheme \<Rightarrow> 'a machine_scheme" where
  "exit_counts pgdir [] s = s"
| "exit_counts pgdir (i # is) s =
     (let e = ld32 (heap s) (pgdir + 4 * i) in
      exit_counts pgdir is (if e AND PTE_P \<noteq> 0 then dec_count (PTE_ADDR e) s else s))"

primrec exit_files :: "nat \<Rightarrow> nat \<Rightarrow> nat \<Rightarrow> 'a kstate_scheme \<Rightarrow> 'a kstate_scheme result" where
  "exit_files cur fd 0 s = Ok s"
| "exit_files cur fd (Suc k) s =
     (case p_ofile (proc_at s cur) ! fd of
        None \<Rightarrow> exit_files cur (Suc fd) k s
      | Some f \<Rightarrow>
          bindr (fileclose f s) (\<lambda>s1.
          exit_files cur (Suc fd) k (upd_proc cur (\<lambda>p. p\<lparr>p_ofile := (p_ofile p)[fd := None]\<rparr>) s1)))"

definition exit :: "'a kstate_scheme \<Rightarrow> 'a kstate_scheme result" where
  "exit s = with_myproc s (\<lambda>cur c.
     if Some cur = initproc s then Panic ''init exiting''
     else
       bindr (exit_unmap cur 0 MAX_WMMAP_INFO s) (\<lambda>s1.
       let s2 = exit_counts (p_pgdir c) (map of_nat [0..<NPDENTRIES]) s1 in
       bindr (exit_files cur 0 NOFILE s2) (\<lambda>s3.
       bindr (begin_op s3) (\<lambda>s4.
       case p_cwd (proc_at s4 cur) of
         None \<Rightarrow> UB ''exit: no cwd''
       | Some cw \<Rightarrow>
           bindr (iput cw s4) (\<lambda>s5.
           bindr (end_op s5) (\<lambda>s6.
           exit_tail (upd_proc cur (\<lambda>p. p\<lparr>p_cwd := None\<rparr>) s6)))))))"

section \<open>The first process\<close>

definition set_name :: "u8 list \<Rightarrow> u8 list \<Rightarrow> u8 list" where
  "set_name src old = splice 0 (take 15 (takeWhile (\<lambda>c. c \<noteq> 0) src) @ [0]) old"

text \<open>\<open>init\<close> is the linked program image; \<^verbatim>\<open>allocproc\<close> is not checked.\<close>

definition userinit :: "u8 list \<Rightarrow> 'a kstate_scheme \<Rightarrow> 'a kstate_scheme result" where
  "userinit init s =
     (let (r, s1) = allocproc s in
      case r of
        None \<Rightarrow> UB ''userinit: null proc''
      | Some p \<Rightarrow>
          bindr (setupkvm (s1\<lparr>initproc := Some p\<rparr>)) (\<lambda>(d, s2).
          if d = 0 then Panic ''userinit: out of memory?''
          else
            bindr (inituvm d init (upd_proc p (\<lambda>x. x\<lparr>p_pgdir := d\<rparr>) s2)) (\<lambda>s3.
            let s4 = upd_proc p (\<lambda>x. x\<lparr>p_sz := PGSIZE,
                  p_tf := zero_trapframe\<lparr>tf_cs := 0x1b, tf_ds := 0x23, tf_es := 0x23, tf_ss := 0x23,
                    tf_eflags := 0x200, tf_esp := PGSIZE, tf_eip := 0\<rparr>,
                  p_name := set_name [0x69, 0x6e, 0x69, 0x74, 0x63, 0x6f, 0x64, 0x65] (p_name x)\<rparr>) s3
            in bindr (namei [0x2f] s4) (\<lambda>(cw, s5).
               Ok (upd_proc p (\<lambda>x. x\<lparr>p_cwd := cw, p_state := RUNNABLE\<rparr>) s5)))))"

text \<open>The first process to run initialises the file system; \<open>first\<close> is the static flag.\<close>

definition forkret :: "bool \<Rightarrow> 'a kstate_scheme \<Rightarrow> (bool \<times> 'a kstate_scheme) result" where
  "forkret first s =
     (if first then bindr (iinit ROOTDEV s) (\<lambda>s1. bindr (initlog ROOTDEV s1) (\<lambda>s2. Ok (False, s2)))
      else Ok (False, s))"

section \<open>Exec\<close>

fun loaduvm_loop :: "nat \<Rightarrow> u32 \<Rightarrow> u32 \<Rightarrow> nat \<Rightarrow> u32 \<Rightarrow> u32 \<Rightarrow> u32 \<Rightarrow> u32 \<Rightarrow> 'a kstate_scheme \<Rightarrow> (int \<times> 'a kstate_scheme) result" where
  "loaduvm_loop 0 pgdir addr ip offset sz flags i s = NoFuel"
| "loaduvm_loop (Suc fuel) pgdir addr ip offset sz flags i s =
     (if \<not> i < sz then Ok (0, s)
      else
        let (pte, s1) = walkpgdir pgdir (addr + i) False s in
        if pte = 0 then Panic ''loaduvm: address should exist''
        else
          let pa = PTE_ADDR (ld32 (heap s1) pte); n = (if sz - i < PGSIZE then sz - i else PGSIZE) in
          bindr (readi ip (offset + i) n s1) (\<lambda>(r, bs, s2).
          let s3 = s2\<lparr>heap := st_bytes (heap s2) (P2V pa) bs\<rparr> in
          if r \<noteq> sint n then Ok (-1, s3)
          else
            let e1 = ld32 (heap s3) pte AND NOT PTE_W;
                e2 = (if flags AND PTE_W \<noteq> 0 then e1 OR PTE_W else e1);
                s4 = lcr3 (V2P pgdir) (s3\<lparr>heap := st32 (heap s3) pte e2\<rparr>)
            in loaduvm_loop fuel pgdir addr ip offset sz flags (i + PGSIZE) s4))"

definition loaduvm :: "u32 \<Rightarrow> u32 \<Rightarrow> nat \<Rightarrow> u32 \<Rightarrow> u32 \<Rightarrow> u32 \<Rightarrow> 'a kstate_scheme \<Rightarrow> (int \<times> 'a kstate_scheme) result" where
  "loaduvm pgdir addr ip offset sz flags s =
     (if addr mod PGSIZE \<noteq> 0 then Panic ''loaduvm: addr must be page aligned''
      else loaduvm_loop 0x100001 pgdir addr ip offset sz flags 0 s)"

text \<open>Loading the segments; \<open>None\<close> is the jump to \<^verbatim>\<open>bad\<close>.\<close>

primrec exec_load :: "nat \<Rightarrow> u32 \<Rightarrow> nat \<Rightarrow> u32 \<Rightarrow> u32 \<Rightarrow> 'a kstate_scheme \<Rightarrow> (u32 option \<times> 'a kstate_scheme) result" where
  "exec_load 0 pgdir ip off sz s = Ok (Some sz, s)"
| "exec_load (Suc k) pgdir ip off sz s =
     bindr (readi ip off 32 s) (\<lambda>(r, ph, s1).
     if r \<noteq> 32 then Ok (None, s1)
     else if rd32 ph 0 \<noteq> 1 then exec_load k pgdir ip (off + 32) sz s1
     else
       let poff = rd32 ph 4; vaddr = rd32 ph 8; filesz = rd32 ph 16; memsz = rd32 ph 20; flags = rd32 ph 24 in
       if memsz < filesz then Ok (None, s1)
       else if vaddr + memsz < vaddr then Ok (None, s1)
       else
         bindr (allocuvm pgdir sz (vaddr + memsz) s1) (\<lambda>(sz', s2).
         if sz' = 0 then Ok (None, s2)
         else if vaddr mod PGSIZE \<noteq> 0 then Ok (None, s2)
         else
           bindr (loaduvm pgdir vaddr ip poff filesz flags s2) (\<lambda>(l, s3).
           if l < 0 then Ok (None, s3) else exec_load k pgdir ip (off + 32) sz' s3)))"

text \<open>Pushing the argument strings; the result is the stack pointer and their addresses.\<close>

fun exec_args :: "u32 \<Rightarrow> u8 list list \<Rightarrow> nat \<Rightarrow> u32 \<Rightarrow> u32 list \<Rightarrow> 'a machine_scheme \<Rightarrow> ((u32 \<times> u32 list) option \<times> 'a machine_scheme) result" where
  "exec_args pgdir [] argc sp us s = Ok (Some (sp, us), s)"
| "exec_args pgdir (a # as) argc sp us s =
     (if argc \<ge> 32 then Ok (None, s)
      else
        let sp' = (sp - (of_nat (length a) + 1)) AND NOT 3 in
        bindr (copyout pgdir sp' (a @ [0]) s) (\<lambda>(r, s1).
        if r < 0 then Ok (None, s1)
        else exec_args pgdir as (Suc argc) sp' (us @ [sp']) s1))"

definition exec_bad :: "u32 \<Rightarrow> nat option \<Rightarrow> 'a kstate_scheme \<Rightarrow> (int \<times> 'a kstate_scheme) result" where
  "exec_bad pgdir ip s =
     bindr (if pgdir \<noteq> 0 then freevm pgdir s else Ok s) (\<lambda>s1.
     bindr (case ip of None \<Rightarrow> Ok s1 | Some i \<Rightarrow> bindr (iunlockput i s1) end_op) (\<lambda>s2.
     Ok (-1, s2)))"

text \<open>The last element of the path names the process.\<close>

definition path_last :: "u8 list \<Rightarrow> u8 list" where
  "path_last path = rev (takeWhile (\<lambda>c. c \<noteq> 0x2f) (rev path))"

definition exec_commit :: "u32 \<Rightarrow> u32 \<Rightarrow> u32 \<Rightarrow> u32 \<Rightarrow> u8 list \<Rightarrow> 'a kstate_scheme \<Rightarrow> (int \<times> 'a kstate_scheme) result" where
  "exec_commit pgdir sz sp entry path s = with_myproc s (\<lambda>i p.
     let oldpgdir = p_pgdir p;
         s1 = upd_proc i (\<lambda>x. x\<lparr>p_name := set_name (path_last path) (p_name x), p_pgdir := pgdir, p_sz := sz,
                p_tf := (p_tf x)\<lparr>tf_eip := entry, tf_esp := sp\<rparr>\<rparr>) s
     in bindr (switchuvm (proc_at s1 i) s1) (\<lambda>s2.
        bindr (freevm oldpgdir s2) (\<lambda>s3. Ok (0, s3))))"

definition exec_stack :: "u32 \<Rightarrow> u32 \<Rightarrow> u32 \<Rightarrow> u8 list \<Rightarrow> u8 list list \<Rightarrow> 'a kstate_scheme \<Rightarrow> (int \<times> 'a kstate_scheme) result" where
  "exec_stack pgdir sz entry path argv s =
     (let sz0 = PGROUNDUP sz in
      bindr (allocuvm pgdir sz0 (sz0 + 2 * PGSIZE) s) (\<lambda>(sz1, s1).
      if sz1 = 0 then exec_bad pgdir None s1
      else
        bindr (clearpteu pgdir (sz1 - 2 * PGSIZE) s1) (\<lambda>s2.
        bindr (exec_args pgdir argv 0 sz1 [] s2) (\<lambda>(r, s3).
        case r of
          None \<Rightarrow> exec_bad pgdir None s3
        | Some (sp, us) \<Rightarrow>
            let argc = of_nat (length argv);
                ustack = [0xffffffff, argc, sp - (argc + 1) * 4] @ us @ [0];
                sp' = sp - (3 + argc + 1) * 4
            in bindr (copyout pgdir sp' (concat (map bytes32 ustack)) s3) (\<lambda>(c, s4).
               if c < 0 then exec_bad pgdir None s4
               else exec_commit pgdir sz1 sp' entry path s4)))))"

definition exec :: "u8 list \<Rightarrow> u8 list list \<Rightarrow> 'a kstate_scheme \<Rightarrow> (int \<times> 'a kstate_scheme) result" where
  "exec path argv s =
     bindr (begin_op s) (\<lambda>s0.
     bindr (namei path s0) (\<lambda>(r, s1).
     case r of
       None \<Rightarrow> bindr (end_op s1) (\<lambda>s2. Ok (-1, s2))
     | Some ip \<Rightarrow>
         bindr (ilock ip s1) (\<lambda>s2.
         bindr (readi ip 0 52 s2) (\<lambda>(k, elf, s3).
         if k \<noteq> 52 then exec_bad 0 (Some ip) s3
         else if rd32 elf 0 \<noteq> 0x464C457F then exec_bad 0 (Some ip) s3
         else
           bindr (setupkvm s3) (\<lambda>(pgdir, s4).
           if pgdir = 0 then exec_bad 0 (Some ip) s4
           else
             bindr (exec_load (unat (rd16 elf 44)) pgdir ip (rd32 elf 28) 0 s4) (\<lambda>(l, s5).
             case l of
               None \<Rightarrow> exec_bad pgdir (Some ip) s5
             | Some sz \<Rightarrow>
                 bindr (iunlockput ip s5) (\<lambda>s6.
                 bindr (end_op s6) (\<lambda>s7.
                 exec_stack pgdir sz (rd32 elf 24) path argv s7))))))))"

end
