(* ===== verification/Syscall.thy ===== *)
theory Syscall
  imports Kcalls
begin

text \<open>
  Fetching system-call arguments from user memory (\<^verbatim>\<open>syscall.c\<close>).  The kernel reads and writes user
  addresses through the page table of the current process: \<open>uload\<close> and \<open>ustore\<close> are these accesses.  A
  store to a page that is not writable faults, and the handler makes a private copy of a
  copy-on-write page before the store is repeated.  The checks of \<^verbatim>\<open>fetchint\<close>, \<^verbatim>\<open>fetchstr\<close> and \<^verbatim>\<open>argptr\<close> keep
  every access below the size of the process.
\<close>

section \<open>User memory\<close>

definition uload :: "u32 \<Rightarrow> u32 \<Rightarrow> 'a machine_scheme \<Rightarrow> u8 result" where
  "uload pgdir va s =
     (let (pte, s1) = walkpgdir pgdir va False s; e = ld32 (heap s1) pte in
      if pte = 0 \<or> e AND PTE_P = 0 then UB ''fault on a user address''
      else Ok (heap s1 (P2V (PTE_ADDR e) + (va AND (PGSIZE - 1)))))"

primrec uloads :: "u32 \<Rightarrow> u32 \<Rightarrow> nat \<Rightarrow> 'a machine_scheme \<Rightarrow> u8 list result" where
  "uloads pgdir va 0 s = Ok []"
| "uloads pgdir va (Suc n) s =
     bindr (uload pgdir va s) (\<lambda>b. bindr (uloads pgdir (va + 1) n s) (\<lambda>bs. Ok (b # bs)))"

definition ustore :: "u32 \<Rightarrow> u8 \<Rightarrow> 'a kstate_scheme \<Rightarrow> 'a kstate_scheme result" where
  "ustore va b s = with_myproc s (\<lambda>i p.
     let (pte, s1) = walkpgdir (p_pgdir p) va False s; e = ld32 (heap s1) pte in
     bindr (if pte \<noteq> 0 \<and> e AND PTE_P \<noteq> 0 \<and> e AND PTE_W \<noteq> 0 then Ok s1 else page_fault va s1) (\<lambda>s2.
     let (pte2, s3) = walkpgdir (p_pgdir p) va False s2; e2 = ld32 (heap s3) pte2 in
     if pte2 \<noteq> 0 \<and> e2 AND PTE_P \<noteq> 0 \<and> e2 AND PTE_W \<noteq> 0 then
       Ok (s3\<lparr>heap := (heap s3)(P2V (PTE_ADDR e2) + (va AND (PGSIZE - 1)) := b)\<rparr>)
     else UB ''fault on a user address''))"

primrec ustores :: "u32 \<Rightarrow> u8 list \<Rightarrow> 'a kstate_scheme \<Rightarrow> 'a kstate_scheme result" where
  "ustores va [] s = Ok s"
| "ustores va (b # bs) s = bindr (ustore va b s) (ustores (va + 1) bs)"

section \<open>Arguments\<close>

text \<open>\<open>None\<close> is the return value -1.\<close>

definition fetchint :: "u32 \<Rightarrow> 'a pstate_scheme \<Rightarrow> u32 option result" where
  "fetchint addr s = with_myproc s (\<lambda>i p.
     if addr \<ge> p_sz p \<or> addr + 4 > p_sz p then Ok None
     else bindr (uloads (p_pgdir p) addr 4 s) (\<lambda>bs. Ok (Some (rd32 bs 0))))"

primrec fetchstr_from :: "u32 \<Rightarrow> u32 \<Rightarrow> nat \<Rightarrow> 'a pstate_scheme \<Rightarrow> u8 list option result" where
  "fetchstr_from pgdir a 0 s = Ok None"
| "fetchstr_from pgdir a (Suc n) s =
     bindr (uload pgdir a s) (\<lambda>c.
     if c = 0 then Ok (Some [])
     else bindr (fetchstr_from pgdir (a + 1) n s) (\<lambda>r. Ok (map_option (Cons c) r)))"

text \<open>The string at a user address; the C function returns its length and the address.\<close>

definition fetchstr :: "u32 \<Rightarrow> 'a pstate_scheme \<Rightarrow> u8 list option result" where
  "fetchstr addr s = with_myproc s (\<lambda>i p.
     if addr \<ge> p_sz p then Ok None
     else fetchstr_from (p_pgdir p) addr (unat (p_sz p) - unat addr) s)"

definition argint :: "nat \<Rightarrow> 'a pstate_scheme \<Rightarrow> u32 option result" where
  "argint n s = with_myproc s (\<lambda>i p. fetchint (tf_esp (p_tf p) + 4 + 4 * of_nat n) s)"

definition argptr :: "nat \<Rightarrow> int \<Rightarrow> 'a pstate_scheme \<Rightarrow> u32 option result" where
  "argptr n sz s = with_myproc s (\<lambda>i p.
     bindr (argint n s) (\<lambda>r. case r of
       None \<Rightarrow> Ok None
     | Some a \<Rightarrow>
         if sz < 0 \<or> a \<ge> p_sz p \<or> a + word_of_int sz > p_sz p then Ok None else Ok (Some a)))"

definition argstr :: "nat \<Rightarrow> 'a pstate_scheme \<Rightarrow> u8 list option result" where
  "argstr n s = bindr (argint n s) (\<lambda>r. case r of None \<Rightarrow> Ok None | Some a \<Rightarrow> fetchstr a s)"

section \<open>The checks are sufficient\<close>

lemma argptr_ok:
  assumes r: "argptr n sz s = Ok (Some a)" and p: "myproc s = Some i" and psz: "p_sz (proc_at s i) \<le> KERNBASE"
    and lt: "sz < 2 ^ 31"
  shows "0 \<le> sz" "unat a + nat sz \<le> unat (p_sz (proc_at s i))"
proof -
  have c: "0 \<le> sz" "a < p_sz (proc_at s i)" "a + word_of_int sz \<le> p_sz (proc_at s i)"
  proof -
    let ?bad = "\<lambda>x. sz < 0 \<or> x \<ge> p_sz (proc_at s i) \<or> x + word_of_int sz > p_sz (proc_at s i)"
    have "bindr (argint n s) (\<lambda>r. case r of None \<Rightarrow> Ok None | Some x \<Rightarrow> if ?bad x then Ok None else Ok (Some x)) = Ok (Some a)"
      using r p by (simp only: argptr_def with_myproc_def option.case)
    then obtain y where "(case y of None \<Rightarrow> Ok None | Some x \<Rightarrow> if ?bad x then Ok None else Ok (Some x)) = Ok (Some a)"
      unfolding bindr_Ok_iff by blast
    then have "\<not> ?bad a" by (cases y) (simp, simp only: option.case split: if_split_asm, simp_all)
    then show "0 \<le> sz" "a < p_sz (proc_at s i)" "a + word_of_int sz \<le> p_sz (proc_at s i)" by (simp_all add: not_le not_less)
  qed
  have u: "unat (word_of_int sz :: u32) = nat sz"
    using c(1) lt by (simp add: unsigned_of_int take_bit_int_eq_self)
  have "unat a < 2147483648" using c(2) psz by (simp add: word_less_nat_alt word_le_nat_alt)
  then have "unat (a + word_of_int sz) = unat a + nat sz" using lt by (simp add: unat_add32 u)
  then show "0 \<le> sz" "unat a + nat sz \<le> unat (p_sz (proc_at s i))"
    using c by (simp_all add: word_le_nat_alt)
qed

lemma fetchint_ok:
  assumes "fetchint addr s = Ok (Some v)" "myproc s = Some i" "p_sz (proc_at s i) \<le> KERNBASE"
  shows "unat addr + 4 \<le> unat (p_sz (proc_at s i))"
proof -
  have c: "addr < p_sz (proc_at s i)" "addr + 4 \<le> p_sz (proc_at s i)"
    using assms(1,2) by (auto simp: fetchint_def with_myproc_def split: if_splits)
  have "unat addr < 2147483648" using c(1) assms(3) by (simp add: word_less_nat_alt word_le_nat_alt)
  then have "unat (addr + 4) = unat addr + 4" by (simp add: unat_add32)
  then show ?thesis using c(2) by (simp add: word_le_nat_alt)
qed

lemma fetchstr_from_ok:
  "fetchstr_from pgdir a n s = Ok (Some cs) \<Longrightarrow> length cs < n \<and> 0 \<notin> set cs"
proof (induction n arbitrary: a cs)
  case (Suc n)
  obtain c where c: "uload pgdir a s = Ok c" using Suc.prems by (auto simp: bindr_Ok_iff)
  show ?case
  proof (cases "c = 0")
    case False
    then obtain ds where "fetchstr_from pgdir (a + 1) n s = Ok (Some ds)" "cs = c # ds"
      using Suc.prems c by (auto simp: bindr_Ok_iff)
    then show ?thesis using Suc.IH False by force
  qed (use Suc.prems c in simp)
qed simp

lemma fetchstr_ok:
  assumes "fetchstr addr s = Ok (Some cs)" "myproc s = Some i"
  shows "unat addr + length cs < unat (p_sz (proc_at s i))" "0 \<notin> set cs"
proof -
  have a: "addr < p_sz (proc_at s i)" "fetchstr_from (p_pgdir (proc_at s i)) addr (unat (p_sz (proc_at s i)) - unat addr) s = Ok (Some cs)"
    using assms by (auto simp: fetchstr_def with_myproc_def split: if_splits)
  show "unat addr + length cs < unat (p_sz (proc_at s i))" "0 \<notin> set cs"
    using fetchstr_from_ok [OF a(2)] a(1) by (auto simp: word_less_nat_alt)
qed

end
