(* ===== verification/Sysfile.thy ===== *)
theory Sysfile
  imports Syscall
begin

text \<open>
  The file-system calls (\<^verbatim>\<open>sysfile.c\<close>), each the whole handler: its arguments, the transaction around it,
  and every early return.  An argument that cannot be fetched makes the call return -1.
\<close>

text \<open>Fetching an argument or returning -1.\<close>

definition arg :: "'b option result \<Rightarrow> 'a \<Rightarrow> ('b \<Rightarrow> (int \<times> 'a) result) \<Rightarrow> (int \<times> 'a) result" where
  "arg m s f = bindr m (\<lambda>r. case r of None \<Rightarrow> Ok (-1, s) | Some x \<Rightarrow> f x)"

definition argfd :: "nat \<Rightarrow> 'a kstate_scheme \<Rightarrow> (int \<times> nat) option result" where
  "argfd n s = with_myproc s (\<lambda>i p.
     bindr (argint n s) (\<lambda>r. case r of
       None \<Rightarrow> Ok None
     | Some w \<Rightarrow> Ok (map_option (\<lambda>f. (sint w, f)) (fd_file (sint w) p))))"

definition clear_fd :: "int \<Rightarrow> 'a kstate_scheme \<Rightarrow> 'a kstate_scheme result" where
  "clear_fd fd s = with_myproc s (\<lambda>i p. Ok (upd_proc i (\<lambda>p. p\<lparr>p_ofile := (p_ofile p)[nat fd := None]\<rparr>) s))"

definition sys_dup :: "'a kstate_scheme \<Rightarrow> (int \<times> 'a kstate_scheme) result" where
  "sys_dup s =
     arg (argfd 0 s) s (\<lambda>(_, f).
     bindr (fdalloc f s) (\<lambda>(fd, s1).
     if fd < 0 then Ok (-1, s1) else bindr (filedup f s1) (\<lambda>s2. Ok (fd, s2))))"

definition sys_read :: "'a kstate_scheme \<Rightarrow> (int \<times> 'a kstate_scheme) result" where
  "sys_read s =
     arg (argfd 0 s) s (\<lambda>(_, f).
     arg (argint 2 s) s (\<lambda>n.
     arg (argptr 1 (sint n) s) s (\<lambda>p.
     bindr (fileread f n s) (\<lambda>(r, bs, s1).
     bindr (ustores p bs s1) (\<lambda>s2. Ok (r, s2))))))"

definition sys_write :: "'a kstate_scheme \<Rightarrow> (int \<times> 'a kstate_scheme) result" where
  "sys_write s =
     arg (argfd 0 s) s (\<lambda>(_, f).
     arg (argint 2 s) s (\<lambda>n.
     arg (argptr 1 (sint n) s) s (\<lambda>p.
     with_myproc s (\<lambda>i x.
     bindr (uloads (p_pgdir x) p (nat (sint n)) s) (\<lambda>bs. filewrite f bs s)))))"

definition sys_close :: "'a kstate_scheme \<Rightarrow> (int \<times> 'a kstate_scheme) result" where
  "sys_close s =
     arg (argfd 0 s) s (\<lambda>(fd, f).
     bindr (clear_fd fd s) (\<lambda>s1.
     bindr (fileclose f s1) (\<lambda>s2. Ok (0, s2))))"

text \<open>\<^verbatim>\<open>struct stat\<close> occupies 20 bytes: the two 16-bit fields are padded to words.\<close>

definition stat_bytes :: "stat \<Rightarrow> u8 list" where
  "stat_bytes st = bytes16 (st_type st) @ [0, 0] @ bytes32 (st_dev st) @ bytes32 (st_ino st)
     @ bytes16 (st_nlink st) @ [0, 0] @ bytes32 (st_size st)"

definition sys_fstat :: "'a kstate_scheme \<Rightarrow> (int \<times> 'a kstate_scheme) result" where
  "sys_fstat s =
     arg (argfd 0 s) s (\<lambda>(_, f).
     arg (argptr 1 20 s) s (\<lambda>a.
     bindr (filestat f s) (\<lambda>(r, s1). case r of
       None \<Rightarrow> Ok (-1, s1)
     | Some st \<Rightarrow> bindr (ustores a (stat_bytes st) s1) (\<lambda>s2. Ok (0, s2)))))"

definition link_bad :: "nat \<Rightarrow> 'a kstate_scheme \<Rightarrow> (int \<times> 'a kstate_scheme) result" where
  "link_bad ip s =
     bindr (ilock ip s) (\<lambda>s1.
     bindr (iupdate ip (upd_inode ip (\<lambda>x. x\<lparr>i_nlink := i_nlink x - 1\<rparr>) s1)) (\<lambda>s2.
     bindr (iunlockput ip s2) (\<lambda>s3.
     bindr (end_op s3) (\<lambda>s4. Ok (-1, s4)))))"

definition sys_link :: "'a kstate_scheme \<Rightarrow> (int \<times> 'a kstate_scheme) result" where
  "sys_link s =
     arg (argstr 0 s) s (\<lambda>old.
     arg (argstr 1 s) s (\<lambda>new.
     bindr (begin_op s) (\<lambda>s0.
     bindr (namei old s0) (\<lambda>(r, s1). case r of
       None \<Rightarrow> bindr (end_op s1) (\<lambda>s2. Ok (-1, s2))
     | Some ip \<Rightarrow>
         bindr (ilock ip s1) (\<lambda>s2.
         if i_type (inode_at s2 ip) = T_DIR then
           bindr (iunlockput ip s2) (\<lambda>s3. bindr (end_op s3) (\<lambda>s4. Ok (-1, s4)))
         else
           bindr (iupdate ip (upd_inode ip (\<lambda>x. x\<lparr>i_nlink := i_nlink x + 1\<rparr>) s2)) (\<lambda>s3.
           bindr (iunlock ip s3) (\<lambda>s4.
           bindr (nameiparent new s4) (\<lambda>(d, name, s5). case d of
             None \<Rightarrow> link_bad ip s5
           | Some dp \<Rightarrow>
               bindr (ilock dp s5) (\<lambda>s6.
               bindr (if i_dev (inode_at s6 dp) \<noteq> i_dev (inode_at s6 ip) then Ok (-1, s6)
                      else dirlink dp name (i_inum (inode_at s6 ip)) s6) (\<lambda>(l, s7).
               bindr (iunlockput dp s7) (\<lambda>s8.
               if l < 0 then link_bad ip s8
               else
                 bindr (iput ip s8) (\<lambda>s9.
                 bindr (end_op s9) (\<lambda>s10. Ok (0, s10))))))))))))))"

primrec isdirempty_from :: "nat \<Rightarrow> u32 \<Rightarrow> nat \<Rightarrow> 'a fstate_scheme \<Rightarrow> (bool \<times> 'a fstate_scheme) result" where
  "isdirempty_from dp off 0 s = Ok (True, s)"
| "isdirempty_from dp off (Suc k) s =
     bindr (readi dp off 16 s) (\<lambda>(r, de, s1).
     if r \<noteq> 16 then Panic ''isdirempty: readi''
     else if de_inum de \<noteq> 0 then Ok (False, s1)
     else isdirempty_from dp (off + 16) k s1)"

definition isdirempty :: "nat \<Rightarrow> 'a fstate_scheme \<Rightarrow> (bool \<times> 'a fstate_scheme) result" where
  "isdirempty dp s = isdirempty_from dp 32 (dir_entries (i_size (inode_at s dp)) - 2) s"

definition unlink_bad :: "nat \<Rightarrow> 'a kstate_scheme \<Rightarrow> (int \<times> 'a kstate_scheme) result" where
  "unlink_bad dp s = bindr (iunlockput dp s) (\<lambda>s1. bindr (end_op s1) (\<lambda>s2. Ok (-1, s2)))"

definition sys_unlink :: "'a kstate_scheme \<Rightarrow> (int \<times> 'a kstate_scheme) result" where
  "sys_unlink s =
     arg (argstr 0 s) s (\<lambda>path.
     bindr (begin_op s) (\<lambda>s0.
     bindr (nameiparent path s0) (\<lambda>(d, name, s1). case d of
       None \<Rightarrow> bindr (end_op s1) (\<lambda>s2. Ok (-1, s2))
     | Some dp \<Rightarrow>
         bindr (ilock dp s1) (\<lambda>s2.
         if namecmp name [0x2e] = 0 \<or> namecmp name [0x2e, 0x2e] = 0 then unlink_bad dp s2
         else
           bindr (dirlookup dp name s2) (\<lambda>(r, s3). case r of
             None \<Rightarrow> unlink_bad dp s3
           | Some (ip, off) \<Rightarrow>
               bindr (ilock ip s3) (\<lambda>s4.
               if sint (i_nlink (inode_at s4 ip)) < 1 then Panic ''unlink: nlink < 1''
               else
                 bindr (if i_type (inode_at s4 ip) = T_DIR then isdirempty ip s4 else Ok (True, s4)) (\<lambda>(e, s5).
                 if \<not> e then bindr (iunlockput ip s5) (unlink_bad dp)
                 else
                   bindr (writei dp (replicate 16 0) off s5) (\<lambda>(w, s6).
                   if w \<noteq> 16 then Panic ''unlink: writei''
                   else
                     bindr (if i_type (inode_at s6 ip) = T_DIR
                            then iupdate dp (upd_inode dp (\<lambda>x. x\<lparr>i_nlink := i_nlink x - 1\<rparr>) s6) else Ok s6) (\<lambda>s7.
                     bindr (iunlockput dp s7) (\<lambda>s8.
                     bindr (iupdate ip (upd_inode ip (\<lambda>x. x\<lparr>i_nlink := i_nlink x - 1\<rparr>) s8)) (\<lambda>s9.
                     bindr (iunlockput ip s9) (\<lambda>s10.
                     bindr (end_op s10) (\<lambda>s11. Ok (0, s11))))))))))))))"

section \<open>Creating\<close>

definition create :: "u8 list \<Rightarrow> u16 \<Rightarrow> u16 \<Rightarrow> u16 \<Rightarrow> 'a fstate_scheme \<Rightarrow> (nat option \<times> 'a fstate_scheme) result" where
  "create path ty major minor s =
     bindr (nameiparent path s) (\<lambda>(d, name, s1). case d of
       None \<Rightarrow> Ok (None, s1)
     | Some dp \<Rightarrow>
         bindr (ilock dp s1) (\<lambda>s2.
         bindr (dirlookup dp name s2) (\<lambda>(r, s3). case r of
           Some (ip, _) \<Rightarrow>
             bindr (iunlockput dp s3) (\<lambda>s4.
             bindr (ilock ip s4) (\<lambda>s5.
             if ty = T_FILE \<and> i_type (inode_at s5 ip) = T_FILE then Ok (Some ip, s5)
             else bindr (iunlockput ip s5) (\<lambda>s6. Ok (None, s6))))
         | None \<Rightarrow>
             bindr (ialloc (i_dev (inode_at s3 dp)) ty s3) (\<lambda>(ip, s4).
             bindr (ilock ip s4) (\<lambda>s5.
             bindr (iupdate ip (upd_inode ip (\<lambda>x. x\<lparr>i_major := major, i_minor := minor, i_nlink := 1\<rparr>) s5)) (\<lambda>s6.
             bindr (if ty = T_DIR then
                      bindr (iupdate dp (upd_inode dp (\<lambda>x. x\<lparr>i_nlink := i_nlink x + 1\<rparr>) s6)) (\<lambda>s7.
                      bindr (dirlink ip [0x2e] (i_inum (inode_at s7 ip)) s7) (\<lambda>(a, s8).
                      if a < 0 then Panic ''create dots''
                      else
                        bindr (dirlink ip [0x2e, 0x2e] (i_inum (inode_at s8 dp)) s8) (\<lambda>(b, s9).
                        if b < 0 then Panic ''create dots'' else Ok s9)))
                    else Ok s6) (\<lambda>s10.
             bindr (dirlink dp name (i_inum (inode_at s10 ip)) s10) (\<lambda>(l, s11).
             if l < 0 then Panic ''create: dirlink''
             else bindr (iunlockput dp s11) (\<lambda>s12. Ok (Some ip, s12))))))))))"

definition open_inode :: "u8 list \<Rightarrow> u32 \<Rightarrow> 'a kstate_scheme \<Rightarrow> (nat option \<times> 'a kstate_scheme) result" where
  "open_inode path omode s =
     (if omode AND 0x200 \<noteq> 0 then create path T_FILE 0 0 s
      else
        bindr (namei path s) (\<lambda>(r, s1). case r of
          None \<Rightarrow> Ok (None, s1)
        | Some ip \<Rightarrow>
            bindr (ilock ip s1) (\<lambda>s2.
            if i_type (inode_at s2 ip) = T_DIR \<and> omode \<noteq> 0 then bindr (iunlockput ip s2) (\<lambda>s3. Ok (None, s3))
            else Ok (Some ip, s2))))"

definition sys_open :: "'a kstate_scheme \<Rightarrow> (int \<times> 'a kstate_scheme) result" where
  "sys_open s =
     arg (argstr 0 s) s (\<lambda>path.
     arg (argint 1 s) s (\<lambda>omode.
     bindr (begin_op s) (\<lambda>s0.
     bindr (open_inode path omode s0) (\<lambda>(r, s1). case r of
       None \<Rightarrow> bindr (end_op s1) (\<lambda>s2. Ok (-1, s2))
     | Some ip \<Rightarrow>
         let (fo, s2) = filealloc s1 in
         bindr (case fo of None \<Rightarrow> Ok (-1, s2) | Some f \<Rightarrow> fdalloc f s2) (\<lambda>(fd, s3).
         if fd < 0 then
           bindr (case fo of None \<Rightarrow> Ok s3 | Some f \<Rightarrow> fileclose f s3) (\<lambda>s4.
           bindr (iunlockput ip s4) (\<lambda>s5.
           bindr (end_op s5) (\<lambda>s6. Ok (-1, s6))))
         else
           bindr (iunlock ip s3) (\<lambda>s4.
           bindr (end_op s4) (\<lambda>s5.
           Ok (fd, upd_file (the fo) (\<lambda>x. x\<lparr>f_type := FD_INODE, f_ip := ip, f_off := 0,
                 f_readable := (omode AND 1 = 0), f_writable := (omode AND 1 \<noteq> 0 \<or> omode AND 2 \<noteq> 0)\<rparr>) s5))))))))"

text \<open>\<^verbatim>\<open>sys_mkdir\<close> and \<^verbatim>\<open>sys_mknod\<close> begin the transaction before they fetch their arguments.\<close>

definition create_node :: "u8 list option \<Rightarrow> u16 \<Rightarrow> u16 \<Rightarrow> u16 \<Rightarrow> 'a kstate_scheme \<Rightarrow> (int \<times> 'a kstate_scheme) result" where
  "create_node pa ty major minor s =
     bindr (case pa of None \<Rightarrow> Ok (None, s) | Some path \<Rightarrow> create path ty major minor s) (\<lambda>(r, s1). case r of
       None \<Rightarrow> bindr (end_op s1) (\<lambda>s2. Ok (-1, s2))
     | Some ip \<Rightarrow> bindr (iunlockput ip s1) (\<lambda>s2. bindr (end_op s2) (\<lambda>s3. Ok (0, s3))))"

definition sys_mkdir :: "'a kstate_scheme \<Rightarrow> (int \<times> 'a kstate_scheme) result" where
  "sys_mkdir s =
     bindr (begin_op s) (\<lambda>s0.
     bindr (argstr 0 s0) (\<lambda>pa. create_node pa T_DIR 0 0 s0))"

definition sys_mknod :: "'a kstate_scheme \<Rightarrow> (int \<times> 'a kstate_scheme) result" where
  "sys_mknod s =
     bindr (begin_op s) (\<lambda>s0.
     bindr (argstr 0 s0) (\<lambda>pa.
     if pa = None then create_node None T_DEV 0 0 s0
     else
       bindr (argint 1 s0) (\<lambda>ma.
       if ma = None then create_node None T_DEV 0 0 s0
       else
         bindr (argint 2 s0) (\<lambda>mi.
         if mi = None then create_node None T_DEV 0 0 s0
         else create_node pa T_DEV (ucast (the ma)) (ucast (the mi)) s0))))"

definition sys_chdir :: "'a kstate_scheme \<Rightarrow> (int \<times> 'a kstate_scheme) result" where
  "sys_chdir s =
     bindr (begin_op s) (\<lambda>s0.
     bindr (argstr 0 s0) (\<lambda>pa.
     bindr (case pa of None \<Rightarrow> Ok (None, s0) | Some path \<Rightarrow> namei path s0) (\<lambda>(r, s1). case r of
       None \<Rightarrow> bindr (end_op s1) (\<lambda>s2. Ok (-1, s2))
     | Some ip \<Rightarrow>
         bindr (ilock ip s1) (\<lambda>s2.
         if i_type (inode_at s2 ip) \<noteq> T_DIR then
           bindr (iunlockput ip s2) (\<lambda>s3. bindr (end_op s3) (\<lambda>s4. Ok (-1, s4)))
         else
           bindr (iunlock ip s2) (\<lambda>s3.
           with_myproc s3 (\<lambda>i p. case p_cwd p of
             None \<Rightarrow> UB ''chdir: no cwd''
           | Some cw \<Rightarrow>
               bindr (iput cw s3) (\<lambda>s4.
               bindr (end_op s4) (\<lambda>s5.
               Ok (0, upd_proc i (\<lambda>p. p\<lparr>p_cwd := Some ip\<rparr>) s5)))))))))"

section \<open>Exec and pipe\<close>

text \<open>The arguments of \<^verbatim>\<open>exec\<close>: \<open>None\<close> when one cannot be fetched or there are more than 31.\<close>

primrec exec_argv :: "nat \<Rightarrow> u32 \<Rightarrow> nat \<Rightarrow> 'a kstate_scheme \<Rightarrow> u8 list list option result" where
  "exec_argv i uargv 0 s = Ok None"
| "exec_argv i uargv (Suc k) s =
     bindr (fetchint (uargv + 4 * of_nat i) s) (\<lambda>r. case r of
       None \<Rightarrow> Ok None
     | Some uarg \<Rightarrow>
         if uarg = 0 then Ok (Some [])
         else
           bindr (fetchstr uarg s) (\<lambda>q. case q of
             None \<Rightarrow> Ok None
           | Some a \<Rightarrow> bindr (exec_argv (Suc i) uargv k s) (\<lambda>rest. Ok (map_option (Cons a) rest))))"

definition sys_exec :: "'a kstate_scheme \<Rightarrow> (int \<times> 'a kstate_scheme) result" where
  "sys_exec s =
     arg (argstr 0 s) s (\<lambda>path.
     arg (argint 1 s) s (\<lambda>uargv.
     arg (exec_argv 0 uargv 32 s) s (\<lambda>argv.
     exec path argv s)))"

definition sys_pipe :: "'a kstate_scheme \<Rightarrow> (int \<times> 'a kstate_scheme) result" where
  "sys_pipe s =
     arg (argptr 0 8 s) s (\<lambda>a.
     bindr (pipealloc s) (\<lambda>(r, s1). case r of
       None \<Rightarrow> Ok (-1, s1)
     | Some (fr, fw) \<Rightarrow>
         bindr (fdalloc fr s1) (\<lambda>(fd0, s2).
         bindr (if fd0 < 0 then Ok (-1, s2) else fdalloc fw s2) (\<lambda>(fd1, s3).
         if fd0 < 0 \<or> fd1 < 0 then
           bindr (if fd0 \<ge> 0 then clear_fd fd0 s3 else Ok s3) (\<lambda>s4.
           bindr (fileclose fr s4) (\<lambda>s5.
           bindr (fileclose fw s5) (\<lambda>s6. Ok (-1, s6))))
         else
           bindr (ustores a (bytes32 (word_of_int fd0) @ bytes32 (word_of_int fd1)) s3) (\<lambda>s4. Ok (0, s4))))))"

end
