(* ===== verification/Trap.thy ===== *)
theory Trap
  imports Sysfile
begin

text \<open>
  The remaining system calls (\<^verbatim>\<open>sysproc.c\<close>), their dispatch (\<^verbatim>\<open>syscall.c\<close>) and the trap handler (\<^verbatim>\<open>trap.c\<close>).
  A trap that ends in \<^verbatim>\<open>exit\<close> does not come back to the process; the flag of \<open>trap_done\<close> says whether it
  did.  Keyboard and serial input is the list of characters the device delivers.
\<close>

section \<open>Process and mapping calls\<close>

definition sys_fork :: "'a kstate_scheme \<Rightarrow> (int \<times> 'a kstate_scheme) result" where
  "sys_fork s = fork s"

definition sys_wait :: "'a kstate_scheme \<Rightarrow> (int \<times> 'a kstate_scheme) result" where
  "sys_wait s = wait s"

definition sys_kill :: "'a kstate_scheme \<Rightarrow> (int \<times> 'a kstate_scheme) result" where
  "sys_kill s = arg (argint 0 s) s (\<lambda>pid. Ok (kill (sint pid) s))"

definition sys_getpid :: "'a kstate_scheme \<Rightarrow> (int \<times> 'a kstate_scheme) result" where
  "sys_getpid s = with_myproc s (\<lambda>i p. Ok (p_pid p, s))"

definition sys_sbrk :: "'a kstate_scheme \<Rightarrow> (int \<times> 'a kstate_scheme) result" where
  "sys_sbrk s =
     arg (argint 0 s) s (\<lambda>n.
     with_myproc s (\<lambda>i p.
     bindr (growproc (sint n) s) (\<lambda>(r, s1). Ok (if r < 0 then -1 else sint (p_sz p), s1))))"

text \<open>The test of the sleep loop, for a process that started to wait at \<open>ticks0\<close>; it sleeps or returns.\<close>

definition sleep_test :: "u32 \<Rightarrow> u32 \<Rightarrow> 'a kstate_scheme \<Rightarrow> (int \<times> 'a kstate_scheme) result" where
  "sleep_test ticks0 n s =
     (if ticks s - ticks0 < n then
        with_myproc s (\<lambda>i p. if p_killed p \<noteq> 0 then Ok (-1, s) else Blocked ''sys_sleep'')
      else Ok (0, s))"

definition sys_sleep :: "'a kstate_scheme \<Rightarrow> (int \<times> 'a kstate_scheme) result" where
  "sys_sleep s = arg (argint 0 s) s (\<lambda>n. sleep_test (ticks s) n s)"

definition sys_uptime :: "'a kstate_scheme \<Rightarrow> (int \<times> 'a kstate_scheme) result" where
  "sys_uptime s = Ok (sint (ticks s), s)"

definition sys_wmap :: "'a kstate_scheme \<Rightarrow> (int \<times> 'a kstate_scheme) result" where
  "sys_wmap s =
     arg (argint 0 s) s (\<lambda>addr.
     arg (argint 1 s) s (\<lambda>len.
     arg (argint 2 s) s (\<lambda>flags.
     arg (argint 3 s) s (\<lambda>fd.
     if addr < 0x60000000 \<or> addr + len > 0x80000000 then Ok (-1, s)
     else if flags AND MAP_FIXED = 0 then Ok (-1, s)
     else if flags AND MAP_SHARED = 0 then Ok (-1, s)
     else if addr mod PGSIZE \<noteq> 0 then Ok (-1, s)
     else if sint len \<le> 0 then Ok (-1, s)
     else bindr (wmap addr (sint len) flags (sint fd) s) (\<lambda>(r, s1). Ok (sint r, s1))))))"

definition sys_wunmap :: "'a kstate_scheme \<Rightarrow> (int \<times> 'a kstate_scheme) result" where
  "sys_wunmap s =
     arg (argint 0 s) s (\<lambda>addr.
     if addr < 0x60000000 \<or> addr > 0x80000000 then Ok (-1, s) else wunmap addr s)"

definition sys_va2pa :: "'a kstate_scheme \<Rightarrow> (int \<times> 'a kstate_scheme) result" where
  "sys_va2pa s = arg (argint 0 s) s (\<lambda>va. bindr (va2pa va s) (\<lambda>r. Ok (sint r, s)))"

text \<open>The bytes of \<^verbatim>\<open>struct wmapinfo\<close>: 49 words.\<close>

definition wmapinfo_bytes :: "wmapinfo \<Rightarrow> u8 list" where
  "wmapinfo_bytes w = bytes32 (word_of_int (total_mmaps w)) @ concat (map bytes32 (wm_addr w)) @
     concat (map (\<lambda>x. bytes32 (word_of_int x)) (wm_length w)) @
     concat (map (\<lambda>x. bytes32 (word_of_int x)) (n_loaded_pages w))"

definition sys_getwmapinfo :: "'a kstate_scheme \<Rightarrow> (int \<times> 'a kstate_scheme) result" where
  "sys_getwmapinfo s =
     arg (argptr 0 196 s) s (\<lambda>a.
     if a = 0 then Ok (-1, s)
     else bindr (getwmapinfo s) (\<lambda>(r, w). bindr (ustores a (wmapinfo_bytes w) s) (\<lambda>s1. Ok (r, s1))))"

section \<open>Dispatch\<close>

text \<open>\<^verbatim>\<open>exit\<close> (call number 2) does not return and is handled by the caller.\<close>

definition syscalls :: "int \<Rightarrow> ('a kstate_scheme \<Rightarrow> (int \<times> 'a kstate_scheme) result) option" where
  "syscalls num =
     map_of [(1, sys_fork), (3, sys_wait), (4, sys_pipe), (5, sys_read), (6, sys_kill), (7, sys_exec), (8, sys_fstat),
       (9, sys_chdir), (10, sys_dup), (11, sys_getpid), (12, sys_sbrk), (13, sys_sleep), (14, sys_uptime),
       (15, sys_open), (16, sys_write), (17, sys_mknod), (18, sys_unlink), (19, sys_link), (20, sys_mkdir),
       (21, sys_close), (22, sys_wmap), (23, sys_wunmap), (24, sys_va2pa), (25, sys_getwmapinfo)] num"

definition set_eax :: "int \<Rightarrow> 'a kstate_scheme \<Rightarrow> 'a kstate_scheme result" where
  "set_eax r s = with_myproc s (\<lambda>i p. Ok (upd_proc i (\<lambda>p. p\<lparr>p_tf := (p_tf p)\<lparr>tf_eax := word_of_int r\<rparr>\<rparr>) s))"

text \<open>The flag is \<open>False\<close> when the process has exited.\<close>

definition syscall :: "'a kstate_scheme \<Rightarrow> (bool \<times> 'a kstate_scheme) result" where
  "syscall s = with_myproc s (\<lambda>i p.
     let num = sint (tf_eax (p_tf p)) in
     if num = 2 then bindr (exit s) (\<lambda>s1. Ok (False, s1))
     else (case syscalls num of
        Some f \<Rightarrow> bindr (f s) (\<lambda>(r, s1). bindr (set_eax r s1) (\<lambda>s2. Ok (True, s2)))
      | None \<Rightarrow>
          bindr (cprintf (map (of_nat \<circ> of_char) ''%d %s: unknown sys call %d'' @ [0x0a])
                  [CWord (word_of_int (p_pid p)), CStr (Some (takeWhile (\<lambda>c. c \<noteq> 0) (p_name p))), CWord (word_of_int num)] (cons s)) (\<lambda>c.
          bindr (set_eax (-1) (s\<lparr>cons := c\<rparr>)) (\<lambda>s1. Ok (True, s1)))))"

section \<open>Traps\<close>

datatype trap_kind = TSyscall | TPgflt u32 | TTimer | TIde | TIde1 | TKbd "int list" | TCom1 "int list" | TSpurious | TOther

text \<open>The switch of the handler; output on the console for unexpected traps is not part of it.\<close>

definition trap_body :: "trap_kind \<Rightarrow> bool \<Rightarrow> 'a kstate_scheme \<Rightarrow> 'a kstate_scheme result" where
  "trap_body k user s =
     (case k of
        TPgflt a \<Rightarrow> page_fault a s
      | TTimer \<Rightarrow> Ok (if cpu_id s = 0 then wakeup CTicks (s\<lparr>ticks := ticks s + 1\<rparr>) else s)
      | TIde \<Rightarrow> ideintr s
      | TIde1 \<Rightarrow> Ok s
      | TKbd cs \<Rightarrow> bindr (consoleintr cs (cons s)) (\<lambda>(w, c). Ok ((if w then wakeup CInput else id) (s\<lparr>cons := c\<rparr>)))
      | TCom1 cs \<Rightarrow> bindr (consoleintr cs (cons s)) (\<lambda>(w, c). Ok ((if w then wakeup CInput else id) (s\<lparr>cons := c\<rparr>)))
      | TSpurious \<Rightarrow> Ok s
      | _ \<Rightarrow>
          (case myproc s of
             None \<Rightarrow> Panic ''trap''
           | Some i \<Rightarrow> if \<not> user then Panic ''trap'' else Ok (upd_proc i (\<lambda>p. p\<lparr>p_killed := 1\<rparr>) s)))"

definition killed :: "'a pstate_scheme \<Rightarrow> bool" where
  "killed s \<longleftrightarrow> (case myproc s of None \<Rightarrow> False | Some i \<Rightarrow> p_killed (proc_at s i) \<noteq> 0)"

definition running :: "'a pstate_scheme \<Rightarrow> bool" where
  "running s \<longleftrightarrow> (case myproc s of None \<Rightarrow> False | Some i \<Rightarrow> p_state (proc_at s i) = RUNNING)"

text \<open>
  After the switch: a killed process exits on its way to user space, and a clock tick makes the
  process yield.  The second check, after the process runs again, is the next trap's first.
\<close>

definition trap_done :: "trap_kind \<Rightarrow> bool \<Rightarrow> 'a kstate_scheme \<Rightarrow> (bool \<times> 'a kstate_scheme) result" where
  "trap_done k user s =
     (if killed s \<and> user then bindr (exit s) (\<lambda>s1. Ok (False, s1))
      else if running s \<and> k = TTimer then bindr (yield s) (\<lambda>s1. Ok (False, s1))
      else Ok (True, s))"

definition trap :: "trap_kind \<Rightarrow> bool \<Rightarrow> 'a kstate_scheme \<Rightarrow> (bool \<times> 'a kstate_scheme) result" where
  "trap k user s =
     (if k = TSyscall then
        with_myproc s (\<lambda>i p.
        if p_killed p \<noteq> 0 then bindr (exit s) (\<lambda>s1. Ok (False, s1))
        else
          bindr (syscall s) (\<lambda>(back, s1).
          if back \<and> killed s1 then bindr (exit s1) (\<lambda>s2. Ok (False, s2)) else Ok (back, s1)))
      else bindr (trap_body k user s) (trap_done k user))"

end
