(* ===== verification/Io_Props.thy ===== *)
theory Io_Props
  imports Log_Props Cow_Props Trap
begin

text \<open>
  The properties of the console (\<^verbatim>\<open>console.c\<close>), of the buffer cache as its clients use it (\<^verbatim>\<open>bio.c\<close>),
  of the log's bookkeeping (\<^verbatim>\<open>log.c\<close>) and of the checks on system-call arguments (\<^verbatim>\<open>syscall.c\<close>).
\<close>

section \<open>Console output\<close>

text \<open>
  C29.  \<^verbatim>\<open>printint\<close> prints the number it is given: in base 10 or 16 the digits, read back, are the
  argument, with a minus sign in front of a negative signed argument, and at most 11 characters
  are produced, so that the buffer of 16 characters is never overrun.
\<close>

theorem printint_reads_back:
  assumes "base = 10 \<or> base = 16"
  shows "length (printint xx base sign) \<le> 11 \<and>
    (if sign \<and> sint xx < 0
     then \<exists>ds. printint xx base sign = 0x2d # ds \<and> int (value_of (unat base) ds) = - sint xx
     else value_of (unat base) (printint xx base sign) = unat xx)"
proof -
  have b: "2 \<le> base" "base \<le> 16" and u: "10 \<le> unat base" using assms by auto
  have "(10 :: nat) ^ 10 \<le> unat base ^ 10" using u by (rule power_mono) simp
  then have l: "length (printint_digits x base) \<le> 10" for x
    using unat_lt_2_32 [of x] by (intro printint_digits_length [OF b(1)]) simp_all
  have "int (unat (- xx)) = - sint xx" if "sint xx < 0"
  proof -
    have "- xx = word_of_int (- sint xx)" by simp
    then have "uint (- xx) = - sint xx mod 4294967296" by (simp only: uint_word_of_int) simp
    moreover have "- sint xx \<le> 2147483648" using sint_ge [of xx] by simp
    ultimately show ?thesis using that by simp
  qed
  then show ?thesis
    using l [of xx] l [of "- xx"] printint_digits_value [OF b, of xx] printint_digits_value [OF b, of "- xx"]
    by (auto simp: printint_def Let_def)
qed

theorem printint_reads_back_witness:
  "let xx = (- 42 :: u32); base = 10; sign = True in length (printint xx base sign) \<le> 11 \<and>
    (if sign \<and> sint xx < 0
     then \<exists>ds. printint xx base sign = 0x2d # ds \<and> int (value_of (unat base) ds) = - sint xx
     else value_of (unat base) (printint xx base sign) = unat xx)"
  unfolding Let_def by (rule printint_reads_back) simp

lemma consputc_bounds:
  assumes "c_pos s < 24 * 80"
  shows "\<exists>t. consputc c s = Ok t \<and> c_pos t < 24 * 80 \<and> (\<forall>i\<ge>24 * 80. c_crt t i = c_crt s i) \<and>
    c_uart t = c_uart s @ (if c = BACKSPACE then [0x08, 0x20, 0x08] else [word_of_int c])"
proof -
  let ?s = "s\<lparr>c_uart := c_uart s @ (if c = BACKSPACE then [0x08, 0x20, 0x08] else [word_of_int c])\<rparr>"
  have "c_pos ?s < 24 * 80" using assms by simp
  from cgaputc_ok [OF this, of c] obtain crt pos where
    "cgaputc c ?s = Ok (?s\<lparr>c_crt := crt, c_pos := pos\<rparr>)" "pos < 24 * 80" "\<forall>i\<ge>24 * 80. crt i = c_crt ?s i" by blast
  then show ?thesis unfolding consputc_def by (intro exI [of _ "?s\<lparr>c_crt := crt, c_pos := pos\<rparr>"]) simp
qed

text \<open>
  C30.  Output stays on the screen.  With the cursor inside the 24 lines that scroll, printing any
  string succeeds, sends exactly its bytes to the serial port, keeps the cursor inside the 24 lines
  and writes no cell of video memory beyond them.
\<close>

theorem console_output_in_bounds:
  assumes "c_pos s < 24 * 80"
  shows "\<exists>t. consputs cs s = Ok t \<and> c_pos t < 24 * 80 \<and> c_uart t = c_uart s @ cs \<and>
    (\<forall>i\<ge>24 * 80. c_crt t i = c_crt s i)"
  using assms
proof (induction cs arbitrary: s)
  case (Cons c cs)
  have "uint c \<noteq> BACKSPACE" using uint_lt2p [of c] by simp
  then obtain t where t: "consputc (uint c) s = Ok t" "c_pos t < 24 * 80" "\<forall>i\<ge>24 * 80. c_crt t i = c_crt s i" "c_uart t = c_uart s @ [c]"
    using consputc_bounds [OF Cons.prems, of "uint c"] by auto
  obtain u where "consputs cs t = Ok u" "c_pos u < 24 * 80" "c_uart u = c_uart t @ cs" "\<forall>i\<ge>24 * 80. c_crt u i = c_crt t i"
    using Cons.IH [OF t(2)] by blast
  then show ?case using t by simp
qed simp

theorem console_output_in_bounds_witness:
  "let s = demo_cons\<lparr>c_pos := 24 * 80 - 1\<rparr>; cs = [0x68, 0x69, 0x0a] in
   \<exists>t. consputs cs s = Ok t \<and> c_pos t < 24 * 80 \<and> c_uart t = c_uart s @ cs \<and>
    (\<forall>i\<ge>24 * 80. c_crt t i = c_crt s i)"
  unfolding Let_def by (rule console_output_in_bounds) simp

section \<open>Console input\<close>



text \<open>
  C32.  \<^verbatim>\<open>consoleread\<close> delivers a prefix of the committed input and removes exactly what it
  delivers: at most the requested number of bytes, at most one line, no end-of-file character; an
  end-of-file character is consumed only when it ends the read of an empty line.
\<close>

theorem consoleread_delivers_prefix:
  assumes "con_inv s" "consoleread_loop n [] s = (fin, got, t)"
  shows "con_inv t \<and> length got \<le> n \<and> 0x0a \<notin> set (butlast got) \<and> 0x04 \<notin> set got \<and>
    (ready s = got @ ready t \<or> got = [] \<and> ready s = 0x04 # ready t)"
  using consoleread_loop_ok [OF assms] by auto

theorem consoleread_delivers_prefix_witness:
  "let s = demo_cons\<lparr>c_buf := 0x68 # 0x0a # replicate 126 0, c_w := 2, c_e := 2\<rparr>;
       t = s\<lparr>c_r := 2\<rparr>; got = [0x68, 0x0a] in
   con_inv t \<and> length got \<le> Suc (Suc (Suc 0)) \<and> 0x0a \<notin> set (butlast got) \<and> 0x04 \<notin> set got \<and>
    (ready s = got @ ready t \<or> got = [] \<and> ready s = 0x04 # ready t)"
  unfolding Let_def
  by (rule consoleread_delivers_prefix [where fin = True])
    (simp_all add: con_inv_def demo_cons_def input_at_def Let_def)

section \<open>System-call arguments\<close>

text \<open>
  C28.  A pointer that \<^verbatim>\<open>argptr\<close> accepts addresses a block of the requested size that lies entirely
  below the size of the calling process, so no system call is handed a kernel address; a negative
  size is refused.
\<close>

theorem argptr_in_process:
  assumes "argptr n sz s = Ok (Some a)" "myproc s = Some i" "p_sz (proc_at s i) \<le> KERNBASE" "sz < 2 ^ 31"
  shows "0 \<le> sz \<and> unat a + nat sz \<le> unat (p_sz (proc_at s i)) \<and> unat a + nat sz \<le> unat KERNBASE"
  using argptr_ok [OF assms] assms(3) by (simp add: word_le_nat_alt)

lemma uload_present:
  assumes "pgdir_inv s pgdir" "present (heap s) pgdir va"
  shows "uload pgdir va s = Ok (heap s (P2V (frame_of (heap s) pgdir va) + (va AND (PGSIZE - 1))))"
proof -
  have "pd_present (heap s) pgdir (PDX va)" using assms(2) by (auto simp: present_def pte_at_def split: if_splits)
  then show ?thesis
    using assms(2) walk_noalloc [OF assms(1), of va] slot_word [of "heap s" pgdir va]
    by (simp add: uload_def present_def frame_of_def)
qed

text \<open>A process with one zeroed page, its stack pointer at the start of it.\<close>

definition demo_caller :: kstate where
  "demo_caller = (demo_kernel [] [])\<lparr>heap := heap (demo_user 0x520007 1),
     ptable := demo_owner # replicate 63 zero_proc\<rparr>"

lemma demo_caller_simps [simp]:
  "myproc demo_caller = Some 0" "proc_at demo_caller 0 = demo_owner" "heap demo_caller = heap (demo_user 0x520007 1)"
  "tf_esp (p_tf demo_owner) = 0"
  by (simp_all add: demo_caller_def myproc_def proc_at_def demo_owner_def zero_proc_def zero_trapframe_def demo_kernel_def)

lemma demo_caller_uload: "va < 0x1000 \<Longrightarrow> uload demo_pgdir va demo_caller = Ok 0"
proof -
  assume va: "va < 0x1000"
  have "kend demo_caller = kend (demo_user 0x520007 1)" by (simp add: demo_caller_def demo_kernel_def)
  then have inv: "pgdir_inv demo_caller demo_pgdir"
    using vm_invD(2) [OF demo_user_vm_inv [of "0x520007" 1]] by (simp add: pgdir_inv_def kpage_def)
  have z: "PGROUNDDOWN va = 0" using va by (simp add: word_unat_eq_iff unat_PGROUNDDOWN word_less_nat_alt)
  then have pr: "present (heap demo_caller) demo_pgdir va" "frame_of (heap demo_caller) demo_pgdir va = 0x520000"
    by (simp_all add: present_def frame_of_def demo_user_pte PTE_ADDR_def)
  have "va AND 0xFFF = va" 
    using va by (simp add: FFF_mask word_unat_eq_iff word_less_nat_alt flip: take_bit_eq_mask) (simp add: take_bit_eq_mod unat_mod_distrib)
  moreover have "unat (0x80520000 + va) = 0x80520000 + unat va" using va by (simp add: unat_add32 word_less_nat_alt)
  then have "0x80520000 + va \<noteq> w" if "unat w < 0x80520000" for w using that by auto
  then have "heap demo_caller (0x80520000 + va) = 0"
    by (simp add: demo_user_def demo_def st32_def demo_pgdir_def demo_tab_def)
  ultimately have "heap demo_caller (0x80520000 + (va AND 0xFFF)) = 0" by simp
  then show ?thesis using uload_present [OF inv pr(1)] pr(2) by (simp add: P2V_def)
qed

theorem argptr_in_process_witness:
  "let s = demo_caller in (0 :: int) \<le> 16 \<and> unat (0 :: u32) + nat 16 \<le> unat (p_sz (proc_at s 0)) \<and> unat (0 :: u32) + nat 16 \<le> unat KERNBASE"
  unfolding Let_def
proof (rule argptr_in_process)
  have "uloads demo_pgdir 4 (Suc (Suc (Suc (Suc 0)))) demo_caller = Ok [0, 0, 0, 0]" by (simp add: demo_caller_uload)
  then have "uloads demo_pgdir 4 4 demo_caller = Ok [0, 0, 0, 0]" by (simp only: numeral_eq_Suc pred_numeral_simps BitM.simps arith_simps)
  then show "argptr 0 16 demo_caller = Ok (Some 0)"
    by (simp add: argptr_def argint_def fetchint_def with_myproc_def rd32_def)
qed simp_all

text \<open>
  A string that \<^verbatim>\<open>fetchstr\<close> accepts ends with its terminating zero inside the process: every
  character and the terminator lie below the size of the process, and no character is zero.
\<close>

theorem fetchstr_in_process:
  assumes "fetchstr addr s = Ok (Some cs)" "myproc s = Some i"
  shows "unat addr + length cs < unat (p_sz (proc_at s i)) \<and> 0 \<notin> set cs"
  using fetchstr_ok [OF assms] by simp

theorem fetchstr_in_process_witness:
  "unat (8 :: u32) + length ([] :: u8 list) < unat (p_sz (proc_at demo_caller 0)) \<and> (0 :: u8) \<notin> set []"
proof (rule fetchstr_in_process)
  have "fetchstr_from demo_pgdir 8 (Suc 4087) demo_caller = Ok (Some [])"
    unfolding fetchstr_from.simps by (simp add: demo_caller_uload)
  then show "fetchstr 8 demo_caller = Ok (Some [])" by (simp add: fetchstr_def with_myproc_def)
qed simp

section \<open>The buffer cache\<close>

text \<open>
  C25.  The cache and the disk agree with what was written: for a block nobody holds, reading it,
  replacing its contents, writing it and releasing it succeeds when a buffer is free, puts exactly
  the new contents on the disk in one write of that block, and every later read, whether it finds
  the cached copy or the disk's, sees the new contents while all other blocks keep theirs.
\<close>

theorem block_update_is_durable:
  assumes "bio_inv s" "held s = {}" "b < FSSIZE" "b \<in> pinned s \<or> card (pinned s) < NBUF" "length bs = BSIZE"
  shows "\<exists>i s1 s2 s3. bread 1 b s = Ok (i, s1) \<and> b_data (buf_at s1 i) = bview s b \<and>
    bwrite i (upd_buf i (\<lambda>x. x\<lparr>b_data := bs\<rparr>) s1) = Ok s2 \<and> brelse i s2 = Ok s3 \<and> bio_inv s3 \<and> held s3 = {} \<and>
    bview s3 = (bview s)(b := bs) \<and> disk s3 1 = (disk s 1)(b := bs) \<and> disk_writes s3 = disk_writes s @ [(1, b, bs)]"
proof -
  have "b \<notin> held s" "b \<in> pinned s \<or> card (pinned s \<union> held s) < NBUF" using assms(2,4) by auto
  then obtain i s1 where 1: "bread 1 b s = Ok (i, s1)" "bio_inv s1" "disk s1 = disk s" "disk_writes s1 = disk_writes s"
    "bview s1 = bview s" "held s1 = {b}" "holds s1 i b"
    using bread_ok [OF assms(1,3)] assms(2) by metis
  let ?s1 = "upd_buf i (\<lambda>x. x\<lparr>b_data := bs\<rparr>) s1"
  note D = set_data_ok [OF 1(2,7) assms(5) refl]
  have h: "holds ?s1 i b" using D(6) 1(7) by blast
  obtain s2 where 2: "bwrite i ?s1 = Ok s2" "bio_inv s2" "bview s2 = bview ?s1" "held s2 = held ?s1" "holds s2 i b"
    "disk s2 1 = (disk ?s1 1)(b := bview ?s1 b)" "disk_writes s2 = disk_writes ?s1 @ [(1, b, bview ?s1 b)]"
    using bwrite_ok [OF D(1) h] h by metis
  have "b \<in> pinned s2 \<or> bview s2 b = disk s2 1 b" using 2(3,6) by simp
  then obtain s3 where 3: "brelse i s2 = Ok s3" "bio_inv s3" "bview s3 = bview s2" "held s3 = held s2 - {b}" "disk s3 = disk s2"
    "disk_writes s3 = disk_writes s2" using brelse_ok [OF 2(2,5)] by metis
  have "b_data (buf_at s1 i) = bview s b" using bview_holds [OF 1(2,7)] 1(5) by (simp add: buf_at_def)
  then show ?thesis
    using 1 2 3 D by (intro exI [of _ i] exI [of _ s1] exI [of _ s2] exI [of _ s3]) simp
qed

theorem block_update_is_durable_witness:
  "let s = demo_kernel [] []; b = 100; bs = replicate 512 7 in
   \<exists>i s1 s2 s3. bread 1 b s = Ok (i, s1) \<and> b_data (buf_at s1 i) = bview s b \<and>
    bwrite i (upd_buf i (\<lambda>x. x\<lparr>b_data := bs\<rparr>) s1) = Ok s2 \<and> brelse i s2 = Ok s3 \<and> bio_inv s3 \<and> held s3 = {} \<and>
    bview s3 = (bview s)(b := bs) \<and> disk s3 1 = (disk s 1)(b := bs) \<and> disk_writes s3 = disk_writes s @ [(1, b, bs)]"
  unfolding Let_def by (rule block_update_is_durable) (simp_all add: demo_bio_inv_empty demo_pinned)

section \<open>The log's bookkeeping\<close>

text \<open>
  C26.  \<^verbatim>\<open>log_write\<close> records a modified block in the transaction exactly once: a block that is already
  listed is absorbed, a new one is appended, the block is pinned in the cache, nothing reaches the
  disk, and the invariant of the log, from which a commit starts, is kept.
\<close>

theorem log_write_absorbs:
  assumes "log_inv s blks" "holds s bp b" "b \<notin> area (log_start s)" "Suc (length blks) < LOGSIZE" "1 \<le> log_outstanding s"
  shows "\<exists>t. log_write bp s = Ok t \<and> log_inv t (if b \<in> set blks then blks else blks @ [b]) \<and> b \<in> pinned t \<and>
    held t = held s \<and> bview t = bview s \<and> disk t = disk s \<and> disk_writes t = disk_writes s"
proof -
  obtain t where "log_write bp s = Ok t" "log_inv t (if b \<in> set blks then blks else blks @ [b])" "held t = held s"
    "bview t = bview s" "disk t = disk s" "disk_writes t = disk_writes s" by (rule log_write_ok [OF assms])
  moreover from this(2) have "b \<in> pinned t" by (auto simp: log_inv_def split: if_splits)
  ultimately show ?thesis by blast
qed

theorem log_write_absorbs_witness:
  "let s = demo_kernel [locked_buf 2 100 (replicate 512 1)] [] in
   \<exists>t. log_write 0 s = Ok t \<and> log_inv t (if (100 :: u32) \<in> set [] then [] else [] @ [100]) \<and> 100 \<in> pinned t \<and>
    held t = held s \<and> bview t = bview s \<and> disk t = disk s \<and> disk_writes t = disk_writes s"
  unfolding Let_def
proof (rule log_write_absorbs)
  have "bio_inv (demo_kernel [locked_buf 2 100 (replicate 512 1)] [])" by (rule demo_bio_inv) (simp add: buf_ok_def)
  then show "log_inv (demo_kernel [locked_buf 2 100 (replicate 512 1)] []) []"
    by (simp add: log_inv_def lists_def lwf_def demo_pinned rd32_def)
qed (simp_all add: holds_def area_def)



end
