(* ===== verification/Wmap_Inv.thy ===== *)
theory Wmap_Inv
  imports Wmap
begin

text \<open>
  The table of memory mappings of a process: its invariant, what \<^verbatim>\<open>wmap\<close> and \<^verbatim>\<open>wunmap\<close> do to it, and
  the effect of the page-fault handler and of unmapping on the page table.  A mapping occupies the
  addresses of \<open>wm_span\<close>; the mappings of a process lie between \<open>0x60000000\<close> and \<open>0x80000000\<close> and are
  pairwise disjoint.
\<close>

section \<open>The invariant\<close>

definition mapped :: "proc \<Rightarrow> nat set" where
  "mapped p = {i. i < MAX_WMMAP_INFO \<and> \<not> slot_free p i}"

definition wm_span :: "proc \<Rightarrow> nat \<Rightarrow> nat set" where
  "wm_span p i = {unat (wm_a p i) ..< unat (wm_a p i) + nat (wm_len p i)}"

definition area_ok :: "u32 \<Rightarrow> int \<Rightarrow> bool" where
  "area_ok a l \<longleftrightarrow> pg_aligned a \<and> 0x60000000 \<le> unat a \<and> 0 < l \<and> int (unat a) + l \<le> 0x80000000"

definition wmap_inv :: "proc \<Rightarrow> bool" where
  "wmap_inv p \<longleftrightarrow> length (wm_addr (p_wmapInfo p)) = MAX_WMMAP_INFO \<and> length (wm_length (p_wmapInfo p)) = MAX_WMMAP_INFO
     \<and> length (n_loaded_pages (p_wmapInfo p)) = MAX_WMMAP_INFO
     \<and> length (file_backed (p_wmapInfoExtra p)) = MAX_WMMAP_INFO \<and> length (wm_fd (p_wmapInfoExtra p)) = MAX_WMMAP_INFO
     \<and> (\<forall>i \<in> mapped p. area_ok (wm_a p i) (wm_len p i))
     \<and> (\<forall>i \<in> mapped p. \<forall>j \<in> mapped p. i \<noteq> j \<longrightarrow> wm_span p i \<inter> wm_span p j = {})
     \<and> wm_total p = int (card (mapped p))"

lemma wmap_invD:
  assumes "wmap_inv p"
  shows "length (wm_addr (p_wmapInfo p)) = MAX_WMMAP_INFO" "length (wm_length (p_wmapInfo p)) = MAX_WMMAP_INFO"
    "length (n_loaded_pages (p_wmapInfo p)) = MAX_WMMAP_INFO" "length (file_backed (p_wmapInfoExtra p)) = MAX_WMMAP_INFO"
    "length (wm_fd (p_wmapInfoExtra p)) = MAX_WMMAP_INFO" "i \<in> mapped p \<Longrightarrow> area_ok (wm_a p i) (wm_len p i)"
    "i \<in> mapped p \<Longrightarrow> j \<in> mapped p \<Longrightarrow> i \<noteq> j \<Longrightarrow> wm_span p i \<inter> wm_span p j = {}" "wm_total p = int (card (mapped p))"
  using assms unfolding wmap_inv_def by blast+

lemma mapped_finite [simp]: "finite (mapped p)"
  by (simp add: mapped_def)

text \<open>\<open>slot_set\<close> is the assignment of \<^verbatim>\<open>updateWmap\<close>.\<close>

definition slot_set :: "nat \<Rightarrow> u32 \<Rightarrow> int \<Rightarrow> int \<Rightarrow> int \<Rightarrow> int \<Rightarrow> int \<Rightarrow> proc \<Rightarrow> proc" where
  "slot_set k a l n fb fd tot x = x\<lparr>
     p_wmapInfo := (p_wmapInfo x)\<lparr>wm_addr := (wm_addr (p_wmapInfo x))[k := a], wm_length := (wm_length (p_wmapInfo x))[k := l],
       n_loaded_pages := (n_loaded_pages (p_wmapInfo x))[k := n], total_mmaps := tot\<rparr>,
     p_wmapInfoExtra := (p_wmapInfoExtra x)\<lparr>file_backed := (file_backed (p_wmapInfoExtra x))[k := fb],
       wm_fd := (wm_fd (p_wmapInfoExtra x))[k := fd]\<rparr>\<rparr>"

lemma updateWmap_slot:
  "k < MAX_WMMAP_INFO \<Longrightarrow> updateWmap p a l n fb fd tot (int k) s = (0, upd_proc p (slot_set k a l n fb fd tot) s)"
  by (simp add: updateWmap_def slot_set_def [abs_def])

lemma slot_set_fields:
  assumes "wmap_inv p" "k < MAX_WMMAP_INFO" and q: "q = slot_set k a l n fb fd tot p"
  shows "wm_a q i = (if i = k then a else wm_a p i)" "wm_len q i = (if i = k then l else wm_len p i)"
    "wm_loaded q i = (if i = k then n else wm_loaded p i)" "wm_fb q i = (if i = k then fb else wm_fb p i)"
    "wm_desc q i = (if i = k then fd else wm_desc p i)" "wm_total q = tot"
    "slot_free q i \<longleftrightarrow> (if i = k then a = 0 \<and> l = -1 else slot_free p i)"
    "wm_span q i = (if i = k then {unat a ..< unat a + nat l} else wm_span p i)"
  using assms(2) wmap_invD(1-5) [OF assms(1)] unfolding q
  by (cases "i = k"; simp add: slot_set_def wm_a_def wm_len_def wm_loaded_def wm_fb_def wm_desc_def wm_total_def slot_free_def wm_span_def)+

lemma slot_set_lengths:
  assumes "wmap_inv p" and q: "q = slot_set k a l n fb fd tot p"
  shows "length (wm_addr (p_wmapInfo q)) = MAX_WMMAP_INFO" "length (wm_length (p_wmapInfo q)) = MAX_WMMAP_INFO"
    "length (n_loaded_pages (p_wmapInfo q)) = MAX_WMMAP_INFO" "length (file_backed (p_wmapInfoExtra q)) = MAX_WMMAP_INFO"
    "length (wm_fd (p_wmapInfoExtra q)) = MAX_WMMAP_INFO"
  using wmap_invD(1-5) [OF assms(1)] by (simp_all add: q slot_set_def)

text \<open>Taking a free slot for an area that intersects no mapping keeps the invariant, and so does freeing a slot.\<close>

lemma take_slot:
  assumes inv: "wmap_inv p" and k: "k < MAX_WMMAP_INFO" "slot_free p k" and a: "area_ok a l"
    and free: "\<And>i. i \<in> mapped p \<Longrightarrow> wm_span p i \<inter> {unat a ..< unat a + nat l} = {}"
    and q: "q = slot_set k a l n fb fd (wm_total p + 1) p"
  shows "wmap_inv q" "mapped q = insert k (mapped p)"
proof -
  note F = slot_set_fields [OF inv k(1) q]
  have ne: "\<not> (a = 0 \<and> l = -1)" using a by (auto simp: area_ok_def)
  show m: "mapped q = insert k (mapped p)" using F(7) ne k by (auto simp: mapped_def split: if_splits)
  have "k \<notin> mapped p" using k by (simp add: mapped_def)
  then have "wm_total q = int (card (mapped q))" using F(6) m wmap_invD(8) [OF inv] by simp
  moreover have "area_ok (wm_a q i) (wm_len q i)" if "i \<in> mapped q" for i
    using that m F(1,2) a wmap_invD(6) [OF inv] by auto
  moreover have "wm_span q i \<inter> wm_span q j = {}" if "i \<in> mapped q" "j \<in> mapped q" "i \<noteq> j" for i j
  proof (cases "i = k")
    case True
    then have "j \<in> mapped p" "j \<noteq> k" using that(2,3) m by auto
    then show ?thesis using free [of j] F(8) [of i] F(8) [of j] True by auto
  next
    case False
    then have i: "i \<in> mapped p" using that(1) m by auto
    show ?thesis
    proof (cases "j = k")
      case True
      then show ?thesis using free [OF i] F(8) [of i] F(8) [of j] False by auto
    next
      case j: False
      then have "j \<in> mapped p" using that(2) m by auto
      then show ?thesis using wmap_invD(7) [OF inv i _ that(3)] F(8) [of i] F(8) [of j] False j by auto
    qed
  qed
  ultimately show "wmap_inv q"
    unfolding wmap_inv_def using slot_set_lengths [OF inv q] by blast
qed

lemma free_slot:
  assumes inv: "wmap_inv p" and k: "k \<in> mapped p"
    and q: "q = slot_set k 0 (-1) 0 0 (-1) (wm_total p - 1) p"
  shows "wmap_inv q" "mapped q = mapped p - {k}"
proof -
  have k': "k < MAX_WMMAP_INFO" using k by (simp add: mapped_def)
  note F = slot_set_fields [OF inv k' q]
  show m: "mapped q = mapped p - {k}" using F(7) by (auto simp: mapped_def split: if_splits)
  have "0 < card (mapped p)" using k by (auto simp: card_gt_0_iff)
  then have "wm_total q = int (card (mapped q))" using F(6) m k wmap_invD(8) [OF inv] by simp
  moreover have "area_ok (wm_a q i) (wm_len q i)" if "i \<in> mapped q" for i
    using that m F(1,2) wmap_invD(6) [OF inv, of i] by auto
  moreover have "wm_span q i \<inter> wm_span q j = {}" if "i \<in> mapped q" "j \<in> mapped q" "i \<noteq> j" for i j
    using that m F(8) wmap_invD(7) [OF inv, of i j] by auto
  ultimately show "wmap_inv q"
    unfolding wmap_inv_def using slot_set_lengths [OF inv q] by blast
qed

section \<open>The scans\<close>

lemma vasIntersect_spans:
  assumes "0 < l" "int (unat a) + l \<le> 0x80000000" "0 < m" "int (unat b) + m \<le> 0x80000000"
  shows "vasIntersect a l b m \<longleftrightarrow> {unat a ..< unat a + nat l} \<inter> {unat b ..< unat b + nat m} \<noteq> {}"
proof -
  have u: "unat (x + word_of_int k) = unat x + nat k" if k: "0 < k" "int (unat x) + k \<le> 0x80000000" for x :: u32 and k
  proof -
    have "k < 4294967296" using k(2) of_nat_0_le_iff [of "unat x", where 'a = int] by linarith
    then have "unat (word_of_int k :: u32) = nat k" using k(1) by (simp add: unsigned_of_int take_bit_int_eq_self)
    moreover have "unat x + nat k < 4294967296" using k by linarith
    ultimately show ?thesis by (simp add: unat_add32)
  qed
  show ?thesis
    using assms by (auto simp: vasIntersect_def word_le_nat_alt u)
qed

lemma upto_step:
  "(\<exists>j. i \<le> j \<and> j < i + Suc k \<and> P j) \<longleftrightarrow> P i \<or> (\<exists>j. Suc i \<le> j \<and> j < Suc i + k \<and> P j)" (is "?l \<longleftrightarrow> ?r")
proof
  assume ?l
  then obtain j where j: "i \<le> j" "j < i + Suc k" "P j" by blast
  show ?r
  proof (cases "j = i")
    case False
    then have "Suc i \<le> j \<and> j < Suc i + k \<and> P j" using j by simp
    then show ?thesis by blast
  qed (use j in simp)
next
  assume ?r
  then consider "P i" | j where "Suc i \<le> j" "j < Suc i + k" "P j" by blast
  then show ?l
  proof cases
    case 1
    then show ?thesis by (intro exI [of _ i]) simp
  next
    case 2
    then show ?thesis by (intro exI [of _ j]) simp
  qed
qed

text \<open>The scan of \<^verbatim>\<open>wmap\<close> succeeds exactly when the table is not full and the area is free, with the first free slot.\<close>

lemma wmap_scan_eq:
  assumes "wm_total p \<noteq> int MAX_WMMAP_INFO"
  shows "wmap_scan p a l spot i k =
    (if \<exists>j. i \<le> j \<and> j < i + k \<and> \<not> slot_free p j \<and> vasIntersect a l (wm_a p j) (wm_len p j) then None
     else Some (if spot \<noteq> -1 then spot else case find (slot_free p) [i..<i + k] of Some j \<Rightarrow> int j | None \<Rightarrow> -1))"
proof (induction k arbitrary: i spot)
  case (Suc k)
  have u: "[i..<i + Suc k] = i # [Suc i..<Suc i + k]" by (simp add: upt_conv_Cons)
  define E where "E \<longleftrightarrow> (\<exists>j. Suc i \<le> j \<and> j < Suc i + k \<and> \<not> slot_free p j \<and> vasIntersect a l (wm_a p j) (wm_len p j))"
  define F where "F = find (slot_free p) [Suc i..<Suc i + k]"
  have "int i \<noteq> -1" by simp
  then show ?case
    unfolding upto_step u wmap_scan.simps Suc.IH find.simps E_def [symmetric] F_def [symmetric] using assms by simp
qed simp

text \<open>For a process that satisfies the invariant: a free slot is found exactly when the table is not full.\<close>

lemma find_free_slot:
  assumes "wmap_inv p"
  shows "wm_total p = int MAX_WMMAP_INFO \<and> find (slot_free p) [0..<MAX_WMMAP_INFO] = None \<or>
    wm_total p \<noteq> int MAX_WMMAP_INFO \<and> (\<exists>k. find (slot_free p) [0..<MAX_WMMAP_INFO] = Some k \<and> k < MAX_WMMAP_INFO \<and> slot_free p k)"
proof -
  have sub: "mapped p \<subseteq> {..<MAX_WMMAP_INFO}" by (auto simp: mapped_def)
  have "card (mapped p) = card {..<MAX_WMMAP_INFO} \<longleftrightarrow> mapped p = {..<MAX_WMMAP_INFO}"
    by (rule iffI) (erule card_subset_eq [OF finite_lessThan sub], erule arg_cong)
  then have c: "wm_total p = int MAX_WMMAP_INFO \<longleftrightarrow> mapped p = {..<MAX_WMMAP_INFO}"
    unfolding wmap_invD(8) [OF assms] card_lessThan of_nat_eq_iff .
  show ?thesis
  proof (cases "find (slot_free p) [0..<MAX_WMMAP_INFO]")
    case None
    then have "\<not> (\<exists>x. x \<in> {0..<MAX_WMMAP_INFO} \<and> slot_free p x)" unfolding find_None_iff set_upt .
    then have "mapped p = {..<MAX_WMMAP_INFO}" unfolding mapped_def by auto
    then show ?thesis using c None by blast
  next
    case (Some k)
    then have "k \<in> {0..<MAX_WMMAP_INFO} \<and> slot_free p k" unfolding find_Some_iff set_upt [symmetric] by (metis nth_mem)
    then have k: "k < MAX_WMMAP_INFO" "slot_free p k" by auto
    then have "k \<notin> mapped p" by (simp add: mapped_def)
    then have "mapped p \<noteq> {..<MAX_WMMAP_INFO}" using k(1) by blast
    then show ?thesis using c Some k by blast
  qed
qed

lemma wmap_scan_result:
  assumes inv: "wmap_inv p" and a: "area_ok a l"
  shows "wmap_scan p a l (-1) 0 MAX_WMMAP_INFO =
    (if wm_total p = int MAX_WMMAP_INFO \<or> (\<exists>j\<in>mapped p. wm_span p j \<inter> {unat a ..< unat a + nat l} \<noteq> {}) then None
     else map_option int (find (slot_free p) [0..<MAX_WMMAP_INFO]))"
proof (cases "wm_total p = int MAX_WMMAP_INFO")
  case True
  have "wmap_scan p a l (-1) 0 (Suc 15) = None" unfolding wmap_scan.simps using True by simp
  then show ?thesis using True by simp
next
  case False
  then obtain k where k: "find (slot_free p) [0..<MAX_WMMAP_INFO] = Some k" using find_free_slot [OF inv] by blast
  have "(\<exists>j. 0 \<le> j \<and> j < 0 + MAX_WMMAP_INFO \<and> \<not> slot_free p j \<and> vasIntersect a l (wm_a p j) (wm_len p j)) \<longleftrightarrow>
      (\<exists>j\<in>mapped p. wm_span p j \<inter> {unat a ..< unat a + nat l} \<noteq> {})"
    using vasIntersect_spans [of l a] wmap_invD(6) [OF inv] a unfolding area_ok_def mapped_def wm_span_def
    by (auto simp: Int_commute)
  then show ?thesis using wmap_scan_eq [OF False, of a l "-1" 0 MAX_WMMAP_INFO] k False by simp
qed

text \<open>The page-fault handler finds the mapping that contains the address, and no other.\<close>

lemma fault_scan_find:
  "fault_scan p a i k = find (\<lambda>j. \<not> slot_free p j \<and> vasIntersect a 1 (wm_a p j) (wm_len p j)) [i..<i + k]"
proof (induction k arbitrary: i)
  case (Suc k)
  have "[i..<i + Suc k] = i # [Suc i..<Suc i + k]" by (simp add: upt_conv_Cons)
  then show ?case unfolding fault_scan.simps Suc.IH by simp
qed simp

lemma fault_scan_mapping:
  assumes inv: "wmap_inv p" and k: "k \<in> mapped p" "unat fa \<in> wm_span p k"
  shows "fault_scan p fa 0 MAX_WMMAP_INFO = Some k"
proof -
  let ?P = "\<lambda>j. \<not> slot_free p j \<and> vasIntersect fa 1 (wm_a p j) (wm_len p j)"
  have lim: "int (unat fa) + 1 \<le> 0x80000000"
    using k(2) wmap_invD(6) [OF inv k(1)] unfolding wm_span_def area_ok_def atLeastLessThan_iff by linarith
  have P: "?P j \<longleftrightarrow> j \<in> mapped p \<and> unat fa \<in> wm_span p j" if "j < MAX_WMMAP_INFO" for j
    using vasIntersect_spans [OF _ lim, of "wm_len p j" "wm_a p j"] wmap_invD(6) [OF inv, of j] that
    by (auto simp: mapped_def wm_span_def area_ok_def)
  have uniq: "j = k" if "j < MAX_WMMAP_INFO" "?P j" for j
    using P [OF that(1)] that(2) k wmap_invD(7) [OF inv, of j k] by blast
  have k16: "k < MAX_WMMAP_INFO" using k(1) by (simp add: mapped_def)
  then have Pk: "?P k" using P k by blast
  show ?thesis
  proof (cases "find ?P [0..<0 + MAX_WMMAP_INFO]")
    case None
    then have "\<not> (\<exists>x. x \<in> {0..<0 + MAX_WMMAP_INFO} \<and> ?P x)" unfolding find_None_iff set_upt .
    then show ?thesis using Pk k16 by auto
  next
    case (Some j)
    then have "j \<in> {0..<0 + MAX_WMMAP_INFO} \<and> ?P j" unfolding find_Some_iff set_upt [symmetric] by (metis nth_mem)
    then have "j = k" using uniq [of j] by auto
    then show ?thesis using Some fault_scan_find [of p fa 0 MAX_WMMAP_INFO] by simp
  qed
qed

section \<open>Unmapping releases pages\<close>

text \<open>
  For an anonymous mapping of a process that is not a fork's child, and frames whose count is zero, a
  round of the unmapping loop is a round of \<^verbatim>\<open>deallocuvm\<close>.
\<close>

definition unmap_ready :: "nat \<Rightarrow> nat \<Rightarrow> u32 \<Rightarrow> 'a kstate_scheme \<Rightarrow> bool" where
  "unmap_ready p i pgdir s \<longleftrightarrow> p_pgdir (proc_at s p) = pgdir \<and> wm_fb (proc_at s p) i = 0 \<and>
     is_child (p_wmapInfoExtra (proc_at s p)) = 0"

lemma heap_update_proc_at:
  fixes s t :: "'a pstate_scheme"
  assumes "t = s\<lparr>heap := heap t, kmem_freelist := kmem_freelist t\<rparr>"
  shows "proc_at t i = proc_at s i" "myproc t = myproc s" "ptable t = ptable s"
proof -
  show p: "ptable t = ptable s" using arg_cong [OF assms, of ptable] by simp
  then show "proc_at t i = proc_at s i" by (simp add: proc_at_def)
  show "myproc t = myproc s" using arg_cong [OF assms, of myproc] by (simp add: myproc_def)
qed

interpretation unmap: page_release "\<lambda>n a s. unmap_loop n p a lim i s" "\<lambda>s. (True, s)" pgdir lim
    "unmap_ready p i pgdir" "\<lambda>c. c = 0" for p lim i pgdir
proof (unfold_locales, goal_cases)
  case (4 s a pte pa t n)
  then show ?case by (simp add: unmap_ready_def Let_def)
next
  case (5 s t)
  then show ?case using heap_update_proc_at [OF 5(2)] by (simp add: unmap_ready_def)
qed (simp_all add: unmap_ready_def Let_def)

lemma wunmap_scan_find:
  "wunmap_scan p a i k = find (\<lambda>j. \<not> slot_free p j \<and> wm_a p j = a) [i..<i + k]"
proof (induction k arbitrary: i)
  case (Suc k)
  have "[i..<i + Suc k] = i # [Suc i..<Suc i + k]" by (simp add: upt_conv_Cons)
  then show ?case unfolding wunmap_scan.simps Suc.IH by simp
qed simp

text \<open>An index that satisfies a predicate no other index satisfies is what a search finds.\<close>

lemma find_unique:
  assumes "k < n" "P k" "\<And>j. j < n \<Longrightarrow> P j \<Longrightarrow> j = k"
  shows "find P [0..<n] = Some k"
proof (cases "find P [0..<n]")
  case None
  then show ?thesis using assms(1,2) by (simp add: find_None_iff)
next
  case (Some j)
  then have "P j \<and> j \<in> set [0..<n]" unfolding find_Some_iff by (metis nth_mem)
  then show ?thesis using assms(3) [of j] Some by simp
qed

lemma wunmap_scan_mapping:
  assumes inv: "wmap_inv p" and k: "k \<in> mapped p"
  shows "wunmap_scan p (wm_a p k) 0 MAX_WMMAP_INFO = Some k"
proof -
  have "find (\<lambda>j. \<not> slot_free p j \<and> wm_a p j = wm_a p k) [0..<MAX_WMMAP_INFO] = Some k"
  proof (rule find_unique)
    fix j assume j: "j < MAX_WMMAP_INFO" "\<not> slot_free p j \<and> wm_a p j = wm_a p k"
    then have m: "j \<in> mapped p" by (simp add: mapped_def)
    have "unat (wm_a p k) \<in> wm_span p j \<inter> wm_span p k"
      using j wmap_invD(6) [OF inv m] wmap_invD(6) [OF inv k] by (simp add: wm_span_def area_ok_def)
    then show "j = k" using wmap_invD(7) [OF inv m k] by blast
  qed (use k in \<open>simp_all add: mapped_def\<close>)
  then show ?thesis unfolding wunmap_scan_find by simp
qed

lemma area_end:
  assumes "area_ok a l"
  shows "unat (a + word_of_int l) = unat a + nat l" "a + word_of_int l \<le> KERNBASE" "a \<le> PGROUNDUP (a + word_of_int l)"
proof -
  have l: "0 < l" "int (unat a) + l \<le> 0x80000000" using assms by (auto simp: area_ok_def)
  have "l < 4294967296" using l(2) of_nat_0_le_iff [of "unat a", where 'a = int] by linarith
  then have w: "unat (word_of_int l :: u32) = nat l" using l(1) by (simp add: unsigned_of_int take_bit_int_eq_self)
  have lt: "unat a + nat l \<le> 0x80000000" using l by linarith
  then show u: "unat (a + word_of_int l) = unat a + nat l" using w by (simp add: unat_add32)
  show k: "a + word_of_int l \<le> KERNBASE" using lt by (simp add: word_le_nat_alt u)
  have "a \<le> a + word_of_int l" by (simp add: word_le_nat_alt u)
  then show "a \<le> PGROUNDUP (a + word_of_int l)" using PGROUNDUP_bounds(1) [OF k] by (rule order.trans)
qed

lemma wunmap_correct:
  assumes inv: "wmap_inv p" and p: "p = proc_at s i" "myproc s = Some i" "i < length (ptable s)" and k: "k \<in> mapped p"
    and an: "wm_fb p k = 0" "is_child (p_wmapInfoExtra p) = 0" "0 < wm_loaded p k" and vm: "vm_inv s (p_pgdir p) xs"
    and e: "e = PGROUNDUP (wm_a p k + word_of_int (wm_len p k))" and fr: "frames_ok s (p_pgdir p) xs (wm_a p k) e"
    and z: "\<And>w. rng (wm_a p k) e w \<Longrightarrow> present (heap s) (p_pgdir p) w \<Longrightarrow> get_count (frame_of (heap s) (p_pgdir p) w) s = 0"
  shows "\<exists>t ys. wunmap (wm_a p k) s = Ok (0, upd_proc i (slot_set k 0 (-1) 0 0 (-1) (wm_total p - 1)) t) \<and>
    dealloc_post s (p_pgdir p) xs (wm_a p k) e t ys"
proof -
  have ok: "area_ok (wm_a p k) (wm_len p k)" by (rule wmap_invD(6) [OF inv k])
  have k16: "k < MAX_WMMAP_INFO" using k by (simp add: mapped_def)
  let ?a = "wm_a p k" and ?lim = "wm_a p k + word_of_int (wm_len p k)"
  note A = area_end [OF ok]
  have fu: "(unat e - unat ?a) div 4096 < 0x100001" using unat_lt_2_32 [of e] by (simp add: div_less_iff_less_mult)
  have rd: "unmap_ready i k (p_pgdir p) s" using an p(1) by (simp add: unmap_ready_def)
  obtain t ys where u: "unmap_loop 0x100001 i ?a ?lim k s = Ok (True, t)" "dealloc_post s (p_pgdir p) xs ?a e t ys"
    using unmap.loop_correct [OF rd vm _ _ _ _ _ fr fu z, of ?lim] ok A e PGROUNDUP_bounds [OF A(2)]
    by (auto simp: area_ok_def)
  have tt: "t = s\<lparr>heap := heap t, kmem_freelist := kmem_freelist t\<rparr>" using u(2) by (simp add: dealloc_post_def)
  have "wm_total p \<noteq> 0" using wmap_invD(8) [OF inv] k by (auto simp: card_gt_0_iff)
  then have "wunmap ?a s = Ok (0, upd_proc i (slot_set k 0 (-1) 0 0 (-1) (wm_total p - 1)) t)"
    using p wunmap_scan_mapping [OF inv k] an(3) u(1) heap_update_proc_at(1) [OF tt, of i]
    by (simp add: wunmap_def with_myproc_def dellocateAndUnmap_def updateWmap_slot [OF k16])
  then show ?thesis using u(2) by blast
qed

section \<open>Page faults load pages\<close>

lemma vm_inv_upd_proc [simp]: "vm_inv (upd_proc i f s) pgdir xs = vm_inv s pgdir xs"
  by (simp add: vm_inv_def free_inv_def pgdir_inv_def kpage_def upd_proc_def)

lemma page_fault_correct:
  assumes inv: "wmap_inv p" and p: "p = proc_at s i" "myproc s = Some i" "i < length (ptable s)"
    and k: "k \<in> mapped p" "unat fa \<in> wm_span p k" "wm_fb p k = 0" and fa: "unat fa < 0x7FFFF000"
    and vm: "vm_inv s (p_pgdir p) (m # n # ys)" and np: "\<not> present (heap s) (p_pgdir p) fa"
  defines "a \<equiv> PGROUNDDOWN fa"
  shows "\<exists>t zs. page_fault fa s = Ok (upd_proc i (slot_set k (wm_a p k) (wm_len p k) (wm_loaded p k + 1) (wm_fb p k) (wm_desc p k) (wm_total p)) t) \<and>
    vm_inv t (p_pgdir p) zs \<and> t = s\<lparr>heap := heap t, kmem_freelist := kmem_freelist t\<rparr> \<and>
    kpage s m \<and> m \<notin> set zs \<union> pt_pages (heap t) (p_pgdir p) \<and>
    (\<forall>w. pte_at (heap t) (p_pgdir p) w = (if PGROUNDDOWN w = a then (V2P m OR ((PTE_W OR PTE_U) OR PTE_P)) OR PTE_P else pte_at (heap s) (p_pgdir p) w)) \<and>
    (\<forall>x. PGROUNDDOWN x = m \<longrightarrow> heap t x = 0) \<and>
    (\<forall>q. q \<notin> set (m # n # ys) \<union> pt_pages (heap s) (p_pgdir p) \<longrightarrow> same_page (heap s) (heap t) q)"
proof -
  let ?d = "p_pgdir p" and ?s2 = "s\<lparr>kmem_freelist := ld32 (heap s) m, heap := memset (heap s) m 0 PGSIZE\<rparr>"
  have ok: "area_ok (wm_a p k) (wm_len p k)" by (rule wmap_invD(6) [OF inv k(1)])
  have k16: "k < MAX_WMMAP_INFO" using k(1) by (simp add: mapped_def)
  have lo: "0x60000000 \<le> unat fa" using k(2) ok by (auto simp: wm_span_def area_ok_def)
  have al: "pg_aligned a" by (simp add: a_def)
  have ua: "unat a \<le> unat fa" by (simp add: a_def unat_PGROUNDDOWN)
  have ub: "unat (a + PGSIZE) = unat a + 4096" using ua fa by (simp add: unat_add32)
  have T: "kalloc s = (m, s\<lparr>kmem_freelist := ld32 (heap s) m\<rparr>)" "m \<noteq> 0"
    using kalloc_cases [OF vm_invD(1) [OF vm]] by auto
  note Z = take_zeroed [OF vm]
  have np2: "\<not> present (heap ?s2) ?d a"
    using np Z(3) pte_at_page [of a fa "heap s" ?d] al by (simp add: present_def a_def pg_aligned_iff)
  obtain t zs where t: "mappages ?d a PGSIZE (V2P m) ((PTE_W OR PTE_U) OR PTE_P) ?s2 = Ok (0, t)" "pt_step ?s2 ?d (n # ys) t zs"
    "\<And>w. pte_at (heap t) ?d w = (if PGROUNDDOWN w = a then (V2P m OR ((PTE_W OR PTE_U) OR PTE_P)) OR PTE_P else pte_at (heap ?s2) ?d w)"
    by (rule mappages_page [OF Z(1) al np2, where pa = "V2P m" and prm = "(PTE_W OR PTE_U) OR PTE_P"]) (simp, rule that)
  have tt: "t = ?s2\<lparr>heap := heap t, kmem_freelist := kmem_freelist t\<rparr>" using t(2) by (simp add: pt_step_def)
  have pr: "proc_at ?s2 i = p" "proc_at t i = p" using p(1) heap_update_proc_at(1) [OF tt, of i] by (simp_all add: proc_at_def)
  let ?t = "upd_proc i (slot_set k (wm_a p k) (wm_len p k) (wm_loaded p k + 1) (wm_fb p k) (wm_desc p k) (wm_total p)) t"
  have "allocate_loop (Suc (Suc 0xFFFFF)) i a (a + PGSIZE) k s = Ok (0, ?t)"
  proof -
    have l: "a < a + PGSIZE" by (simp add: word_less_nat_alt ub)
    have stop: "allocate_loop (Suc 0xFFFFF) i (a + PGSIZE) (a + PGSIZE) k ?t = Ok (0, ?t)" unfolding allocate_loop.simps by simp
    show ?thesis
      unfolding allocate_loop.simps(2) [of "Suc 0xFFFFF"]
      using l T pr k(3) t(1) stop by (simp add: Let_def updateWmap_slot [OF k16] del: allocate_loop.simps)
  qed
  moreover have "a + PGROUNDUP (word_of_int 4096) = a + PGSIZE" by (simp add: PGROUNDUP_def)
  moreover have "\<not> a + PGSIZE \<ge> KERNBASE" using ua fa by (simp add: word_le_nat_alt ub)
  ultimately have am: "allocateAndMap i fa 4096 k s = Ok (0, ?t)"
    unfolding allocateAndMap_def a_def [symmetric] Let_def by simp
  have "page_fault fa s = Ok ?t"
    using p(1,2) fault_scan_mapping [OF inv k(1,2)] am lo fa
    by (simp add: page_fault_def with_myproc_def word_less_nat_alt word_le_nat_alt)
  moreover have "vm_inv t ?d zs" using t(2) by (simp add: pt_step_def)
  moreover have "t = s\<lparr>heap := heap t, kmem_freelist := kmem_freelist t\<rparr>" by (subst tt) simp
  moreover have "heap t x = 0" if "PGROUNDDOWN x = m" for x
  proof -
    have "same_page (heap ?s2) (heap t) m" using Z(2,5,6) t(2) vm by (auto simp: pt_step_def vm_inv_def free_inv_def)
    then show ?thesis using that Z(8) [OF that] by (simp add: same_page_def)
  qed
  moreover have "same_page (heap s) (heap t) q" if "q \<notin> set (m # n # ys) \<union> pt_pages (heap s) ?d" for q
  proof (rule same_page_trans)
    show "same_page (heap s) (heap ?s2) q" using that by (intro Z(7)) auto
    show "same_page (heap ?s2) (heap t) q" using that Z(2) t(2) by (simp add: pt_step_def)
  qed
  moreover have "m \<notin> set zs \<union> pt_pages (heap t) ?d"
  proof -
    obtain us where "n # ys = us @ zs" using t(2) by (auto simp: pt_step_def)
    from arg_cong [OF this, of set] have "set (n # ys) = set us \<union> set zs" by simp
    then show ?thesis using t(2) Z(2,5,6) unfolding pt_step_def by blast
  qed
  ultimately show ?thesis using t(3) Z(3,4) by (intro exI [of _ t] exI [of _ zs]) simp
qed

end
