(* ===== verification/Wmap_Props.thy ===== *)
theory Wmap_Props
  imports Wmap_Inv Io_Props
begin

text \<open>
  The properties of memory mappings: \<^verbatim>\<open>wmap\<close> and \<^verbatim>\<open>wunmap\<close> keep the table of mappings consistent, the
  page-fault handler fills an anonymous mapping page by page with zeroed frames, and unmapping gives
  the frames back.
\<close>

section \<open>Mapping\<close>

text \<open>The invariant and the slots depend on the two tables of the process only.\<close>

definition same_maps :: "proc \<Rightarrow> proc \<Rightarrow> bool" where
  "same_maps p q \<longleftrightarrow> p_wmapInfo q = p_wmapInfo p \<and> p_wmapInfoExtra q = p_wmapInfoExtra p"

lemma same_mapsD:
  assumes "same_maps p q"
  shows "wm_a q = wm_a p" "wm_len q = wm_len p" "wm_loaded q = wm_loaded p" "wm_fb q = wm_fb p" "wm_desc q = wm_desc p"
    "wm_total q = wm_total p" "slot_free q = slot_free p" "mapped q = mapped p" "wm_span q = wm_span p" "wmap_inv q = wmap_inv p"
proof -
  show s: "wm_a q = wm_a p" "wm_len q = wm_len p" "wm_loaded q = wm_loaded p" "wm_fb q = wm_fb p" "wm_desc q = wm_desc p"
    "wm_total q = wm_total p"
    using assms by (simp_all add: same_maps_def fun_eq_iff wm_a_def wm_len_def wm_loaded_def wm_fb_def wm_desc_def wm_total_def)
  show f: "slot_free q = slot_free p" using s by (simp add: fun_eq_iff slot_free_def)
  show m: "mapped q = mapped p" "wm_span q = wm_span p" using s f by (simp_all add: fun_eq_iff mapped_def wm_span_def)
  show "wmap_inv q = wmap_inv p" unfolding wmap_inv_def s m using assms by (simp add: same_maps_def)
qed

lemma duplicateFd_maps:
  assumes "duplicateFd fd s = Ok (r, t)" "myproc s = Some i" "i < length (ptable s)"
  shows "same_maps (proc_at s i) (proc_at t i)" "myproc t = Some i" "length (ptable t) = length (ptable s)"
  using assms
  by (auto simp: duplicateFd_def with_myproc_def filedup_def upd_file_def upd_proc_def myproc_def proc_at_def same_maps_def
      split: option.splits if_splits)

definition span_of :: "u32 \<Rightarrow> int \<Rightarrow> nat set" where
  "span_of a l = {unat a ..< unat a + nat l}"

text \<open>
  C7.  \<^verbatim>\<open>wmap\<close> never lets two mappings overlap.  For a page-aligned area between \<open>0x60000000\<close> and
  \<open>0x80000000\<close> it succeeds exactly when fewer than sixteen mappings exist and none of them intersects the
  area; it then records the area in a slot that was free, with no page loaded, and leaves every
  other mapping as it was; otherwise it returns \<open>-1\<close> and the table is unchanged.  In both cases the
  mappings of the process stay inside the range, pairwise disjoint and correctly counted.
\<close>

theorem wmap_keeps_mappings_disjoint:
  assumes "wmap_inv (proc_at s i)" "myproc s = Some i" "i < length (ptable s)" "area_ok a l"
    and "wmap a l flags fd s = Ok (r, t)" and "p = proc_at s i" "q = proc_at t i"
  shows "wmap_inv q \<and>
    (if wm_total p = int MAX_WMMAP_INFO \<or> (\<exists>j\<in>mapped p. wm_span p j \<inter> span_of a l \<noteq> {})
     then r = -1 \<and> same_maps p q
     else r = a \<and> (\<exists>k < MAX_WMMAP_INFO. k \<notin> mapped p \<and> mapped q = insert k (mapped p) \<and> wm_span q k = span_of a l \<and>
       wm_loaded q k = 0 \<and> wm_fb q k = (if flags AND MAP_ANONYMOUS \<noteq> 0 then 0 else 1) \<and>
       (\<forall>j. j \<noteq> k \<longrightarrow> wm_span q j = wm_span p j \<and> wm_loaded q j = wm_loaded p j \<and> wm_fb q j = wm_fb p j \<and> wm_desc q j = wm_desc p j)))"
proof -
  obtain fdn s1 where d: "(if fd \<ge> 0 then duplicateFd fd s else Ok (-1, s)) = Ok (fdn, s1)"
    and w: "with_myproc s1 (\<lambda>i p. case wmap_scan p a l (-1) 0 MAX_WMMAP_INFO of None \<Rightarrow> Ok (-1, s1)
      | Some spot \<Rightarrow> if spot = -1 then Ok (-1, s1)
         else let (u, s2) = updateWmap i a l 0 (if flags AND MAP_ANONYMOUS \<noteq> 0 then 0 else 1) fdn (wm_total p + 1) spot s1
              in Ok (if u \<noteq> 0 then -1 else a, s2)) = Ok (r, t)"
    using assms(5) unfolding wmap_def Let_def by (auto simp only: bindr_Ok_iff split_paired_Ex prod.case)
  have s1: "same_maps p (proc_at s1 i)" "myproc s1 = Some i" "length (ptable s1) = length (ptable s)"
    using d duplicateFd_maps [OF _ assms(2,3)] assms(2,6) by (auto split: if_splits simp: same_maps_def)
  let ?p1 = "proc_at s1 i" and ?fb = "if flags AND MAP_ANONYMOUS \<noteq> 0 then 0 else 1"
  note S = same_mapsD [OF s1(1)]
  have inv: "wmap_inv ?p1" using S assms(1,6) by simp
  note sc = wmap_scan_result [OF inv assms(4), folded span_of_def] and ff = find_free_slot [OF inv]
  show ?thesis
  proof (cases "wm_total p = int MAX_WMMAP_INFO \<or> (\<exists>j\<in>mapped p. wm_span p j \<inter> span_of a l \<noteq> {})")
    case True
    then have "wmap_scan ?p1 a l (-1) 0 MAX_WMMAP_INFO = None" using sc S by (simp only: if_True)
    then have "r = -1" "t = s1" using w s1(2) by (auto simp: with_myproc_def)
    then show ?thesis using True s1(1) inv assms(7) by simp
  next
    case False
    then obtain k where k: "find (slot_free ?p1) [0..<MAX_WMMAP_INFO] = Some k" "k < MAX_WMMAP_INFO" "slot_free ?p1 k"
      using ff S by auto
    then have "wmap_scan ?p1 a l (-1) 0 MAX_WMMAP_INFO = Some (int k)" using sc S False by (simp only: if_False option.map)
    then have rt: "r = a" "t = upd_proc i (slot_set k a l 0 ?fb fdn (wm_total ?p1 + 1)) s1"
      using w s1(2) by (auto simp: with_myproc_def updateWmap_slot [OF k(2)])
    have q: "q = slot_set k a l 0 ?fb fdn (wm_total ?p1 + 1) ?p1"
      using rt(2) assms(3,7) s1(3) by (simp add: upd_proc_def proc_at_def)
    have "wm_span ?p1 j \<inter> {unat a ..< unat a + nat l} = {}" if "j \<in> mapped ?p1" for j
      using False that S unfolding span_of_def by simp
    note T = take_slot [OF inv k(2,3) assms(4) this q] and F = slot_set_fields [OF inv k(2) q]
    have "k \<notin> mapped p" using k(3) S by (simp add: mapped_def)
    then show ?thesis using T F S False k(2) rt(1) unfolding span_of_def by auto
  qed
qed

text \<open>A process with no mapping yet, and its first \<^verbatim>\<open>wmap\<close>.\<close>

definition demo_mapper :: proc where
  "demo_mapper = init_wmap demo_owner"

definition demo_maps :: kstate where
  "demo_maps = demo_caller\<lparr>kmem_freelist := 0x80501000, ptable := demo_mapper # replicate 63 zero_proc\<rparr>"

lemma demo_maps_simps [simp]:
  "myproc demo_maps = Some 0" "proc_at demo_maps 0 = demo_mapper" "length (ptable demo_maps) = 64"
  "heap demo_maps = heap (demo_user 0x520007 1)" "p_pgdir demo_mapper = demo_pgdir"
  by (simp_all add: demo_maps_def demo_caller_def myproc_def proc_at_def demo_kernel_def demo_mapper_def init_wmap_def demo_owner_def)

lemma demo_mapper_slots:
  assumes "i < 16"
  shows "wm_a demo_mapper i = 0" "wm_len demo_mapper i = -1" "slot_free demo_mapper i"
  using assms by (simp_all add: demo_mapper_def init_wmap_def wm_a_def wm_len_def slot_free_def)

lemma demo_mapper_inv: "wmap_inv demo_mapper" "mapped demo_mapper = {}" "wm_total demo_mapper = 0"
proof -
  show m: "mapped demo_mapper = {}" using demo_mapper_slots(3) by (auto simp: mapped_def)
  show "wm_total demo_mapper = 0" by (simp add: demo_mapper_def init_wmap_def wm_total_def)
  then show "wmap_inv demo_mapper" unfolding wmap_inv_def m by (simp add: demo_mapper_def init_wmap_def)
qed

lemma demo_area: "area_ok 0x60000000 0x2000"
  by (simp add: area_ok_def pg_aligned_def)

lemma demo_wmap:
  "wmap 0x60000000 0x2000 14 (-1) demo_maps =
     Ok (0x60000000, upd_proc 0 (slot_set 0 0x60000000 0x2000 0 0 (-1) 1) demo_maps)"
proof -
  have "find (slot_free demo_mapper) (0 # [1..<16]) = Some 0" using demo_mapper_slots(3) [of 0] by simp
  then have "wmap_scan demo_mapper 0x60000000 0x2000 (-1) 0 16 = Some 0"
    using wmap_scan_result [OF demo_mapper_inv(1) demo_area] demo_mapper_inv(2,3) by (simp add: upt_conv_Cons)
  then show ?thesis
    using updateWmap_slot [of 0 0 "0x60000000" "0x2000" 0 0 "-1" 1 demo_maps] demo_mapper_inv(3)
    by (simp add: wmap_def with_myproc_def)
qed

theorem wmap_keeps_mappings_disjoint_witness:
  "let s = demo_maps; a = 0x60000000; l = 0x2000; flags = 14; p = proc_at s 0; r = 0x60000000;
       q = proc_at (upd_proc 0 (slot_set 0 0x60000000 0x2000 0 0 (-1) 1) demo_maps) 0 in wmap_inv q \<and>
    (if wm_total p = int MAX_WMMAP_INFO \<or> (\<exists>j\<in>mapped p. wm_span p j \<inter> span_of a l \<noteq> {})
     then r = -1 \<and> same_maps p q
     else r = a \<and> (\<exists>k < MAX_WMMAP_INFO. k \<notin> mapped p \<and> mapped q = insert k (mapped p) \<and> wm_span q k = span_of a l \<and>
       wm_loaded q k = 0 \<and> wm_fb q k = (if flags AND MAP_ANONYMOUS \<noteq> 0 then 0 else 1) \<and>
       (\<forall>j. j \<noteq> k \<longrightarrow> wm_span q j = wm_span p j \<and> wm_loaded q j = wm_loaded p j \<and> wm_fb q j = wm_fb p j \<and> wm_desc q j = wm_desc p j)))"
  unfolding Let_def
  by (rule wmap_keeps_mappings_disjoint [OF _ _ _ demo_area demo_wmap refl refl]) (simp_all add: demo_mapper_inv)

section \<open>Touching and unmapping\<close>


text \<open>The first touch of the first mapping.\<close>

definition demo_mapped :: kstate where
  "demo_mapped = upd_proc 0 (slot_set 0 0x60000000 0x2000 0 0 (-1) 1) demo_maps"

lemma vm_inv_fields:
  "heap t = heap s \<Longrightarrow> kmem_freelist t = kmem_freelist s \<Longrightarrow> kend t = kend s \<Longrightarrow> vm_inv t pgdir xs = vm_inv s pgdir xs"
  by (simp add: vm_inv_def free_inv_def pgdir_inv_def kpage_def)

lemma demo_mapped_proc:
  defines "q \<equiv> slot_set 0 0x60000000 0x2000 0 0 (-1) 1 demo_mapper"
  shows "proc_at demo_mapped 0 = q" "myproc demo_mapped = Some 0" "length (ptable demo_mapped) = 64" "wmap_inv q" "mapped q = {0}"
    "wm_span q 0 = {0x60000000..<0x60002000}" "wm_fb q 0 = 0" "wm_loaded q 0 = 0" "wm_a q 0 = 0x60000000" "wm_len q 0 = 0x2000"
    "p_pgdir q = demo_pgdir" "heap demo_mapped = heap (demo_user 0x520007 1)" "is_child (p_wmapInfoExtra q) = 0"
    "vm_inv demo_mapped demo_pgdir demo_free" "get_count pa demo_mapped = 0"
proof -
  note I = demo_mapper_inv
  have z: "0 < MAX_WMMAP_INFO" by simp
  have q: "q = slot_set 0 0x60000000 0x2000 0 0 (-1) (wm_total demo_mapper + 1) demo_mapper" by (simp add: q_def I)
  note F = slot_set_fields [OF I(1) z q]
  show "wmap_inv q" "mapped q = {0}"
    using take_slot [OF I(1) z demo_mapper_slots(3) demo_area _ q] I(2) by simp_all
  show "wm_span q 0 = {0x60000000..<0x60002000}" "wm_fb q 0 = 0" "wm_loaded q 0 = 0" "wm_a q 0 = 0x60000000" "wm_len q 0 = 0x2000"
    using F by simp_all
  show "p_pgdir q = demo_pgdir" "is_child (p_wmapInfoExtra q) = 0"
    by (simp_all add: q_def slot_set_def) (simp add: demo_mapper_def init_wmap_def)
  show "proc_at demo_mapped 0 = q" "myproc demo_mapped = Some 0" "length (ptable demo_mapped) = 64"
    "heap demo_mapped = heap (demo_user 0x520007 1)"
    using demo_maps_simps by (simp_all add: demo_mapped_def q_def upd_proc_def proc_at_def myproc_def)
  have "vm_inv demo_maps demo_pgdir demo_free = vm_inv (demo_user 0x520007 1) demo_pgdir demo_free"
    by (rule vm_inv_fields) (simp_all add: demo_maps_def demo_caller_def demo_kernel_def demo_user_def demo_def)
  then show "vm_inv demo_mapped demo_pgdir demo_free" by (simp add: demo_mapped_def demo_user_vm_inv)
  show "get_count pa demo_mapped = 0"
    by (simp add: demo_mapped_def get_count_def upd_proc_def demo_maps_def demo_caller_def demo_kernel_def)
qed

lemma demo_mapped_absent: "PGROUNDDOWN w \<noteq> 0 \<Longrightarrow> \<not> present (heap demo_mapped) demo_pgdir w"
  by (simp add: demo_mapped_proc(12) present_def demo_user_pte)


lemma load_slot:
  assumes inv: "wmap_inv p" and k: "k \<in> mapped p"
    and q: "q = slot_set k (wm_a p k) (wm_len p k) n (wm_fb p k) (wm_desc p k) (wm_total p) p"
  shows "wmap_inv q" "mapped q = mapped p"
proof -
  have k16: "k < MAX_WMMAP_INFO" using k by (simp add: mapped_def)
  note F = slot_set_fields [OF inv k16 q]
  have s: "wm_a q i = wm_a p i" "wm_len q i = wm_len p i" "slot_free q i = slot_free p i" "wm_span q i = wm_span p i" for i
    using F(1,2,7,8) [of i] by (auto simp: slot_free_def wm_span_def)
  show m: "mapped q = mapped p" using s by (simp add: mapped_def)
  show "wmap_inv q"
    unfolding wmap_inv_def m s F(6) using slot_set_lengths [OF inv q] wmap_invD(6-8) [OF inv] by blast
qed

lemma loaded_entry:
  assumes "pg_aligned m"
  shows "PTE_ADDR ((V2P m OR ((PTE_W OR PTE_U) OR PTE_P)) OR PTE_P) = V2P m" "((V2P m OR ((PTE_W OR PTE_U) OR PTE_P)) OR PTE_P) AND PTE_P \<noteq> 0"
  by (rule mapped_entry; simp add: assms PTE_ADDR_def)+

lemma span_rng:
  assumes "area_ok a l" "unat fa \<in> {unat a ..< unat a + nat l}"
  shows "rng a (PGROUNDUP (a + word_of_int l)) fa"
proof -
  note A = area_end [OF assms(1)]
  have "a \<le> fa" "fa < a + word_of_int l" using assms(2) by (auto simp: word_le_nat_alt word_less_nat_alt A(1))
  moreover have "PGROUNDDOWN fa \<le> fa" by (simp add: word_le_nat_alt unat_PGROUNDDOWN)
  ultimately have "PGROUNDDOWN fa < PGROUNDUP (a + word_of_int l)" using PGROUNDUP_bounds(1) [OF A(2)] by (meson le_less_trans less_le_trans)
  moreover have "a \<le> PGROUNDDOWN fa"
  proof -
    have "unat a div 4096 * 4096 \<le> unat fa div 4096 * 4096"
      using \<open>a \<le> fa\<close> by (simp add: word_le_nat_alt div_le_mono)
    moreover have "unat (PGROUNDDOWN a) = unat a" using assms(1) by (simp add: area_ok_def pg_aligned_iff)
    ultimately show ?thesis by (simp add: word_le_nat_alt unat_PGROUNDDOWN)
  qed
  ultimately show ?thesis by (simp add: rng_def)
qed



end
