(* ===== verification/Fs_Txn.thy ===== *)
theory Fs_Txn
  imports Fs Log_Crash
begin

text \<open>
  Blocks as the file system uses them inside a transaction.  \<open>txn s blks\<close> says that the buffer cache
  and the log are in order, that an operation is in progress, and that the transaction has
  recorded the blocks \<open>blks\<close>.  Reading a block, changing it under \<^verbatim>\<open>log_write\<close> and releasing it then
  act on the view \<open>bview\<close> of the blocks alone; nothing reaches the disk.
\<close>

section \<open>Transactions\<close>

definition txn :: "'a lgstate_scheme \<Rightarrow> u32 list \<Rightarrow> bool" where
  "txn s blks \<longleftrightarrow> log_inv s blks \<and> 1 \<le> log_outstanding s"

definition adds :: "'a \<Rightarrow> 'a list \<Rightarrow> 'a list" where
  "adds b blks = (if b \<in> set blks then blks else blks @ [b])"

lemma adds_simps [simp]: "set (adds b blks) = insert b (set blks)" "b \<in> set blks \<Longrightarrow> adds b blks = blks"
  by (auto simp: adds_def)

lemma length_adds: "length (adds b blks) = length blks + (if b \<in> set blks then 0 else 1)"
  by (simp add: adds_def)

text \<open>What the operations on blocks leave alone.\<close>

definition lframe :: "'a lgstate_scheme \<Rightarrow> 'a lgstate_scheme \<Rightarrow> bool" where
  "lframe s t \<longleftrightarrow> (\<exists>pt bf mr lb n. t = s\<lparr>ptable := pt, bufs := bf, bmru := mr, lh_block := lb, lh_n := n\<rparr>) \<and> same_procs s t"

lemma lframeI:
  "t = s\<lparr>ptable := pt, bufs := bf, bmru := mr, lh_block := lb, lh_n := n\<rparr> \<Longrightarrow> same_procs s t \<Longrightarrow> lframe s t"
  unfolding lframe_def by blast

lemma lframe_refl [simp]: "lframe s s"
  by (rule lframeI [where pt = "ptable s" and bf = "bufs s" and mr = "bmru s" and lb = "lh_block s" and n = "lh_n s"]) simp_all

lemma lframe_trans:
  assumes "lframe s t" "lframe t u" shows "lframe s u"
proof -
  obtain p1 b1 m1 l1 n1 where t: "t = s\<lparr>ptable := p1, bufs := b1, bmru := m1, lh_block := l1, lh_n := n1\<rparr>"
    using assms(1) unfolding lframe_def by blast
  obtain p2 b2 m2 l2 n2 where "u = t\<lparr>ptable := p2, bufs := b2, bmru := m2, lh_block := l2, lh_n := n2\<rparr>"
    using assms(2) unfolding lframe_def by blast
  then have "u = s\<lparr>ptable := p2, bufs := b2, bmru := m2, lh_block := l2, lh_n := n2\<rparr>" using t by simp
  then show ?thesis using assms by (intro lframeI) (auto simp: lframe_def intro: same_procs_trans)
qed

lemma bframe_lframe:
  assumes "bframe s t" "disk t = disk s" "disk_writes t = disk_writes s" shows "lframe s t"
proof -
  obtain p b m d w where t: "t = s\<lparr>ptable := p, bufs := b, bmru := m, disk := d, disk_writes := w\<rparr>"
    using assms(1) unfolding bframe_def by blast
  have "d = disk s" "w = disk_writes s" using assms(2,3) by (simp_all add: t)
  then have "t = s\<lparr>ptable := p, bufs := b, bmru := m, lh_block := lh_block s, lh_n := lh_n s\<rparr>" using t by simp
  then show ?thesis by (rule lframeI) (use assms(1) in \<open>simp only: bframe_def\<close>)
qed

lemma lframe_fields:
  assumes "lframe s t"
  shows "disk t = disk s" "disk_writes t = disk_writes s" "log_start t = log_start s" "log_outstanding t = log_outstanding s"
    "myproc t = myproc s" "curpid t = curpid s"
proof -
  show "disk t = disk s" "disk_writes t = disk_writes s" "log_start t = log_start s" "log_outstanding t = log_outstanding s"
    "myproc t = myproc s" using assms by (auto simp: lframe_def myproc_def)
  then show "curpid t = curpid s"
    using same_procs_pid [of s t "the (myproc s)"] assms unfolding curpid_def lframe_def by simp
qed

lemma lframe_fs:
  fixes s t :: "'a fstate_scheme"
  assumes "lframe s t"
  shows "sb t = sb s" "icache t = icache s" "devsw t = devsw s" "cons t = cons s" "inode_at t ip = inode_at s ip"
  using assms by (auto simp: lframe_def inode_at_def)

lemma txnD:
  assumes "txn s blks"
  shows "log_inv s blks" "bio_inv s" "pinned s = set blks" "1 \<le> log_outstanding s" "distinct blks" "length blks < LOGSIZE"
  using assms listsD(5,6) [of s blks] by (auto simp: txn_def log_inv_def)

section \<open>Reading, changing and releasing a block\<close>

lemma log_invD:
  assumes "log_inv s blks"
  shows "bio_inv s" "pinned s = set blks"
  using assms by (auto simp: log_inv_def)

lemma read_log:
  assumes t: "log_inv s blks" and b: "b < FSSIZE" "b \<notin> held s" and room: "length blks + card (held s) < NBUF"
  obtains bp s1 where "bread 1 b s = Ok (bp, s1)" "log_inv s1 blks" "lframe s s1" "bview s1 = bview s" "held s1 = insert b (held s)"
    "holds s1 bp b" "b_data (buf_at s1 bp) = bview s b" "b \<in> set blks \<or> bview s1 b = disk s1 1 b"
    "\<And>j c. holds s j c \<Longrightarrow> holds s1 j c"
proof -
  note T = log_invD [OF t]
  have c: "card (pinned s \<union> held s) < NBUF"
    using card_Un_le [of "set blks" "held s"] card_length [of blks] room by (simp add: T(2))
  obtain bp s1 where 1: "bread 1 b s = Ok (bp, s1)" "bio_inv s1" "bframe s s1" "disk s1 = disk s" "disk_writes s1 = disk_writes s"
    "bview s1 = bview s" "pinned s1 = pinned s" "held s1 = insert b (held s)" "holds s1 bp b" "\<And>j c. holds s j c \<Longrightarrow> holds s1 j c"
    by (rule bread_ok [OF T(1) b disjI2 [OF c]]) (rule that)
  note F = bframe_log [OF 1(3)]
  have "log_inv s1 blks" using t 1 F lists_frame [OF 1(3), of blks] by (simp add: log_inv_def)
  moreover have "b_data (buf_at s1 bp) = bview s b" using bview_holds [OF 1(2,9)] 1(6) by (simp add: buf_at_def)
  moreover have "b \<in> set blks \<or> bview s1 b = disk s1 1 b" using bview_clean [OF T(1), of b] b(2) T(2) 1(4,6) by auto
  ultimately show thesis
    using that [OF 1(1) _ bframe_lframe [OF 1(3,4,5)] 1(6,8,9)] 1(10) by simp
qed

lemma release_log:
  assumes t: "log_inv s blks" and h: "holds s bp b" and c: "b \<in> set blks \<or> bview s b = disk s 1 b"
  obtains t where "brelse bp s = Ok t" "log_inv t blks" "lframe s t" "bview t = bview s" "held t = held s - {b}"
    "\<And>j c. holds t j c \<longleftrightarrow> holds s j c \<and> j \<noteq> bp"
proof -
  note T = log_invD [OF t]
  obtain t where 1: "brelse bp s = Ok t" "bio_inv t" "bframe s t" "bview t = bview s" "pinned t = pinned s"
    "held t = held s - {b}" "\<And>j c. holds t j c \<longleftrightarrow> holds s j c \<and> j \<noteq> bp" "disk t = disk s" "disk_writes t = disk_writes s"
    by (rule brelse_ok [OF T(1) h c [folded T(2)]]) (rule that)
  note F = bframe_log [OF 1(3)]
  have "log_inv t blks" using assms(1) 1 F lists_frame [OF 1(3), of blks] by (simp add: log_inv_def)
  then show thesis using that [OF 1(1) _ bframe_lframe [OF 1(3,8,9)] 1(4,6,7)] by simp
qed

lemma peek_log:
  assumes "log_inv s blks" "b < FSSIZE" "b \<notin> held s" "length blks + card (held s) < NBUF"
  obtains bp s1 t where "bread 1 b s = Ok (bp, s1)" "b_data (buf_at s1 bp) = bview s b" "lframe s s1" "brelse bp s1 = Ok t" "log_inv t blks" "lframe s t"
    "bview t = bview s" "held t = held s"
proof -
  obtain bp s1 where 1: "bread 1 b s = Ok (bp, s1)" "log_inv s1 blks" "lframe s s1" "bview s1 = bview s" "held s1 = insert b (held s)"
    "holds s1 bp b" "b_data (buf_at s1 bp) = bview s b" "b \<in> set blks \<or> bview s1 b = disk s1 1 b"
    by (rule read_log [OF assms]) (rule that)
  obtain t where t: "brelse bp s1 = Ok t" "log_inv t blks" "lframe s1 t" "bview t = bview s1" "held t = held s1 - {b}"
    by (rule release_log [OF 1(2,6,8)]) (rule that)
  show thesis by (rule that [OF 1(1,7,3) t(1,2) lframe_trans [OF 1(3) t(3)]]) (use 1 t assms(3) in auto)
qed

text \<open>The same inside a transaction.\<close>

lemma txn_frame: "txn s blks \<Longrightarrow> lframe s t \<Longrightarrow> log_inv t blks' \<Longrightarrow> txn t blks'"
  by (simp add: txn_def lframe_fields)

lemma read_block:
  assumes t: "txn s blks" and b: "b < FSSIZE" "b \<notin> held s" and room: "length blks + card (held s) < NBUF"
  obtains bp s1 where "bread 1 b s = Ok (bp, s1)" "txn s1 blks" "lframe s s1" "bview s1 = bview s" "held s1 = insert b (held s)"
    "holds s1 bp b" "b_data (buf_at s1 bp) = bview s b" "b \<in> set blks \<or> bview s1 b = disk s1 1 b"
    "\<And>j c. holds s j c \<Longrightarrow> holds s1 j c"
  by (rule read_log [OF txnD(1) [OF t] b room]) (rule that, assumption, erule (1) txn_frame [OF t])

lemma release_block:
  assumes t: "txn s blks" and h: "holds s bp b" and c: "b \<in> set blks \<or> bview s b = disk s 1 b"
  obtains t where "brelse bp s = Ok t" "txn t blks" "lframe s t" "bview t = bview s" "held t = held s - {b}"
    "\<And>j c. holds t j c \<longleftrightarrow> holds s j c \<and> j \<noteq> bp"
  by (rule release_log [OF txnD(1) [OF t] h c]) (rule that, assumption, erule (1) txn_frame [OF t])

lemma upd_data_view:
  assumes "bio_inv s" "holds s bp b"
  shows "upd_buf bp (\<lambda>x. x\<lparr>b_data := f (b_data x)\<rparr>) s = upd_buf bp (\<lambda>x. x\<lparr>b_data := f (bview s b)\<rparr>) s"
  using bview_holds [OF assms] by (simp add: upd_buf_def buf_at_def)

lemma lframe_updates [simp]: "lframe s (s\<lparr>lh_block := lb, lh_n := n\<rparr>)" "lframe s (s\<lparr>lh_block := lb\<rparr>)" "lframe s (upd_buf bp f s)"
proof -
  show "lframe s (s\<lparr>lh_block := lb, lh_n := n\<rparr>)" for n
    by (rule lframeI [where pt = "ptable s" and bf = "bufs s" and mr = "bmru s" and lb = lb and n = n]) (simp_all add: same_procs_def)
  from this [of "lh_n s"] show "lframe s (s\<lparr>lh_block := lb\<rparr>)" by simp
  show "lframe s (upd_buf bp f s)"
    by (rule lframeI [where pt = "ptable s" and bf = "bufs (upd_buf bp f s)" and mr = "bmru s" and lb = "lh_block s" and n = "lh_n s"])
      (simp_all add: same_procs_def upd_buf_def)
qed

lemma log_write_frame: "log_write bp s = Ok t \<Longrightarrow> lframe s t"
  by (auto simp: log_write_def Let_def split: if_splits intro: lframe_trans [OF _ lframe_updates(3)])

lemma update_block:
  assumes t: "txn s blks" and h: "holds s bp b" and b: "b \<notin> area (log_start s)" and n: "Suc (length blks) < LOGSIZE"
    and l: "length (f (bview s b)) = BSIZE"
  obtains t where "log_write bp (upd_buf bp (\<lambda>x. x\<lparr>b_data := f (b_data x)\<rparr>) s) = Ok t" "txn t (adds b blks)" "lframe s t"
    "bview t = (bview s)(b := f (bview s b))" "held t = held s" "\<And>j c. holds t j c \<longleftrightarrow> holds s j c"
proof -
  note T = txnD [OF t]
  let ?u = "upd_buf bp (\<lambda>x. x\<lparr>b_data := f (bview s b)\<rparr>) s"
  note D = set_data_ok [OF T(2) h l refl]
  have fu: "lframe s ?u" by simp
  have u: "log_inv ?u blks"
    using T(1) D(1,4) lists_frame [OF D(2), of blks] by (simp add: log_inv_def) (simp add: upd_buf_def)
  have o: "1 \<le> log_outstanding ?u" and ar: "b \<notin> area (log_start ?u)" using T(4) b by (simp_all add: upd_buf_def)
  have ho: "holds ?u bp b" using h D(6) by simp
  obtain v where v: "log_write bp ?u = Ok v" "log_inv v (adds b blks)" "held v = held ?u"
    "\<And>j c. holds v j c \<longleftrightarrow> holds ?u j c" "bview v = bview ?u" "log_outstanding v = log_outstanding ?u"
    by (rule log_write_ok [OF u ho ar n o, folded adds_def]) (rule that)
  show thesis
  proof (rule that)
    show "log_write bp (upd_buf bp (\<lambda>x. x\<lparr>b_data := f (b_data x)\<rparr>) s) = Ok v" using v(1) upd_data_view [OF T(2) h] by simp
    show "txn v (adds b blks)" using v(2,6) T(4) by (simp add: txn_def upd_buf_def)
    show "lframe s v" by (rule lframe_trans [OF fu log_write_frame [OF v(1)]])
  qed (use v D in simp_all)
qed

text \<open>Reading a block and releasing it, and changing it in one go.\<close>

lemma peek_block:
  assumes "txn s blks" "b < FSSIZE" "b \<notin> held s" "length blks + card (held s) < NBUF"
  obtains bp s1 t where "bread 1 b s = Ok (bp, s1)" "b_data (buf_at s1 bp) = bview s b" "lframe s s1" "brelse bp s1 = Ok t" "txn t blks" "lframe s t"
    "bview t = bview s" "held t = held s" "\<And>j c. holds s j c \<Longrightarrow> holds t j c"
proof -
  obtain bp s1 where 1: "bread 1 b s = Ok (bp, s1)" "txn s1 blks" "lframe s s1" "bview s1 = bview s" "held s1 = insert b (held s)"
    "holds s1 bp b" "b_data (buf_at s1 bp) = bview s b" "b \<in> set blks \<or> bview s1 b = disk s1 1 b" "\<And>j c. holds s j c \<Longrightarrow> holds s1 j c"
    by (rule read_block [OF assms]) (rule that)
  obtain t where t: "brelse bp s1 = Ok t" "txn t blks" "lframe s1 t" "bview t = bview s1" "held t = held s1 - {b}"
    "\<And>j c. holds t j c \<longleftrightarrow> holds s1 j c \<and> j \<noteq> bp"
    by (rule release_block [OF 1(2,6,8)]) (rule that)
  have "j \<noteq> bp" if "holds s j c" for j c
    using 1(6,9) that assms(3) by (auto simp: held_def holds_def)
  then show thesis using that [OF 1(1,7,3) t(1,2) lframe_trans [OF 1(3) t(3)]] 1 t assms(3) by auto
qed

lemma modify_block:
  assumes "txn s blks" "b < FSSIZE" "b \<notin> held s" "length blks + card (held s) < NBUF" "Suc (length blks) < LOGSIZE" "b \<notin> area (log_start s)"
    and l: "length (f (bview s b)) = BSIZE"
  obtains bp s1 s2 t where "bread 1 b s = Ok (bp, s1)" "b_data (buf_at s1 bp) = bview s b" "lframe s s1"
    "log_write bp (upd_buf bp (\<lambda>x. x\<lparr>b_data := f (b_data x)\<rparr>) s1) = Ok s2" "lframe s s2" "brelse bp s2 = Ok t"
    "txn t (adds b blks)" "lframe s t" "bview t = (bview s)(b := f (bview s b))" "held t = held s" "\<And>j c. holds s j c \<Longrightarrow> holds t j c"
proof -
  obtain bp s1 where 1: "bread 1 b s = Ok (bp, s1)" "txn s1 blks" "lframe s s1" "bview s1 = bview s" "held s1 = insert b (held s)"
    "holds s1 bp b" "b_data (buf_at s1 bp) = bview s b" "\<And>j c. holds s j c \<Longrightarrow> holds s1 j c"
    by (rule read_block [OF assms(1-4)]) (rule that)
  have ar: "b \<notin> area (log_start s1)" and l1: "length (f (bview s1 b)) = BSIZE" using assms(6) l lframe_fields [OF 1(3)] 1(4) by simp_all
  obtain s2 where 2: "log_write bp (upd_buf bp (\<lambda>x. x\<lparr>b_data := f (b_data x)\<rparr>) s1) = Ok s2" "txn s2 (adds b blks)" "lframe s1 s2"
    "bview s2 = (bview s1)(b := f (bview s1 b))" "held s2 = held s1" "\<And>j c. holds s2 j c \<longleftrightarrow> holds s1 j c"
    by (rule update_block [where f = f, OF 1(2,6) ar assms(5) l1]) (rule that)
  obtain t where t: "brelse bp s2 = Ok t" "txn t (adds b blks)" "lframe s2 t" "bview t = bview s2" "held t = held s2 - {b}"
    "\<And>j c. holds t j c \<longleftrightarrow> holds s2 j c \<and> j \<noteq> bp"
    using release_block [OF 2(2), of bp b] 2(6) 1(6) by auto
  have ne: "j \<noteq> bp" if "holds s j c" for j c
    using 1(6,8) that assms(3) by (auto simp: held_def holds_def)
  note f2 = lframe_trans [OF 1(3) 2(3)]
  show thesis
    by (rule that [OF 1(1,7,3) 2(1) f2 t(1,2) lframe_trans [OF f2 t(3)]]) (use 1 2 t ne assms(3) in auto)
qed

end
