(* ===== verification/Fs_Alloc.thy ===== *)
theory Fs_Alloc
  imports Fs_Txn
begin

text \<open>
  The block bitmap.  \<open>used s b\<close> reads the bit of block \<open>b\<close> in the file system's view of the bitmap
  block.  \<open>geom\<close> is the layout \<^verbatim>\<open>mkfs\<close> writes: boot block, superblock, log, inodes, one bitmap block,
  data.  \<^verbatim>\<open>balloc\<close> marks a free block as used and fills it with zeros, \<^verbatim>\<open>bfree\<close> marks it as free, and
  neither touches any other block.
\<close>

section \<open>Bits\<close>

definition mark_used :: "nat \<Rightarrow> u8 list \<Rightarrow> u8 list" where
  "mark_used i d = d[i div 8 := d ! (i div 8) OR push_bit (i mod 8) 1]"

definition mark_free :: "nat \<Rightarrow> u8 list \<Rightarrow> u8 list" where
  "mark_free i d = d[i div 8 := d ! (i div 8) AND NOT (push_bit (i mod 8) 1)]"

lemma bitmap_free_bit: "bitmap_free d i \<longleftrightarrow> \<not> bit (d ! (i div 8)) (i mod 8)"
  by (simp only: bitmap_free_def push_bit_of_1 and_exp_eq_0_iff_not_bit)

lemma length_mark [simp]: "length (mark_used i d) = length d" "length (mark_free i d) = length d"
  by (simp_all add: mark_used_def mark_free_def)

lemma bitmap_mark:
  assumes "i div 8 < length d"
  shows "bitmap_free (mark_used i d) j \<longleftrightarrow> j \<noteq> i \<and> bitmap_free d j"
    "bitmap_free (mark_free i d) j \<longleftrightarrow> j = i \<or> bitmap_free d j"
proof -
  have ij: "j = i \<longleftrightarrow> j div 8 = i div 8 \<and> j mod 8 = i mod 8" by (metis div_mult_mod_eq)
  have b: "bit (push_bit (i mod 8) 1 :: u8) (j mod 8) \<longleftrightarrow> j mod 8 = i mod 8" by (auto simp: bit_simps)
  have l: "j mod 8 < 8" by simp
  show "bitmap_free (mark_used i d) j \<longleftrightarrow> j \<noteq> i \<and> bitmap_free d j"
    unfolding bitmap_free_bit mark_used_def using assms b
    by (cases "j div 8 = i div 8") (auto simp: ij bit_or_iff)
  show "bitmap_free (mark_free i d) j \<longleftrightarrow> j = i \<or> bitmap_free d j"
    unfolding bitmap_free_bit mark_free_def using assms b l
    by (cases "j div 8 = i div 8") (auto simp: ij bit_and_iff bit_not_iff)
qed

lemma mark_inverse:
  assumes "i div 8 < length d" "bitmap_free d i"
  shows "mark_free i (mark_used i d) = d"
proof -
  have "\<not> bit (d ! (i div 8)) (i mod 8)" using assms(2) by (simp add: bitmap_free_bit)
  then have "(d ! (i div 8) OR push_bit (i mod 8) 1) AND NOT (push_bit (i mod 8) 1) = d ! (i div 8)"
    by (intro bit_word_eqI) (auto simp: bit_simps)
  then show ?thesis using assms(1) by (simp add: mark_free_def mark_used_def)
qed

lemma balloc_scan_spec:
  "(case balloc_scan d sz b bi k of
     Some i \<Rightarrow> bi \<le> i \<and> i < bi + k \<and> b + i < sz \<and> bitmap_free d i \<and> (\<forall>j. bi \<le> j \<and> j < i \<longrightarrow> \<not> bitmap_free d j)
   | None \<Rightarrow> \<forall>j. bi \<le> j \<and> j < bi + k \<and> b + j < sz \<longrightarrow> \<not> bitmap_free d j)"
proof (induction k arbitrary: bi)
  case (Suc k)
  show ?case
  proof (cases "b + bi < sz \<and> \<not> bitmap_free d bi")
    case True
    have le: "bi \<le> j \<longleftrightarrow> j = bi \<or> Suc bi \<le> j" for j by auto
    show ?thesis using True Suc [of "Suc bi"] by (auto simp: le split: option.splits)
  qed auto
qed auto

section \<open>Layout\<close>

definition geom :: "'a fstate_scheme \<Rightarrow> bool" where
  "geom s \<longleftrightarrow> unat (sb_size (sb s)) \<le> 1000 \<and> unat (sb_bmapstart (sb s)) < unat (sb_size (sb s)) \<and>
     unat (log_start s) + LOGSIZE \<le> unat (sb_inodestart (sb s)) \<and>
     unat (sb_inodestart (sb s)) + unat (sb_ninodes (sb s)) div 8 < unat (sb_bmapstart (sb s))"

definition used :: "'a fstate_scheme \<Rightarrow> u32 \<Rightarrow> bool" where
  "used s b \<longleftrightarrow> \<not> bitmap_free (bview s (sb_bmapstart (sb s))) (unat b)"

text \<open>The blocks before the data are in use.\<close>

definition meta_used :: "'a fstate_scheme \<Rightarrow> bool" where
  "meta_used s \<longleftrightarrow> (\<forall>b. unat b \<le> unat (sb_bmapstart (sb s)) \<longrightarrow> used s b)"

definition free_blocks :: "'a fstate_scheme \<Rightarrow> u32 set" where
  "free_blocks s = {b. b < sb_size (sb s) \<and> \<not> used s b}"

lemma geomD:
  assumes "geom s"
  shows "sb_bmapstart (sb s) < FSSIZE" "sb_bmapstart (sb s) \<notin> area (log_start s)"
    "unat b < unat (sb_size (sb s)) \<Longrightarrow> b < FSSIZE" "unat (sb_bmapstart (sb s)) < unat b \<Longrightarrow> b \<notin> area (log_start s)"
    "unat b < 1000 \<Longrightarrow> BBLOCK b (sb s) = sb_bmapstart (sb s)" "(unat (sb_size (sb s)) + 4096 - 1) div 4096 = Suc 0"
proof -
  show "sb_bmapstart (sb s) < FSSIZE" "sb_bmapstart (sb s) \<notin> area (log_start s)"
    "unat b < unat (sb_size (sb s)) \<Longrightarrow> b < FSSIZE" "unat (sb_bmapstart (sb s)) < unat b \<Longrightarrow> b \<notin> area (log_start s)"
    using assms by (auto simp: geom_def area_def word_less_nat_alt)
  show "BBLOCK b (sb s) = sb_bmapstart (sb s)" if "unat b < 1000"
  proof -
    have "b div 4096 = 0" using that by (simp add: word_unat_eq_iff unat_div_distrib)
    then show ?thesis by (simp add: BBLOCK_def)
  qed
  show "(unat (sb_size (sb s)) + 4096 - 1) div 4096 = Suc 0" using assms by (simp add: geom_def div_nat_eqI)
qed

lemma geom_frame: "lframe s t \<Longrightarrow> geom t = geom s"
  by (simp add: geom_def lframe_fs lframe_fields)

section \<open>Allocating and freeing\<close>

lemma bzero_ok:
  assumes "txn s blks" "b < FSSIZE" "b \<notin> held s" "length blks + card (held s) < NBUF" "Suc (length blks) < LOGSIZE" "b \<notin> area (log_start s)"
  obtains t where "bzero 1 b s = Ok t" "txn t (adds b blks)" "lframe s t" "bview t = (bview s)(b := replicate BSIZE 0)" "held t = held s"
    "\<And>j c. holds s j c \<Longrightarrow> holds t j c"
proof -
  obtain bp s1 s2 t where m: "bread 1 b s = Ok (bp, s1)"
    "log_write bp (upd_buf bp (\<lambda>x. x\<lparr>b_data := (\<lambda>_. replicate BSIZE 0) (b_data x)\<rparr>) s1) = Ok s2" "brelse bp s2 = Ok t"
    "txn t (adds b blks)" "lframe s t" "bview t = (bview s)(b := replicate BSIZE 0)" "held t = held s" "\<And>j c. holds s j c \<Longrightarrow> holds t j c"
    by (rule modify_block [OF assms, of "\<lambda>_. replicate BSIZE 0"]) (simp, rule that)
  show thesis by (rule that [OF _ m(4-8)]) (use m(1-3) in \<open>simp add: bzero_def\<close>)
qed

lemma used_upd:
  assumes "geom s" "txn s blks" "lframe s t" "unat b < 1000"
  shows "bview t (sb_bmapstart (sb s)) = mark_used (unat b) (bview s (sb_bmapstart (sb s))) \<Longrightarrow> used t c \<longleftrightarrow> c = b \<or> used s c"
    "bview t (sb_bmapstart (sb s)) = mark_free (unat b) (bview s (sb_bmapstart (sb s))) \<Longrightarrow> used t c \<longleftrightarrow> c \<noteq> b \<and> used s c"
proof -
  have "unat b div 8 < length (bview s (sb_bmapstart (sb s)))" using assms(4) length_bview [OF txnD(2) [OF assms(2)]] by simp
  from bitmap_mark [OF this] show
    "bview t (sb_bmapstart (sb s)) = mark_used (unat b) (bview s (sb_bmapstart (sb s))) \<Longrightarrow> used t c \<longleftrightarrow> c = b \<or> used s c"
    "bview t (sb_bmapstart (sb s)) = mark_free (unat b) (bview s (sb_bmapstart (sb s))) \<Longrightarrow> used t c \<longleftrightarrow> c \<noteq> b \<and> used s c"
    by (auto simp: used_def lframe_fs [OF assms(3)] word_unat_eq_iff)
qed

lemma balloc_ok:
  assumes g: "geom s" and t: "txn s blks" and mu: "meta_used s" and hu: "\<forall>b\<in>held s. used s b" "sb_bmapstart (sb s) \<notin> held s" "finite (held s)"
    and room: "length blks + card (held s) + 1 < NBUF" "length (adds (sb_bmapstart (sb s)) blks) + 1 < LOGSIZE"
    and fr: "free_blocks s \<noteq> {}"
  obtains b t where "balloc 1 s = Ok (b, t)" "b \<in> free_blocks s" "txn t (adds b (adds (sb_bmapstart (sb s)) blks))" "lframe s t" "held t = held s"
    "bview t = (bview s)(sb_bmapstart (sb s) := mark_used (unat b) (bview s (sb_bmapstart (sb s))), b := replicate BSIZE 0)"
    "\<And>j c. holds s j c \<Longrightarrow> holds t j c"
proof -
  let ?bm = "sb_bmapstart (sb s)" and ?sz = "unat (sb_size (sb s))"
  note G = geomD [OF g]
  obtain b where b: "balloc_scan (bview s ?bm) ?sz 0 0 4096 = Some (unat b)" "b \<in> free_blocks s"
  proof -
    obtain b0 :: u32 where "unat b0 < ?sz" "bitmap_free (bview s ?bm) (unat b0)"
      using fr by (auto simp: free_blocks_def used_def word_less_nat_alt)
    then obtain i where i: "balloc_scan (bview s ?bm) ?sz 0 0 4096 = Some i" "i < ?sz" "bitmap_free (bview s ?bm) i"
      using balloc_scan_spec [where d = "bview s ?bm" and sz = ?sz and b = 0 and bi = 0 and k = 4096] g by (auto simp: geom_def split: option.splits)
    have "unat (of_nat i :: u32) = i" using i(2) unat_lt_2_32 [of "sb_size (sb s)"] by (simp add: unsigned_of_nat take_bit_nat_eq_self)
    then show thesis using i by (intro that [of "of_nat i"]) (simp_all add: free_blocks_def used_def word_less_nat_alt)
  qed
  have lt: "unat b < ?sz" "\<not> used s b" "unat b < 1000" using b(2) g by (auto simp: free_blocks_def word_less_nat_alt geom_def)
  have "\<not> unat b \<le> unat ?bm" using mu lt(2) by (auto simp: meta_used_def)
  then have bm: "b \<noteq> ?bm" "b \<notin> area (log_start s)" "b < FSSIZE" using G(3,4) lt(1) by auto
  have l1: "length (mark_used (unat b) (bview s ?bm)) = BSIZE" using length_bview [OF txnD(2) [OF t]] by simp
  have r1: "length blks + card (held s) < NBUF" "Suc (length blks) < LOGSIZE" using room by (auto simp: length_adds split: if_splits)
  obtain bp s1 s2 s3 where m: "bread 1 ?bm s = Ok (bp, s1)" "b_data (buf_at s1 bp) = bview s ?bm" "lframe s s1"
    "log_write bp (upd_buf bp (\<lambda>x. x\<lparr>b_data := mark_used (unat b) (b_data x)\<rparr>) s1) = Ok s2" "brelse bp s2 = Ok s3"
    "txn s3 (adds ?bm blks)" "lframe s s3" "bview s3 = (bview s)(?bm := mark_used (unat b) (bview s ?bm))" "held s3 = held s"
    "\<And>j c. holds s j c \<Longrightarrow> holds s3 j c"
    by (rule modify_block [where f = "mark_used (unat b)", OF t G(1) hu(2) r1 G(2) l1]) (rule that)
  have "b \<notin> held s" using hu(1) lt(2) by auto
  moreover have "length (adds ?bm blks) + card (held s3) < NBUF" using room(1) m(9) by (simp add: length_adds)
  ultimately obtain t where z: "bzero 1 b s3 = Ok t" "txn t (adds b (adds ?bm blks))" "lframe s3 t" "bview t = (bview s3)(b := replicate BSIZE 0)"
    "held t = held s3" "\<And>j c. holds s3 j c \<Longrightarrow> holds t j c"
    using bzero_ok [OF m(6) bm(3)] room(2) bm(2) lframe_fields(3) [OF m(7)] m(9) by (metis Suc_eq_plus1)
  have "balloc 1 s = Ok (b, t)"
    unfolding balloc_def G(6) using m(1-5) b(1) z(1) G(5) [of 0] by (simp add: mark_used_def)
  then show thesis by (rule that [OF _ b(2) z(2) lframe_trans [OF m(7) z(3)]]) (use m z in auto)
qed

lemma balloc_full:
  assumes g: "geom s" and t: "txn s blks" and h: "sb_bmapstart (sb s) \<notin> held s" "length blks + card (held s) < NBUF" and fr: "free_blocks s = {}"
  shows "balloc 1 s = Panic ''balloc: out of blocks''"
proof -
  let ?bm = "sb_bmapstart (sb s)" and ?sz = "unat (sb_size (sb s))"
  note G = geomD [OF g]
  obtain bp s1 u where m: "bread 1 ?bm s = Ok (bp, s1)" "b_data (buf_at s1 bp) = bview s ?bm" "brelse bp s1 = Ok u"
    by (rule peek_block [OF t G(1) h]) (rule that)
  have "\<not> bitmap_free (bview s ?bm) j" if "j < ?sz" for j
  proof -
    have j: "unat (of_nat j :: u32) = j" using that unat_lt_2_32 [of "sb_size (sb s)"] by (simp add: unsigned_of_nat take_bit_nat_eq_self)
    then have "(of_nat j :: u32) < sb_size (sb s)" using that by (simp add: word_less_nat_alt)
    then have "(of_nat j :: u32) \<in> free_blocks s" if "bitmap_free (bview s ?bm) j" using that j by (simp add: free_blocks_def used_def)
    then show ?thesis using fr by auto
  qed
  then have "balloc_scan (bview s ?bm) ?sz 0 0 4096 = None"
    using balloc_scan_spec [where d = "bview s ?bm" and sz = ?sz and b = 0 and bi = 0 and k = 4096] by (auto split: option.splits)
  then show ?thesis unfolding balloc_def G(6) using m G(5) [of 0] by simp
qed

lemma bfree_ok:
  assumes g: "geom s" and t: "txn s blks" and h: "sb_bmapstart (sb s) \<notin> held s"
    and room: "length blks + card (held s) < NBUF" "Suc (length blks) < LOGSIZE" and b: "b < sb_size (sb s)" "used s b"
  obtains t where "bfree 1 b s = Ok t" "txn t (adds (sb_bmapstart (sb s)) blks)" "lframe s t" "held t = held s"
    "bview t = (bview s)(sb_bmapstart (sb s) := mark_free (unat b) (bview s (sb_bmapstart (sb s))))" "\<And>j c. holds s j c \<Longrightarrow> holds t j c"
proof -
  let ?bm = "sb_bmapstart (sb s)"
  note G = geomD [OF g]
  have lt: "unat b < 1000" using b(1) g by (simp add: geom_def word_less_nat_alt)
  have l1: "length (mark_free (unat b) (bview s ?bm)) = BSIZE" using length_bview [OF txnD(2) [OF t]] by simp
  obtain bp s1 s2 t where m: "bread 1 ?bm s = Ok (bp, s1)" "b_data (buf_at s1 bp) = bview s ?bm" "lframe s s1"
    "log_write bp (upd_buf bp (\<lambda>x. x\<lparr>b_data := mark_free (unat b) (b_data x)\<rparr>) s1) = Ok s2" "brelse bp s2 = Ok t"
    "txn t (adds ?bm blks)" "lframe s t" "bview t = (bview s)(?bm := mark_free (unat b) (bview s ?bm))" "held t = held s"
    "\<And>j c. holds s j c \<Longrightarrow> holds t j c"
    by (rule modify_block [where f = "mark_free (unat b)", OF t G(1) h room G(2) l1]) (rule that)
  have "\<not> bitmap_free (bview s ?bm) (unat b mod 4096)" "unat b mod 4096 = unat b" using b(2) lt by (simp_all add: used_def)
  then have "bfree 1 b s = Ok t" using m(1-5) G(5) [OF lt] by (simp add: bfree_def Let_def mark_free_def)
  then show thesis by (rule that [OF _ m(6,7,9,8,10)])
qed

lemma bfree_free:
  assumes g: "geom s" and t: "txn s blks" and h: "sb_bmapstart (sb s) \<notin> held s" "length blks + card (held s) < NBUF"
    and b: "b < sb_size (sb s)" "\<not> used s b"
  shows "bfree 1 b s = Panic ''freeing free block''"
proof -
  note G = geomD [OF g]
  have lt: "unat b < 1000" using b(1) g by (simp add: geom_def word_less_nat_alt)
  obtain bp s1 u where m: "bread 1 (sb_bmapstart (sb s)) s = Ok (bp, s1)" "b_data (buf_at s1 bp) = bview s (sb_bmapstart (sb s))" "brelse bp s1 = Ok u"
    by (rule peek_block [OF t G(1) h]) (rule that)
  then show ?thesis using G(5) [OF lt] b(2) lt by (simp add: bfree_def Let_def used_def)
qed

end
