(* ===== verification/Fs_Data.thy ===== *)
theory Fs_Data
  imports Fs_Alloc
begin

text \<open>
  The contents of a file.  \<open>dblock\<close> reads the address of a file's block from the inode or from its
  indirect block; \<open>fbyte\<close> is the byte at an offset, zero where no block is allocated.  \<^verbatim>\<open>bmap\<close> returns
  the address of a block, allocating it if need be, and changes no byte of the file; \<^verbatim>\<open>readi\<close>
  returns the bytes of the range; \<^verbatim>\<open>writei\<close> replaces the bytes of the range and no others.
\<close>

section \<open>The blocks of a file\<close>

definition dblock :: "(u32 \<Rightarrow> u8 list) \<Rightarrow> inode \<Rightarrow> nat \<Rightarrow> u32" where
  "dblock v x k = (if k < NDIRECT then i_addrs x ! k
     else if i_addrs x ! NDIRECT = 0 then 0 else rd32 (v (i_addrs x ! NDIRECT)) (4 * (k - NDIRECT)))"

abbreviation MAXFILE :: nat where "MAXFILE \<equiv> 140"

definition fblk :: "(u32 \<Rightarrow> u8 list) \<Rightarrow> inode \<Rightarrow> nat \<Rightarrow> u8 list" where
  "fblk v x k = (if dblock v x k = 0 then replicate BSIZE 0 else v (dblock v x k))"

definition fbyte :: "(u32 \<Rightarrow> u8 list) \<Rightarrow> inode \<Rightarrow> nat \<Rightarrow> u8" where
  "fbyte v x i = fblk v x (i div BSIZE) ! (i mod BSIZE)"

definition owns :: "(u32 \<Rightarrow> u8 list) \<Rightarrow> inode \<Rightarrow> u32 \<Rightarrow> bool" where
  "owns v x a \<longleftrightarrow> a \<noteq> 0 \<and> (a = i_addrs x ! NDIRECT \<or> (\<exists>k<MAXFILE. dblock v x k = a))"

text \<open>
  A well-formed file owns each of its blocks once, and its blocks are data blocks in use: above
  the bitmap block \<open>bm\<close>, below the size \<open>sz\<close>, marked in \<open>U\<close>.
\<close>

definition iwf :: "u32 \<Rightarrow> u32 \<Rightarrow> (u32 \<Rightarrow> bool) \<Rightarrow> (u32 \<Rightarrow> u8 list) \<Rightarrow> inode \<Rightarrow> bool" where
  "iwf bm sz U v x \<longleftrightarrow> i_dev x = 1 \<and> length (i_addrs x) = NDIRECT + 1 \<and>
     (\<forall>a. owns v x a \<longrightarrow> bm < a \<and> a < sz \<and> U a) \<and>
     (\<forall>j<MAXFILE. \<forall>k<MAXFILE. dblock v x j = dblock v x k \<and> dblock v x j \<noteq> 0 \<longrightarrow> j = k) \<and>
     (\<forall>k<MAXFILE. dblock v x k \<noteq> 0 \<longrightarrow> dblock v x k \<noteq> i_addrs x ! NDIRECT)"

lemma iwfD:
  assumes "iwf bm sz U v x"
  shows "i_dev x = 1" "length (i_addrs x) = NDIRECT + 1" "owns v x a \<Longrightarrow> bm < a" "owns v x a \<Longrightarrow> a < sz" "owns v x a \<Longrightarrow> U a"
    "j < MAXFILE \<Longrightarrow> k < MAXFILE \<Longrightarrow> dblock v x j = dblock v x k \<Longrightarrow> dblock v x j \<noteq> 0 \<Longrightarrow> j = k"
    "k < MAXFILE \<Longrightarrow> dblock v x k \<noteq> 0 \<Longrightarrow> dblock v x k \<noteq> i_addrs x ! NDIRECT"
  using assms unfolding iwf_def by blast+

lemma ownsI:
  "k < MAXFILE \<Longrightarrow> dblock v x k \<noteq> 0 \<Longrightarrow> owns v x (dblock v x k)" "i_addrs x ! NDIRECT \<noteq> 0 \<Longrightarrow> owns v x (i_addrs x ! NDIRECT)"
  unfolding owns_def by blast+

lemma dblock_cong:
  "(i_addrs x ! NDIRECT \<noteq> 0 \<Longrightarrow> v' (i_addrs x ! NDIRECT) = v (i_addrs x ! NDIRECT)) \<Longrightarrow> dblock v' x k = dblock v x k"
  by (simp add: dblock_def)

text \<open>A view that agrees on the blocks of the file shows the same file.\<close>

lemma same_file:
  assumes "\<And>a. owns v x a \<Longrightarrow> v' a = v a"
  shows "dblock v' x k = dblock v x k" "k < MAXFILE \<Longrightarrow> fblk v' x k = fblk v x k" "iwf bm sz U v' x = iwf bm sz U v x"
proof -
  show d: "dblock v' x k = dblock v x k" for k using assms ownsI(2) by (intro dblock_cong) blast
  show "k < MAXFILE \<Longrightarrow> fblk v' x k = fblk v x k" using assms ownsI(1) by (auto simp: fblk_def d)
  show "iwf bm sz U v' x = iwf bm sz U v x" by (simp add: iwf_def owns_def d)
qed

text \<open>Adding the block \<open>b\<close>, which was free and is zero, at position \<open>k\<close>, and adding an indirect block.\<close>

lemma add_block:
  assumes wf: "iwf bm sz U v x" and b: "bm < b" "b < sz" "\<not> U b" "v' b = replicate BSIZE 0" and k: "k < MAXFILE" "dblock v x k = 0"
    and x': "i_dev x' = 1" "length (i_addrs x') = NDIRECT + 1" "i_addrs x' ! NDIRECT = i_addrs x ! NDIRECT"
    and d: "\<And>j. j < MAXFILE \<Longrightarrow> dblock v' x' j = (if j = k then b else dblock v x j)"
    and v': "\<And>j. j < MAXFILE \<Longrightarrow> dblock v x j \<noteq> 0 \<Longrightarrow> v' (dblock v x j) = v (dblock v x j)"
  shows "iwf bm sz (\<lambda>c. c = b \<or> U c) v' x'" "j < MAXFILE \<Longrightarrow> fblk v' x' j = fblk v x j"
proof -
  have b0: "b \<noteq> 0" using b(1) by (auto simp: word_less_nat_alt)
  have o: "a = b \<or> owns v x a" if "owns v' x' a" for a using that d by (auto simp: owns_def x'(3) split: if_splits)
  have nb: "dblock v x j \<noteq> b" if "j < MAXFILE" for j using iwfD(5) [OF wf ownsI(1) [OF that]] b0 b(3) by metis
  have ni: "i_addrs x ! NDIRECT \<noteq> b" using iwfD(5) [OF wf ownsI(2)] b0 b(3) by metis
  show "j < MAXFILE \<Longrightarrow> fblk v' x' j = fblk v x j" using d [of j] v' [of j] b0 b(4) k(2) by (auto simp: fblk_def)
  show "iwf bm sz (\<lambda>c. c = b \<or> U c) v' x'"
    unfolding iwf_def
  proof (intro conjI allI impI)
    fix i j assume ij: "i < MAXFILE" "j < MAXFILE" "dblock v' x' i = dblock v' x' j \<and> dblock v' x' i \<noteq> 0"
    show "i = j"
      using ij d [OF ij(1)] d [OF ij(2)] nb [OF ij(1)] nb [OF ij(2)] iwfD(6) [OF wf ij(1,2)] by (auto split: if_splits)
  next
    fix j assume j: "j < MAXFILE" "dblock v' x' j \<noteq> 0"
    show "dblock v' x' j \<noteq> i_addrs x' ! NDIRECT"
      using j d [OF j(1)] ni iwfD(7) [OF wf j(1)] by (auto simp: x'(3) split: if_splits)
  qed (use x' o b iwfD(3-5) [OF wf] in \<open>auto\<close>)
qed

lemma add_indirect:
  assumes wf: "iwf bm sz U v x" and b: "bm < b" "b < sz" "\<not> U b" "v' b = replicate BSIZE 0" and k: "i_addrs x ! NDIRECT = 0"
    and x': "x' = x\<lparr>i_addrs := (i_addrs x)[NDIRECT := b]\<rparr>"
    and v': "\<And>j. j < MAXFILE \<Longrightarrow> dblock v x j \<noteq> 0 \<Longrightarrow> v' (dblock v x j) = v (dblock v x j)"
  shows "iwf bm sz (\<lambda>c. c = b \<or> U c) v' x'" "j < MAXFILE \<Longrightarrow> fblk v' x' j = fblk v x j" "j < MAXFILE \<Longrightarrow> dblock v' x' j = dblock v x j"
proof -
  note l = iwfD(1,2) [OF wf]
  have b0: "b \<noteq> 0" using b(1) by (auto simp: word_less_nat_alt)
  have z: "rd32 (replicate BSIZE 0) (4 * j) = 0" if "j < 128" for j using that by (simp add: rd32_def)
  have d: "dblock v' x' j = dblock v x j" if "j < MAXFILE" for j
    using that l(2) k b0 b(4) z [of "j - 12"] by (auto simp: dblock_def x' nth_list_update)
  show "j < MAXFILE \<Longrightarrow> dblock v' x' j = dblock v x j" by (rule d)
  show "j < MAXFILE \<Longrightarrow> fblk v' x' j = fblk v x j" using v' by (simp add: fblk_def d)
  have o: "a = b \<or> owns v x a" if "owns v' x' a" for a using that d l(2) by (auto simp: owns_def x')
  have nb: "dblock v x j \<noteq> b" if "j < MAXFILE" for j using iwfD(5) [OF wf ownsI(1) [OF that]] b0 b(3) by metis
  show "iwf bm sz (\<lambda>c. c = b \<or> U c) v' x'"
    unfolding iwf_def
  proof (intro conjI allI impI)
    fix i j assume ij: "i < MAXFILE" "j < MAXFILE" "dblock v' x' i = dblock v' x' j \<and> dblock v' x' i \<noteq> 0"
    show "i = j" using ij iwfD(6) [OF wf ij(1,2)] by (auto simp: d)
  next
    fix j assume j: "j < MAXFILE" "dblock v' x' j \<noteq> 0"
    show "dblock v' x' j \<noteq> i_addrs x' ! NDIRECT" using nb [OF j(1)] l(2) unfolding d [OF j(1)] by (simp add: x')
  qed (use l o b iwfD(3-5) [OF wf] in \<open>auto simp: x'\<close>)
qed

section \<open>What the operations on one file leave alone\<close>

definition fframe :: "nat \<Rightarrow> 'a fstate_scheme \<Rightarrow> 'a fstate_scheme \<Rightarrow> bool" where
  "fframe ip s t \<longleftrightarrow> sb t = sb s \<and> log_start t = log_start s \<and> disk t = disk s \<and> disk_writes t = disk_writes s \<and>
     same_procs s t \<and> myproc t = myproc s \<and> devsw t = devsw s \<and> cons t = cons s \<and> length (icache t) = length (icache s) \<and>
     (\<forall>j. j \<noteq> ip \<longrightarrow> inode_at t j = inode_at s j) \<and> (\<exists>as. inode_at t ip = (inode_at s ip)\<lparr>i_addrs := as\<rparr>)"

lemma lframe_fframe: "lframe s t \<Longrightarrow> fframe ip s t"
  unfolding fframe_def
  by (intro conjI exI [of _ "i_addrs (inode_at s ip)"]) (auto simp: lframe_fs lframe_fields, simp add: lframe_def)

lemma fframe_refl [simp]: "fframe ip s s"
  by (rule lframe_fframe) simp

lemma fframe_trans: "fframe ip s t \<Longrightarrow> fframe ip t u \<Longrightarrow> fframe ip s u"
  unfolding fframe_def by (auto intro: same_procs_trans)

lemma fframe_upd: "ip < length (icache s) \<Longrightarrow> fframe ip s (upd_inode ip (\<lambda>x. x\<lparr>i_addrs := as\<rparr>) s)"
  by (auto simp: fframe_def upd_inode_def inode_at_def same_procs_def myproc_def)

lemma fframeD:
  assumes "fframe ip s t"
  shows "sb t = sb s" "log_start t = log_start s" "length (icache t) = length (icache s)" "geom t = geom s"
    "i_dev (inode_at t ip) = i_dev (inode_at s ip)" "i_type (inode_at t ip) = i_type (inode_at s ip)" "i_size (inode_at t ip) = i_size (inode_at s ip)"
    "i_inum (inode_at t ip) = i_inum (inode_at s ip)" "i_ref (inode_at t ip) = i_ref (inode_at s ip)" "disk t = disk s" "disk_writes t = disk_writes s"
  using assms by (auto simp: fframe_def geom_def)

lemma icache_update_simps [simp]:
  "bview (s\<lparr>icache := ic\<rparr>) = bview s" "held (s\<lparr>icache := ic\<rparr>) = held s" "txn (s\<lparr>icache := ic\<rparr>) blks = txn s blks"
  "holds (s\<lparr>icache := ic\<rparr>) j c = holds s j c" "used (s\<lparr>icache := ic\<rparr>) = used s"
  by (simp_all add: bview_def fun_eq_iff cong: option.case_cong) (simp_all add: held_def holds_def txn_def log_inv_def bio_inv_def lists_def pinned_def curpid_def myproc_def proc_at_def used_def bview_def cong: option.case_cong)

lemma upd_inode_simps [simp]:
  "bview (upd_inode ip f s) = bview s" "held (upd_inode ip f s) = held s" "txn (upd_inode ip f s) blks = txn s blks"
  "holds (upd_inode ip f s) j c = holds s j c" "used (upd_inode ip f s) = used s" "sb (upd_inode ip f s) = sb s"
  "ip < length (icache s) \<Longrightarrow> inode_at (upd_inode ip f s) ip = f (inode_at s ip)" "log_start (upd_inode ip f s) = log_start s"
  "geom (upd_inode ip f s) = geom s" "meta_used (upd_inode ip f s) = meta_used s" "free_blocks (upd_inode ip f s) = free_blocks s"
  "length (icache (upd_inode ip f s)) = length (icache s)"
  by (simp_all add: upd_inode_def inode_at_def geom_def meta_used_def free_blocks_def)

text \<open>The file \<open>ip\<close> is in order in state \<open>s\<close>, and its bytes.\<close>

definition file_ok :: "'a fstate_scheme \<Rightarrow> nat \<Rightarrow> bool" where
  "file_ok s ip \<longleftrightarrow> ip < length (icache s) \<and> geom s \<and> meta_used s \<and>
     iwf (sb_bmapstart (sb s)) (sb_size (sb s)) (used s) (bview s) (inode_at s ip)"

definition file_blk :: "'a fstate_scheme \<Rightarrow> nat \<Rightarrow> nat \<Rightarrow> u8 list" where
  "file_blk s ip k = fblk (bview s) (inode_at s ip) k"

definition file_addr :: "'a fstate_scheme \<Rightarrow> nat \<Rightarrow> nat \<Rightarrow> u32" where
  "file_addr s ip k = dblock (bview s) (inode_at s ip) k"

text \<open>What the log may still have to take besides the blocks written: the bitmap and the indirect block.\<close>

definition cost :: "'a fstate_scheme \<Rightarrow> nat \<Rightarrow> u32 list \<Rightarrow> nat" where
  "cost s ip blks = length blks + (if sb_bmapstart (sb s) \<in> set blks then 0 else 1)
     + (if i_addrs (inode_at s ip) ! NDIRECT \<noteq> 0 \<and> i_addrs (inode_at s ip) ! NDIRECT \<in> set blks then 0 else 1)"

text \<open>The free blocks that remain when the indirect block has been allocated.\<close>

definition avail :: "'a fstate_scheme \<Rightarrow> nat \<Rightarrow> nat" where
  "avail s ip = card (free_blocks s) - (if i_addrs (inode_at s ip) ! NDIRECT = 0 then 1 else 0)"

lemma finite_free_blocks [simp]: "finite (free_blocks s)"
  by simp

lemma file_okD:
  assumes "file_ok s ip"
  shows "ip < length (icache s)" "geom s" "meta_used s" "iwf (sb_bmapstart (sb s)) (sb_size (sb s)) (used s) (bview s) (inode_at s ip)"
  using assms by (simp_all add: file_ok_def)

lemma used_view: "lframe s t \<Longrightarrow> bview t = bview s \<Longrightarrow> used t = used s"
  by (simp add: used_def lframe_fs fun_eq_iff)

lemma same_view:
  assumes "lframe s t" "bview t = bview s"
  shows "file_ok t ip = file_ok s ip" "file_blk t ip k = file_blk s ip k" "file_addr t ip k = file_addr s ip k"
    "cost t ip blks = cost s ip blks" "free_blocks t = free_blocks s" "avail t ip = avail s ip"
  using lframe_fs [OF assms(1)] geom_frame [OF assms(1)] used_view [OF assms]
  by (simp_all add: file_ok_def file_blk_def file_addr_def cost_def free_blocks_def avail_def meta_used_def assms(2))

section \<open>Allocating a block of a file\<close>

lemma balloc_file:
  assumes ok: "file_ok s ip" and t: "txn s blks" and h: "held s = {} \<or> held s = {i_addrs (inode_at s ip) ! NDIRECT} \<and> i_addrs (inode_at s ip) ! NDIRECT \<noteq> 0"
    and n: "cost s ip blks + 2 < LOGSIZE" and fr: "free_blocks s \<noteq> {}"
  obtains b u where "balloc 1 s = Ok (b, u)" "b \<noteq> 0" "sb_bmapstart (sb s) < b" "b < sb_size (sb s)" "\<not> used s b"
    "txn u (adds b (adds (sb_bmapstart (sb s)) blks))" "lframe s u" "held u = held s" "\<And>j c. holds s j c \<Longrightarrow> holds u j c"
    "used u = (\<lambda>c. c = b \<or> used s c)" "bview u b = replicate BSIZE 0" "\<And>a. owns (bview s) (inode_at s ip) a \<Longrightarrow> bview u a = bview s a"
    "meta_used u" "card (free_blocks s) = Suc (card (free_blocks u))"
proof -
  let ?bm = "sb_bmapstart (sb s)"
  note O = file_okD [OF ok]
  have lb: "length (adds ?bm blks) \<le> cost s ip blks" "length blks \<le> cost s ip blks" by (auto simp: cost_def length_adds)
  have c: "card (held s) \<le> 1" "finite (held s)" using h by auto
  have hu: "\<forall>b\<in>held s. used s b" "?bm \<notin> held s"
    using h iwfD(3,5) [OF O(4) ownsI(2)] by (auto simp: word_less_nat_alt)
  have r: "length blks + card (held s) + 1 < NBUF" "length (adds ?bm blks) + 1 < LOGSIZE" using n lb c(1) by linarith+
  obtain b u where u: "balloc 1 s = Ok (b, u)" "b \<in> free_blocks s" "txn u (adds b (adds ?bm blks))" "lframe s u" "held u = held s"
    "bview u = (bview s)(?bm := mark_used (unat b) (bview s ?bm), b := replicate BSIZE 0)" "\<And>j c. holds s j c \<Longrightarrow> holds u j c"
    by (rule balloc_ok [OF O(2) t O(3) hu c(2) r fr]) (rule that)
  have nb: "b < sb_size (sb s)" "\<not> used s b" "unat b < 1000" using u(2) O(2) by (auto simp: free_blocks_def geom_def word_less_nat_alt)
  have bm: "?bm < b" "b \<noteq> ?bm" using O(3) nb(2) by (auto simp: meta_used_def word_less_nat_alt) (meson linorder_not_less)
  have us: "used u c \<longleftrightarrow> c = b \<or> used s c" for c using used_upd(1) [OF O(2) t u(4) nb(3)] u(6) bm(2) by simp
  show thesis
  proof (rule that [OF u(1) _ bm(1) nb(1,2) u(3,4,5,7)])
    show "b \<noteq> 0" using bm(1) by (auto simp: word_less_nat_alt)
    show "used u = (\<lambda>c. c = b \<or> used s c)" using us by blast
    show "bview u a = bview s a" if "owns (bview s) (inode_at s ip) a" for a
      using iwfD(3,5) [OF O(4) that] nb(2) u(6) by auto
    show "meta_used u" using O(3) us by (simp add: meta_used_def lframe_fs [OF u(4)])
    have "free_blocks u = free_blocks s - {b}" using us by (auto simp: free_blocks_def lframe_fs [OF u(4)])
    then show "card (free_blocks s) = Suc (card (free_blocks u))" using u(2) card_Suc_Diff1 [of "free_blocks s" b] by simp
    show "bview u b = replicate BSIZE 0" unfolding u(6) by simp
  qed
qed

lemma ensure_indirect:
  assumes ok: "file_ok s ip" and t: "txn s blks" and h: "held s = {}" and n: "cost s ip blks + 2 < LOGSIZE"
    and fr: "i_addrs (inode_at s ip) ! NDIRECT = 0 \<Longrightarrow> free_blocks s \<noteq> {}"
  obtains b u blks1 where
    "(let addr = i_addrs (inode_at s ip) ! NDIRECT in
        if addr = 0 then bindr (balloc (i_dev (inode_at s ip)) s) (\<lambda>(addr, s1).
          Ok (addr, upd_inode ip (\<lambda>x. x\<lparr>i_addrs := (i_addrs x)[NDIRECT := addr]\<rparr>) s1))
        else Ok (addr, s)) = Ok (b, u)"
    "txn u blks1" "held u = {}" "fframe ip s u" "file_ok u ip" "i_addrs (inode_at u ip) ! NDIRECT = b" "b \<noteq> 0"
    "\<And>j. j < MAXFILE \<Longrightarrow> file_blk u ip j = file_blk s ip j" "\<And>j. j < MAXFILE \<Longrightarrow> file_addr u ip j = file_addr s ip j"
    "cost u ip blks1 \<le> cost s ip blks" "avail s ip \<le> avail u ip" "i_addrs (inode_at s ip) ! NDIRECT \<noteq> 0 \<Longrightarrow> u = s \<and> blks1 = blks"
proof (cases "i_addrs (inode_at s ip) ! NDIRECT = 0")
  case False
  then show thesis by (intro that [of _ s blks]) (simp_all add: Let_def t h ok)
next
  case True
  note O = file_okD [OF ok] and l = iwfD(1,2) [OF file_okD(4) [OF ok]]
  obtain b u where u: "balloc 1 s = Ok (b, u)" "b \<noteq> 0" "sb_bmapstart (sb s) < b" "b < sb_size (sb s)" "\<not> used s b"
    "txn u (adds b (adds (sb_bmapstart (sb s)) blks))" "lframe s u" "held u = held s"
    "used u = (\<lambda>c. c = b \<or> used s c)" "bview u b = replicate BSIZE 0" "\<And>a. owns (bview s) (inode_at s ip) a \<Longrightarrow> bview u a = bview s a"
    "meta_used u" "card (free_blocks s) = Suc (card (free_blocks u))"
    by (rule balloc_file [OF ok t disjI1 [OF h] n fr [OF True]]) (rule that)
  let ?t = "upd_inode ip (\<lambda>x. x\<lparr>i_addrs := (i_addrs x)[NDIRECT := b]\<rparr>) u"
  have ipu: "ip < length (icache u)" using O(1) by (simp add: lframe_fs [OF u(7)])
  have x: "inode_at ?t ip = (inode_at s ip)\<lparr>i_addrs := (i_addrs (inode_at s ip))[NDIRECT := b]\<rparr>"
    using ipu by (simp add: lframe_fs [OF u(7)])
  note A = add_indirect [OF O(4) u(3,4,5,10) True x u(11) [OF ownsI(1)]]
  show thesis
  proof (rule that)
    show "fframe ip s ?t" using fframe_trans [OF lframe_fframe [OF u(7)] fframe_upd [OF ipu]] by (simp add: upd_inode_def)
    show "file_ok ?t ip"
      using A(1) u(9,12) ipu geom_frame [OF u(7)] O(2) unfolding file_ok_def x by (simp add: lframe_fs [OF u(7)])
    show "cost ?t ip (adds b (adds (sb_bmapstart (sb s)) blks)) \<le> cost s ip blks"
      using True u(2) unfolding cost_def x by (auto simp: length_adds l lframe_fs [OF u(7)])
    show "avail s ip \<le> avail ?t ip"
      using True u(2,13) l unfolding avail_def x by simp
  qed (use A u True l h x in \<open>simp_all add: Let_def file_blk_def file_addr_def\<close>)
qed

section \<open>bmap\<close>

text \<open>What \<^verbatim>\<open>bmap\<close> promises for block \<open>k\<close>: the address is allocated, no byte of the file changes.\<close>

definition bmap_post :: "'a fstate_scheme \<Rightarrow> nat \<Rightarrow> nat \<Rightarrow> u32 list \<Rightarrow> u32 \<Rightarrow> 'a fstate_scheme \<Rightarrow> u32 list \<Rightarrow> bool" where
  "bmap_post s ip k blks a t blks' \<longleftrightarrow> txn t blks' \<and> held t = {} \<and> fframe ip s t \<and> file_ok t ip \<and> a \<noteq> 0 \<and> file_addr t ip k = a \<and>
     (\<forall>j<MAXFILE. file_blk t ip j = file_blk s ip j) \<and> (\<forall>j<MAXFILE. file_addr s ip j \<noteq> 0 \<longrightarrow> file_addr t ip j = file_addr s ip j) \<and>
     (file_addr s ip k \<noteq> 0 \<longrightarrow> bview t = bview s \<and> inode_at t ip = inode_at s ip \<and> blks' = blks) \<and>
     (file_addr s ip k = 0 \<longrightarrow> a \<in> set blks') \<and> cost t ip blks' \<le> cost s ip blks + (if file_addr s ip k = 0 then 1 else 0) \<and>
     avail s ip \<le> avail t ip + 1"

lemma file_addr_block:
  assumes "file_ok s ip" "k < MAXFILE" "file_addr s ip k \<noteq> 0"
  shows "file_addr s ip k < FSSIZE" "file_addr s ip k \<notin> area (log_start s)"
proof -
  note O = file_okD [OF assms(1)]
  have "owns (bview s) (inode_at s ip) (file_addr s ip k)" using ownsI(1) assms(2,3) unfolding file_addr_def by blast
  from iwfD(3,4) [OF O(4) this] show "file_addr s ip k < FSSIZE" "file_addr s ip k \<notin> area (log_start s)"
    using geomD(3,4) [OF O(2)] by (simp_all add: word_less_nat_alt)
qed

lemma bmap_direct:
  assumes ok: "file_ok s ip" and t: "txn s blks" and h: "held s = {}" and n: "cost s ip blks + 2 < LOGSIZE" and k: "k < NDIRECT"
    and fr: "file_addr s ip k = 0 \<Longrightarrow> free_blocks s \<noteq> {}"
  shows "\<exists>a t blks'. bmap ip (of_nat k) s = Ok (a, t) \<and> bmap_post s ip k blks a t blks'"
proof -
  note O = file_okD [OF ok] and l = iwfD(1,2) [OF file_okD(4) [OF ok]]
  have uk: "unat (of_nat k :: u32) = k" using k by (simp add: unsigned_of_nat take_bit_nat_eq_self)
  have ad: "i_addrs (inode_at s ip) ! k = file_addr s ip k" using k by (simp add: file_addr_def dblock_def)
  show ?thesis
  proof (cases "file_addr s ip k = 0")
    case False
    then have "bmap ip (of_nat k) s = Ok (file_addr s ip k, s)" using k uk ad by (simp add: bmap_def)
    then show ?thesis using False t h ok by (auto simp: bmap_post_def)
  next
    case True
    obtain b u where u: "balloc 1 s = Ok (b, u)" "b \<noteq> 0" "sb_bmapstart (sb s) < b" "b < sb_size (sb s)" "\<not> used s b"
      "txn u (adds b (adds (sb_bmapstart (sb s)) blks))" "lframe s u" "held u = held s"
      "used u = (\<lambda>c. c = b \<or> used s c)" "bview u b = replicate BSIZE 0" "\<And>a. owns (bview s) (inode_at s ip) a \<Longrightarrow> bview u a = bview s a"
      "meta_used u" "card (free_blocks s) = Suc (card (free_blocks u))"
      by (rule balloc_file [OF ok t disjI1 [OF h] n fr [OF True]]) (rule that)
    let ?t = "upd_inode ip (\<lambda>x. x\<lparr>i_addrs := (i_addrs x)[k := b]\<rparr>) u" and ?x = "(inode_at s ip)\<lparr>i_addrs := (i_addrs (inode_at s ip))[k := b]\<rparr>"
    have ipu: "ip < length (icache u)" using O(1) by (simp add: lframe_fs [OF u(7)])
    have x: "inode_at ?t ip = ?x" using ipu by (simp add: lframe_fs [OF u(7)])
    have iv: "bview u (i_addrs (inode_at s ip) ! NDIRECT) = bview s (i_addrs (inode_at s ip) ! NDIRECT)"
      if "i_addrs (inode_at s ip) ! NDIRECT \<noteq> 0" by (rule u(11) [OF ownsI(2) [OF that]])
    have d: "dblock (bview u) ?x j = (if j = k then b else dblock (bview s) (inode_at s ip) j)" for j
      using k l(2) iv by (auto simp: dblock_def nth_list_update)
    have k2: "k < MAXFILE" "dblock (bview s) (inode_at s ip) k = 0" using k True by (simp_all add: file_addr_def)
    note A = add_block [where v' = "bview u" and b = b and k = k and x' = ?x, OF O(4) u(3,4,5,10) k2 _ _ _ d u(11) [OF ownsI(1)]]
    have wf: "iwf (sb_bmapstart (sb s)) (sb_size (sb s)) (\<lambda>c. c = b \<or> used s c) (bview u) ?x" using l k by (intro A(1)) simp_all
    have fb: "fblk (bview u) ?x j = fblk (bview s) (inode_at s ip) j" if "j < MAXFILE" for j using l k by (intro A(2) that) simp_all
    have "bmap ip (of_nat k) s = Ok (b, ?t)" using k uk ad True u(1) l(1) by (simp add: bmap_def)
    moreover have "bmap_post s ip k blks b ?t (adds b (adds (sb_bmapstart (sb s)) blks))"
      unfolding bmap_post_def
    proof (intro conjI)
      show "fframe ip s ?t" using fframe_trans [OF lframe_fframe [OF u(7)] fframe_upd [OF ipu]] by (simp add: upd_inode_def)
      show "file_ok ?t ip" using wf u(9,12) ipu geom_frame [OF u(7)] O(2) unfolding file_ok_def x by (simp add: lframe_fs [OF u(7)])
      show "cost ?t ip (adds b (adds (sb_bmapstart (sb s)) blks)) \<le> cost s ip blks + (if file_addr s ip k = 0 then 1 else 0)"
        using True k l unfolding cost_def x by (auto simp: length_adds lframe_fs [OF u(7)])
      show "avail s ip \<le> avail ?t ip + 1" using u(13) k l unfolding avail_def x by simp
    qed (use u True h x d fb in \<open>auto simp: file_addr_def file_blk_def\<close>)
    ultimately show ?thesis by blast
  qed
qed

text \<open>The entry of the indirect block \<open>d\<close>, once that block exists.\<close>

lemma indirect_entry:
  assumes ok: "file_ok s ip" and t: "txn s blks" and h: "held s = {}" and n: "cost s ip blks + 2 < LOGSIZE"
    and k: "NDIRECT \<le> k" "k < MAXFILE" and d: "d = i_addrs (inode_at s ip) ! NDIRECT" "d \<noteq> 0"
    and fr: "file_addr s ip k = 0 \<Longrightarrow> free_blocks s \<noteq> {}"
  shows "\<exists>a t blks'. bindr (bread 1 d s) (\<lambda>(bp, s2).
      let a = rd32 (b_data (buf_at s2 bp)) (4 * (k - NDIRECT)) in
      if a = 0 then
        bindr (balloc (i_dev (inode_at s2 ip)) s2) (\<lambda>(a, s3).
        bindr (log_write bp (upd_buf bp (\<lambda>b. b\<lparr>b_data := wr32 (4 * (k - NDIRECT)) a (b_data b)\<rparr>) s3)) (\<lambda>s4.
        bindr (brelse bp s4) (\<lambda>s5. Ok (a, s5))))
      else bindr (brelse bp s2) (\<lambda>s3. Ok (a, s3))) = Ok (a, t) \<and> bmap_post s ip k blks a t blks'"
proof -
  note O = file_okD [OF ok] and l = iwfD(1,2) [OF file_okD(4) [OF ok]]
  have od: "owns (bview s) (inode_at s ip) d" using ownsI(2) d by blast
  have db: "d < FSSIZE" "d \<notin> area (log_start s)"
    using iwfD(3,4) [OF O(4) od] geomD(3,4) [OF O(2)] by (simp_all add: word_less_nat_alt)
  have ad: "rd32 (bview s d) (4 * (k - NDIRECT)) = file_addr s ip k" using k d by (simp add: file_addr_def dblock_def)
  have lb: "length blks \<le> cost s ip blks" by (simp add: cost_def)
  have r: "d \<notin> held s" "length blks + card (held s) < NBUF" using h n lb by simp_all
  obtain bp s2 where b: "bread 1 d s = Ok (bp, s2)" "txn s2 blks" "lframe s s2" "bview s2 = bview s" "held s2 = insert d (held s)"
    "holds s2 bp d" "b_data (buf_at s2 bp) = bview s d" "d \<in> set blks \<or> bview s2 d = disk s2 1 d"
    by (rule read_block [OF t db(1) r]) (rule that)
  note S = same_view [OF b(3,4)] and F = lframe_fs [OF b(3)]
  show ?thesis
  proof (cases "file_addr s ip k = 0")
    case False
    obtain t where t: "brelse bp s2 = Ok t" "txn t blks" "lframe s2 t" "bview t = bview s2" "held t = held s2 - {d}"
      by (rule release_block [OF b(2,6,8)]) (rule that)
    have f: "lframe s t" "bview t = bview s" using lframe_trans [OF b(3) t(3)] t(4) b(4) by simp_all
    have "bmap_post s ip k blks (file_addr s ip k) t blks"
      using False t(2,5) h b(5) ok same_view [OF f] lframe_fframe [OF f(1)] f(2) lframe_fs(5) [OF f(1)] by (simp add: bmap_post_def)
    then show ?thesis using b(1,7) t(1) ad False by (auto simp: Let_def)
  next
    case True
    let ?bm = "sb_bmapstart (sb s)" and ?kk = "4 * (k - NDIRECT)"
    have ok2: "file_ok s2 ip" "cost s2 ip blks + 2 < LOGSIZE" "free_blocks s2 \<noteq> {}" using S ok n fr [OF True] by simp_all
    have h2: "held s2 = {} \<or> held s2 = {i_addrs (inode_at s2 ip) ! NDIRECT} \<and> i_addrs (inode_at s2 ip) ! NDIRECT \<noteq> 0"
      using b(5) h d F by simp
    obtain a s3 where u: "balloc 1 s2 = Ok (a, s3)" "a \<noteq> 0" "?bm < a" "a < sb_size (sb s)" "\<not> used s a"
      "txn s3 (adds a (adds ?bm blks))" "lframe s2 s3" "held s3 = insert d {}" "\<And>j c. holds s2 j c \<Longrightarrow> holds s3 j c"
      "used s3 = (\<lambda>c. c = a \<or> used s c)" "bview s3 a = replicate BSIZE 0" "\<And>c. owns (bview s) (inode_at s ip) c \<Longrightarrow> bview s3 c = bview s c"
      "meta_used s3" "card (free_blocks s) = Suc (card (free_blocks s3))"
      by (rule balloc_file [OF ok2(1) b(2) h2 ok2(2,3), unfolded F b(4,5) h S(5) used_view [OF b(3,4)]]) (rule that)
    have h3: "holds s3 bp d" by (rule u(9) [OF b(6)])
    have vd: "bview s3 d = bview s d" by (rule u(12) [OF od])
    have ld: "length (bview s d) = BSIZE" using length_bview [OF txnD(2) [OF t]] by simp
    have n3: "Suc (length (adds a (adds ?bm blks))) < LOGSIZE" using n by (simp add: cost_def length_adds split: if_splits)
    have f3: "lframe s s3" by (rule lframe_trans [OF b(3) u(7)])
    have ar: "d \<notin> area (log_start s3)" using db(2) lframe_fields [OF f3] by simp
    have l3: "length (wr32 ?kk a (bview s3 d)) = BSIZE" using k by (simp add: vd ld)
    obtain s4 where w: "log_write bp (upd_buf bp (\<lambda>x. x\<lparr>b_data := wr32 ?kk a (b_data x)\<rparr>) s3) = Ok s4"
      "txn s4 (adds d (adds a (adds ?bm blks)))" "lframe s3 s4" "bview s4 = (bview s3)(d := wr32 ?kk a (bview s3 d))"
      "held s4 = held s3" "\<And>j c. holds s4 j c = holds s3 j c"
      by (rule update_block [where f = "wr32 ?kk a", OF u(6) h3 ar n3 l3]) (rule that)
    have h4: "holds s4 bp d" using w(6) h3 by simp
    obtain t where t5: "brelse bp s4 = Ok t" "txn t (adds d (adds a (adds ?bm blks)))" "lframe s4 t" "bview t = bview s4" "held t = held s4 - {d}"
      by (rule release_block [OF w(2) h4]) (simp, rule that)
    have f: "lframe s t" by (rule lframe_trans [OF f3 lframe_trans [OF w(3) t5(3)]])
    have v: "bview t = (bview s3)(d := wr32 ?kk a (bview s d))" using t5(4) w(4) vd by simp
    have ne: "a \<noteq> d" "d \<noteq> ?bm" using u(5) iwfD(3,5) [OF O(4) od] by auto
    let ?x = "inode_at s ip"
    have j4: "rd32 (wr32 ?kk a (bview s d)) (4 * (j - NDIRECT)) = (if j = k then a else rd32 (bview s d) (4 * (j - NDIRECT)))"
      if "NDIRECT \<le> j" "j < MAXFILE" for j
      using rd32_wr32_index [of "j - NDIRECT" "bview s d" "k - NDIRECT" a] that k ld by auto
    have dd: "dblock (bview t) ?x j = (if j = k then a else dblock (bview s) ?x j)" if "j < MAXFILE" for j
      using k that d j4 [of j] v by (auto simp: dblock_def)
    have k2: "dblock (bview s) ?x k = 0" using True by (simp add: file_addr_def)
    have va: "bview t a = replicate BSIZE 0" using v ne(1) u(11) by simp
    have vj: "bview t (dblock (bview s) ?x j) = bview s (dblock (bview s) ?x j)" if "j < MAXFILE" "dblock (bview s) ?x j \<noteq> 0" for j
      using v iwfD(7) [OF O(4) that] d u(12) [OF ownsI(1) [OF that]] by simp
    note A = add_block [where v' = "bview t" and b = a and k = k and x' = ?x, OF O(4) u(3,4,5) va k(2) k2 l(1,2) refl dd vj]
    have us: "used t = (\<lambda>c. c = a \<or> used s c)"
    proof -
      have "used t = used s3" using v ne(2) by (simp add: used_def fun_eq_iff lframe_fs [OF f] lframe_fs [OF f3])
      then show ?thesis using u(10) by simp
    qed
    have "bmap_post s ip k blks a t (adds d (adds a (adds ?bm blks)))"
      unfolding bmap_post_def
    proof (intro conjI)
      show "fframe ip s t" by (rule lframe_fframe [OF f])
      show "file_ok t ip"
        using A(1) us O u(13) geom_frame [OF f] by (simp add: file_ok_def lframe_fs [OF f] meta_used_def)
      show "cost t ip (adds d (adds a (adds ?bm blks))) \<le> cost s ip blks + (if file_addr s ip k = 0 then 1 else 0)"
        using True d by (simp add: cost_def lframe_fs [OF f] length_adds)
      have "free_blocks t = free_blocks s3" using us u(10) by (simp add: free_blocks_def lframe_fs [OF f] lframe_fs [OF f3])
      then show "avail s ip \<le> avail t ip + 1" using u(14) d by (simp add: avail_def lframe_fs [OF f])
    qed (use t5(2,5) w(5) u(2,8) True dd A(2) in \<open>auto simp: file_addr_def file_blk_def lframe_fs [OF f] k\<close>)
    then show ?thesis using b(1,7) u(1) w(1) t5(1) ad True l(1) F by (auto simp: Let_def)
  qed
qed

lemma bmap_ok:
  assumes ok: "file_ok s ip" and t: "txn s blks" and h: "held s = {}" and n: "cost s ip blks + 2 < LOGSIZE" and k: "k < MAXFILE"
    and fr: "file_addr s ip k = 0 \<Longrightarrow> 0 < avail s ip"
  shows "\<exists>a t blks'. bmap ip (of_nat k) s = Ok (a, t) \<and> bmap_post s ip k blks a t blks'"
proof (cases "k < NDIRECT")
  case True
  have "free_blocks s \<noteq> {}" if "file_addr s ip k = 0" using fr [OF that] by (auto simp: avail_def)
  then show ?thesis using bmap_direct [OF ok t h n True] by blast
next
  case False
  then have k': "NDIRECT \<le> k" by simp
  have fz: "file_addr s ip k = 0" if "i_addrs (inode_at s ip) ! NDIRECT = 0" using that False by (simp add: file_addr_def dblock_def)
  obtain d u blks1 where u: "(let addr = i_addrs (inode_at s ip) ! NDIRECT in
        if addr = 0 then bindr (balloc (i_dev (inode_at s ip)) s) (\<lambda>(addr, s1).
          Ok (addr, upd_inode ip (\<lambda>x. x\<lparr>i_addrs := (i_addrs x)[NDIRECT := addr]\<rparr>) s1))
        else Ok (addr, s)) = Ok (d, u)"
    "txn u blks1" "held u = {}" "fframe ip s u" "file_ok u ip" "i_addrs (inode_at u ip) ! NDIRECT = d" "d \<noteq> 0"
    "\<And>j. j < MAXFILE \<Longrightarrow> file_blk u ip j = file_blk s ip j" "\<And>j. j < MAXFILE \<Longrightarrow> file_addr u ip j = file_addr s ip j"
    "cost u ip blks1 \<le> cost s ip blks" "avail s ip \<le> avail u ip" "i_addrs (inode_at s ip) ! NDIRECT \<noteq> 0 \<Longrightarrow> u = s \<and> blks1 = blks"
    by (rule ensure_indirect [OF ok t h n]) (use fr fz in \<open>auto simp: avail_def\<close>)
  have n1: "cost u ip blks1 + 2 < LOGSIZE" using n u(10) by linarith
  have fu: "free_blocks u \<noteq> {}" if "file_addr u ip k = 0"
    using fr u(9) [OF k] that u(11) by (auto simp: avail_def split: if_splits)
  obtain a v blks2 where v: "bindr (bread 1 d u) (\<lambda>(bp, s2).
      let a = rd32 (b_data (buf_at s2 bp)) (4 * (k - NDIRECT)) in
      if a = 0 then
        bindr (balloc (i_dev (inode_at s2 ip)) s2) (\<lambda>(a, s3).
        bindr (log_write bp (upd_buf bp (\<lambda>b. b\<lparr>b_data := wr32 (4 * (k - NDIRECT)) a (b_data b)\<rparr>) s3)) (\<lambda>s4.
        bindr (brelse bp s4) (\<lambda>s5. Ok (a, s5))))
      else bindr (brelse bp s2) (\<lambda>s3. Ok (a, s3))) = Ok (a, v)" "bmap_post u ip k blks1 a v blks2"
    using indirect_entry [OF u(5,2,3) n1 k' k u(6) [symmetric] u(7) fu] by blast
  have uk: "unat (of_nat k :: u32) = k" using k by (simp add: unsigned_of_nat take_bit_nat_eq_self)
  have dev: "i_dev (inode_at u ip) = 1" using iwfD(1) [OF file_okD(4) [OF u(5)]] .
  have "bmap ip (of_nat k) s = Ok (a, v)"
    unfolding bmap_def uk using False k u(1) v(1) dev by (simp add: Let_def)
  moreover have "bmap_post s ip k blks a v blks2"
  proof -
    have "blks2 = blks \<and> bview v = bview s \<and> inode_at v ip = inode_at s ip" if "file_addr s ip k \<noteq> 0"
    proof -
      have "u = s" "blks1 = blks" using u(12) fz that by blast+
      then show ?thesis using v(2) that by (simp add: bmap_post_def)
    qed
    then show ?thesis
      using v(2) u(8,9,10,11) fframe_trans [OF u(4)] k unfolding bmap_post_def by (auto split: if_splits)
  qed
  ultimately show ?thesis by blast
qed

end
