(* ===== verification/Fs_Rw.thy ===== *)
theory Fs_Rw
  imports Fs_Data
begin

text \<open>
  Reading and writing files.  The bytes of a file are a function of the offset; \<^verbatim>\<open>readi\<close> returns the
  bytes of a range, \<^verbatim>\<open>writei\<close> replaces them, allocates the blocks it needs, and extends the size.
\<close>

definition file_byte :: "'a fstate_scheme \<Rightarrow> nat \<Rightarrow> nat \<Rightarrow> u8" where
  "file_byte s ip i = file_blk s ip (i div BSIZE) ! (i mod BSIZE)"

abbreviation MAXBYTES :: nat where "MAXBYTES \<equiv> 71680"

section \<open>Arithmetic of blocks\<close>

lemma block_of:
  fixes off m :: nat
  assumes "m \<le> 512 - off mod 512" "i < m"
  shows "(off + i) div 512 = off div 512" "(off + i) mod 512 = off mod 512 + i"
proof -
  have e: "off + i = (off mod 512 + i) + 512 * (off div 512)" and lt: "off mod 512 + i < 512" using assms by simp_all
  show "(off + i) div 512 = off div 512" using div_mult_self2 [of 512 "off mod 512 + i" "off div 512"] lt by (simp add: e [symmetric])
  show "(off + i) mod 512 = off mod 512 + i" using mod_mult_self2 [of "off mod 512 + i" 512 "off div 512"] lt by (simp add: e [symmetric])
qed

text \<open>The number of blocks a range touches.\<close>

definition nchunks :: "nat \<Rightarrow> nat \<Rightarrow> nat" where
  "nchunks off n = (if n = 0 then 0 else (off + n - 1) div 512 - off div 512 + 1)"

lemma nchunks_step:
  assumes "0 < n" and m: "m = min n (512 - off mod 512)"
  shows "nchunks off n = Suc (nchunks (off + m) (n - m))"
proof (cases "n \<le> 512 - off mod 512")
  case True
  then have "(off + (n - 1)) div 512 = off div 512" using assms(1) by (intro block_of(1) [of n]) auto
  then show ?thesis using True assms by (simp add: nchunks_def)
next
  case False
  have lt: "off mod 512 < 512" by simp
  have mm: "m = 512 - off mod 512" using False m by simp
  define q r where "q = off div 512" and "r = off mod 512"
  have "off = 512 * q + r" "m = 512 - r" "r < 512" using mm by (simp_all add: q_def r_def)
  then have "off + m = 512 * (q + 1)" by simp
  then have e: "off + m = 512 * (off div 512 + 1)" by (simp only: q_def)
  have le: "512 * (off div 512 + 1) \<le> off + n - 1" using e False mm by linarith
  have "off div 512 + 1 \<le> (off + n - 1) div 512" using div_le_mono [OF le, of 512] by simp
  moreover have "(off + m) div 512 = off div 512 + 1" unfolding e by simp
  moreover have "n \<noteq> m" "off + m + (n - m) - 1 = off + n - 1" "n - m \<noteq> 0" using False mm assms(1) by simp_all
  ultimately show ?thesis using assms(1) Suc_diff_Suc [of "off div 512" "(off + n - 1) div 512"] by (simp add: nchunks_def)
qed

lemma unat_block: "off div of_nat BSIZE = of_nat (unat off div 512)" for off :: u32
proof -
  have "unat off div 512 < 4294967296" using unat_lt_2_32 [of off] by (simp add: div_less_iff_less_mult)
  then show ?thesis by (simp add: word_unat_eq_iff unat_div_distrib unsigned_of_nat take_bit_nat_eq_self)
qed

section \<open>Reading\<close>

lemma bmap_mapped:
  assumes ok: "file_ok s ip" and t: "log_inv s blks" and h: "held s = {}" and k: "k < MAXFILE" "file_addr s ip k \<noteq> 0"
  shows "\<exists>t. bmap ip (of_nat k) s = Ok (file_addr s ip k, t) \<and> log_inv t blks \<and> lframe s t \<and> bview t = bview s \<and> held t = {}"
proof -
  note O = file_okD [OF ok] and l = iwfD(1,2) [OF file_okD(4) [OF ok]]
  have uk: "unat (of_nat k :: u32) = k" using k(1) by (simp add: unsigned_of_nat take_bit_nat_eq_self)
  show ?thesis
  proof (cases "k < NDIRECT")
    case True
    then have "i_addrs (inode_at s ip) ! k = file_addr s ip k" by (simp add: file_addr_def dblock_def)
    then show ?thesis using True uk k(2) t h by (simp add: bmap_def)
  next
    case False
    let ?d = "i_addrs (inode_at s ip) ! NDIRECT"
    have d: "?d \<noteq> 0" "rd32 (bview s ?d) (4 * (k - NDIRECT)) = file_addr s ip k"
      using False k(2) by (auto simp: file_addr_def dblock_def split: if_splits)
    have b: "?d < FSSIZE" using iwfD(4) [OF O(4) ownsI(2) [OF d(1)]] geomD(3) [OF O(2)] by (simp add: word_less_nat_alt)
    have r: "?d \<notin> held s" "length blks + card (held s) < NBUF" using h t listsD(5) [of s blks] by (simp_all add: log_inv_def)
    obtain bp s1 u where p: "bread 1 ?d s = Ok (bp, s1)" "b_data (buf_at s1 bp) = bview s ?d" "lframe s s1" "brelse bp s1 = Ok u"
      "log_inv u blks" "lframe s u" "bview u = bview s" "held u = held s"
      by (rule peek_log [OF t b r]) (rule that)
    have "bmap ip (of_nat k) s = Ok (file_addr s ip k, u)"
      unfolding bmap_def uk using False k d p(1,2,4) l(1) by (simp add: Let_def)
    then show ?thesis using p h by auto
  qed
qed

lemma file_blk_byte:
  fixes off :: u32
  assumes "log_inv s blks" "k < MAXFILE" "file_addr s ip k \<noteq> 0" "unat off div 512 = k" "m \<le> 512 - unat off mod 512"
  shows "slice (unat off mod 512) m (bview s (file_addr s ip k)) = map (file_byte s ip) [unat off..<unat off + m]"
proof (rule nth_equalityI)
  have l: "length (bview s (file_addr s ip k)) = BSIZE" by (rule length_bview [OF log_invD(1) [OF assms(1)]])
  have lt: "unat off mod 512 < 512" by simp
  show "length (slice (unat off mod 512) m (bview s (file_addr s ip k))) = length (map (file_byte s ip) [unat off..<unat off + m])"
    using assms(5) lt l by (subst length_slice) simp_all
  fix i assume "i < length (slice (unat off mod 512) m (bview s (file_addr s ip k)))"
  then have i: "i < m" by (simp add: slice_def)
  have "file_blk s ip k = bview s (file_addr s ip k)" using assms(3) by (simp add: file_blk_def fblk_def file_addr_def)
  then show "slice (unat off mod 512) m (bview s (file_addr s ip k)) ! i = map (file_byte s ip) [unat off..<unat off + m] ! i"
    using i block_of [OF assms(5) i] assms(4,5) l lt by (simp add: slice_def file_byte_def)
qed

lemma same_view_byte: "lframe s t \<Longrightarrow> bview t = bview s \<Longrightarrow> file_byte t ip = file_byte s ip"
  by (simp add: file_byte_def same_view fun_eq_iff)

lemma readi_loop_ok:
  assumes "file_ok s ip" "log_inv s blks" "held s = {}" "unat off + unat n \<le> MAXBYTES"
    and "\<And>i. unat off \<le> i \<Longrightarrow> i < unat off + unat n \<Longrightarrow> file_addr s ip (i div 512) \<noteq> 0"
  shows "\<exists>t. readi_loop ip off n s = Ok (map (file_byte s ip) [unat off..<unat off + unat n], t) \<and> log_inv t blks \<and> lframe s t \<and>
    bview t = bview s \<and> held t = {}"
  using assms
proof (induction "unat n" arbitrary: off n s rule: less_induct)
  case less
  show ?case
  proof (cases "n = 0")
    case True
    then show ?thesis using less.prems by (simp add: readi_loop.simps)
  next
    case False
    let ?k = "unat off div 512" and ?m = "chunk n off"
    have n0: "0 < unat n" using False unat_eq_zero [of n] neq0_conv by blast
    note C = chunk_facts [OF False, of off]
    have k: "?k < MAXFILE" "file_addr s ip ?k \<noteq> 0"
      using less.prems(4) n0 less.prems(5) [of "unat off"] by (simp_all add: div_less_iff_less_mult)
    obtain s1 where b: "bmap ip (of_nat ?k) s = Ok (file_addr s ip ?k, s1)" "log_inv s1 blks" "lframe s s1" "bview s1 = bview s" "held s1 = {}"
      using bmap_mapped [OF less.prems(1-3) k] by blast
    note S1 = same_view [OF b(3,4)]
    have dev: "i_dev (inode_at s1 ip) = 1" using iwfD(1) [OF file_okD(4) [OF less.prems(1)]] by (simp add: lframe_fs [OF b(3)])
    have a: "file_addr s ip ?k < FSSIZE" using file_addr_block(1) [OF less.prems(1) k] .
    have r: "file_addr s ip ?k \<notin> held s1" "length blks + card (held s1) < NBUF" using b(2,5) listsD(5) [of s1 blks] by (simp_all add: log_inv_def)
    obtain bp s2 s3 where p: "bread 1 (file_addr s ip ?k) s1 = Ok (bp, s2)" "b_data (buf_at s2 bp) = bview s1 (file_addr s ip ?k)" "brelse bp s2 = Ok s3"
      "log_inv s3 blks" "lframe s1 s3" "bview s3 = bview s1" "held s3 = held s1"
      by (rule peek_log [OF b(2) a r]) (rule that)
    have f3: "lframe s s3" "bview s3 = bview s" using lframe_trans [OF b(3) p(5)] p(6) b(4) by simp_all
    note S3 = same_view [OF f3]
    have um: "unat (off + ?m) = unat off + unat ?m" "unat (n - ?m) = unat n - unat ?m" "unat ?m \<le> unat n" "unat ?m \<le> 512 - unat off mod 512"
    proof -
      show le: "unat ?m \<le> unat n" "unat ?m \<le> 512 - unat off mod 512" using C(1) by simp_all
      then show "unat (off + ?m) = unat off + unat ?m" using less.prems(4) by (simp add: unat_add32)
      show "unat (n - ?m) = unat n - unat ?m" using le(1) by (simp add: unat_sub word_le_nat_alt)
    qed
    have "\<exists>t. readi_loop ip (off + ?m) (n - ?m) s3 = Ok (map (file_byte s3 ip) [unat (off + ?m)..<unat (off + ?m) + unat (n - ?m)], t) \<and>
        log_inv t blks \<and> lframe s3 t \<and> bview t = bview s3 \<and> held t = {}"
      using C(2) less.prems um S3 p(4,7) b(5) by (intro less.hyps) simp_all
    then obtain t where t: "readi_loop ip (off + ?m) (n - ?m) s3 = Ok (map (file_byte s ip) [unat off + unat ?m..<unat off + unat n], t)"
      "log_inv t blks" "lframe s3 t" "bview t = bview s3" "held t = {}"
      using um same_view_byte [OF f3] by auto
    have "slice (unat off mod 512) (unat ?m) (bview s (file_addr s ip ?k)) = map (file_byte s ip) [unat off..<unat off + unat ?m]"
      by (rule file_blk_byte [OF less.prems(2) k refl um(4)])
    moreover have "[unat off..<unat off + unat n] = [unat off..<unat off + unat ?m] @ [unat off + unat ?m..<unat off + unat n]"
      using um(3) upt_add_eq_append [of "unat off" "unat off + unat ?m" "unat n - unat ?m"] by simp
    ultimately have "readi_loop ip off n s = Ok (map (file_byte s ip) [unat off..<unat off + unat n], t)"
      using b(1) dev p(1-3) t(1) False b(4) by (subst readi_loop.simps) (simp add: unat_block [of off, simplified] Let_def unat_mod_distrib)
    then show ?thesis using t lframe_trans [OF f3(1) t(3)] f3(2) by auto
  qed
qed

definition whole :: "'a fstate_scheme \<Rightarrow> nat \<Rightarrow> bool" where
  "whole s ip \<longleftrightarrow> unat (i_size (inode_at s ip)) \<le> MAXBYTES \<and> (\<forall>i<unat (i_size (inode_at s ip)). file_addr s ip (i div 512) \<noteq> 0)"

lemma sint_small:
  assumes "unat (n :: u32) < 2147483648" shows "sint n = int (unat n)"
proof -
  have u: "int (unat n) = uint n" by simp
  have "uint n < 2147483648" "- 2147483648 \<le> uint n" using assms u by linarith+
  then have "signed_take_bit 31 (uint n) = uint n" by (intro signed_take_bit_int_eq_self) simp_all
  then show ?thesis by (simp add: sint_uint)
qed

lemma readi_ok:
  assumes ok: "file_ok s ip" and t: "log_inv s blks" and h: "held s = {}" and w: "whole s ip" and ty: "i_type (inode_at s ip) \<noteq> T_DEV"
    and off: "unat off \<le> unat (i_size (inode_at s ip))" "unat off + unat n < 4294967296"
  defines "e \<equiv> min (unat off + unat n) (unat (i_size (inode_at s ip)))"
  shows "\<exists>t. readi ip off n s = Ok (int (e - unat off), map (file_byte s ip) [unat off..<e], t) \<and> log_inv t blks \<and> lframe s t \<and>
    bview t = bview s \<and> held t = {}"
proof -
  let ?sz = "i_size (inode_at s ip)"
  define n' where "n' = (if off + n > ?sz then ?sz - off else n)"
  have a: "unat (off + n) = unat off + unat n" using off(2) by (simp add: unat_add32)
  have e: "unat off + unat n' = e" "e \<le> unat ?sz" "unat n' = e - unat off"
    using off(1) a by (auto simp: n'_def e_def word_less_nat_alt unat_sub word_le_nat_alt)
  have sz: "unat ?sz \<le> MAXBYTES" using w by (simp add: whole_def)
  obtain t where r: "readi_loop ip off n' s = Ok (map (file_byte s ip) [unat off..<unat off + unat n'], t)" "log_inv t blks" "lframe s t"
    "bview t = bview s" "held t = {}"
    using readi_loop_ok [OF ok t h, of off n'] e sz w by (auto simp: whole_def)
  have "sint n' = int (unat n')" using e sz by (intro sint_small) linarith
  moreover have "\<not> off > ?sz" "\<not> off + n < off" using off a by (simp_all add: word_less_nat_alt)
  ultimately have "readi ip off n s = Ok (int (e - unat off), map (file_byte s ip) [unat off..<e], t)"
    using ty r(1) e unfolding readi_def Let_def n'_def [symmetric] by simp
  then show ?thesis using r by blast
qed

section \<open>Writing\<close>

text \<open>Replacing the contents of one data block of a file.\<close>

lemma data_write:
  assumes wf: "iwf bm sz U v x" and k: "k < MAXFILE" "dblock v x k \<noteq> 0" and v': "v' = v(dblock v x k := d)"
  shows "dblock v' x j = dblock v x j" "j < MAXFILE \<Longrightarrow> fblk v' x j = (if j = k then d else fblk v x j)" "iwf bm sz U v' x"
proof -
  have ne: "dblock v x k \<noteq> i_addrs x ! NDIRECT" by (rule iwfD(7) [OF wf k])
  then show d: "dblock v' x j = dblock v x j" for j by (intro dblock_cong) (simp add: v')
  show "j < MAXFILE \<Longrightarrow> fblk v' x j = (if j = k then d else fblk v x j)"
    using iwfD(6) [OF wf _ k(1), of j] k(2) unfolding fblk_def d by (auto simp: v')
  show "iwf bm sz U v' x" using wf unfolding iwf_def owns_def d .
qed

lemma cost_adds: "cost s ip (adds b blks) \<le> cost s ip blks + 1"
  by (simp add: cost_def length_adds)

lemma write_block:
  assumes ok: "file_ok s ip" and t: "txn s blks" and h: "held s = {}" and n: "Suc (length blks) < LOGSIZE"
    and k: "k < MAXFILE" "file_addr s ip k \<noteq> 0" and l: "length (f (file_blk s ip k)) = BSIZE"
  obtains bp s1 s2 t where "bread 1 (file_addr s ip k) s = Ok (bp, s1)"
    "log_write bp (upd_buf bp (\<lambda>x. x\<lparr>b_data := f (b_data x)\<rparr>) s1) = Ok s2" "brelse bp s2 = Ok t"
    "txn t (adds (file_addr s ip k) blks)" "lframe s t" "held t = {}" "file_ok t ip" "file_addr t ip = file_addr s ip"
    "\<And>j. j < MAXFILE \<Longrightarrow> file_blk t ip j = (if j = k then f (file_blk s ip k) else file_blk s ip j)" "free_blocks t = free_blocks s" "used t = used s"
proof -
  let ?a = "file_addr s ip k"
  note O = file_okD [OF ok]
  have bk: "file_blk s ip k = bview s ?a" using k(2) by (simp add: file_blk_def fblk_def file_addr_def)
  have l1: "length (f (bview s ?a)) = BSIZE" using l bk by simp
  have r: "?a \<notin> held s" "length blks + card (held s) < NBUF" using h n by simp_all
  obtain bp s1 s2 t where m: "bread 1 ?a s = Ok (bp, s1)" "b_data (buf_at s1 bp) = bview s ?a" "lframe s s1"
    "log_write bp (upd_buf bp (\<lambda>x. x\<lparr>b_data := f (b_data x)\<rparr>) s1) = Ok s2" "lframe s s2" "brelse bp s2 = Ok t"
    "txn t (adds ?a blks)" "lframe s t" "bview t = (bview s)(?a := f (bview s ?a))" "held t = held s"
    by (rule modify_block [where f = f, OF t file_addr_block(1) [OF ok k] r n file_addr_block(2) [OF ok k] l1]) (rule that)
  note D = data_write [OF O(4) k(1) k(2) [unfolded file_addr_def] m(9) [unfolded file_addr_def]]
  have ow: "owns (bview s) (inode_at s ip) ?a" using ownsI(1) k unfolding file_addr_def by blast
  have "?a \<noteq> sb_bmapstart (sb s)" using iwfD(3) [OF O(4) ow] by auto
  then have us: "used t = used s" by (simp add: used_def fun_eq_iff lframe_fs [OF m(8)] m(9))
  show thesis
  proof (rule that [OF m(1,4,6,7,8)])
    show "file_ok t ip" using D(3) O us geom_frame [OF m(8)] by (simp add: file_ok_def meta_used_def lframe_fs [OF m(8)])
    show "file_blk t ip j = (if j = k then f (file_blk s ip k) else file_blk s ip j)" if "j < MAXFILE" for j
      using D(2) [OF that] bk by (simp add: file_blk_def lframe_fs [OF m(8)] file_addr_def)
  qed (use m h us D(1) in \<open>simp_all add: file_addr_def fun_eq_iff free_blocks_def lframe_fs [OF m(8)]\<close>)
qed

text \<open>What writing the bytes \<open>bs\<close> at \<open>off\<close> does, taking at most \<open>c\<close> blocks of the log and of the disk.\<close>

definition write_post :: "'a fstate_scheme \<Rightarrow> nat \<Rightarrow> nat \<Rightarrow> u8 list \<Rightarrow> nat \<Rightarrow> u32 list \<Rightarrow> 'a fstate_scheme \<Rightarrow> u32 list \<Rightarrow> bool" where
  "write_post s ip off bs c blks t blks' \<longleftrightarrow> txn t blks' \<and> held t = {} \<and> fframe ip s t \<and> file_ok t ip \<and>
     (\<forall>i<MAXBYTES. file_byte t ip i = (if off \<le> i \<and> i < off + length bs then bs ! (i - off) else file_byte s ip i)) \<and>
     (\<forall>i. off \<le> i \<and> i < off + length bs \<longrightarrow> file_addr t ip (i div 512) \<noteq> 0) \<and>
     (\<forall>j<MAXFILE. file_addr s ip j \<noteq> 0 \<longrightarrow> file_addr t ip j \<noteq> 0) \<and>
     cost t ip blks' \<le> cost s ip blks + c \<and> avail s ip \<le> avail t ip + c"

lemma write_post_trans:
  assumes 1: "write_post s ip off xs c blks t blks1" and 2: "write_post t ip (off + length xs) ys d blks1 u blks2"
    and le: "off + length xs + length ys \<le> MAXBYTES"
  shows "write_post s ip off (xs @ ys) (c + d) blks u blks2"
  unfolding write_post_def
proof (intro conjI allI impI)
  show "fframe ip s u" using 1 2 fframe_trans unfolding write_post_def by blast
  fix i
  show "file_byte u ip i = (if off \<le> i \<and> i < off + length (xs @ ys) then (xs @ ys) ! (i - off) else file_byte s ip i)" if "i < MAXBYTES"
    using 1 2 that unfolding write_post_def by (auto simp: nth_append)
  show "file_addr u ip (i div 512) \<noteq> 0" if "off \<le> i \<and> i < off + length (xs @ ys)"
  proof (cases "i < off + length xs")
    case True
    moreover have "i div 512 < MAXFILE" using True le by (simp add: div_less_iff_less_mult)
    ultimately show ?thesis using 1 2 that unfolding write_post_def by blast
  next
    case False
    then show ?thesis using 2 that unfolding write_post_def by auto
  qed
next
  show "cost u ip blks2 \<le> cost s ip blks + (c + d)" "avail s ip \<le> avail u ip + (c + d)" using 1 2 unfolding write_post_def by linarith+
qed (use 1 2 in \<open>auto simp: write_post_def\<close>)

lemma splice_byte:
  fixes off m i :: nat
  assumes "m \<le> 512 - off mod 512" "length bs = m" "length d = 512"
  shows "splice (off mod 512) bs d ! (i mod 512) =
    (if off mod 512 \<le> i mod 512 \<and> i mod 512 < off mod 512 + m then bs ! (i mod 512 - off mod 512) else d ! (i mod 512))"
  using assms by (subst nth_splice) (auto intro: less_imp_le)

lemma in_block:
  fixes off i :: nat
  assumes "i div 512 = off div 512" "m \<le> 512 - off mod 512"
  shows "off mod 512 \<le> i mod 512 \<and> i mod 512 < off mod 512 + m \<longleftrightarrow> off \<le> i \<and> i < off + m" "off \<le> i \<Longrightarrow> i mod 512 - off mod 512 = i - off"
proof -
  have "i = 512 * (off div 512) + i mod 512" "off = 512 * (off div 512) + off mod 512" using assms(1) by (metis mult_div_mod_eq)+
  then show "off mod 512 \<le> i mod 512 \<and> i mod 512 < off mod 512 + m \<longleftrightarrow> off \<le> i \<and> i < off + m" "off \<le> i \<Longrightarrow> i mod 512 - off mod 512 = i - off"
    by linarith+
qed

lemma length_file_blk: "log_inv s blks \<Longrightarrow> length (file_blk s ip k) = BSIZE"
  by (simp add: file_blk_def fblk_def length_bview [OF log_invD(1)])

lemma write_chunk:
  assumes ok: "file_ok s ip" and t: "txn s blks" and h: "held s = {}" and n: "cost s ip blks + 3 < LOGSIZE" and av: "0 < avail s ip"
    and off: "off < MAXBYTES" and m: "length bs \<le> 512 - off mod 512" "bs \<noteq> []"
  obtains a s1 bp s2 s3 t blks' where "bmap ip (of_nat (off div 512)) s = Ok (a, s1)" "i_dev (inode_at s1 ip) = 1" "bread 1 a s1 = Ok (bp, s2)"
    "log_write bp (upd_buf bp (\<lambda>x. x\<lparr>b_data := splice (off mod 512) bs (b_data x)\<rparr>) s2) = Ok s3" "brelse bp s3 = Ok t"
    "write_post s ip off bs 1 blks t blks'"
proof -
  let ?k = "off div 512" and ?f = "splice (off mod 512) bs"
  have k: "?k < MAXFILE" using off by (simp add: div_less_iff_less_mult)
  have n2: "cost s ip blks + 2 < LOGSIZE" using n by simp
  obtain a s1 blks1 where b: "bmap ip (of_nat ?k) s = Ok (a, s1)" "bmap_post s ip ?k blks a s1 blks1"
    using bmap_ok [OF ok t h n2 k av] by blast
  have B: "txn s1 blks1" "held s1 = {}" "fframe ip s s1" "file_ok s1 ip" "file_addr s1 ip ?k = a" "a \<noteq> 0"
    "\<And>j. j < MAXFILE \<Longrightarrow> file_blk s1 ip j = file_blk s ip j" "\<And>j. j < MAXFILE \<Longrightarrow> file_addr s ip j \<noteq> 0 \<Longrightarrow> file_addr s1 ip j = file_addr s ip j"
    "cost s1 ip blks1 \<le> cost s ip blks + (if file_addr s ip ?k = 0 then 1 else 0)" "avail s ip \<le> avail s1 ip + 1"
    "file_addr s ip ?k = 0 \<Longrightarrow> a \<in> set blks1" "file_addr s ip ?k \<noteq> 0 \<Longrightarrow> bview s1 = bview s \<and> inode_at s1 ip = inode_at s ip \<and> blks1 = blks"
    using b(2) by (simp_all add: bmap_post_def)
  have nz: "file_addr s1 ip ?k \<noteq> 0" using B(5,6) by simp
  have "length blks1 \<le> cost s1 ip blks1" by (simp add: cost_def)
  then have n1: "Suc (length blks1) < LOGSIZE" using B(9) n by (simp split: if_splits)
  have lk: "length (file_blk s1 ip ?k) = BSIZE" by (rule length_file_blk [OF txnD(1) [OF B(1)]])
  have lf: "length (?f (file_blk s1 ip ?k)) = BSIZE" using m(1) lk mod_less_divisor [of 512 off] by (subst length_splice) simp_all
  obtain bp s2 s3 t where w: "bread 1 (file_addr s1 ip ?k) s1 = Ok (bp, s2)"
    "log_write bp (upd_buf bp (\<lambda>x. x\<lparr>b_data := ?f (b_data x)\<rparr>) s2) = Ok s3" "brelse bp s3 = Ok t"
    "txn t (adds (file_addr s1 ip ?k) blks1)" "lframe s1 t" "held t = {}" "file_ok t ip" "file_addr t ip = file_addr s1 ip"
    "\<And>j. j < MAXFILE \<Longrightarrow> file_blk t ip j = (if j = ?k then ?f (file_blk s1 ip ?k) else file_blk s1 ip j)" "free_blocks t = free_blocks s1" "used t = used s1"
    by (rule write_block [where f = ?f, OF B(4,1,2) n1 k nz lf]) (rule that)
  have same_blk: "i div 512 = ?k" if "off \<le> i" "i < off + length bs" for i
  proof -
    have "i - off < length bs" "off + (i - off) = i" using that by simp_all
    then show ?thesis using block_of(1) [OF m(1), of "i - off"] by metis
  qed
  have "write_post s ip off bs 1 blks t (adds a blks1)"
    unfolding write_post_def
  proof (intro conjI allI impI)
    show "fframe ip s t" by (rule fframe_trans [OF B(3) lframe_fframe [OF w(5)]])
    fix i
    show "file_byte t ip i = (if off \<le> i \<and> i < off + length bs then bs ! (i - off) else file_byte s ip i)" if "i < MAXBYTES"
    proof -
      have j: "i div 512 < MAXFILE" using that by (simp add: div_less_iff_less_mult)
      show ?thesis
      proof (cases "i div 512 = ?k")
        case True
        then have "file_byte t ip i = ?f (file_blk s ip ?k) ! (i mod 512)" using w(9) [OF j] B(7) [OF k] by (simp add: file_byte_def)
        then show ?thesis
          using in_block [OF True m(1)] splice_byte [OF m(1) refl, of "file_blk s ip ?k" i] lk B(7) [OF k] True by (auto simp: file_byte_def)
      next
        case False
        then have "\<not> (off \<le> i \<and> i < off + length bs)" using same_blk [of i] by blast
        then show ?thesis using False w(9) [OF j] B(7) [OF j] by (auto simp: file_byte_def)
      qed
    qed
    show "file_addr t ip (i div 512) \<noteq> 0" if "off \<le> i \<and> i < off + length bs"
      using same_blk [of i] that w(8) nz by simp
  next
    have "cost t ip (adds a blks1) = cost s1 ip (adds a blks1)" by (simp add: cost_def lframe_fs [OF w(5)])
    then show "cost t ip (adds a blks1) \<le> cost s ip blks + 1"
      using B(9,11) cost_adds [of s1 ip a blks1] by (cases "file_addr s ip ?k = 0") auto
    have "avail t ip = avail s1 ip" using w(10) by (simp add: avail_def lframe_fs [OF w(5)])
    then show "avail s ip \<le> avail t ip + 1" using B(10) by simp
  qed (use w(4,6,7,8) B(5,8) in auto)
  then show thesis
    using that [OF b(1) _ _ w(2,3)] w(1) B(5) iwfD(1) [OF file_okD(4) [OF B(4)]] by simp
qed

lemma writei_loop_ok:
  assumes "file_ok s ip" "txn s blks" "held s = {}" "length src = unat n" "unat off + unat n \<le> MAXBYTES"
    and "cost s ip blks + nchunks (unat off) (unat n) + 2 < LOGSIZE" "nchunks (unat off) (unat n) \<le> avail s ip"
  shows "\<exists>t blks'. writei_loop ip off src n s = Ok t \<and> write_post s ip (unat off) src (nchunks (unat off) (unat n)) blks t blks'"
  using assms
proof (induction "unat n" arbitrary: off n src s blks rule: less_induct)
  case less
  show ?case
  proof (cases "n = 0")
    case True
    then show ?thesis using less.prems by (auto simp: writei_loop.simps write_post_def nchunks_def)
  next
    case False
    let ?m = "chunk n off"
    have n0: "0 < unat n" using False unat_eq_zero [of n] neq0_conv by blast
    note C = chunk_facts [OF False, of off]
    have um: "unat (off + ?m) = unat off + unat ?m" "unat (n - ?m) = unat n - unat ?m" "unat ?m \<le> unat n" "unat ?m \<le> 512 - unat off mod 512"
    proof -
      show le: "unat ?m \<le> unat n" "unat ?m \<le> 512 - unat off mod 512" using C(1) by simp_all
      then show "unat (off + ?m) = unat off + unat ?m" using less.prems(5) by (simp add: unat_add32)
      show "unat (n - ?m) = unat n - unat ?m" using le(1) by (simp add: unat_sub word_le_nat_alt)
    qed
    let ?bs = "take (unat ?m) src" and ?rest = "drop (unat ?m) src"
    have l: "length ?bs = unat ?m" "length ?rest = unat (n - ?m)" using less.prems(4) um by simp_all
    have nc: "nchunks (unat off) (unat n) = Suc (nchunks (unat (off + ?m)) (unat (n - ?m)))"
      using nchunks_step [OF n0 C(1)] um by simp
    have pre: "cost s ip blks + 3 < LOGSIZE" "0 < avail s ip" "unat off < MAXBYTES" "length ?bs \<le> 512 - unat off mod 512" "?bs \<noteq> []"
      using less.prems(4-7) nc n0 l um C(3) by auto
    obtain a s1 bp s2 s3 t blks1 where w: "bmap ip (of_nat (unat off div 512)) s = Ok (a, s1)" "i_dev (inode_at s1 ip) = 1" "bread 1 a s1 = Ok (bp, s2)"
      "log_write bp (upd_buf bp (\<lambda>x. x\<lparr>b_data := splice (unat off mod 512) ?bs (b_data x)\<rparr>) s2) = Ok s3" "brelse bp s3 = Ok t"
      "write_post s ip (unat off) ?bs 1 blks t blks1"
      by (rule write_chunk [OF less.prems(1-3) pre]) (rule that)
    have W: "file_ok t ip" "txn t blks1" "held t = {}" "cost t ip blks1 \<le> cost s ip blks + 1" "avail s ip \<le> avail t ip + 1"
      using w(6) by (simp_all add: write_post_def)
    have P: "unat (off + ?m) + unat (n - ?m) \<le> MAXBYTES" "cost t ip blks1 + nchunks (unat (off + ?m)) (unat (n - ?m)) + 2 < LOGSIZE"
      "nchunks (unat (off + ?m)) (unat (n - ?m)) \<le> avail t ip"
      using W(4,5) less.prems(5-7) nc um by linarith+
    obtain u blks2 where u: "writei_loop ip (off + ?m) ?rest (n - ?m) t = Ok u"
      "write_post t ip (unat (off + ?m)) ?rest (nchunks (unat (off + ?m)) (unat (n - ?m))) blks1 u blks2"
      using less.hyps [OF C(2) W(1-3) l(2) P] by blast
    have "write_post s ip (unat off) (?bs @ ?rest) (1 + nchunks (unat (off + ?m)) (unat (n - ?m))) blks u blks2"
      by (rule write_post_trans [OF w(6)]) (use u(2) um l less.prems(5) in simp_all)
    moreover have "writei_loop ip off src n s = Ok u"
      using w(1-5) u(1) False by (subst writei_loop.simps) (simp add: unat_block [of off, simplified] Let_def unat_mod_distrib)
    ultimately show ?thesis using nc by auto
  qed
qed

end
