(* ===== verification/Fs_Write.thy ===== *)
theory Fs_Write
  imports Fs_Rw
begin

text \<open>
  Inodes on disk, and whole writes.  An inode stored by \<^verbatim>\<open>iupdate\<close> reads back as it is in memory and
  disturbs no other inode of its block; \<^verbatim>\<open>writei\<close> replaces the bytes of a range, grows the size, and
  stores the inode when the size grew.
\<close>

section \<open>The on-disk inode\<close>

lemma rd32_splice_inside:
  "off + length xs \<le> length bs \<Longrightarrow> j + 4 \<le> length xs \<Longrightarrow> rd32 (splice off xs bs) (off + j) = rd32 xs j"
  by (simp add: rd32_def nth_splice add.assoc)

lemma length_concat_bytes [simp]: "length (concat (map bytes32 as)) = 4 * length as"
  by (induction as) simp_all

lemma rd32_concat: "k < length as \<Longrightarrow> rd32 (concat (map bytes32 as)) (4 * k) = as ! k"
proof (induction as arbitrary: k)
  case (Cons a as)
  show ?case
  proof (cases k)
    case 0
    have "rd32 (bytes32 a @ xs) 0 = a" for xs using rd_wr_same(2) [of 0 "bytes32 a @ xs" a] by (simp add: wr32_def splice_def)
    then show ?thesis using 0 by simp
  next
    case (Suc j)
    have "rd32 (bytes32 a @ xs) (4 + i) = rd32 xs i" for xs i by (simp add: rd32_def nth_append add.commute [of i])
    then show ?thesis using Cons Suc by simp
  qed
qed simp

lemma dinode_roundtrip:
  assumes "off + 64 \<le> length d" "length (i_addrs x) = NDIRECT + 1"
  shows "dinode_get (dinode_put x off d) off y = y\<lparr>i_type := i_type x, i_major := i_major x, i_minor := i_minor x,
    i_nlink := i_nlink x, i_size := i_size x, i_addrs := i_addrs x\<rparr>"
proof -
  let ?D = "dinode_put x off d"
  have s16: "rd16 (splice o' (bytes16 v) bs) o' = v" if "o' + 2 \<le> length bs" for o' v bs using rd_wr_same(1) [OF that] by (simp add: wr16_def)
  have s32: "rd32 (splice o' (bytes32 v) bs) o' = v" if "o' + 4 \<le> length bs" for o' v bs using rd_wr_same(2) [OF that] by (simp add: wr32_def)
  have "rd16 ?D off = i_type x" "rd16 ?D (off + 2) = i_major x" "rd16 ?D (off + 4) = i_minor x" "rd16 ?D (off + 6) = i_nlink x" "rd32 ?D (off + 8) = i_size x"
    using assms by (simp_all add: dinode_put_def Let_def wr16_def wr32_def rd_splice_disj s16 s32)
  moreover have "map (\<lambda>k. rd32 ?D (off + 12 + 4 * k)) [0..<NDIRECT + 1] = i_addrs x"
  proof (rule nth_equalityI)
    fix k assume "k < length (map (\<lambda>k. rd32 ?D (off + 12 + 4 * k)) [0..<NDIRECT + 1])"
    then have k: "k < 13" by simp
    have "rd32 ?D (off + 12 + 4 * k) = rd32 (concat (map bytes32 (i_addrs x))) (4 * k)"
      unfolding dinode_put_def Let_def using k assms by (intro rd32_splice_inside) (simp_all add: wr16_def wr32_def)
    then show "map (\<lambda>k. rd32 ?D (off + 12 + 4 * k)) [0..<NDIRECT + 1] ! k = i_addrs x ! k"
      using k assms(2) by (simp add: rd32_concat del: upt_Suc upt_rec_numeral)
  qed (use assms(2) in simp)
  ultimately show ?thesis by (simp add: dinode_get_def del: upt_Suc upt_rec_numeral)
qed

lemma dinode_other:
  assumes "off + 64 \<le> length d" "length (i_addrs x) = NDIRECT + 1" "o' + 64 \<le> length d" "o' + 64 \<le> off \<or> off + 64 \<le> o'"
  shows "dinode_get (dinode_put x off d) o' y = dinode_get d o' y"
proof -
  have b: "length (concat (map bytes32 (i_addrs x))) = 52" using assms(2) by simp
  have r16: "rd16 (dinode_put x off d) (o' + j) = rd16 d (o' + j)" if "j \<le> 8" for j
    using assms(4)
    by (rule disjE) (use assms(1-3) b that in \<open>simp_all add: dinode_put_def Let_def wr16_def wr32_def rd_splice_disj del: length_concat_bytes\<close>)
  have r32: "rd32 (dinode_put x off d) (o' + j) = rd32 d (o' + j)" if "j \<le> 60" for j
    using assms(4)
    by (rule disjE) (use assms(1-3) b that in \<open>simp_all add: dinode_put_def Let_def wr16_def wr32_def rd_splice_disj del: length_concat_bytes\<close>)
  have "map (\<lambda>k. rd32 (dinode_put x off d) (o' + 12 + 4 * k)) [0..<NDIRECT + 1] = map (\<lambda>k. rd32 d (o' + 12 + 4 * k)) [0..<NDIRECT + 1]"
    by (rule map_cong [OF refl]) (simp add: add.assoc r32 del: upt_Suc upt_rec_numeral)
  moreover have "rd16 (dinode_put x off d) o' = rd16 d o'" using r16 [of 0] by simp
  moreover have "rd16 (dinode_put x off d) (o' + 2) = rd16 d (o' + 2)" "rd16 (dinode_put x off d) (o' + 4) = rd16 d (o' + 4)"
    "rd16 (dinode_put x off d) (o' + 6) = rd16 d (o' + 6)" by (rule r16; simp)+
  moreover have "rd32 (dinode_put x off d) (o' + 8) = rd32 d (o' + 8)" by (rule r32) simp
  ultimately show ?thesis by (simp only: dinode_get_def)
qed

lemma length_dinode_put:
  "off + 64 \<le> length d \<Longrightarrow> length (i_addrs x) = NDIRECT + 1 \<Longrightarrow> length (dinode_put x off d) = length d"
  by (simp add: dinode_put_def Let_def wr16_def wr32_def)

section \<open>Storing an inode\<close>

text \<open>A change of a block below the bitmap block changes no file and no bit.\<close>

lemma meta_write:
  assumes f: "lframe s t" and v: "bview t = (bview s)(b := d)" and b: "unat b < unat (sb_bmapstart (sb s))"
  shows "used t = used s" "free_blocks t = free_blocks s" "file_ok s ip \<Longrightarrow> file_ok t ip"
    "file_ok s ip \<Longrightarrow> k < MAXFILE \<Longrightarrow> file_blk t ip k = file_blk s ip k" "file_ok s ip \<Longrightarrow> file_addr t ip k = file_addr s ip k"
proof -
  note F = lframe_fs [OF f]
  have "b \<noteq> sb_bmapstart (sb s)" using b by auto
  then show us: "used t = used s" by (simp add: used_def fun_eq_iff F v)
  show "free_blocks t = free_blocks s" by (simp add: free_blocks_def us F)
  assume ok: "file_ok s ip"
  have "bview t a = bview s a" if "owns (bview s) (inode_at s ip) a" for a
    using iwfD(3) [OF file_okD(4) [OF ok] that] b by (auto simp: v word_less_nat_alt)
  note S = same_file [OF this]
  show "file_ok t ip" using ok geom_frame [OF f] S(3) by (simp add: file_ok_def us F meta_used_def)
  show "k < MAXFILE \<Longrightarrow> file_blk t ip k = file_blk s ip k" "file_addr t ip k = file_addr s ip k"
    using S(1,2) by (simp_all add: file_blk_def file_addr_def F)
qed

definition inode_blk :: "'a fstate_scheme \<Rightarrow> nat \<Rightarrow> u32" where
  "inode_blk s ip = IBLOCK (i_inum (inode_at s ip)) (sb s)"

lemma inode_blk_facts:
  assumes g: "geom s" and i: "unat (i_inum (inode_at s ip)) < unat (sb_ninodes (sb s))"
  shows "unat (inode_blk s ip) < unat (sb_bmapstart (sb s))" "inode_blk s ip < FSSIZE" "inode_blk s ip \<notin> area (log_start s)"
    "dinode_off (i_inum (inode_at s ip)) + 64 \<le> BSIZE"
proof -
  let ?n = "i_inum (inode_at s ip)"
  have d: "unat (?n div 8) = unat ?n div 8" by (simp add: unat_div_distrib)
  have le: "unat ?n div 8 \<le> unat (sb_ninodes (sb s)) div 8" using i by (intro div_le_mono) simp
  have lt: "unat (sb_inodestart (sb s)) + unat ?n div 8 < unat (sb_bmapstart (sb s))" "unat (sb_bmapstart (sb s)) < 1000"
    using g le by (auto simp: geom_def)
  then have u: "unat (inode_blk s ip) = unat ?n div 8 + unat (sb_inodestart (sb s))"
    by (simp add: inode_blk_def IBLOCK_def unat_add32 d)
  show "unat (inode_blk s ip) < unat (sb_bmapstart (sb s))" "inode_blk s ip < FSSIZE" using lt u by (simp_all add: word_less_nat_alt)
  show "inode_blk s ip \<notin> area (log_start s)" using g u by (auto simp: geom_def area_def)
  have "unat ?n mod 8 < 8" by simp
  then show "dinode_off ?n + 64 \<le> BSIZE" by (simp add: dinode_off_def unat_mod_distrib)
qed

lemma iupdate_ok:
  assumes g: "geom s" and t: "txn s blks" and h: "held s = {}" and n: "Suc (length blks) < LOGSIZE"
    and x: "i_dev (inode_at s ip) = 1" "length (i_addrs (inode_at s ip)) = NDIRECT + 1" "unat (i_inum (inode_at s ip)) < unat (sb_ninodes (sb s))"
  obtains t where "iupdate ip s = Ok t" "txn t (adds (inode_blk s ip) blks)" "lframe s t" "held t = {}"
    "bview t = (bview s)(inode_blk s ip := dinode_put (inode_at s ip) (dinode_off (i_inum (inode_at s ip))) (bview s (inode_blk s ip)))"
proof -
  let ?b = "inode_blk s ip" and ?f = "dinode_put (inode_at s ip) (dinode_off (i_inum (inode_at s ip)))"
  note I = inode_blk_facts [OF g x(3)]
  have l: "length (?f (bview s ?b)) = BSIZE"
    using I(4) x(2) length_bview [OF txnD(2) [OF t], of ?b] by (subst length_dinode_put) simp_all
  have r: "?b \<notin> held s" "length blks + card (held s) < NBUF" using h n by simp_all
  obtain bp s1 s2 t where m: "bread 1 ?b s = Ok (bp, s1)"
    "log_write bp (upd_buf bp (\<lambda>y. y\<lparr>b_data := ?f (b_data y)\<rparr>) s1) = Ok s2" "brelse bp s2 = Ok t"
    "txn t (adds ?b blks)" "lframe s t" "bview t = (bview s)(?b := ?f (bview s ?b))" "held t = held s"
    by (rule modify_block [where f = ?f, OF t I(2) r n I(3) l]) (rule that)
  have "iupdate ip s = Ok t" using m(1-3) x(1) by (simp add: iupdate_def Let_def inode_blk_def)
  then show thesis by (rule that [OF _ m(4,5)]) (use m h in simp_all)
qed

section \<open>writei\<close>

lemma size_upd:
  assumes "ip < length (icache s)"
  shows "file_ok (upd_inode ip (\<lambda>x. x\<lparr>i_size := z\<rparr>) s) ip = file_ok s ip"
    "file_blk (upd_inode ip (\<lambda>x. x\<lparr>i_size := z\<rparr>) s) ip = file_blk s ip"
    "file_addr (upd_inode ip (\<lambda>x. x\<lparr>i_size := z\<rparr>) s) ip = file_addr s ip"
proof -
  have d: "dblock v (x\<lparr>i_size := z\<rparr>) k = dblock v x k" for v x k by (simp add: dblock_def)
  then have "fblk v (x\<lparr>i_size := z\<rparr>) k = fblk v x k" "owns v (x\<lparr>i_size := z\<rparr>) a = owns v x a" for v x k a by (simp_all add: fblk_def owns_def)
  with d show "file_ok (upd_inode ip (\<lambda>x. x\<lparr>i_size := z\<rparr>) s) ip = file_ok s ip"
    "file_blk (upd_inode ip (\<lambda>x. x\<lparr>i_size := z\<rparr>) s) ip = file_blk s ip"
    "file_addr (upd_inode ip (\<lambda>x. x\<lparr>i_size := z\<rparr>) s) ip = file_addr s ip"
    using assms by (simp_all add: file_ok_def file_blk_def file_addr_def fun_eq_iff iwf_def)
qed

lemma whole_grow:
  assumes p: "write_post s ip off bs c blks t blks'" and w: "whole s ip" and off: "off \<le> unat (i_size (inode_at s ip))" "off + length bs \<le> MAXBYTES"
    and i: "i < max (unat (i_size (inode_at s ip))) (off + length bs)"
  shows "file_addr t ip (i div 512) \<noteq> 0"
proof (cases "i < unat (i_size (inode_at s ip))")
  case True
  then have "i div 512 < MAXFILE" using w by (simp add: whole_def div_less_iff_less_mult)
  then show ?thesis using True p w unfolding write_post_def whole_def by blast
next
  case False
  then show ?thesis using i off p unfolding write_post_def by auto
qed

lemma writei_ok:
  assumes ok: "file_ok s ip" and t: "txn s blks" and h: "held s = {}" and w: "whole s ip" and ty: "i_type (inode_at s ip) \<noteq> T_DEV"
    and i: "unat (i_inum (inode_at s ip)) < unat (sb_ninodes (sb s))" and off: "unat off \<le> unat (i_size (inode_at s ip))" "unat off + length src \<le> MAXBYTES"
    and n: "cost s ip blks + nchunks (unat off) (length src) + 3 < LOGSIZE" "nchunks (unat off) (length src) \<le> avail s ip"
  shows "\<exists>t blks'. writei ip src off s = Ok (int (length src), t) \<and> txn t blks' \<and> held t = {} \<and> file_ok t ip \<and> whole t ip \<and> disk t = disk s \<and>
    i_type (inode_at t ip) = i_type (inode_at s ip) \<and> unat (i_size (inode_at t ip)) = max (unat (i_size (inode_at s ip))) (unat off + length src) \<and>
    (\<forall>j<MAXBYTES. file_byte t ip j = (if unat off \<le> j \<and> j < unat off + length src then src ! (j - unat off) else file_byte s ip j))"
proof -
  let ?n = "of_nat (length src) :: u32" and ?sz = "i_size (inode_at s ip)"
  note ip = file_okD(1) [OF ok]
  have un: "unat ?n = length src" using off(2) by (simp add: unsigned_of_nat take_bit_nat_eq_self)
  have uo: "unat (off + ?n) = unat off + length src" using off(2) un by (simp add: unat_add32)
  have sz: "unat ?sz \<le> MAXBYTES" using w by (simp add: whole_def)
  obtain s1 blks1 where l: "writei_loop ip off src ?n s = Ok s1" "write_post s ip (unat off) src (nchunks (unat off) (length src)) blks s1 blks1"
    using writei_loop_ok [OF ok t h, of src ?n off] un off(2) n by auto
  have P: "txn s1 blks1" "held s1 = {}" "fframe ip s s1" "file_ok s1 ip"
    "\<And>j. j < MAXBYTES \<Longrightarrow> file_byte s1 ip j = (if unat off \<le> j \<and> j < unat off + length src then src ! (j - unat off) else file_byte s ip j)"
    "cost s1 ip blks1 \<le> cost s ip blks + nchunks (unat off) (length src)"
    using l(2) by (simp_all add: write_post_def)
  note F = fframeD [OF P(3)] and full = whole_grow [OF l(2) w off]
  have ip1: "ip < length (icache s1)" using ip F by simp
  have sn: "sint ?n = int (length src)" using sint_small [of ?n] un off(2) by simp
  have g: "\<not> (off > ?sz \<or> off + ?n < off)" "\<not> off + ?n > of_nat ((NDIRECT + NINDIRECT) * BSIZE)"
    using off uo by (simp_all add: word_less_nat_alt)
  show ?thesis
  proof (cases "?n > 0 \<and> off + ?n > i_size (inode_at s1 ip)")
    case False
    then have "max (unat ?sz) (unat off + length src) = unat ?sz" using off(1) uo un F(7) by (auto simp: word_less_nat_alt)
    moreover from this have "whole s1 ip" using full sz F(7) by (simp add: whole_def)
    moreover have "writei ip src off s = Ok (int (length src), s1)"
      using False g ty l(1) sn unfolding writei_def Let_def by auto
    ultimately show ?thesis using P F by auto
  next
    case True
    let ?s2 = "upd_inode ip (\<lambda>x. x\<lparr>i_size := off + ?n\<rparr>) s1"
    note U = size_upd [OF ip1, of "off + ?n"]
    have x: "inode_at ?s2 ip = (inode_at s1 ip)\<lparr>i_size := off + ?n\<rparr>" using ip1 by simp
    have ok2: "file_ok ?s2 ip" "geom ?s2" using U(1) P(4) file_okD(2) [OF P(4)] by simp_all
    have t2: "txn ?s2 blks1" "held ?s2 = {}" using P(1,2) by simp_all
    have "length blks1 \<le> cost s1 ip blks1" by (simp add: cost_def)
    then have n2: "Suc (length blks1) < LOGSIZE" using P(6) n(1) by linarith
    have i2: "unat (i_inum (inode_at ?s2 ip)) < unat (sb_ninodes (sb ?s2))" unfolding x using i F by simp
    note D = iwfD(1,2) [OF file_okD(4) [OF ok2(1)]]
    obtain u where u: "iupdate ip ?s2 = Ok u" "txn u (adds (inode_blk ?s2 ip) blks1)" "lframe ?s2 u" "held u = {}"
      "bview u = (bview ?s2)(inode_blk ?s2 ip := dinode_put (inode_at ?s2 ip) (dinode_off (i_inum (inode_at ?s2 ip))) (bview ?s2 (inode_blk ?s2 ip)))"
      by (rule iupdate_ok [OF ok2(2) t2 n2 D i2]) (rule that)
    note M = meta_write [OF u(3,5) inode_blk_facts(1) [OF ok2(2) i2]]
    have xu: "inode_at u ip = (inode_at s1 ip)\<lparr>i_size := off + ?n\<rparr>" using lframe_fs(5) [OF u(3), of ip] x by simp
    have eqb: "file_byte u ip j = file_byte s1 ip j" if "j < MAXBYTES" for j
      using M(4) [OF ok2(1), of "j div 512"] that U(2) by (simp add: file_byte_def div_less_iff_less_mult)
    have big: "max (unat ?sz) (unat off + length src) = unat off + length src" using True uo F(7) by (simp add: word_less_nat_alt)
    have "whole u ip"
      using full big M(5) [OF ok2(1)] U(3) off(2) uo unfolding whole_def xu by simp
    moreover have "writei ip src off s = Ok (int (length src), u)"
      using True g ty l(1) u(1) sn unfolding writei_def Let_def by simp
    moreover have "disk u = disk s" using lframe_fields(1) [OF u(3)] F(10) by (simp add: upd_inode_def)
    ultimately show ?thesis using u(2,4) M(3) [OF ok2(1)] big uo F(6) P(5) eqb by (auto simp: xu)
  qed
qed

end
