(* ===== verification/Fs_Dir.thy ===== *)
theory Fs_Dir
  imports Fs_Write
begin

text \<open>
  Directories and path names.  A directory is a file of 16-byte entries; \<open>entry\<close> reads one from the
  bytes of the file.  \<^verbatim>\<open>dirlookup\<close> finds the first used entry with the name, \<^verbatim>\<open>dirlink\<close> writes an
  entry into the first free slot or at the end, and \<^verbatim>\<open>skipelem\<close> takes a path apart into its elements.
\<close>

section \<open>Names\<close>

definition cname :: "u8 list \<Rightarrow> u8 list" where
  "cname cs = takeWhile (\<lambda>c. c \<noteq> 0) (take 14 cs)"

lemma namecmp_from_zero:
  "namecmp_from i n s t = 0 \<longleftrightarrow> takeWhile (\<lambda>c. c \<noteq> 0) (take n (drop i s)) = takeWhile (\<lambda>c. c \<noteq> 0) (take n (drop i t))"
proof (induction n arbitrary: i)
  case (Suc n)
  have tw: "takeWhile (\<lambda>c. c \<noteq> 0) (take (Suc n) (drop i xs)) =
      (if char_at xs i = 0 then [] else char_at xs i # takeWhile (\<lambda>c. c \<noteq> 0) (take n (drop (Suc i) xs)))" for xs :: "u8 list"
    by (cases "i < length xs") (simp_all add: char_at_def Cons_nth_drop_Suc [symmetric])
  have u: "uint a - uint b = 0 \<longleftrightarrow> a = b" for a b :: u8 by (simp add: word_uint_eq_iff)
  show ?case unfolding tw using Suc u [of "char_at s i" "char_at t i"] by auto
qed simp

lemma namecmp_zero: "namecmp s t = 0 \<longleftrightarrow> cname s = cname t"
  using namecmp_from_zero [of 0 14 s t] by (simp add: namecmp_def cname_def)

lemma cname_pad: "cname (pad_name name) = cname name"
proof -
  let ?w = "takeWhile (\<lambda>c. c \<noteq> 0) name"
  have "takeWhile (\<lambda>c. c \<noteq> 0) (take 14 ?w @ zs) = take 14 ?w @ takeWhile (\<lambda>c. c \<noteq> 0) zs" for zs :: "u8 list"
    by (rule takeWhile_append2) (blast dest: in_set_takeD set_takeWhileD)
  moreover have "take 14 ?w = cname name"
  proof -
    have "take n (takeWhile P xs) = takeWhile P (take n xs)" for n and P :: "u8 \<Rightarrow> bool" and xs
      by (induction xs arbitrary: n) (auto simp: take_Cons split: nat.splits)
    then show ?thesis by (simp add: cname_def)
  qed
  ultimately have p: "pad_name name = cname name @ replicate (14 - length (cname name)) 0"
    and e: "takeWhile (\<lambda>c. c \<noteq> 0) (cname name @ zs) = cname name @ takeWhile (\<lambda>c. c \<noteq> 0) zs" for zs by (simp_all add: pad_name_def Let_def)
  have "length (cname name) \<le> 14" using length_takeWhile_le [of "\<lambda>c. c \<noteq> 0" "take 14 name"] by (simp add: cname_def)
  then have "take 14 (pad_name name) = pad_name name" by (simp add: p)
  then show ?thesis unfolding cname_def [of "pad_name name"] by (simp add: p e)
qed

section \<open>Path names\<close>

text \<open>The elements a path is walked along, and the pieces between its slashes.\<close>

function path_elems :: "u8 list \<Rightarrow> u8 list list" where
  "path_elems path = (case skipelem path of None \<Rightarrow> [] | Some (rest, name) \<Rightarrow> name # path_elems rest)"
  by pat_completeness auto
termination by (relation "measure length") (auto dest: skipelem_shorter)

declare path_elems.simps [simp del]

fun pieces :: "u8 list \<Rightarrow> u8 list \<Rightarrow> u8 list list" where
  "pieces p [] = [p]"
| "pieces p (c # cs) = (if c = 0x2f then p # pieces [] cs else pieces (p @ [c]) cs)"

definition elements :: "u8 list \<Rightarrow> u8 list list" where
  "elements path = map (take 14) (filter (\<lambda>p. p \<noteq> []) (pieces [] path))"

lemma filter_pieces_slashes:
  "filter (\<lambda>p. p \<noteq> []) (pieces [] (dropWhile (\<lambda>c. c = 0x2f) cs)) = filter (\<lambda>p. p \<noteq> []) (pieces [] cs)"
  by (induction cs) auto

lemma pieces_elem:
  "pieces p cs = (if dropWhile (\<lambda>c. c \<noteq> 0x2f) cs = [] then [p @ cs]
     else (p @ takeWhile (\<lambda>c. c \<noteq> 0x2f) cs) # pieces [] (tl (dropWhile (\<lambda>c. c \<noteq> 0x2f) cs)))"
  by (induction p cs rule: pieces.induct) auto

lemma path_elems_eq: "path_elems path = elements path"
proof (induction path rule: path_elems.induct)
  case (1 path)
  define p where "p = dropWhile (\<lambda>c. c = 0x2f) path"
  have ep: "elements path = elements p" using filter_pieces_slashes [of path] by (simp add: elements_def p_def)
  show ?case
  proof (cases "p = []")
    case True
    have "skipelem path = None" using True by (simp add: skipelem_def Let_def p_def)
    moreover have "elements p = []" unfolding True by (simp add: elements_def)
    ultimately show ?thesis using ep by (subst path_elems.simps) simp
  next
    case False
    let ?e = "takeWhile (\<lambda>c. c \<noteq> 0x2f) p" and ?d = "dropWhile (\<lambda>c. c \<noteq> 0x2f) p" and ?r = "dropWhile (\<lambda>c. c = 0x2f) (dropWhile (\<lambda>c. c \<noteq> 0x2f) p)"
    have sk: "skipelem path = Some (?r, take 14 ?e)" using False by (simp add: skipelem_def Let_def p_def)
    have ne: "?e \<noteq> []" using False hd_dropWhile [of "\<lambda>c. c = 0x2f" path] by (cases p) (auto simp: p_def)
    have "elements p = take 14 ?e # elements ?d"
    proof (cases "?d = []")
      case True
      then have "?e = p" by (simp add: dropWhile_eq_Nil_conv takeWhile_eq_all_conv)
      moreover have "elements p = [take 14 p]" using pieces_elem [of "[]" p] True False by (simp add: elements_def)
      moreover have "elements ?d = []" unfolding True by (simp add: elements_def)
      ultimately show ?thesis by (simp only:)
    next
      case False
      then obtain c cs where d: "?d = c # cs" by (cases ?d) auto
      then have "c = 0x2f" using hd_dropWhile [of "\<lambda>c. c \<noteq> 0x2f" p] by simp
      then show ?thesis using d ne pieces_elem [of "[]" p] by (simp add: elements_def)
    qed
    also have "elements ?d = elements ?r" using filter_pieces_slashes [of ?d] by (simp add: elements_def)
    also have "elements ?r = path_elems ?r" using 1 [OF sk refl] by simp
    finally show ?thesis using ep sk by (subst path_elems.simps) simp
  qed
qed

section \<open>Directories\<close>

definition entry :: "'a fstate_scheme \<Rightarrow> nat \<Rightarrow> nat \<Rightarrow> u8 list" where
  "entry s dp k = map (file_byte s dp) [16 * k..<16 * k + 16]"

definition matches :: "'a fstate_scheme \<Rightarrow> nat \<Rightarrow> u8 list \<Rightarrow> nat \<Rightarrow> bool" where
  "matches s dp name k \<longleftrightarrow> de_inum (entry s dp k) \<noteq> 0 \<and> cname (de_name (entry s dp k)) = cname name"

text \<open>A directory in order: its size is a whole number of entries.\<close>

definition dir_ok :: "'a fstate_scheme \<Rightarrow> nat \<Rightarrow> bool" where
  "dir_ok s dp \<longleftrightarrow> file_ok s dp \<and> whole s dp \<and> i_type (inode_at s dp) = T_DIR \<and> unat (i_size (inode_at s dp)) mod 16 = 0"

definition entries :: "'a fstate_scheme \<Rightarrow> nat \<Rightarrow> nat" where
  "entries s dp = unat (i_size (inode_at s dp)) div 16"

lemma dir_entries_eq: "dir_ok s dp \<Longrightarrow> dir_entries (i_size (inode_at s dp)) = entries s dp"
proof -
  assume "dir_ok s dp"
  then obtain q where "unat (i_size (inode_at s dp)) = 16 * q" by (auto simp: dir_ok_def)
  then show ?thesis by (simp add: dir_entries_def entries_def)
qed

lemma same_view_dir:
  assumes "lframe s t" "bview t = bview s"
  shows "dir_ok t dp = dir_ok s dp" "entry t dp k = entry s dp k" "matches t dp name k = matches s dp name k" "entries t dp = entries s dp"
  using same_view [OF assms] same_view_byte [OF assms] lframe_fs [OF assms(1)]
  by (simp_all add: dir_ok_def whole_def entry_def matches_def entries_def)

lemma unat_of_nat_small: "n < 4294967296 \<Longrightarrow> unat (of_nat n :: u32) = n"
  by (simp add: unsigned_of_nat take_bit_nat_eq_self)

lemma read_entry:
  assumes d: "dir_ok s dp" and t: "log_inv s blks" and h: "held s = {}" and k: "k < entries s dp"
  obtains t where "readi dp (of_nat (16 * k)) 16 s = Ok (16, entry s dp k, t)" "log_inv t blks" "lframe s t" "bview t = bview s" "held t = {}"
proof -
  have D: "file_ok s dp" "whole s dp" "i_type (inode_at s dp) \<noteq> T_DEV" using d by (auto simp: dir_ok_def)
  have k16: "16 * k + 16 \<le> unat (i_size (inode_at s dp))" using k d by (auto simp: entries_def dir_ok_def less_eq_Suc_le)
  have sz: "unat (i_size (inode_at s dp)) \<le> MAXBYTES" using D(2) by (simp add: whole_def)
  define off :: u32 where "off = of_nat (16 * k)"
  have u: "unat off = 16 * k" unfolding off_def using k16 sz by (intro unat_of_nat_small) linarith
  have e: "min (unat off + unat (16 :: u32)) (unat (i_size (inode_at s dp))) = 16 * k + 16" using k16 u by simp
  have lt: "unat off \<le> unat (i_size (inode_at s dp))" "unat off + unat (16 :: u32) < 4294967296" using k16 u sz by simp_all
  obtain t where "readi dp off 16 s = Ok (16, entry s dp k, t)" "log_inv t blks" "lframe s t" "bview t = bview s" "held t = {}"
    using readi_ok [OF D(1) t h D(2,3) lt] unfolding e unfolding u by (auto simp: entry_def)
  then show thesis unfolding off_def by (rule that)
qed

text \<open>The search from entry \<open>k\<close> on.\<close>

lemma dirlookup_from_ok:
  assumes "dir_ok s dp" "log_inv s blks" "held s = {}" "k + n = entries s dp"
  shows "\<exists>t. log_inv t blks \<and> lframe s t \<and> bview t = bview s \<and> held t = {} \<and>
    dirlookup_from dp name (of_nat (16 * k)) n s =
      (case find (matches s dp name) [k..<k + n] of
         None \<Rightarrow> Ok (None, t)
       | Some j \<Rightarrow> bindr (iget 1 (ucast (de_inum (entry s dp j))) t) (\<lambda>(ip, u). Ok (Some (ip, of_nat (16 * j)), u)))"
  using assms
proof (induction n arbitrary: k s)
  case 0
  then show ?case by (intro exI [of _ s]) simp
next
  case (Suc n)
  have "k < entries s dp" using Suc.prems(4) by simp
  then obtain s1 where r: "readi dp (of_nat (16 * k)) 16 s = Ok (16, entry s dp k, s1)" "log_inv s1 blks" "lframe s s1" "bview s1 = bview s" "held s1 = {}"
    by (rule read_entry [OF Suc.prems(1-3)])
  note S = same_view_dir [OF r(3,4)]
  have dev: "i_dev (inode_at s1 dp) = 1"
    using Suc.prems(1) lframe_fs(5) [OF r(3), of dp] by (simp add: dir_ok_def iwfD(1) [OF file_okD(4)])
  have fs: "matches s1 dp = matches s dp" "entry s1 dp = entry s dp" by (intro ext, rule S)+
  have nx: "(of_nat (16 * k) :: u32) + 16 = of_nat (16 * Suc k)" by simp
  have up: "[k..<k + Suc n] = k # [Suc k..<Suc k + n]" by (simp add: upt_rec)
  show ?case
  proof (cases "matches s dp name k")
    case True
    then have "dirlookup_from dp name (of_nat (16 * k)) (Suc n) s =
        bindr (iget 1 (ucast (de_inum (entry s dp k))) s1) (\<lambda>(ip, u). Ok (Some (ip, of_nat (16 * k)), u))"
      using r(1) dev by (simp add: matches_def namecmp_zero)
    then show ?thesis using True r up by (intro exI [of _ s1]) simp
  next
    case False
    then have "dirlookup_from dp name (of_nat (16 * k)) (Suc n) s = dirlookup_from dp name (of_nat (16 * Suc k)) n s1"
      using r(1) nx by (auto simp: matches_def namecmp_zero add.commute)
    moreover obtain t where "log_inv t blks" "lframe s1 t" "bview t = bview s1" "held t = {}"
      "dirlookup_from dp name (of_nat (16 * Suc k)) n s1 =
      (case find (matches s dp name) [Suc k..<Suc k + n] of
         None \<Rightarrow> Ok (None, t)
       | Some j \<Rightarrow> bindr (iget 1 (ucast (de_inum (entry s dp j))) t) (\<lambda>(ip, u). Ok (Some (ip, of_nat (16 * j)), u)))"
      using Suc.IH [of s1 "Suc k"] Suc.prems r S unfolding fs by auto
    moreover have "find (matches s dp name) [k..<k + Suc n] = find (matches s dp name) [Suc k..<Suc k + n]" unfolding up using False by simp
    ultimately show ?thesis using r(4) lframe_trans [OF r(3)] by (intro exI [of _ t]) (simp only: simp_thms)
  qed
qed

lemma dirlookup_ok:
  assumes "dir_ok s dp" "log_inv s blks" "held s = {}"
  shows "\<exists>t. log_inv t blks \<and> lframe s t \<and> bview t = bview s \<and> held t = {} \<and>
    dirlookup dp name s =
      (case find (matches s dp name) [0..<entries s dp] of
         None \<Rightarrow> Ok (None, t)
       | Some j \<Rightarrow> bindr (iget 1 (ucast (de_inum (entry s dp j))) t) (\<lambda>(ip, u). Ok (Some (ip, of_nat (16 * j)), u)))"
  using dirlookup_from_ok [OF assms, of 0 "entries s dp" name] assms(1) dir_entries_eq [OF assms(1)]
  by (simp add: dirlookup_def dir_ok_def)

lemma dirlink_slot_ok:
  assumes "dir_ok s dp" "log_inv s blks" "held s = {}" "k + n = entries s dp"
  shows "\<exists>t. log_inv t blks \<and> lframe s t \<and> bview t = bview s \<and> held t = {} \<and>
    dirlink_slot dp (of_nat (16 * k)) n s =
      Ok (of_nat (16 * (case find (\<lambda>j. de_inum (entry s dp j) = 0) [k..<k + n] of None \<Rightarrow> k + n | Some j \<Rightarrow> j)), t)"
  using assms
proof (induction n arbitrary: k s)
  case 0
  then show ?case by (intro exI [of _ s]) simp
next
  case (Suc n)
  have "k < entries s dp" using Suc.prems(4) by simp
  then obtain s1 where r: "readi dp (of_nat (16 * k)) 16 s = Ok (16, entry s dp k, s1)" "log_inv s1 blks" "lframe s s1" "bview s1 = bview s" "held s1 = {}"
    by (rule read_entry [OF Suc.prems(1-3)])
  note S = same_view_dir [OF r(3,4)]
  have fs: "entry s1 dp = entry s dp" by (intro ext, rule S)
  have up: "[k..<k + Suc n] = k # [Suc k..<Suc k + n]" by (simp add: upt_rec)
  show ?case
  proof (cases "de_inum (entry s dp k) = 0")
    case True
    then show ?thesis using r up by (intro exI [of _ s1]) simp
  next
    case False
    then have "dirlink_slot dp (of_nat (16 * k)) (Suc n) s = dirlink_slot dp (of_nat (16 * Suc k)) n s1"
      using r(1) by (auto simp: add.commute)
    moreover obtain t where "log_inv t blks" "lframe s1 t" "bview t = bview s1" "held t = {}"
      "dirlink_slot dp (of_nat (16 * Suc k)) n s1 =
      Ok (of_nat (16 * (case find (\<lambda>j. de_inum (entry s dp j) = 0) [Suc k..<Suc k + n] of None \<Rightarrow> Suc k + n | Some j \<Rightarrow> j)), t)"
      using Suc.IH [of s1 "Suc k"] Suc.prems r S unfolding fs by auto
    moreover have "find (\<lambda>j. de_inum (entry s dp j) = 0) [k..<k + Suc n] = find (\<lambda>j. de_inum (entry s dp j) = 0) [Suc k..<Suc k + n]"
      unfolding up using False by simp
    ultimately show ?thesis using r(4) lframe_trans [OF r(3)] by (intro exI [of _ t]) (simp only: add_Suc add_Suc_right simp_thms)
  qed
qed

text \<open>The slot \<open>dirlink\<close> writes to: the first free one, or the end of the directory.\<close>

definition slot :: "'a fstate_scheme \<Rightarrow> nat \<Rightarrow> nat" where
  "slot s dp = (case find (\<lambda>j. de_inum (entry s dp j) = 0) [0..<entries s dp] of None \<Rightarrow> entries s dp | Some j \<Rightarrow> j)"

lemma slot_le: "slot s dp \<le> entries s dp"
  unfolding slot_def by (auto simp: find_Some_iff split: option.splits)

lemma mk_dirent_fields:
  "length (mk_dirent i name) = 16" "de_inum (mk_dirent i name) = i" "cname (de_name (mk_dirent i name)) = cname name"
proof -
  have l: "length (pad_name name) = 14" by (simp add: pad_name_def Let_def)
  then show "length (mk_dirent i name) = 16" by (simp add: mk_dirent_def)
  show "de_inum (mk_dirent i name) = i"
    using rd_wr_same(1) [of 0 "mk_dirent i name" i] by (simp add: de_inum_def mk_dirent_def wr16_def splice_def)
  show "cname (de_name (mk_dirent i name)) = cname name" using l cname_pad by (simp add: de_name_def mk_dirent_def slice_def)
qed

lemma nchunks_entry: "nchunks (16 * j) 16 = 1"
proof -
  have "16 * j mod 512 = 16 * (j mod 32)" using mult_mod_right [of 16 j 32] by simp
  then have "16 * j mod 512 \<le> 496" using mod_less_divisor [of 32 j] by linarith
  then have "(16 * j + 15) div 512 = 16 * j div 512" by (intro block_of(1) [of 16]) simp_all
  then show ?thesis by (simp add: nchunks_def)
qed

lemma entry_written:
  assumes b: "\<And>i. i < MAXBYTES \<Longrightarrow> file_byte t dp i = (if 16 * j \<le> i \<and> i < 16 * j + 16 then de ! (i - 16 * j) else file_byte s dp i)"
    and k: "16 * k + 16 \<le> MAXBYTES" and l: "length de = 16"
  shows "entry t dp k = (if k = j then de else entry s dp k)"
proof (cases "k = j")
  case True
  show ?thesis by (rule nth_equalityI) (use True b k l in \<open>simp_all add: entry_def\<close>)
next
  case False
  then have "file_byte t dp i = file_byte s dp i" if "16 * k \<le> i" "i < 16 * k + 16" for i
    using b [of i] that k by auto
  then show ?thesis using False by (simp add: entry_def)
qed

lemma dirlink_ok:
  assumes d: "dir_ok s dp" and t: "txn s blks" and h: "held s = {}" and new: "\<And>k. k < entries s dp \<Longrightarrow> \<not> matches s dp name k"
    and i: "unat (i_inum (inode_at s dp)) < unat (sb_ninodes (sb s))" and room: "16 * entries s dp + 16 \<le> MAXBYTES"
    and n: "cost s dp blks + 4 < LOGSIZE" and av: "1 \<le> avail s dp"
  shows "\<exists>t blks'. dirlink dp name inum s = Ok (0, t) \<and> txn t blks' \<and> held t = {} \<and> dir_ok t dp \<and>
    entries t dp = max (entries s dp) (Suc (slot s dp)) \<and>
    (\<forall>k<entries t dp. entry t dp k = (if k = slot s dp then mk_dirent (ucast inum) name else entry s dp k))"
proof -
  let ?j = "slot s dp" and ?de = "mk_dirent (ucast inum) name"
  have D: "file_ok s dp" "whole s dp" "i_type (inode_at s dp) = T_DIR" "unat (i_size (inode_at s dp)) = 16 * entries s dp"
    using d by (auto simp: dir_ok_def entries_def)
  have "find (matches s dp name) [0..<entries s dp] = None" using new by (auto simp: find_None_iff)
  then obtain s1 where l: "dirlookup dp name s = Ok (None, s1)" "log_inv s1 blks" "lframe s s1" "bview s1 = bview s" "held s1 = {}"
    using dirlookup_ok [OF d txnD(1) [OF t] h, of name] by auto
  note S1 = same_view_dir [OF l(3,4)]
  have d1: "dir_ok s1 dp" "0 + entries s dp = entries s1 dp" using S1 d by simp_all
  have e1: "entry s1 dp = entry s dp" by (intro ext, rule S1)
  have z: "(of_nat (16 * 0) :: u32) = 0" by simp
  obtain s2 where m: "dirlink_slot dp 0 (entries s dp) s1 = Ok (of_nat (16 * ?j), s2)" "log_inv s2 blks" "lframe s1 s2" "bview s2 = bview s1" "held s2 = {}"
    using dirlink_slot_ok [OF d1(1) l(2,5) d1(2)] unfolding e1 add_0 z slot_def [symmetric]
    by (elim exE conjE) (rule that)
  have f: "lframe s s2" "bview s2 = bview s" using lframe_trans [OF l(3) m(3)] m(4) l(4) by simp_all
  note S = same_view_dir [OF f] and V = same_view [OF f] and F = lframe_fs [OF f(1)]
  have uj: "unat (of_nat (16 * ?j) :: u32) = 16 * ?j" using slot_le [of s dp] room by (intro unat_of_nat_small) linarith
  have w2: "whole s2 dp" using D(2) by (simp add: whole_def F V)
  have pre: "file_ok s2 dp" "txn s2 blks" "held s2 = {}" "i_type (inode_at s2 dp) \<noteq> T_DEV" "unat (i_inum (inode_at s2 dp)) < unat (sb_ninodes (sb s2))"
    "unat (of_nat (16 * ?j) :: u32) \<le> unat (i_size (inode_at s2 dp))" "unat (of_nat (16 * ?j) :: u32) + length ?de \<le> MAXBYTES"
    "cost s2 dp blks + nchunks (unat (of_nat (16 * ?j) :: u32)) (length ?de) + 3 < LOGSIZE"
    "nchunks (unat (of_nat (16 * ?j) :: u32)) (length ?de) \<le> avail s2 dp"
    unfolding uj mk_dirent_fields(1) nchunks_entry
    using D V F m(5) i n av slot_le [of s dp] room txn_frame [OF t f(1) m(2)] by simp_all
  obtain u blks' where u: "writei dp ?de (of_nat (16 * ?j)) s2 = Ok (16, u)" "txn u blks'" "held u = {}" "file_ok u dp" "whole u dp"
    "i_type (inode_at u dp) = T_DIR" "unat (i_size (inode_at u dp)) = max (16 * entries s dp) (16 * ?j + 16)"
    "\<And>i. i < MAXBYTES \<Longrightarrow> file_byte u dp i = (if 16 * ?j \<le> i \<and> i < 16 * ?j + 16 then ?de ! (i - 16 * ?j) else file_byte s dp i)"
    using writei_ok [OF pre(1-3) w2 pre(4-9)] unfolding uj mk_dirent_fields(1) same_view_byte [OF f] using D(3,4) F by auto
  have sz: "unat (i_size (inode_at u dp)) = 16 * max (entries s dp) (Suc ?j)" using u(7) by (simp add: max_def)
  then have en: "entries u dp = max (entries s dp) (Suc ?j)" "dir_ok u dp" using u by (simp_all add: entries_def dir_ok_def)
  have "dirlink dp name inum s = Ok (0, u)"
    using l(1) m(1) u(1) dir_entries_eq [OF d1(1)] d1(2) by (simp add: dirlink_def)
  moreover have "entry u dp k = (if k = ?j then ?de else entry s dp k)" if "k < entries u dp" for k
    by (rule entry_written [OF u(8) _ mk_dirent_fields(1)]) (use that en slot_le [of s dp] room in auto)
  ultimately show ?thesis using u(2,3) en by blast
qed

lemma linked_found:
  assumes e: "\<And>k. k < entries t dp \<Longrightarrow> entry t dp k = (if k = j then mk_dirent i name else entry s dp k)" and i: "i \<noteq> 0"
    and j: "j < entries t dp" and new: "\<And>k. k < entries t dp \<Longrightarrow> k \<noteq> j \<Longrightarrow> \<not> matches s dp name k"
  shows "find (matches t dp name) [0..<entries t dp] = Some j"
proof (rule find_upt_unique [OF j])
  show "matches t dp name j" using e [OF j] i by (simp add: matches_def mk_dirent_fields)
  show "k = j" if "k < entries t dp" "matches t dp name k" for k
    using that e [OF that(1)] new [OF that(1)] by (auto simp: matches_def split: if_splits)
qed

end
