(* ===== verification/Mkfs.thy ===== *)
theory Mkfs
  imports Fs_Write
begin

text \<open>
  The program \<^verbatim>\<open>mkfs.c\<close> that builds the image of the file system on the host.  The image is a function from
  sector numbers to sectors; a sector beyond the 1000 that are first written cannot be read, and the program
  then exits.  \<^verbatim>\<open>xshort\<close> and \<^verbatim>\<open>xint\<close> store numbers with the least significant byte first, which is how \<open>bytes16\<close>
  and \<open>bytes32\<close> store them.  A failed assertion or a call of \<^verbatim>\<open>exit(1)\<close> is the result \<open>Panic\<close>.
\<close>

section \<open>The code\<close>

record mkst =
  img :: "u32 \<Rightarrow> u8 list"
  freeinode :: u32
  freeblock :: u32

abbreviation (input) nbitmap :: u32 where "nbitmap \<equiv> 1000 div (512 * 8) + 1"
abbreviation (input) ninodeblocks :: u32 where "ninodeblocks \<equiv> 200 div 8 + 1"
abbreviation (input) nlog :: u32 where "nlog \<equiv> 30"
abbreviation (input) nmeta :: u32 where "nmeta \<equiv> 2 + nlog + ninodeblocks + nbitmap"

definition mk_sb :: superblock where
  "mk_sb = \<lparr>sb_size = 1000, sb_nblocks = 1000 - nmeta, sb_ninodes = 200, sb_nlog = nlog, sb_logstart = 2,
     sb_inodestart = 2 + nlog, sb_bmapstart = 2 + nlog + ninodeblocks\<rparr>"

definition mk_sb_bytes :: "u8 list" where
  "mk_sb_bytes = concat (map bytes32 [sb_size mk_sb, sb_nblocks mk_sb, sb_ninodes mk_sb, sb_nlog mk_sb,
     sb_logstart mk_sb, sb_inodestart mk_sb, sb_bmapstart mk_sb])"

definition rsect :: "u32 \<Rightarrow> mkst \<Rightarrow> u8 list result" where
  "rsect sec s = (if sec < 1000 then Ok (img s sec) else Panic ''read'')"

definition wsect :: "u32 \<Rightarrow> u8 list \<Rightarrow> mkst \<Rightarrow> mkst" where
  "wsect sec buf s = s\<lparr>img := (img s)(sec := buf)\<rparr>"

definition no_dinode :: inode where
  "no_dinode = \<lparr>i_dev = 0, i_inum = 0, i_ref = 0, i_lock = \<lparr>sl_locked = False, sl_name = [], sl_pid = 0\<rparr>, i_valid = False,
     i_type = 0, i_major = 0, i_minor = 0, i_nlink = 0, i_size = 0, i_addrs = replicate (NDIRECT + 1) 0\<rparr>"

definition winode :: "u32 \<Rightarrow> inode \<Rightarrow> mkst \<Rightarrow> mkst result" where
  "winode inum ip s =
     (let bn = IBLOCK inum mk_sb in
      bindr (rsect bn s) (\<lambda>buf. Ok (wsect bn (dinode_put ip (dinode_off inum) buf) s)))"

definition rinode :: "u32 \<Rightarrow> mkst \<Rightarrow> inode result" where
  "rinode inum s = bindr (rsect (IBLOCK inum mk_sb) s) (\<lambda>buf. Ok (dinode_get buf (dinode_off inum) no_dinode))"

definition mk_ialloc :: "u16 \<Rightarrow> mkst \<Rightarrow> (u32 \<times> mkst) result" where
  "mk_ialloc ty s =
     (let inum = freeinode s; s1 = s\<lparr>freeinode := inum + 1\<rparr> in
      bindr (winode inum (no_dinode\<lparr>i_type := ty, i_nlink := 1, i_size := 0\<rparr>) s1) (\<lambda>s2. Ok (inum, s2)))"

primrec mk_bits :: "nat \<Rightarrow> u8 list \<Rightarrow> u8 list" where
  "mk_bits 0 buf = buf"
| "mk_bits (Suc i) buf = (let b = mk_bits i buf in b[i div 8 := b ! (i div 8) OR push_bit (i mod 8) 1])"

definition mk_balloc :: "u32 \<Rightarrow> mkst \<Rightarrow> mkst result" where
  "mk_balloc n s =
     (if \<not> unat n < BSIZE * 8 then Panic ''assert''
      else Ok (wsect (sb_bmapstart mk_sb) (mk_bits (unat n) (replicate BSIZE 0)) s))"

text \<open>The block of the file that holds byte \<open>off\<close>, allocated when it is not there yet.\<close>

definition iappend_block :: "nat \<Rightarrow> inode \<Rightarrow> mkst \<Rightarrow> (u32 \<times> inode \<times> mkst) result" where
  "iappend_block fbn din s =
     (if \<not> fbn < NDIRECT + NINDIRECT then Panic ''assert''
      else if fbn < NDIRECT then
        (let (din1, s1) =
           (if i_addrs din ! fbn = 0
            then (din\<lparr>i_addrs := (i_addrs din)[fbn := freeblock s]\<rparr>, s\<lparr>freeblock := freeblock s + 1\<rparr>) else (din, s))
         in Ok (i_addrs din1 ! fbn, din1, s1))
      else
        let (din1, s1) =
          (if i_addrs din ! NDIRECT = 0
           then (din\<lparr>i_addrs := (i_addrs din)[NDIRECT := freeblock s]\<rparr>, s\<lparr>freeblock := freeblock s + 1\<rparr>) else (din, s));
          ind = i_addrs din1 ! NDIRECT; k = fbn - NDIRECT in
        bindr (rsect ind s1) (\<lambda>indirect.
        let (indirect1, s2) =
          (if rd32 indirect (4 * k) = 0
           then (let b = wr32 (4 * k) (freeblock s1) indirect in (b, wsect ind b (s1\<lparr>freeblock := freeblock s1 + 1\<rparr>)))
           else (indirect, s1))
        in Ok (rd32 indirect1 (4 * k), din1, s2)))"

text \<open>The loop of \<^verbatim>\<open>iappend\<close>; \<open>off\<close> stays below the largest size of a file.\<close>

function iappend_loop :: "nat \<Rightarrow> u8 list \<Rightarrow> inode \<Rightarrow> mkst \<Rightarrow> (nat \<times> inode \<times> mkst) result" where
  "iappend_loop off p din s =
     (if p = [] then Ok (off, din, s)
      else
        let fbn = off div BSIZE in
        bindr (iappend_block fbn din s) (\<lambda>(x, din1, s1).
        let n1 = min (length p) ((fbn + 1) * BSIZE - off) in
        bindr (rsect x s1) (\<lambda>buf.
        iappend_loop (off + n1) (drop n1 p) din1 (wsect x (splice (off - fbn * BSIZE) (take n1 p) buf) s1))))"
  by pat_completeness auto
termination
proof (relation "measure (\<lambda>(off, p, din, s). length p)", goal_cases)
  case (2 off p din s fbn x xa y xb ya n1 buf)
  have "off < (off div 512 + 1) * 512" by (simp add: dividend_less_div_times)
  then have "0 < min (length p) ((off div 512 + 1) * 512 - off)" using 2(1) by auto
  then show ?case using 2 by simp
qed simp

declare iappend_loop.simps [simp del]

definition iappend :: "u32 \<Rightarrow> u8 list \<Rightarrow> mkst \<Rightarrow> mkst result" where
  "iappend inum xp s =
     bindr (rinode inum s) (\<lambda>din.
     bindr (iappend_loop (unat (i_size din)) xp din s) (\<lambda>(off, din1, s1).
     winode inum (din1\<lparr>i_size := of_nat off\<rparr>) s1))"

text \<open>The contents of a file are read in pieces of a block.\<close>

function append_file :: "u32 \<Rightarrow> u8 list \<Rightarrow> mkst \<Rightarrow> mkst result" where
  "append_file inum bs s =
     (if bs = [] then Ok s else bindr (iappend inum (take BSIZE bs) s) (append_file inum (drop BSIZE bs)))"
  by pat_completeness auto
termination by (relation "measure (\<lambda>(inum, bs, s). length bs)") auto

declare append_file.simps [simp del]

definition mkfs_name :: "u8 list \<Rightarrow> u8 list" where
  "mkfs_name name = (if name \<noteq> [] \<and> hd name = 0x5f then tl name else name)"

primrec mkfs_files :: "u32 \<Rightarrow> (u8 list \<times> u8 list) list \<Rightarrow> mkst \<Rightarrow> mkst result" where
  "mkfs_files rootino [] s = Ok s"
| "mkfs_files rootino (f # fs) s =
     (if 0x2f \<in> set (fst f) then Panic ''assert''
      else
        bindr (mk_ialloc T_FILE s) (\<lambda>(inum, s1).
        bindr (iappend rootino (mk_dirent (ucast inum) (mkfs_name (fst f))) s1) (\<lambda>s2.
        bindr (append_file inum (snd f) s2) (mkfs_files rootino fs))))"

definition mkfs_fix_root :: "u32 \<Rightarrow> mkst \<Rightarrow> mkst result" where
  "mkfs_fix_root rootino s =
     bindr (rinode rootino s) (\<lambda>din. winode rootino (din\<lparr>i_size := (i_size din div 512 + 1) * 512\<rparr>) s)"

definition mkfs :: "(u8 list \<times> u8 list) list \<Rightarrow> mkst result" where
  "mkfs fs =
     (let s0 = wsect 1 (splice 0 mk_sb_bytes (replicate BSIZE 0)) \<lparr>img = \<lambda>_. replicate BSIZE 0, freeinode = 1, freeblock = nmeta\<rparr> in
      bindr (mk_ialloc T_DIR s0) (\<lambda>(rootino, s1).
      if rootino \<noteq> ROOTINO then Panic ''assert''
      else
        bindr (iappend rootino (mk_dirent (ucast rootino) [0x2e]) s1) (\<lambda>s2.
        bindr (iappend rootino (mk_dirent (ucast rootino) [0x2e, 0x2e]) s2) (\<lambda>s3.
        bindr (mkfs_files rootino fs s3) (\<lambda>s4.
        bindr (mkfs_fix_root rootino s4) (\<lambda>s5.
        mk_balloc (freeblock s5) s5))))))"

section \<open>The bitmap\<close>

lemma mk_bits_mark: "mk_bits (Suc i) buf = mark_used i (mk_bits i buf)"
  by (simp add: mark_used_def Let_def)

lemma length_mk_bits [simp]: "length (mk_bits n buf) = length buf"
  by (induction n) (simp_all add: Let_def)

lemma mk_bits_free:
  assumes "length buf = 512" "n < 4096"
  shows "bitmap_free (mk_bits n buf) j \<longleftrightarrow> n \<le> j \<and> bitmap_free buf j"
  using assms(2)
proof (induction n)
  case (Suc n)
  have "n div 8 < length (mk_bits n buf)" using Suc.prems assms(1) by (simp add: div_less_iff_less_mult)
  then show ?case using Suc by (auto simp: mk_bits_mark bitmap_mark(1) simp del: mk_bits.simps)
qed simp

section \<open>The free block\<close>

text \<open>Blocks are handed out above the meta data and within the image, and sectors keep their length.\<close>

definition mk_ok :: "mkst \<Rightarrow> bool" where
  "mk_ok s \<longleftrightarrow> 59 \<le> unat (freeblock s) \<and> unat (freeblock s) \<le> 1000 \<and> (\<forall>b. length (img s b) = BSIZE)"

lemma mk_sb_fields [simp]:
  "sb_size mk_sb = 1000" "sb_inodestart mk_sb = 32" "sb_bmapstart mk_sb = 58" "sb_ninodes mk_sb = 200" "sb_logstart mk_sb = 2"
  by (simp_all add: mk_sb_def)

lemma unat_inc: "unat x \<le> 1000 \<Longrightarrow> unat (x + 1 :: u32) = Suc (unat x)"
  by (simp add: unat_add32)

lemma rsect_Ok: "rsect b s = Ok d \<longleftrightarrow> unat b < 1000 \<and> d = img s b"
  by (auto simp: rsect_def word_less_nat_alt)

lemma winode_ok:
  assumes "mk_ok s" "winode inum ip s = Ok t" "length (i_addrs ip) = NDIRECT + 1"
  shows "mk_ok t"
proof -
  have "dinode_off inum + 64 \<le> 512"
  proof -
    have "unat inum mod 8 < 8" by simp
    then show ?thesis by (simp add: dinode_off_def unat_mod_distrib)
  qed
  then show ?thesis using assms by (auto simp: winode_def Let_def bindr_Ok_iff rsect_Ok wsect_def mk_ok_def length_dinode_put)
qed

lemma rinode_addrs: "rinode inum s = Ok din \<Longrightarrow> length (i_addrs din) = NDIRECT + 1"
  by (auto simp: rinode_def bindr_Ok_iff dinode_get_def)

lemma iappend_block_ok:
  assumes "mk_ok s" "iappend_block fbn din s = Ok (x, din1, s1)" "length (i_addrs din) = NDIRECT + 1" "unat x < 1000"
  shows "mk_ok s1" "length (i_addrs din1) = NDIRECT + 1"
proof -
  have fb: "59 \<le> unat (freeblock s)" "unat (freeblock s) \<le> 1000" "\<And>b. length (img s b) = 512" using assms(1) by (auto simp: mk_ok_def)
  have "mk_ok s1 \<and> length (i_addrs din1) = NDIRECT + 1"
  proof (cases "fbn < 12")
    case True
    then show ?thesis using assms fb by (auto simp: iappend_block_def Let_def mk_ok_def unat_inc split: if_splits)
  next
    case False
    define r where "r = (if i_addrs din ! 12 = 0 then (din\<lparr>i_addrs := (i_addrs din)[12 := freeblock s]\<rparr>, s\<lparr>freeblock := freeblock s + 1\<rparr>) else (din, s))"
    obtain d2 s2 where r2: "r = (d2, s2)" by (cases r)
    let ?i = "i_addrs d2 ! 12" and ?k = "4 * (fbn - 12)"
    have k: "fbn < 140" using assms(2) by (auto simp: iappend_block_def split: if_splits)
    have b: "bindr (rsect ?i s2) (\<lambda>indirect. let (indirect1, s3) =
          (if rd32 indirect ?k = 0 then (let b = wr32 ?k (freeblock s2) indirect in (b, wsect ?i b (s2\<lparr>freeblock := freeblock s2 + 1\<rparr>))) else (indirect, s2))
        in Ok (rd32 indirect1 ?k, d2, s3)) = Ok (x, din1, s1)"
      using assms(2) False k r2 by (simp add: iappend_block_def Let_def r_def split: if_splits)
    have i: "unat ?i < 1000" using b by (auto simp: bindr_Ok_iff rsect_Ok)
    have s2: "59 \<le> unat (freeblock s2)" "unat (freeblock s2) \<le> 1000" "\<And>b. length (img s2 b) = 512" "length (i_addrs d2) = 13"
      using r2 fb assms(3) i by (auto simp: r_def unat_inc split: if_splits)
    have rw: "rd32 (wr32 ?k v (img s2 ?i)) ?k = v" for v using k False s2(3) by (intro rd_wr_same(2)) auto
    have lw: "length (wr32 ?k v (img s2 ?i)) = 512" for v using k False s2(3) by (subst length_wr(2)) auto
    show ?thesis using b s2 assms(4) rw i lw by (auto simp: bindr_Ok_iff rsect_Ok Let_def mk_ok_def unat_inc wsect_def split: if_splits)
  qed
  then show "mk_ok s1" "length (i_addrs din1) = NDIRECT + 1" by auto
qed

lemma iappend_loop_ok:
  "mk_ok s \<Longrightarrow> length (i_addrs din) = NDIRECT + 1 \<Longrightarrow> iappend_loop off p din s = Ok (off', din', t) \<Longrightarrow>
    mk_ok t \<and> length (i_addrs din') = NDIRECT + 1"
proof (induction off p din s rule: iappend_loop.induct)
  case (1 off p din s)
  show ?case
  proof (cases "p = []")
    case True
    then show ?thesis using 1(2-4) by (simp add: iappend_loop.simps [of off "[]" din s])
  next
    case False
    let ?f = "off div 512" and ?n = "min (length p) ((off div 512 + 1) * 512 - off)"
    obtain x d1 s1 where b: "iappend_block ?f din s = Ok (x, d1, s1)" and x: "unat x < 1000"
      and l: "iappend_loop (off + ?n) (drop ?n p) d1 (wsect x (splice (off - ?f * 512) (take ?n p) (img s1 x)) s1) = Ok (off', din', t)"
      using 1(4) False by (auto simp: iappend_loop.simps [of off p din s] bindr_Ok_iff rsect_Ok Let_def)
    note B = iappend_block_ok [OF 1(2) b 1(3) x]
    have "(off div 512 + 1) * 512 - off = 512 - off mod 512" using div_mult_mod_eq [of off 512] unfolding add_mult_distrib by arith
    then have "off mod 512 + ?n \<le> 512" using mod_less_divisor [of 512 off] by linarith
    moreover have "off - ?f * 512 = off mod 512" by (simp add: minus_div_mult_eq_mod)
    ultimately have "mk_ok (wsect x (splice (off - ?f * 512) (take ?n p) (img s1 x)) s1)"
      using B(1) by (auto simp: mk_ok_def wsect_def)
    moreover have r: "rsect x s1 = Ok (img s1 x)" using x by (simp add: rsect_Ok)
    ultimately show ?thesis using 1(1) [OF False refl b refl refl refl r _ B(2) l] by simp
  qed
qed

lemma iappend_ok:
  assumes "mk_ok s" "iappend inum xp s = Ok t" shows "mk_ok t"
proof -
  obtain din off d1 s1 where i: "rinode inum s = Ok din" "iappend_loop (unat (i_size din)) xp din s = Ok (off, d1, s1)"
    "winode inum (d1\<lparr>i_size := of_nat off\<rparr>) s1 = Ok t" using assms(2) by (auto simp: iappend_def bindr_Ok_iff)
  from iappend_loop_ok [OF assms(1) rinode_addrs [OF i(1)] i(2)] show ?thesis using winode_ok [OF _ i(3)] by simp
qed

lemma mk_ialloc_ok: "mk_ok s \<Longrightarrow> mk_ialloc ty s = Ok (inum, t) \<Longrightarrow> mk_ok t"
proof -
  assume s: "mk_ok s" and a: "mk_ialloc ty s = Ok (inum, t)"
  have "mk_ok (s\<lparr>freeinode := freeinode s + 1\<rparr>)" using s by (simp add: mk_ok_def)
  from winode_ok [OF this] a show "mk_ok t" by (auto simp: mk_ialloc_def Let_def bindr_Ok_iff no_dinode_def)
qed

lemma append_file_ok: "mk_ok s \<Longrightarrow> append_file inum bs s = Ok t \<Longrightarrow> mk_ok t"
proof (induction inum bs s rule: append_file.induct)
  case (1 inum bs s)
  then show ?case
    by (cases "bs = []") (simp add: append_file.simps [of inum "[]" s], auto simp: append_file.simps [of inum bs s] bindr_Ok_iff dest: iappend_ok)
qed

lemma mkfs_files_ok: "mk_ok s \<Longrightarrow> mkfs_files r fs s = Ok t \<Longrightarrow> mk_ok t"
proof (induction fs arbitrary: s)
  case (Cons f fs)
  obtain i s1 s2 s3 where c: "mk_ialloc T_FILE s = Ok (i, s1)" "iappend r (mk_dirent (ucast i) (mkfs_name (fst f))) s1 = Ok s2"
    "append_file i (snd f) s2 = Ok s3" "mkfs_files r fs s3 = Ok t"
    using Cons.prems(2) by (auto simp: bindr_Ok_iff split: if_splits)
  show ?case by (rule Cons.IH [OF append_file_ok [OF iappend_ok [OF mk_ialloc_ok [OF Cons.prems(1) c(1)] c(2)] c(3)] c(4)])
qed simp

lemma mkfs_fix_root_ok: "mk_ok s \<Longrightarrow> mkfs_fix_root r s = Ok t \<Longrightarrow> mk_ok t"
proof -
  assume s: "mk_ok s" and f: "mkfs_fix_root r s = Ok t"
  obtain din where d: "rinode r s = Ok din" "winode r (din\<lparr>i_size := (i_size din div 512 + 1) * 512\<rparr>) s = Ok t"
    using f by (auto simp: mkfs_fix_root_def bindr_Ok_iff)
  show "mk_ok t" using winode_ok [OF s d(2)] rinode_addrs [OF d(1)] by simp
qed

lemma mkfs_ok:
  assumes "mkfs fs = Ok t"
  shows "59 \<le> unat (freeblock t)" "unat (freeblock t) \<le> 1000" "img t 58 = mk_bits (unat (freeblock t)) (replicate BSIZE 0)"
proof -
  let ?s = "wsect 1 (splice 0 mk_sb_bytes (replicate BSIZE 0)) \<lparr>img = \<lambda>_. replicate BSIZE 0, freeinode = 1, freeblock = nmeta\<rparr>"
  have l: "length mk_sb_bytes = 28" by (simp add: mk_sb_bytes_def bytes32_def)
  have s: "mk_ok ?s" by (simp add: mk_ok_def wsect_def l)
  obtain i s1 s2 s3 s4 s5 where m: "mk_ialloc T_DIR ?s = Ok (i, s1)" "iappend i (mk_dirent (ucast i) [0x2e]) s1 = Ok s2"
    "iappend i (mk_dirent (ucast i) [0x2e, 0x2e]) s2 = Ok s3" "mkfs_files i fs s3 = Ok s4" "mkfs_fix_root i s4 = Ok s5" "mk_balloc (freeblock s5) s5 = Ok t"
    using assms by (auto simp: mkfs_def Let_def bindr_Ok_iff split: if_splits)
  have "mk_ok s5" using mkfs_fix_root_ok [OF mkfs_files_ok [OF iappend_ok [OF iappend_ok [OF mk_ialloc_ok [OF s m(1)] m(2)] m(3)] m(4)] m(5)] .
  then show "59 \<le> unat (freeblock t)" "unat (freeblock t) \<le> 1000" "img t 58 = mk_bits (unat (freeblock t)) (replicate BSIZE 0)"
    using m(6) by (auto simp: mk_balloc_def wsect_def mk_ok_def split: if_splits)
qed

section \<open>An image without files\<close>

lemma winode_Ok:
  assumes "unat inum < 200" "mk_ok s" "length (i_addrs ip) = NDIRECT + 1"
  obtains t where "winode inum ip s = Ok t" "rinode inum t = Ok (no_dinode\<lparr>i_type := i_type ip, i_major := i_major ip, i_minor := i_minor ip,
    i_nlink := i_nlink ip, i_size := i_size ip, i_addrs := i_addrs ip\<rparr>)" "mk_ok t" "freeblock t = freeblock s"
proof -
  let ?b = "IBLOCK inum mk_sb" and ?o = "dinode_off inum"
  have "unat (inum div 8) = unat inum div 8" by (simp add: unat_div_distrib)
  then have b: "unat ?b < 1000" using assms(1) by (simp add: IBLOCK_def unat_add32)
  have o: "?o + 64 \<le> length (img s ?b)"
  proof -
    have "unat inum mod 8 < 8" by simp
    then show ?thesis using assms(2) by (simp add: dinode_off_def unat_mod_distrib mk_ok_def)
  qed
  let ?t = "wsect ?b (dinode_put ip ?o (img s ?b)) s"
  have r: "rsect ?b u = Ok (img u ?b)" for u using b by (simp add: rsect_Ok)
  have w: "winode inum ip s = Ok ?t" by (simp add: winode_def Let_def r)
  have "rinode inum ?t = Ok (dinode_get (dinode_put ip ?o (img s ?b)) ?o no_dinode)" by (simp add: rinode_def r wsect_def)
  then show thesis using that [OF w] dinode_roundtrip [OF o assms(3)] winode_ok [OF assms(2) w assms(3)] by (simp add: wsect_def)
qed

lemma iappend_small:
  assumes "unat inum < 200" "mk_ok s" "rinode inum s = Ok din" "i_size din = 0 \<or> i_addrs din ! 0 = 59 \<and> i_size din = 16" "i_addrs din ! 0 = 0 \<and> freeblock s = 59 \<or> i_addrs din ! 0 = 59"
    "length xp = 16"
  obtains t din' where "iappend inum xp s = Ok t" "mk_ok t" "rinode inum t = Ok din'" "i_size din' = i_size din + 16" "i_addrs din' ! 0 = 59"
    "freeblock t = (if i_addrs din ! 0 = 0 then 60 else freeblock s)"
proof -
  have ad: "length (i_addrs din) = 13" using rinode_addrs [OF assms(3)] by simp
  have sz: "unat (i_size din) = 0 \<or> unat (i_size din) = 16" using assms(4) by auto
  have xp: "xp \<noteq> []" "min 16 (512 - unat (i_size din)) = 16" using assms(6) sz by auto
  define din1 where "din1 = din\<lparr>i_addrs := (i_addrs din)[0 := 59]\<rparr>"
  define s1 where "s1 = (if i_addrs din ! 0 = 0 then s\<lparr>freeblock := 60\<rparr> else s)"
  have "din\<lparr>i_addrs := i_addrs din\<rparr> = din" by simp
  moreover have "(i_addrs din)[0 := 59] = i_addrs din" if "i_addrs din ! 0 = 59" using that list_update_id [of "i_addrs din" 0] by simp
  ultimately have b: "iappend_block 0 din s = Ok (59, din1, s1)" using assms(5) ad by (auto simp: iappend_block_def din1_def s1_def)
  let ?s2 = "wsect 59 (splice (unat (i_size din)) xp (img s1 59)) s1"
  have r: "rsect 59 s1 = Ok (img s1 59)" by (simp add: rsect_Ok)
  have "iappend_loop (unat (i_size din)) xp din s = iappend_loop (unat (i_size din) + 16) [] din1 ?s2"
    using b r xp assms(6) sz by (subst iappend_loop.simps) (auto simp: Let_def)
  then have l: "iappend_loop (unat (i_size din)) xp din s = Ok (unat (i_size din) + 16, din1, ?s2)" by (subst (asm) iappend_loop.simps [of _ "[]"]) simp
  have ok2: "mk_ok ?s2" "length (i_addrs din1) = 13" using iappend_loop_ok [OF assms(2) _ l] ad by simp_all
  let ?d = "din1\<lparr>i_size := of_nat (unat (i_size din) + 16)\<rparr>"
  have "length (i_addrs ?d) = NDIRECT + 1" using ok2(2) by simp
  then obtain t where t: "winode inum ?d ?s2 = Ok t" "rinode inum t = Ok (no_dinode\<lparr>i_type := i_type ?d, i_major := i_major ?d, i_minor := i_minor ?d,
    i_nlink := i_nlink ?d, i_size := i_size ?d, i_addrs := i_addrs ?d\<rparr>)" "mk_ok t" "freeblock t = freeblock ?s2"
    by (rule winode_Ok [OF assms(1) ok2(1)])
  have "iappend inum xp s = Ok t" using assms(3) l t(1) by (simp add: iappend_def)
  moreover have "i_size ?d = i_size din + 16" by simp
  moreover have "i_addrs ?d ! 0 = 59" using ad by (simp add: din1_def)
  moreover have "freeblock t = (if i_addrs din ! 0 = 0 then 60 else freeblock s)" using t(4) by (simp add: wsect_def s1_def)
  ultimately show thesis using that t(2,3) by simp
qed

lemma mkfs_empty: "\<exists>t. mkfs [] = Ok t"
proof -
  let ?s = "wsect 1 (splice 0 mk_sb_bytes (replicate BSIZE 0)) \<lparr>img = \<lambda>_. replicate BSIZE 0, freeinode = 1, freeblock = nmeta\<rparr>"
  let ?init = "?s\<lparr>freeinode := 1 + 1\<rparr>" and ?d = "no_dinode\<lparr>i_type := T_DIR, i_nlink := 1, i_size := 0\<rparr>"
  have l: "length mk_sb_bytes = 28" by (simp add: mk_sb_bytes_def bytes32_def)
  have s: "mk_ok ?init" by (simp add: mk_ok_def wsect_def l)
  have a: "length (i_addrs ?d) = NDIRECT + 1" by (simp add: no_dinode_def)
  have len: "length (mk_dirent i n) = 16" for i n by (simp add: mk_dirent_def pad_name_def Let_def bytes16_def)
  have one: "unat (1 :: u32) < 200" by simp
  obtain s1 where s1: "winode 1 ?d ?init = Ok s1" "rinode 1 s1 = Ok (no_dinode\<lparr>i_type := i_type ?d, i_major := i_major ?d, i_minor := i_minor ?d,
    i_nlink := i_nlink ?d, i_size := i_size ?d, i_addrs := i_addrs ?d\<rparr>)" "mk_ok s1" "freeblock s1 = freeblock ?init"
    by (rule winode_Ok [OF one s a])
  have f1: "freeblock s1 = 59" using s1(4) by (simp add: wsect_def)
  obtain s2 d2 where s2: "iappend 1 (mk_dirent 1 [0x2e]) s1 = Ok s2" "mk_ok s2" "rinode 1 s2 = Ok d2" "i_size d2 = 0 + 16" "i_addrs d2 ! 0 = 59"
    by (rule iappend_small [OF one s1(3,2)]) (use f1 len in \<open>auto simp: no_dinode_def\<close>)
  obtain s3 d3 where s3: "iappend 1 (mk_dirent 1 [0x2e, 0x2e]) s2 = Ok s3" "mk_ok s3" "rinode 1 s3 = Ok d3"
    by (rule iappend_small [OF one s2(2,3)]) (use s2(4,5) len in auto)
  have a3: "length (i_addrs (d3\<lparr>i_size := (i_size d3 div 512 + 1) * 512\<rparr>)) = NDIRECT + 1" using rinode_addrs [OF s3(3)] by simp
  obtain s4 where s4: "winode 1 (d3\<lparr>i_size := (i_size d3 div 512 + 1) * 512\<rparr>) s3 = Ok s4" "mk_ok s4" by (rule winode_Ok [OF one s3(2) a3])
  have "mk_ialloc T_DIR ?s = Ok (1, s1)" using s1(1) by (simp add: mk_ialloc_def Let_def wsect_def)
  moreover have "mk_balloc (freeblock s4) s4 = Ok (wsect 58 (mk_bits (unat (freeblock s4)) (replicate BSIZE 0)) s4)"
    using s4(2) by (auto simp: mk_balloc_def mk_ok_def)
  ultimately show ?thesis using s2(1) s3(1,3) s4(1) by (simp add: mkfs_def Let_def mkfs_fix_root_def)
qed

end
