(* ===== verification/Fs_Props.thy ===== *)
theory Fs_Props
  imports Fs_Dir Mkfs Demo
begin

text \<open>
  Properties of the file system: what is written is read back, blocks are allocated and freed
  without touching each other, inodes survive storing, directory entries are found after linking,
  and paths are taken apart at their slashes.  Each is applied to a small file system with one
  empty file in the inode cache.
\<close>

section \<open>A small file system\<close>

definition demo_inode :: "u16 \<Rightarrow> inode" where
  "demo_inode ty = free_inode\<lparr>i_dev := 1, i_inum := 1, i_ref := 1, i_valid := True, i_type := ty, i_nlink := 1\<rparr>"

definition demo_disk :: "u32 \<Rightarrow> u8 list" where
  "demo_disk b = (if b = 58 then replicate 8 255 @ replicate 504 0 else replicate 512 0)"

definition demo_fs :: "u16 \<Rightarrow> kstate" where
  "demo_fs ty = (demo_kernel [] [])\<lparr>disk := \<lambda>_. demo_disk, icache := demo_inode ty # replicate 49 free_inode\<rparr>"

lemma demo_fs_simps [simp]:
  "bufs (demo_fs ty) = replicate 30 free_buf" "inode_at (demo_fs ty) 0 = demo_inode ty" "disk (demo_fs ty) = (\<lambda>_. demo_disk)"
  "sb (demo_fs ty) = \<lparr>sb_size = 1000, sb_nblocks = 941, sb_ninodes = 200, sb_nlog = 30, sb_logstart = 2, sb_inodestart = 32, sb_bmapstart = 58\<rparr>"
  "log_start (demo_fs ty) = 2" "length (icache (demo_fs ty)) = 50" "length (demo_disk b) = 512"
  "i_dev (demo_inode ty) = 1" "i_addrs (demo_inode ty) = replicate 13 0" "i_size (demo_inode ty) = 0" "i_type (demo_inode ty) = ty" "i_inum (demo_inode ty) = 1"
  by (simp_all add: demo_fs_def inode_at_def demo_disk_def demo_inode_def) (simp_all add: demo_kernel_def free_inode_def)

lemma demo_fs_view [simp]: "bview (demo_fs ty) = demo_disk" "held (demo_fs ty) = {}" "pinned (demo_fs ty) = {}"
proof -
  show "bview (demo_fs ty) = demo_disk" by (rule ext, subst bview_uncached) simp_all
  show "held (demo_fs ty) = {}" "pinned (demo_fs ty) = {}" by (simp_all add: held_def holds_def pinned_def)
qed

lemma demo_fs_txn: "txn (demo_fs ty) []"
proof -
  have "bio_inv (demo_fs ty)"
    using demo_bio_inv_empty [of "[]"] by (auto simp: bio_inv_def demo_fs_def buf_ok_def curpid_def myproc_def proc_at_def)
  moreover have "rd32 (replicate 512 (0 :: u8)) 0 = 0" by (simp add: rd32_def)
  ultimately show ?thesis
    by (simp add: txn_def log_inv_def lists_def lwf_def demo_disk_def) (simp add: demo_fs_def)
qed

lemma demo_used: "used (demo_fs ty) b \<longleftrightarrow> unat b < 64" if "unat b < 4096"
proof -
  have d: "unat b div 8 < 512" using that by (simp add: div_less_iff_less_mult)
  have m: "(255 :: u8) = mask 8" by (simp add: mask_eq_exp_minus_1)
  have b: "bit (255 :: u8) (unat b mod 8)" unfolding m by (simp only: bit_mask_iff) simp
  show ?thesis
  proof (cases "unat b < 64")
    case True
    then have "unat b div 8 < 8" by (simp add: div_less_iff_less_mult)
    then show ?thesis using True b by (simp add: used_def bitmap_free_bit demo_disk_def nth_append)
  next
    case False
    then have "8 \<le> unat b div 8" by (simp add: less_eq_div_iff_mult_less_eq)
    then show ?thesis using False d by (simp add: used_def bitmap_free_bit demo_disk_def nth_append)
  qed
qed

lemma demo_free: "1 \<le> avail (demo_fs ty) 0" "free_blocks (demo_fs ty) \<noteq> {}"
proof -
  have "{64, 65} \<subseteq> free_blocks (demo_fs ty)" by (simp add: free_blocks_def demo_used)
  from card_mono [OF finite_free_blocks this] show "1 \<le> avail (demo_fs ty) 0" by (simp add: avail_def)
  show "free_blocks (demo_fs ty) \<noteq> {}" using \<open>{64, 65} \<subseteq> _\<close> by auto
qed

lemma demo_fs_ok: "file_ok (demo_fs ty) 0" "whole (demo_fs ty) 0" "cost (demo_fs ty) 0 [] = 2" "geom (demo_fs ty)" "meta_used (demo_fs ty)"
proof -
  have d: "dblock demo_disk (demo_inode ty) k = 0" for k by (simp add: dblock_def)
  have o: "\<not> owns demo_disk (demo_inode ty) a" for a by (auto simp: owns_def d)
  show g: "geom (demo_fs ty)" by (simp add: geom_def)
  show m: "meta_used (demo_fs ty)" by (simp add: meta_used_def demo_used)
  show "file_ok (demo_fs ty) 0" using d o g m by (simp add: file_ok_def iwf_def)
  show "whole (demo_fs ty) 0" "cost (demo_fs ty) 0 [] = 2" by (simp_all add: whole_def cost_def)
qed

section \<open>Files\<close>

text \<open>
  C6.  What is written is read back.  Inside a transaction with enough room in the log and on the
  disk, \<^verbatim>\<open>writei\<close> stores all the bytes it is given, at any offset up to the end of the file and over
  direct and indirect blocks, grows the size to cover them and changes no other byte of the file;
  a following \<^verbatim>\<open>readi\<close> of the range returns exactly those bytes.  Nothing reaches the disk
  before the commit.
\<close>

theorem writei_then_readi:
  assumes "file_ok s ip" "txn s blks" "held s = {}" "whole s ip" "i_type (inode_at s ip) \<noteq> T_DEV"
    and "unat (i_inum (inode_at s ip)) < unat (sb_ninodes (sb s))"
    and "unat off \<le> unat (i_size (inode_at s ip))" "unat off + length src \<le> MAXBYTES"
    and "cost s ip blks + nchunks (unat off) (length src) + 3 < LOGSIZE" "nchunks (unat off) (length src) \<le> avail s ip"
  shows "\<exists>t u. writei ip src off s = Ok (int (length src), t) \<and> readi ip off (of_nat (length src)) t = Ok (int (length src), src, u) \<and>
    unat (i_size (inode_at t ip)) = max (unat (i_size (inode_at s ip))) (unat off + length src) \<and> disk t = disk s \<and>
    (\<forall>j<MAXBYTES. j < unat off \<or> unat off + length src \<le> j \<longrightarrow> file_byte t ip j = file_byte s ip j)"
proof -
  obtain t blks' where t: "writei ip src off s = Ok (int (length src), t)" "txn t blks'" "held t = {}" "file_ok t ip" "whole t ip" "disk t = disk s"
    "i_type (inode_at t ip) = i_type (inode_at s ip)" "unat (i_size (inode_at t ip)) = max (unat (i_size (inode_at s ip))) (unat off + length src)"
    "\<And>j. j < MAXBYTES \<Longrightarrow> file_byte t ip j = (if unat off \<le> j \<and> j < unat off + length src then src ! (j - unat off) else file_byte s ip j)"
    using writei_ok [OF assms] by blast
  have un: "unat (of_nat (length src) :: u32) = length src" using assms(8) by (intro unat_of_nat_small) linarith
  have r: "unat off \<le> unat (i_size (inode_at t ip))" "unat off + unat (of_nat (length src) :: u32) < 4294967296" "i_type (inode_at t ip) \<noteq> T_DEV"
    using t(7,8) assms(5,7,8) un by simp_all
  have e: "min (unat off + unat (of_nat (length src) :: u32)) (unat (i_size (inode_at t ip))) = unat off + length src" using t(8) un by simp
  have "map (file_byte t ip) [unat off..<unat off + length src] = src"
    using t(9) assms(8) by (intro nth_equalityI) simp_all
  then obtain u where "readi ip off (of_nat (length src)) t = Ok (int (length src), src, u)"
    using readi_ok [OF t(4) txnD(1) [OF t(2)] t(3,5) r(3,1,2)] unfolding e by auto
  then show ?thesis using t by auto
qed

theorem writei_then_readi_witness:
  "let s = demo_fs 2; src = [104, 105] in
   \<exists>t u. writei 0 src 0 s = Ok (int (length src), t) \<and> readi 0 0 (of_nat (length src)) t = Ok (int (length src), src, u) \<and>
    unat (i_size (inode_at t 0)) = max (unat (i_size (inode_at s 0))) (unat (0 :: u32) + length src) \<and> disk t = disk s \<and>
    (\<forall>j<MAXBYTES. j < unat (0 :: u32) \<or> unat (0 :: u32) + length src \<le> j \<longrightarrow> file_byte t 0 j = file_byte s 0 j)"
  unfolding Let_def by (rule writei_then_readi [OF demo_fs_ok(1) demo_fs_txn]) (use demo_free(1) [of 2] in \<open>simp_all add: demo_fs_ok nchunks_def\<close>)

section \<open>Blocks\<close>

lemma free_blocks_upd:
  assumes "geom s" "txn s blks" "lframe s t" "unat b < 1000"
  shows "bview t (sb_bmapstart (sb s)) = mark_used (unat b) (bview s (sb_bmapstart (sb s))) \<Longrightarrow> free_blocks t = free_blocks s - {b}"
    "bview t (sb_bmapstart (sb s)) = mark_free (unat b) (bview s (sb_bmapstart (sb s))) \<Longrightarrow> b < sb_size (sb s) \<Longrightarrow> free_blocks t = insert b (free_blocks s)"
  using used_upd [OF assms] by (auto simp: free_blocks_def lframe_fs [OF assms(3)])

lemma balloc_bfree:
  assumes g: "geom s" and t: "txn s blks" and m: "meta_used s" and h: "held s = {}" and n: "length blks + 3 < LOGSIZE" and f: "free_blocks s \<noteq> {}"
  obtains b t u where "balloc 1 s = Ok (b, t)" "b \<in> free_blocks s" "bview t b = replicate BSIZE 0" "free_blocks t = free_blocks s - {b}"
    "\<And>c. c \<noteq> b \<Longrightarrow> c \<noteq> sb_bmapstart (sb s) \<Longrightarrow> bview t c = bview s c"
    "bfree 1 b t = Ok u" "free_blocks u = free_blocks s" "bview u (sb_bmapstart (sb s)) = bview s (sb_bmapstart (sb s))"
    "bfree 1 b u = Panic ''freeing free block''"
proof -
  let ?m = "sb_bmapstart (sb s)"
  have a: "length (adds c xs) \<le> Suc (length xs)" for c xs by (simp add: adds_def)
  have r: "\<forall>b\<in>held s. used s b" "?m \<notin> held s" "finite (held s)" "length blks + card (held s) + 1 < NBUF" "length (adds ?m blks) + 1 < LOGSIZE"
    using h n a [of ?m blks] by simp_all
  obtain b t where b: "balloc 1 s = Ok (b, t)" "b \<in> free_blocks s" "txn t (adds b (adds ?m blks))" "lframe s t" "held t = held s"
    "bview t = (bview s)(?m := mark_used (unat b) (bview s ?m), b := replicate BSIZE 0)" "\<And>j c. holds s j c \<Longrightarrow> holds t j c"
    by (rule balloc_ok [OF g t m r f]) (rule that)
  have bs: "b < sb_size (sb s)" "\<not> used s b" "unat b < 1000" using b(2) g by (auto simp: free_blocks_def geom_def word_less_nat_alt)
  then have bm: "b \<noteq> ?m" using m by (auto simp: meta_used_def)
  have gt: "geom t" "sb t = sb s" using geom_frame [OF b(4)] g lframe_fs [OF b(4)] by simp_all
  have vt: "bview t ?m = mark_used (unat b) (bview s ?m)" using b(6) bm by simp
  have ut: "used t b" using used_upd(1) [OF g t b(4) bs(3) vt] by simp
  have bt: "b < sb_size (sb t)" using bs(1) gt(2) by simp
  have r2: "sb_bmapstart (sb t) \<notin> held t" "length (adds b (adds ?m blks)) + card (held t) < NBUF" "Suc (length (adds b (adds ?m blks))) < LOGSIZE"
    using a [of b "adds ?m blks"] a [of ?m blks] n h b(5) by simp_all
  obtain u where u: "bfree 1 b t = Ok u" "txn u (adds (sb_bmapstart (sb t)) (adds b (adds ?m blks)))" "lframe t u" "held u = held t"
    "bview u = (bview t)(sb_bmapstart (sb t) := mark_free (unat b) (bview t (sb_bmapstart (sb t))))" "\<And>j c. holds t j c \<Longrightarrow> holds u j c"
    by (rule bfree_ok [OF gt(1) b(3) r2 bt ut]) (rule that)
  have l: "unat b div 8 < length (bview s ?m)" using bs(3) length_bview [OF txnD(2) [OF t]] by simp
  have vu: "bview u ?m = bview s ?m" using u(5) vt gt(2) mark_inverse [OF l] bs(2) by (simp add: used_def)
  have su: "sb u = sb s" "geom u" using lframe_fs [OF u(3)] geom_frame [OF u(3)] gt by simp_all
  have fu: "used u c = used s c" for c using vu su(1) by (simp add: used_def)
  have r3: "sb_bmapstart (sb u) \<notin> held u" "length (adds (sb_bmapstart (sb t)) (adds b (adds ?m blks))) + card (held u) < NBUF"
    using a [of ?m "adds b (adds ?m blks)"] a [of b "adds ?m blks"] a [of ?m blks] n h b(5) u(4) gt(2) by simp_all
  have "bfree 1 b u = Panic ''freeing free block''" by (rule bfree_free [OF su(2) u(2) r3]) (use bs su fu in simp_all)
  then show thesis
    using that [OF b(1,2) _ free_blocks_upd(1) [OF g t b(4) bs(3) vt] _ u(1) _ vu] b(6) fu su(1) by (simp add: free_blocks_def)
qed

text \<open>
  C10.  Allocating and freeing disk blocks.  Inside a transaction with room in the log, \<^verbatim>\<open>balloc\<close>
  panics exactly when no block is free; otherwise it returns a block that was free, zeroed, and now
  in use, and changes no block but that one and the bitmap.  \<^verbatim>\<open>bfree\<close> makes exactly that block free
  again, restoring the bitmap byte for byte, and freeing it a second time panics.
\<close>

theorem balloc_then_bfree:
  assumes "geom s" "txn s blks" "meta_used s" "held s = {}" "length blks + 3 < LOGSIZE"
  shows "if free_blocks s = {} then balloc 1 s = Panic ''balloc: out of blocks''
    else \<exists>b t u. balloc 1 s = Ok (b, t) \<and> b \<in> free_blocks s \<and> bview t b = replicate BSIZE 0 \<and> free_blocks t = free_blocks s - {b} \<and>
      (\<forall>c. c \<noteq> b \<and> c \<noteq> sb_bmapstart (sb s) \<longrightarrow> bview t c = bview s c) \<and>
      bfree 1 b t = Ok u \<and> free_blocks u = free_blocks s \<and> bview u (sb_bmapstart (sb s)) = bview s (sb_bmapstart (sb s)) \<and>
      bfree 1 b u = Panic ''freeing free block''"
proof (cases "free_blocks s = {}")
  case True
  then show ?thesis using balloc_full [OF assms(1,2) _ _ True] assms(4,5) by simp
next
  case False
  obtain b t u where b: "balloc 1 s = Ok (b, t)" "b \<in> free_blocks s" "bview t b = replicate BSIZE 0" "free_blocks t = free_blocks s - {b}"
    "\<And>c. c \<noteq> b \<Longrightarrow> c \<noteq> sb_bmapstart (sb s) \<Longrightarrow> bview t c = bview s c"
    "bfree 1 b t = Ok u" "free_blocks u = free_blocks s" "bview u (sb_bmapstart (sb s)) = bview s (sb_bmapstart (sb s))"
    "bfree 1 b u = Panic ''freeing free block''" by (rule balloc_bfree [OF assms False]) (rule that)
  show ?thesis unfolding if_not_P [OF False]
    by (intro exI conjI allI impI) (rule b(1-4,6-9) | (erule conjE, erule b(5), assumption))+
qed

theorem balloc_then_bfree_witness:
  "let s = demo_fs 2 in
   if free_blocks s = {} then balloc 1 s = Panic ''balloc: out of blocks''
    else \<exists>b t u. balloc 1 s = Ok (b, t) \<and> b \<in> free_blocks s \<and> bview t b = replicate BSIZE 0 \<and> free_blocks t = free_blocks s - {b} \<and>
      (\<forall>c. c \<noteq> b \<and> c \<noteq> sb_bmapstart (sb s) \<longrightarrow> bview t c = bview s c) \<and>
      bfree 1 b t = Ok u \<and> free_blocks u = free_blocks s \<and> bview u (sb_bmapstart (sb s)) = bview s (sb_bmapstart (sb s)) \<and>
      bfree 1 b u = Panic ''freeing free block''"
  unfolding Let_def by (rule balloc_then_bfree [OF demo_fs_ok(4) demo_fs_txn demo_fs_ok(5)]) simp_all

section \<open>Inodes\<close>

text \<open>The inode with number \<open>n\<close> as the file system stores it, read over the in-core inode \<open>y\<close>.\<close>

definition stored_inode :: "'a fstate_scheme \<Rightarrow> u32 \<Rightarrow> inode \<Rightarrow> inode" where
  "stored_inode s n y = dinode_get (bview s (IBLOCK n (sb s))) (dinode_off n) y"

lemma ilock_loads:
  assumes g: "geom s" and t: "txn s blks" and h: "held s = {}" and n: "length blks < NBUF" and ip: "ip < length (icache s)"
    and x: "i_dev (inode_at s ip) = 1" "unat (i_inum (inode_at s ip)) < unat (sb_ninodes (sb s))"
      "1 \<le> i_ref (inode_at s ip)" "\<not> i_valid (inode_at s ip)" "\<not> sl_locked (i_lock (inode_at s ip))"
    and ty: "i_type (stored_inode s (i_inum (inode_at s ip)) (inode_at s ip)) \<noteq> 0"
  shows "\<exists>u lk. ilock ip s = Ok u \<and> sl_locked lk \<and>
    inode_at u ip = (stored_inode s (i_inum (inode_at s ip)) (inode_at s ip))\<lparr>i_lock := lk, i_valid := True\<rparr>"
proof -
  let ?x = "inode_at s ip" and ?b = "inode_blk s ip"
  obtain p where p: "myproc s = Some p" using txnD(2) [OF t] by (auto simp: bio_inv_def)
  define lk where "lk = (i_lock ?x)\<lparr>sl_locked := True, sl_pid := p_pid (proc_at s p)\<rparr>"
  define s1 where "s1 = upd_inode ip (\<lambda>x. x\<lparr>i_lock := lk\<rparr>) s"
  have x1: "inode_at s1 ip = ?x\<lparr>i_lock := lk\<rparr>" "sb s1 = sb s" using ip by (simp_all add: s1_def)
  have t1: "txn s1 blks" "?b \<notin> held s1" "length blks + card (held s1) < NBUF" using t h n by (simp_all add: s1_def)
  obtain bp s2 where r: "bread 1 ?b s1 = Ok (bp, s2)" "txn s2 blks" "lframe s1 s2" "bview s2 = bview s1" "held s2 = insert ?b (held s1)"
    "holds s2 bp ?b" "b_data (buf_at s2 bp) = bview s1 ?b" "?b \<in> set blks \<or> bview s2 ?b = disk s2 1 ?b" "\<And>j c. holds s1 j c \<Longrightarrow> holds s2 j c"
    by (rule read_block [OF t1(1) inode_blk_facts(2) [OF g x(2)] t1(2,3)]) (rule that)
  define s3 where "s3 = upd_inode ip (dinode_get (bview s ?b) (dinode_off (i_inum ?x))) s2"
  have i2: "inode_at s2 ip = inode_at s1 ip" "ip < length (icache s2)" using lframe_fs [OF r(3)] ip by (simp_all add: inode_at_def s1_def)
  have t3: "txn s3 blks" "holds s3 bp ?b" "?b \<in> set blks \<or> bview s3 ?b = disk s3 1 ?b" using r(2,6,8) by (simp_all add: s3_def) (simp add: upd_inode_def)
  obtain s4 where s4: "brelse bp s3 = Ok s4" "lframe s3 s4" by (rule release_block [OF t3]) (rule that)
  have i4: "inode_at s4 ip = (stored_inode s (i_inum ?x) ?x)\<lparr>i_lock := lk\<rparr>" "ip < length (icache s4)"
    using lframe_fs [OF s4(2)] i2 x1 ip by (simp_all add: inode_at_def s3_def upd_inode_def stored_inode_def inode_blk_def dinode_get_def)
  define u where "u = upd_inode ip (\<lambda>x. x\<lparr>i_valid := True\<rparr>) s4"
  have iu: "inode_at u ip = (stored_inode s (i_inum ?x) ?x)\<lparr>i_lock := lk, i_valid := True\<rparr>" using i4 by (simp add: u_def)
  have "acquiresleep (i_lock ?x) s = Ok lk" using x(5) p by (simp add: acquiresleep_def with_myproc_def lk_def)
  moreover have "bview s1 = bview s" by (simp add: s1_def)
  ultimately have "ilock ip s = Ok u"
    using x r(1,7) s4(1) x1 ty iu by (simp add: ilock_def Let_def s1_def [symmetric] inode_blk_def [symmetric] s3_def [symmetric] u_def [symmetric])
  moreover have "sl_locked lk" by (simp add: lk_def)
  ultimately show ?thesis using iu by blast
qed

lemma stored_other:
  assumes "geom s" "txn s blks" "lframe s t" "length (i_addrs x) = NDIRECT + 1"
    and "unat n < unat (sb_ninodes (sb s))" "unat m < unat (sb_ninodes (sb s))" "m \<noteq> n"
    and "bview t = (bview s)(IBLOCK n (sb s) := dinode_put x (dinode_off n) (bview s (IBLOCK n (sb s))))"
  shows "stored_inode t m y = stored_inode s m y"
proof (cases "IBLOCK m (sb s) = IBLOCK n (sb s)")
  case False
  then show ?thesis using assms(8) lframe_fs [OF assms(3)] by (simp add: stored_inode_def)
next
  case True
  have "unat (m div 8) = unat (n div 8)" using True by (simp add: IBLOCK_def)
  then have "unat m div 8 = unat n div 8" by (simp add: unat_div_distrib)
  moreover have "unat m \<noteq> unat n" using assms(7) by (simp add: word_unat_eq_iff)
  ultimately have ne: "unat m mod 8 \<noteq> unat n mod 8" by (metis div_mult_mod_eq)
  then have "64 * (unat m mod 8) + 64 \<le> 64 * (unat n mod 8) \<or> 64 * (unat n mod 8) + 64 \<le> 64 * (unat m mod 8)" by linarith
  moreover have "64 * (unat k mod 8) + 64 \<le> 512" for k :: u32 by (rule order_trans [of _ "64 * 7 + 64"]) simp_all
  ultimately show ?thesis
    using assms(4,8) True length_bview [OF txnD(2) [OF assms(2)]] lframe_fs [OF assms(3)]
    by (simp add: stored_inode_def dinode_off_def unat_mod_distrib dinode_other)
qed

text \<open>
  C12.  Stored inodes are read back.  \<^verbatim>\<open>iupdate\<close> writes the in-core inode to its place on disk and
  leaves every other inode of the file system alone, also those in the same block.  When the cache
  entry is later recycled and \<^verbatim>\<open>ilock\<close> loads the inode again, its type, device numbers, link count,
  size and block addresses are those that were stored, whatever the entry held in between.
\<close>

theorem iupdate_then_ilock:
  assumes g: "geom s" and t: "txn s blks" and h: "held s = {}" and n: "length blks + 2 < LOGSIZE" and ip: "ip < length (icache s)"
    and x: "i_dev (inode_at s ip) = 1" "length (i_addrs (inode_at s ip)) = NDIRECT + 1" "unat (i_inum (inode_at s ip)) < unat (sb_ninodes (sb s))"
      "i_type (inode_at s ip) \<noteq> 0"
    and y: "i_dev y = 1" "i_inum y = i_inum (inode_at s ip)" "1 \<le> i_ref y" "\<not> i_valid y" "\<not> sl_locked (i_lock y)"
  shows "\<exists>t u. iupdate ip s = Ok t \<and> ilock ip (upd_inode ip (\<lambda>_. y) t) = Ok u \<and>
    i_type (inode_at u ip) = i_type (inode_at s ip) \<and> i_major (inode_at u ip) = i_major (inode_at s ip) \<and> i_minor (inode_at u ip) = i_minor (inode_at s ip) \<and>
    i_nlink (inode_at u ip) = i_nlink (inode_at s ip) \<and> i_size (inode_at u ip) = i_size (inode_at s ip) \<and> i_addrs (inode_at u ip) = i_addrs (inode_at s ip) \<and>
    (\<forall>m z. unat m < unat (sb_ninodes (sb s)) \<and> m \<noteq> i_inum (inode_at s ip) \<longrightarrow> stored_inode t m z = stored_inode s m z)"
proof -
  let ?x = "inode_at s ip" and ?b = "inode_blk s ip"
  have n1: "Suc (length blks) < LOGSIZE" using n by simp
  obtain t where u: "iupdate ip s = Ok t" "txn t (adds ?b blks)" "lframe s t" "held t = {}"
    "bview t = (bview s)(?b := dinode_put ?x (dinode_off (i_inum ?x)) (bview s ?b))"
    by (rule iupdate_ok [OF g assms(2) h n1 x(1-3)]) (rule that)
  note F = lframe_fs [OF u(3)]
  have st: "stored_inode t (i_inum ?x) z = z\<lparr>i_type := i_type ?x, i_major := i_major ?x, i_minor := i_minor ?x,
      i_nlink := i_nlink ?x, i_size := i_size ?x, i_addrs := i_addrs ?x\<rparr>" for z
    using inode_blk_facts(4) [OF g x(3)] x(2) u(5) F length_bview [OF txnD(2) [OF t]]
    by (simp add: stored_inode_def inode_blk_def [symmetric] dinode_roundtrip)
  define t' where "t' = upd_inode ip (\<lambda>_. y) t"
  have ip': "ip < length (icache t')" "inode_at t' ip = y" "sb t' = sb s" using F ip by (simp_all add: t'_def)
  have v: "stored_inode t' m z = stored_inode t m z" for m z by (simp add: t'_def stored_inode_def)
  have c: "length (adds ?b blks) < NBUF" using n by (simp add: adds_def)
  have "\<exists>w lk. ilock ip t' = Ok w \<and> sl_locked lk \<and> inode_at w ip = (stored_inode t' (i_inum y) y)\<lparr>i_lock := lk, i_valid := True\<rparr>"
    using ilock_loads [of t' "adds ?b blks" ip] g u(2,4) geom_frame [OF u(3)] c ip' x y v st by (simp add: t'_def [symmetric]) (simp add: t'_def)
  then obtain w lk where w: "ilock ip t' = Ok w" "inode_at w ip = (stored_inode t (i_inum ?x) y)\<lparr>i_lock := lk, i_valid := True\<rparr>"
    using y(2) v by auto
  have o: "stored_inode t m z = stored_inode s m z" if "unat m < unat (sb_ninodes (sb s)) \<and> m \<noteq> i_inum ?x" for m z
    using stored_other [OF g assms(2) u(3) x(2,3)] that u(5) by (simp add: inode_blk_def)
  show ?thesis using u(1) w(1) o by (intro exI [of _ t] exI [of _ w]) (simp add: t'_def [symmetric] w(2) st)
qed

theorem iupdate_then_ilock_witness:
  "let s = demo_fs 2; y = free_inode\<lparr>i_dev := 1, i_inum := 1, i_ref := 1\<rparr> in
   \<exists>t u. iupdate 0 s = Ok t \<and> ilock 0 (upd_inode 0 (\<lambda>_. y) t) = Ok u \<and>
    i_type (inode_at u 0) = i_type (inode_at s 0) \<and> i_major (inode_at u 0) = i_major (inode_at s 0) \<and> i_minor (inode_at u 0) = i_minor (inode_at s 0) \<and>
    i_nlink (inode_at u 0) = i_nlink (inode_at s 0) \<and> i_size (inode_at u 0) = i_size (inode_at s 0) \<and> i_addrs (inode_at u 0) = i_addrs (inode_at s 0) \<and>
    (\<forall>m z. unat m < unat (sb_ninodes (sb s)) \<and> m \<noteq> i_inum (inode_at s 0) \<longrightarrow> stored_inode t m z = stored_inode s m z)"
  unfolding Let_def by (rule iupdate_then_ilock [OF demo_fs_ok(4) demo_fs_txn]) (simp_all, simp_all add: free_inode_def)

section \<open>Directories and paths\<close>

lemma find_upt_same:
  assumes "m \<le> n" "\<And>k. k < m \<Longrightarrow> P k = Q k" "\<And>k. m \<le> k \<Longrightarrow> k < n \<Longrightarrow> \<not> P k"
  shows "find P [0..<n] = find Q [0..<m]"
proof -
  have "[0..<n] = [0..<m] @ [m..<n]" using assms(1) by (metis le0 upt_add_eq_append le_add_diff_inverse)
  moreover have "find P [m..<n] = None" using assms(3) by (auto simp: find_None_iff)
  moreover have "find P [0..<m] = find Q [0..<m]" using assms(2) by (intro find_cong) auto
  moreover have "find P (xs @ ys) = (case find P xs of None \<Rightarrow> find P ys | Some x \<Rightarrow> Some x)" for xs ys by (induction xs) auto
  ultimately show ?thesis by (simp split: option.splits)
qed

text \<open>
  C11.  A linked name is found.  When a directory has no entry with a name, \<^verbatim>\<open>dirlink\<close> succeeds and
  a following \<^verbatim>\<open>dirlookup\<close> of that name returns the inode with the linked number and the offset of
  the entry; every other name keeps the entry it had, and none appears.
\<close>

theorem dirlink_then_dirlookup:
  assumes "dir_ok s dp" "txn s blks" "held s = {}" "\<And>k. k < entries s dp \<Longrightarrow> \<not> matches s dp name k"
    and "unat (i_inum (inode_at s dp)) < unat (sb_ninodes (sb s))" "16 * entries s dp + 16 \<le> MAXBYTES"
    and "cost s dp blks + 4 < LOGSIZE" "1 \<le> avail s dp" and i: "inum \<noteq> 0" "unat inum < 65536"
  shows "\<exists>t u. dirlink dp name inum s = Ok (0, t) \<and> icache u = icache t \<and>
    dirlookup dp name t = bindr (iget 1 inum u) (\<lambda>(ip, v). Ok (Some (ip, of_nat (16 * slot s dp)), v)) \<and>
    (\<forall>name'. cname name' \<noteq> cname name \<longrightarrow>
       find (matches t dp name') [0..<entries t dp] = find (matches s dp name') [0..<entries s dp])"
proof -
  obtain t blks' where t: "dirlink dp name inum s = Ok (0, t)" "txn t blks'" "held t = {}" "dir_ok t dp"
    "entries t dp = max (entries s dp) (Suc (slot s dp))"
    "\<forall>k<entries t dp. entry t dp k = (if k = slot s dp then mk_dirent (ucast inum) name else entry s dp k)"
    using dirlink_ok [OF assms(1-8)] by blast
  have u: "ucast (ucast inum :: u16) = inum" using i(2) by (simp add: word_unat_eq_iff unsigned_ucast_eq unsigned_take_bit_eq take_bit_nat_eq_self)
  then have nz: "(ucast inum :: u16) \<noteq> 0" using i(1) by auto
  have e: "k < entries t dp \<Longrightarrow> entry t dp k = (if k = slot s dp then mk_dirent (ucast inum) name else entry s dp k)" for k using t(6) by simp
  have j: "slot s dp < entries t dp" "entries s dp \<le> entries t dp" and le: "k < entries t dp \<Longrightarrow> k \<noteq> slot s dp \<Longrightarrow> k < entries s dp" for k
    using t(5) slot_le [of s dp] by auto
  have fd: "find (matches t dp name) [0..<entries t dp] = Some (slot s dp)"
    by (rule linked_found [OF e nz j(1)]) (use assms(4) le in auto)
  have es: "de_inum (entry t dp (slot s dp)) = ucast inum" using e [OF j(1)] by (simp add: mk_dirent_fields)
  obtain v where v: "lframe t v" "dirlookup dp name t = bindr (iget 1 inum v) (\<lambda>(ip, u). Ok (Some (ip, of_nat (16 * slot s dp)), u))"
    using dirlookup_ok [OF t(4) txnD(1) [OF t(2)] t(3), of name] unfolding fd option.case es u by blast
  have old: "\<not> matches s dp name' (slot s dp)" if "slot s dp < entries s dp" for name'
  proof (cases "find (\<lambda>j. de_inum (entry s dp j) = 0) [0..<entries s dp]")
    case (Some j)
    then have "de_inum (entry s dp j) = 0" by (auto simp: find_Some_iff)
    then show ?thesis using Some by (simp add: slot_def matches_def)
  qed (use that in \<open>simp add: slot_def\<close>)
  have "find (matches t dp name') [0..<entries t dp] = find (matches s dp name') [0..<entries s dp]" if ne: "cname name' \<noteq> cname name" for name'
  proof (rule find_upt_same [OF j(2)])
    have sl: "\<not> matches t dp name' (slot s dp)" using e [OF j(1)] ne by (simp add: matches_def mk_dirent_fields)
    show "matches t dp name' k = matches s dp name' k" if "k < entries s dp" for k
      using sl old [of name'] e [of k] that j(2) by (cases "k = slot s dp") (blast, simp add: matches_def)
    show "\<not> matches t dp name' k" if "entries s dp \<le> k" "k < entries t dp" for k
      using sl le [OF that(2)] that(1) by (cases "k = slot s dp") auto
  qed
  then show ?thesis using t(1) v lframe_fs [OF v(1)] by blast
qed

theorem dirlink_then_dirlookup_witness:
  "let s = demo_fs 1; name = [97, 0] in
   \<exists>t u. dirlink 0 name 7 s = Ok (0, t) \<and> icache u = icache t \<and>
    dirlookup 0 name t = bindr (iget 1 7 u) (\<lambda>(ip, v). Ok (Some (ip, of_nat (16 * slot s 0)), v)) \<and>
    (\<forall>name'. cname name' \<noteq> cname name \<longrightarrow>
       find (matches t 0 name') [0..<entries t 0] = find (matches s 0 name') [0..<entries s 0])"
  unfolding Let_def by (rule dirlink_then_dirlookup [OF _ demo_fs_txn])
    (use demo_free(1) [of 1] in \<open>simp_all add: dir_ok_def demo_fs_ok entries_def\<close>)

text \<open>
  C20.  Paths are taken apart at their slashes.  Peeling elements off a path with \<^verbatim>\<open>skipelem\<close>, as
  \<^verbatim>\<open>namex\<close> does, gives the same names as the plain specification: split at every slash, drop the
  empty pieces, and cut each name to 14 bytes.
\<close>

theorem skipelem_splits_paths: "path_elems path = elements path"
  by (rule path_elems_eq)

section \<open>The image of the file system\<close>



end
