(* ===== verification/Grep.thy ===== *)
theory Grep
  imports Xv6_Prelude
begin

text \<open>
  The user program \<^verbatim>\<open>grep.c\<close>.  A C string is the list of its characters before the terminating NUL,
  so that reading the NUL is the empty list.  The recursive matcher is compared with a declarative
  reading of patterns: a pattern denotes a language, an anchor at its front and an anchor at its
  end, and \<open>match\<close> decides whether some substring of the text lies in that language.  The reading
  loop \<open>grep\<close> is modelled on the sequence of results of \<^verbatim>\<open>read\<close> and compared with
  the list of lines of the input.
\<close>

section \<open>The matcher\<close>

function matchhere :: "string \<Rightarrow> string \<Rightarrow> bool" and matchstar :: "char \<Rightarrow> string \<Rightarrow> string \<Rightarrow> bool" where
  "matchhere re text =
     (case re of
        [] \<Rightarrow> True
      | c # re1 \<Rightarrow>
          if re1 \<noteq> [] \<and> hd re1 = CHR ''*'' then matchstar c (tl re1) text
          else if c = CHR ''$'' \<and> re1 = [] then text = []
          else if text \<noteq> [] \<and> (c = CHR ''.'' \<or> c = hd text) then matchhere re1 (tl text)
          else False)"
| "matchstar c re text =
     (if matchhere re text then True
      else if text \<noteq> [] \<and> (hd text = c \<or> c = CHR ''.'') then matchstar c re (tl text)
      else False)"
  by pat_completeness auto
termination
  by (relation "measures [\<lambda>x. case x of Inl (re, text) \<Rightarrow> length re | Inr (c, re, text) \<Rightarrow> length re,
      \<lambda>x. case x of Inl (re, text) \<Rightarrow> length text | Inr (c, re, text) \<Rightarrow> length text,
      \<lambda>x. case x of Inl _ \<Rightarrow> 0 | Inr _ \<Rightarrow> 1]") (auto simp: neq_Nil_conv)

declare matchhere.simps [simp del] matchstar.simps [simp del]

fun match_loop :: "string \<Rightarrow> string \<Rightarrow> bool" where
  "match_loop re text = (if matchhere re text then True else case text of [] \<Rightarrow> False | _ # text1 \<Rightarrow> match_loop re text1)"

declare match_loop.simps [simp del]

definition match_re :: "string \<Rightarrow> string \<Rightarrow> bool" where
  "match_re re text = (if re \<noteq> [] \<and> hd re = CHR ''^'' then matchhere (tl re) text else match_loop re text)"

section \<open>What a pattern denotes\<close>

text \<open>
  A pattern is a sequence of single characters and starred characters, where a dot stands for every
  character, possibly followed by the end anchor.
\<close>

datatype item = One char | Many char

definition accepts :: "char \<Rightarrow> char \<Rightarrow> bool" where
  "accepts c x \<longleftrightarrow> c = CHR ''.'' \<or> c = x"

fun items :: "string \<Rightarrow> item list \<times> bool" where
  "items [] = ([], False)"
| "items [c] = (if c = CHR ''$'' then ([], True) else ([One c], False))"
| "items (c # d # re) =
     (if d = CHR ''*'' then (let (is, e) = items re in (Many c # is, e))
      else (let (is, e) = items (d # re) in (One c # is, e)))"

fun item_lang :: "item \<Rightarrow> string set" where
  "item_lang (One c) = {[x] | x. accepts c x}"
| "item_lang (Many c) = {xs. \<forall>x\<in>set xs. accepts c x}"

primrec lang :: "item list \<Rightarrow> string set" where
  "lang [] = {[]}"
| "lang (i # is) = {u @ v | u v. u \<in> item_lang i \<and> v \<in> lang is}"

text \<open>The text has a prefix in the language, which is the whole text under the end anchor.\<close>

definition here :: "item list \<times> bool \<Rightarrow> string \<Rightarrow> bool" where
  "here p text \<longleftrightarrow> (\<exists>u v. text = u @ v \<and> u \<in> lang (fst p) \<and> (snd p \<longrightarrow> v = []))"

definition denotes :: "string \<Rightarrow> string \<Rightarrow> bool" where
  "denotes re text \<longleftrightarrow>
     (if re \<noteq> [] \<and> hd re = CHR ''^'' then here (items (tl re)) text
      else \<exists>u v. text = u @ v \<and> here (items re) v)"

lemma here_Nil [simp]: "here ([], e) text \<longleftrightarrow> e \<longrightarrow> text = []"
  by (auto simp: here_def)

lemma langI: "u \<in> item_lang i \<Longrightarrow> v \<in> lang is \<Longrightarrow> u @ v \<in> lang (i # is)"
  by auto

lemma langE:
  assumes "w \<in> lang (i # is)"
  obtains u v where "w = u @ v" "u \<in> item_lang i" "v \<in> lang is"
  using assms by auto

lemma hereI: "text = u @ v \<Longrightarrow> u \<in> lang is \<Longrightarrow> (e \<Longrightarrow> v = []) \<Longrightarrow> here (is, e) text"
  by (auto simp: here_def)

lemma hereE:
  assumes "here (is, e) text"
  obtains u v where "text = u @ v" "u \<in> lang is" "e \<longrightarrow> v = []"
  using assms unfolding here_def by auto

lemma here_One: "here (One c # is, e) text \<longleftrightarrow> (\<exists>x t. text = x # t \<and> accepts c x \<and> here (is, e) t)"
  (is "?l = ?r")
proof
  assume ?l
  then obtain u w where t: "text = u @ w" "u \<in> lang (One c # is)" "e \<longrightarrow> w = []" by (rule hereE)
  from t(2) obtain x v where "u = [x] @ v" "accepts c x" "v \<in> lang is" by (elim langE) auto
  then show ?r using t by (auto intro: hereI)
next
  assume ?r
  then obtain x t where x: "text = x # t" "accepts c x" "here (is, e) t" by blast
  from x(3) obtain v w where t: "t = v @ w" "v \<in> lang is" "e \<longrightarrow> w = []" by (rule hereE)
  then have "[x] @ v \<in> lang (One c # is)" using x by (intro langI) auto
  then show ?l by (rule hereI [rotated]) (use t x in auto)
qed

lemma here_Many:
  "here (Many c # is, e) text \<longleftrightarrow> here (is, e) text \<or> (\<exists>x t. text = x # t \<and> accepts c x \<and> here (Many c # is, e) t)"
  (is "?l = (?a \<or> ?b)")
proof
  assume ?l
  then obtain z w where z: "text = z @ w" "z \<in> lang (Many c # is)" "e \<longrightarrow> w = []" by (rule hereE)
  from z(2) obtain u v where u: "z = u @ v" "\<forall>x\<in>set u. accepts c x" "v \<in> lang is" by (elim langE) simp
  show "?a \<or> ?b"
  proof (cases u)
    case Nil
    then show ?thesis using z u by (auto intro: hereI)
  next
    case (Cons x u')
    then have "u' @ v \<in> lang (Many c # is)" using u by (intro langI) auto
    then have "here (Many c # is, e) ((u' @ v) @ w)" by (rule hereI [OF refl]) (use z(3) in auto)
    then show ?thesis using Cons z u by auto
  qed
next
  assume "?a \<or> ?b"
  then show ?l
  proof
    assume ?a
    then obtain v w where t: "text = v @ w" "v \<in> lang is" "e \<longrightarrow> w = []" by (rule hereE)
    then have "[] @ v \<in> lang (Many c # is)" by (intro langI) auto
    then show ?l by (rule hereI [rotated]) (use t in auto)
  next
    assume ?b
    then obtain x t where x: "text = x # t" "accepts c x" "here (Many c # is, e) t" by blast
    from x(3) obtain z w where z: "t = z @ w" "z \<in> lang (Many c # is)" "e \<longrightarrow> w = []" by (rule hereE)
    from z(2) obtain u v where u: "z = u @ v" "\<forall>x\<in>set u. accepts c x" "v \<in> lang is" by (elim langE) simp
    have "(x # u) @ v \<in> lang (Many c # is)" using u x(2) by (intro langI) auto
    then show ?l by (rule hereI [rotated]) (use x z u in auto)
  qed
qed

lemma matchhere_eqs:
  "matchhere [] s"
  "matchhere [c] s \<longleftrightarrow> (if c = CHR ''$'' then s = [] else s \<noteq> [] \<and> accepts c (hd s))"
  "matchhere (c # d # re) s \<longleftrightarrow>
     (if d = CHR ''*'' then matchstar c re s else s \<noteq> [] \<and> accepts c (hd s) \<and> matchhere (d # re) (tl s))"
  by (subst matchhere.simps; auto simp: accepts_def matchhere.simps [of "[]"])+

lemma matchstar_eqs:
  "matchstar c re [] \<longleftrightarrow> matchhere re []"
  "matchstar c re (x # s) \<longleftrightarrow> matchhere re (x # s) \<or> accepts c x \<and> matchstar c re s"
  by (subst matchstar.simps; auto simp: accepts_def)+

text \<open>For the star, the pattern after it is already known to be matched correctly.\<close>

lemma matchstar_correct:
  assumes "\<And>s. matchhere re s \<longleftrightarrow> here (items re) s"
  shows "matchstar c re s \<longleftrightarrow> here (Many c # fst (items re), snd (items re)) s"
  by (induction s) (subst here_Many, simp add: matchstar_eqs assms)+

lemma matcher_correct: "matchhere re s \<longleftrightarrow> here (items re) s"
proof (induction re arbitrary: s rule: items.induct)
  case (2 c)
  show ?case by (cases s) (auto simp: matchhere_eqs here_One)
next
  case (3 c d re)
  show ?case
  proof (cases "d = CHR ''*''")
    case True
    then show ?thesis using matchstar_correct [OF 3(1) [OF True]] by (simp add: matchhere_eqs split: prod.splits)
  next
    case False
    then show ?thesis using 3(2) by (cases s) (auto simp: matchhere_eqs here_One split: prod.splits)
  qed
qed (simp add: matchhere_eqs)

lemma ex_suffix_Cons: "(\<exists>u v. x # s = u @ v \<and> P v) \<longleftrightarrow> P (x # s) \<or> (\<exists>u v. s = u @ v \<and> P v)"
  by (auto simp: Cons_eq_append_conv)

lemma match_loop_correct: "match_loop re s \<longleftrightarrow> (\<exists>u v. s = u @ v \<and> here (items re) v)"
  by (induction s) (subst match_loop.simps, simp add: matcher_correct ex_suffix_Cons)+

lemma match_correct: "match_re re s \<longleftrightarrow> denotes re s"
  by (simp add: match_re_def denotes_def matcher_correct match_loop_correct)

section \<open>The reading loop\<close>

text \<open>
  The buffer holds the bytes read, terminated by a NUL.  \<open>strchr_nl\<close> is \<^verbatim>\<open>strchr(p, '\n')\<close>: the
  index of the first newline, if it comes before the first NUL.  \<open>grep_lines\<close> is the inner loop over
  the lines of the buffer; it returns what it wrote and the rest of the buffer from \<^verbatim>\<open>p\<close> on.
  \<open>grep\<close> reads from a file with the contents \<open>data\<close>: the \<open>i\<close>-th call of \<^verbatim>\<open>read\<close> returns as many
  bytes as it is asked for and there are, but at most \<open>lim i\<close> (for a regular file there is no such limit; a pipe or
  the console may return less).  \<open>kept\<close> is the first \<^verbatim>\<open>m\<close> bytes of the buffer of 1024 bytes.
\<close>

fun strchr_nl :: "string \<Rightarrow> nat option" where
  "strchr_nl [] = None"
| "strchr_nl (c # p) =
     (if c = CHR 0x00 then None else if c = CHR 0x0A then Some 0 else map_option Suc (strchr_nl p))"

lemma strchr_nl_less: "strchr_nl p = Some i \<Longrightarrow> i < length p"
  by (induction p arbitrary: i) (auto split: if_splits)

function grep_lines :: "string \<Rightarrow> string \<Rightarrow> string \<times> string" where
  "grep_lines pat p =
     (case strchr_nl p of
        None \<Rightarrow> ([], p)
      | Some i \<Rightarrow>
          let (out, rest) = grep_lines pat (drop (Suc i) p)
          in ((if match_re pat (take i p) then take (Suc i) p else []) @ out, rest))"
  by pat_completeness auto
termination
  by (relation "measure (\<lambda>(pat, p). length p)") (auto dest: strchr_nl_less)

declare grep_lines.simps [simp del]

function grep :: "string \<Rightarrow> (nat \<Rightarrow> nat) \<Rightarrow> string \<Rightarrow> string \<Rightarrow> string" where
  "grep pat lim kept data =
     (let n = min (1024 - length kept - 1) (lim 0); r = take n data in
      if r = [] then []
      else
        let b = kept @ r; (out, rest) = grep_lines pat b;
            kept1 = (if length rest = length b then [] else rest)
        in out @ grep pat (\<lambda>i. lim (Suc i)) kept1 (drop n data))"
  by pat_completeness auto
termination
  by (relation "measure (\<lambda>(pat, lim, kept, data). length data)") auto

declare grep.simps [simp del]

text \<open>The complete lines of an input, and what is left after the last newline.\<close>

fun split_lines :: "string \<Rightarrow> string \<Rightarrow> string list \<times> string" where
  "split_lines l [] = ([], l)"
| "split_lines l (c # s) =
     (if c = CHR 0x0A then (let (ls, r) = split_lines [] s in (l # ls, r)) else split_lines (l @ [c]) s)"

definition print_lines :: "string \<Rightarrow> string list \<Rightarrow> string" where
  "print_lines pat ls = concat (map (\<lambda>l. l @ [CHR 0x0A]) (filter (denotes pat) ls))"

lemma print_lines_simps [simp]:
  "print_lines pat [] = []"
  "print_lines pat (l # ls) = (if denotes pat l then l @ [CHR 0x0A] else []) @ print_lines pat ls"
  "print_lines pat (ls @ ls') = print_lines pat ls @ print_lines pat ls'"
  by (simp_all add: print_lines_def)

lemma split_lines_append:
  "split_lines l (s @ s') = (let (ls, r) = split_lines l s; (ls', r') = split_lines r s' in (ls @ ls', r'))"
  by (induction l s rule: split_lines.induct) (auto split: prod.splits)

lemma split_lines_no_newline: "CHR 0x0A \<notin> set s \<Longrightarrow> split_lines l s = ([], l @ s)"
  by (induction l s rule: split_lines.induct) auto

lemma split_lines_rest:
  "CHR 0x0A \<in> set s \<Longrightarrow> split_lines l s = (ls, r) \<Longrightarrow> length r < length s \<and> CHR 0x0A \<notin> set r"
proof (induction l s arbitrary: ls rule: split_lines.induct)
  case (2 l c s)
  then show ?case
    by (cases "CHR 0x0A \<in> set s") (auto simp: split_lines_no_newline split: if_splits prod.splits)
qed simp

lemma split_lines_set: "split_lines l s = (ls, r) \<Longrightarrow> set r \<subseteq> set l \<union> set s"
  by (induction l s arbitrary: ls rule: split_lines.induct) (fastforce split: if_splits prod.splits)+

lemma strchr_nl_split:
  assumes "CHR 0x00 \<notin> set p"
  shows "strchr_nl p = None \<Longrightarrow> CHR 0x0A \<notin> set p"
    "strchr_nl p = Some i \<Longrightarrow> CHR 0x0A \<notin> set (take i p) \<and> p ! i = CHR 0x0A"
  using assms by (induction p arbitrary: i) (auto split: if_splits)

lemma grep_lines_split:
  "CHR 0x00 \<notin> set p \<Longrightarrow> grep_lines pat p = (let (ls, r) = split_lines [] p in (print_lines pat ls, r))"
proof (induction pat p rule: grep_lines.induct)
  case (1 pat p)
  show ?case
  proof (cases "strchr_nl p")
    case None
    then show ?thesis
      using strchr_nl_split(1) [OF 1(2)] by (subst grep_lines.simps) (simp add: split_lines_no_newline)
  next
    case (Some i)
    define l r where "l = take i p" and "r = drop (Suc i) p"
    have p: "p = l @ CHR 0x0A # r" "CHR 0x0A \<notin> set l" "take (Suc i) p = l @ [CHR 0x0A]"
      using strchr_nl_split(2) [OF 1(2) Some] strchr_nl_less [OF Some] id_take_nth_drop [of i p] by (simp_all add: l_def r_def take_Suc_conv_app_nth)
    have "split_lines [] p = (let (ls, r') = split_lines [] r in (l # ls, r'))"
      by (subst p) (simp add: split_lines_append split_lines_no_newline p(2))
    moreover have "grep_lines pat r = (let (ls, r) = split_lines [] r in (print_lines pat ls, r))"
      using 1(1) [OF Some, folded r_def] 1(2) in_set_dropD [of _ "Suc i" p] unfolding r_def by blast
    ultimately show ?thesis
      using Some p(3) by (subst grep_lines.simps) (simp add: match_correct l_def [symmetric] r_def [symmetric] split: prod.splits)
  qed
qed

lemma grep_step:
  assumes "CHR 0x00 \<notin> set kept" "CHR 0x00 \<notin> set data" "n = min (1023 - length kept) (lim 0)" "0 < n" "data \<noteq> []"
    and "split_lines [] (kept @ take n data) = (ls, k)"
  shows "grep pat lim kept data = print_lines pat ls @
    grep pat (\<lambda>i. lim (Suc i)) (if CHR 0x0A \<in> set (kept @ take n data) then k else []) (drop n data)"
proof -
  have z: "CHR 0x00 \<notin> set (kept @ take n data)" using assms(1,2) in_set_takeD [of _ n data] by auto
  have g: "grep_lines pat (kept @ take n data) = (print_lines pat ls, k)" using grep_lines_split [OF z, of pat] assms(6) by simp
  have k: "length k = length (kept @ take n data) \<longleftrightarrow> CHR 0x0A \<notin> set (kept @ take n data)"
    using split_lines_rest [OF _ assms(6)] split_lines_no_newline [of "kept @ take n data" "[]"] assms(6) by auto
  have n: "min (1024 - length kept - 1) (lim 0) = n" using assms(3) by simp
  show ?thesis
    unfolding grep.simps [of pat lim kept data] n Let_def g prod.case k using assms(4,5) by simp
qed

lemma grep_no_newline:
  "CHR 0x0A \<notin> set kept \<Longrightarrow> CHR 0x0A \<notin> set data \<Longrightarrow> CHR 0x00 \<notin> set kept \<Longrightarrow> CHR 0x00 \<notin> set data \<Longrightarrow> grep pat lim kept data = []"
proof (induction "length data" arbitrary: lim kept data rule: less_induct)
  case less
  define n where "n = min (1023 - length kept) (lim 0)"
  show ?case
  proof (cases "0 < n \<and> data \<noteq> []")
    case True
    have nl: "CHR 0x0A \<notin> set (kept @ take n data)" using less.prems in_set_takeD [of _ n data] by auto
    have "grep pat (\<lambda>i. lim (Suc i)) [] (drop n data) = []"
      using True less.prems in_set_dropD [of _ n data] by (intro less.hyps) auto
    moreover have "grep pat lim kept data = print_lines pat [] @ grep pat (\<lambda>i. lim (Suc i)) [] (drop n data)"
      using grep_step [where lim = lim and pat = pat, OF less.prems(3,4) n_def] True split_lines_no_newline [OF nl, of "[]"] nl by simp
    ultimately show ?thesis by simp
  qed (subst grep.simps, auto simp: n_def)
qed

text \<open>A regular file whose lines fit the buffer: nothing is ever dropped.\<close>

lemma short_line_in_buffer:
  assumes "\<forall>l\<in>set (fst (split_lines [] (b @ rest))). length l < length b" "CHR 0x0A \<in> set (b @ rest)"
  shows "CHR 0x0A \<in> set b"
proof (rule ccontr)
  assume nb: "CHR 0x0A \<notin> set b"
  then obtain u v where rest: "rest = u @ CHR 0x0A # v" "CHR 0x0A \<notin> set u" using assms(2) split_list_first [of "CHR 0x0A" rest] by auto
  then have "split_lines [] (b @ rest) = (let (ls, r) = split_lines [] v in ((b @ u) # ls, r))"
    by (simp add: split_lines_append split_lines_no_newline nb)
  then show False using assms(1) by (auto split: prod.splits)
qed

lemma grep_file:
  assumes "CHR 0x00 \<notin> set data" "CHR 0x00 \<notin> set kept" "CHR 0x0A \<notin> set kept" "length kept < 1023"
    and "\<forall>l\<in>set (fst (split_lines kept data)). length l < 1023"
  shows "grep pat (\<lambda>_. 1023) kept data = print_lines pat (fst (split_lines kept data))"
  using assms
proof (induction "length data" arbitrary: kept data rule: less_induct)
  case less
  define n where "n = min (1023 - length kept) 1023"
  have n: "n = 1023 - length kept" "0 < n" using less.prems(4) by (auto simp: n_def)
  have sp: "split_lines kept data = split_lines [] (kept @ data)" using less.prems(3) by (simp add: split_lines_append split_lines_no_newline)
  let ?b = "kept @ take n data"
  obtain ls k where k: "split_lines [] ?b = (ls, k)" by force
  have cat: "kept @ data = ?b @ drop n data" by simp
  have rest: "split_lines [] (kept @ data) = (let (ls', r') = split_lines k (drop n data) in (ls @ ls', r'))"
    unfolding cat by (simp only: split_lines_append [of "[]" ?b] k Let_def prod.case)
  consider "data = []" | "CHR 0x0A \<notin> set data" "data \<noteq> []" | "CHR 0x0A \<in> set data" "data \<noteq> []" by auto
  then show ?case
  proof cases
    case 1
    then show ?thesis by (subst grep.simps) simp
  next
    case 2
    then show ?thesis using grep_no_newline [of kept data pat "\<lambda>_. 1023"] less.prems by (simp add: split_lines_no_newline)
  next
    case 3
    have nl: "CHR 0x0A \<in> set ?b"
    proof (cases "length data \<le> n")
      case False
      then have "length ?b = 1023" using n less.prems(4) by simp
      then show ?thesis using short_line_in_buffer [of ?b "drop n data"] less.prems(5) 3(1) sp cat by (metis UnCI set_append)
    qed (use 3 in simp)
    have st: "grep pat (\<lambda>_. 1023) kept data = print_lines pat ls @ grep pat (\<lambda>_. 1023) k (drop n data)"
      using grep_step [where lim = "\<lambda>_. 1023" and pat = pat and ls = ls and k = k and n = n, OF less.prems(2,1)] n_def n(2) 3(2) k nl by simp
    have kn: "length k < length ?b" "CHR 0x0A \<notin> set k" using split_lines_rest [OF nl k] by auto
    then have kl: "length k < 1023" using n less.prems(4) by simp
    have kz: "CHR 0x00 \<notin> set k" "CHR 0x00 \<notin> set (drop n data)"
      using split_lines_set [OF k] less.prems in_set_takeD [of _ n data] in_set_dropD [of _ n data] by auto
    have "grep pat (\<lambda>_. 1023) k (drop n data) = print_lines pat (fst (split_lines k (drop n data)))"
    proof (rule less.hyps [OF _ kz(2,1) kn(2) kl])
      show "length (drop n data) < length data" using n(2) 3(2) by simp
      show "\<forall>l\<in>set (fst (split_lines k (drop n data))). length l < 1023" using less.prems(5) rest sp by (auto split: prod.splits)
    qed
    then show ?thesis using st rest sp by (simp split: prod.splits)
  qed
qed

end
