(* ===== verification/Ulib.thy ===== *)
theory Ulib
  imports Xv6_Prelude
begin

text \<open>
  The library of the user programs (\<^verbatim>\<open>ulib.c\<close>, \<^verbatim>\<open>printf.c\<close>).  A C string is the list of its characters before
  the terminating NUL; a pointer into a string is the list of the characters from there on, and a null
  pointer is \<open>None\<close>.  A buffer that is written by index is the list of its cells; writing outside it is
  undefined.  Reading a NUL through a pointer is reading the empty list, so no string holds the
  character NUL.
\<close>

abbreviation NUL :: char where "NUL \<equiv> CHR 0x00"
abbreviation NL :: char where "NL \<equiv> CHR 0x0A"

section \<open>Strings\<close>

text \<open>Stores of a C program into a buffer.\<close>

definition put :: "nat \<Rightarrow> char \<Rightarrow> string \<Rightarrow> string result" where
  "put i c buf = (if i < length buf then Ok (buf[i := c]) else UB ''store'')"

text \<open>The string that starts at an index of a buffer.\<close>

definition cstr :: "string \<Rightarrow> nat \<Rightarrow> string" where
  "cstr buf i = takeWhile (\<lambda>c. c \<noteq> NUL) (drop i buf)"

fun strcpy :: "string \<Rightarrow> nat \<Rightarrow> string \<Rightarrow> string result" where
  "strcpy buf i [] = put i NUL buf"
| "strcpy buf i (c # t) = bindr (put i c buf) (\<lambda>buf1. strcpy buf1 (Suc i) t)"

fun strcmp :: "string \<Rightarrow> string \<Rightarrow> int" where
  "strcmp [] [] = 0"
| "strcmp [] (b # q) = - of_char b"
| "strcmp (a # p) [] = of_char a"
| "strcmp (a # p) (b # q) = (if a = b then strcmp p q else of_char a - of_char b)"

primrec u_strlen :: "string \<Rightarrow> nat" where
  "u_strlen [] = 0"
| "u_strlen (c # s) = u_strlen s + 1"

primrec strchr :: "string \<Rightarrow> char \<Rightarrow> string option" where
  "strchr [] c = None"
| "strchr (d # s) c = (if d = c then Some (d # s) else strchr s c)"

text \<open>
  \<open>gets nmax input\<close>: the characters \<^verbatim>\<open>gets\<close> stores before the final NUL when descriptor 0 delivers \<open>input\<close> and
  then nothing, and the input that is left.
\<close>

fun gets_from :: "nat \<Rightarrow> nat \<Rightarrow> string \<Rightarrow> string \<times> string" where
  "gets_from nmax i [] = ([], [])"
| "gets_from nmax i (c # input) =
     (if \<not> i + 1 < nmax then ([], c # input)
      else if c = NL \<or> c = CHR 0x0D then ([c], input)
      else let (s, rest) = gets_from nmax (i + 1) input in (c # s, rest))"

definition gets :: "nat \<Rightarrow> string \<Rightarrow> string \<times> string" where
  "gets nmax input = gets_from nmax 0 input"

text \<open>\<^verbatim>\<open>atoi\<close> computes in 32 bits.\<close>

primrec atoi_from :: "u32 \<Rightarrow> string \<Rightarrow> u32" where
  "atoi_from n [] = n"
| "atoi_from n (c # s) =
     (if 48 \<le> (of_char c :: nat) \<and> (of_char c :: nat) \<le> 57 then atoi_from (n * 10 + of_nat (of_char c) - 48) s else n)"

definition atoi :: "string \<Rightarrow> u32" where
  "atoi s = atoi_from 0 s"

text \<open>\<^verbatim>\<open>memset\<close> and \<^verbatim>\<open>memmove\<close> on the cells of a buffer; \<^verbatim>\<open>memmove\<close> copies upwards, whatever the order of its areas.\<close>

primrec memset_at :: "string \<Rightarrow> nat \<Rightarrow> char \<Rightarrow> nat \<Rightarrow> string result" where
  "memset_at buf d c 0 = Ok buf"
| "memset_at buf d c (Suc n) = bindr (put d c buf) (\<lambda>buf1. memset_at buf1 (Suc d) c n)"

primrec memmove_at :: "string \<Rightarrow> nat \<Rightarrow> nat \<Rightarrow> nat \<Rightarrow> string result" where
  "memmove_at buf d s 0 = Ok buf"
| "memmove_at buf d s (Suc n) =
     (if s < length buf then bindr (put d (buf ! s) buf) (\<lambda>buf1. memmove_at buf1 (Suc d) (Suc s) n) else UB ''load'')"

section \<open>Formatted output\<close>

definition u_digits :: string where
  "u_digits = ''0123456789ABCDEF''"

text \<open>The digits of \<open>x\<close>, least significant first, as the loop stores them.\<close>

function u_printint_digits :: "u32 \<Rightarrow> u32 \<Rightarrow> string" where
  "u_printint_digits x base =
     (if base < 2 then [] else
      let c = u_digits ! unat (x mod base); x' = x div base
      in if x' \<noteq> 0 then c # u_printint_digits x' base else [c])"
  by pat_completeness auto
termination
proof (relation "measure (\<lambda>(x, b). unat x)")
  fix x base :: u32 and x' c
  assume b: "\<not> base < 2" and x': "x' = x div base" "x' \<noteq> 0"
  have "1 < unat base" using b by (simp add: word_less_nat_alt)
  moreover have "unat x \<noteq> 0" using x' by (auto simp: unat_eq_0)
  ultimately have "unat x div unat base < unat x" by simp
  then show "((x', base), x, base) \<in> measure (\<lambda>(x, b). unat x)" by (simp add: x' unat_div_distrib)
qed simp

declare u_printint_digits.simps [simp del]

definition u_printint :: "u32 \<Rightarrow> u32 \<Rightarrow> bool \<Rightarrow> string" where
  "u_printint xx base sg =
     (let neg = sg \<and> sint xx < 0;
          x = (if neg then - xx else xx);
          buf = u_printint_digits x base @ (if neg then ''-'' else [])
      in rev buf)"

text \<open>
  The arguments of \<^verbatim>\<open>printf\<close>: words, and strings (or a null pointer).  A conversion that finds
  no argument of its kind reads a word that is not one.
\<close>

datatype uarg = UWord u32 | UStr "string option"

fun printf_from :: "bool \<Rightarrow> string \<Rightarrow> uarg list \<Rightarrow> string result" where
  "printf_from st [] args = Ok []"
| "printf_from False (c # fmt) args =
     (if c = CHR ''%'' then printf_from True fmt args
      else bindr (printf_from False fmt args) (\<lambda>out. Ok (c # out)))"
| "printf_from True (c # fmt) args =
     (if c = CHR ''d'' then
        (case args of UWord x # as \<Rightarrow> bindr (printf_from False fmt as) (\<lambda>out. Ok (u_printint x 10 True @ out))
         | _ \<Rightarrow> UB ''printf: argument'')
      else if c = CHR ''x'' \<or> c = CHR ''p'' then
        (case args of UWord x # as \<Rightarrow> bindr (printf_from False fmt as) (\<lambda>out. Ok (u_printint x 16 False @ out))
         | _ \<Rightarrow> UB ''printf: argument'')
      else if c = CHR ''s'' then
        (case args of UStr p # as \<Rightarrow> bindr (printf_from False fmt as)
           (\<lambda>out. Ok ((case p of None \<Rightarrow> ''(null)'' | Some s \<Rightarrow> s) @ out))
         | _ \<Rightarrow> UB ''printf: argument'')
      else if c = CHR ''c'' then
        (case args of UWord x # as \<Rightarrow> bindr (printf_from False fmt as) (\<lambda>out. Ok (char_of (unat x) # out))
         | _ \<Rightarrow> UB ''printf: argument'')
      else if c = CHR ''%'' then bindr (printf_from False fmt args) (\<lambda>out. Ok (c # out))
      else bindr (printf_from False fmt args) (\<lambda>out. Ok (CHR ''%'' # c # out)))"

definition printf :: "string \<Rightarrow> uarg list \<Rightarrow> string result" where
  "printf fmt args = printf_from False fmt args"

section \<open>Facts\<close>

lemma strchr_iff: "strchr s c = None \<longleftrightarrow> c \<notin> set s"
  by (induction s) auto

lemma u_strlen_length [simp]: "u_strlen s = length s"
  by (induction s) simp_all

lemma of_char_nonzero: "c \<noteq> NUL \<Longrightarrow> (of_char c :: int) \<noteq> 0"
proof
  assume "c \<noteq> NUL" "(of_char c :: int) = 0"
  then have "(of_char c :: int) = of_char NUL" by simp
  then show False using \<open>c \<noteq> NUL\<close> by (simp only: of_char_eq_iff)
qed

lemma strcmp_eq: "NUL \<notin> set p \<Longrightarrow> NUL \<notin> set q \<Longrightarrow> strcmp p q = 0 \<longleftrightarrow> p = q"
  by (induction p q rule: strcmp.induct) (auto simp: of_char_nonzero [OF not_sym])

lemma gets_spec:
  "gets_from nmax i input = (s, rest) \<Longrightarrow> input = s @ rest \<and> (s \<noteq> [] \<longrightarrow> i + length s < nmax)"
  by (induction nmax i input arbitrary: s rule: gets_from.induct) (fastforce split: if_splits prod.splits)+

end
