(* ===== verification/Sh.thy ===== *)
theory Sh
  imports Ulib "HOL-Library.Sublist"
begin

text \<open>
  The shell (\<^verbatim>\<open>sh.c\<close>): its tokenizer and recursive-descent parser, the termination of the words of
  the line by NULs, and the system calls with which it runs a parsed command.  A pointer into the
  line is the list of the characters from there to the end, so that \<^verbatim>\<open>es\<close> is the empty list and the
  parser passes on the rest of the line.  A command is a tree over words; the parser builds it
  over pairs of the pointers \<^verbatim>\<open>q\<close> and \<^verbatim>\<open>eq\<close>, a running shell sees the strings.  Allocation of the nodes
  succeeds.
\<close>

section \<open>Commands and tokens\<close>

datatype 'a cmd =
    EXEC "'a list"
  | REDIR "'a cmd" 'a nat nat
  | PIPE "'a cmd" "'a cmd"
  | LIST "'a cmd" "'a cmd"
  | BACK "'a cmd"

type_synonym tok = "string \<times> string"

abbreviation MAXARGS :: nat where "MAXARGS \<equiv> 10"
abbreviation O_RDONLY :: nat where "O_RDONLY \<equiv> 0"
abbreviation O_WRONLY_CREATE :: nat where "O_WRONLY_CREATE \<equiv> 0x201"

definition whitespace :: string where
  "whitespace = [CHR 0x20, CHR 0x09, CHR 0x0D, CHR 0x0A, CHR 0x0B]"

definition symbols :: string where
  "symbols = ''<|>&;()''"

definition skip :: "string \<Rightarrow> string" where
  "skip s = dropWhile (\<lambda>c. strchr whitespace c \<noteq> None) s"

definition word_char :: "char \<Rightarrow> bool" where
  "word_char c \<longleftrightarrow> strchr whitespace c = None \<and> strchr symbols c = None"

text \<open>The \<^verbatim>\<open>switch\<close> at the first character of a token: its kind and the pointer after it.\<close>

definition token_end :: "string \<Rightarrow> char \<times> string" where
  "token_end s =
     (case s of
        [] \<Rightarrow> (NUL, s)
      | c # s1 \<Rightarrow>
          if c \<in> {CHR ''|'', CHR ''('', CHR '')'', CHR '';'', CHR ''&'', CHR ''<''} then (c, s1)
          else if c = CHR ''>'' then
            (if s1 \<noteq> [] \<and> hd s1 = CHR ''>'' then (CHR ''+'', tl s1) else (c, s1))
          else (CHR ''a'', dropWhile word_char s))"

text \<open>The kind of the next token, the pointers \<^verbatim>\<open>q\<close> and \<^verbatim>\<open>eq\<close> around it, and the rest of the line.\<close>

definition gettoken :: "string \<Rightarrow> char \<times> string \<times> string \<times> string" where
  "gettoken ps = (let q = skip ps; (ret, eq) = token_end q in (ret, q, eq, skip eq))"

definition peek :: "string \<Rightarrow> string \<Rightarrow> bool \<times> string" where
  "peek ps toks = (let s = skip ps in (s \<noteq> [] \<and> strchr toks (hd s) \<noteq> None, s))"

lemma suffix_skip [simp]: "suffix (skip s) s"
  by (simp add: skip_def suffix_dropWhile)

lemma skip_skip [simp]: "skip (skip s) = skip s"
  unfolding skip_def by (rule dropWhile_idem)

lemma skip_Cons: "skip (c # s) = (if c \<in> set whitespace then skip s else c # s)"
  by (simp add: skip_def strchr_iff)

lemma word_char_iff: "word_char c \<longleftrightarrow> c \<notin> set whitespace \<and> c \<notin> set symbols"
  by (simp add: word_char_def strchr_iff)

lemma token_end_suffix:
  assumes "token_end q = (ret, eq)"
  shows "suffix eq q \<and> (skip q = q \<and> q \<noteq> [] \<longrightarrow> length eq < length q) \<and> (ret = NUL \<longrightarrow> q = [])"
proof (cases q)
  case (Cons c s1)
  have tl: "suffix (tl x) (a # x)" for x :: string and a by (metis suffix_ConsI suffix_tl)
  have dw: "suffix (dropWhile word_char s1) (c # s1)" "length (dropWhile word_char s1) < Suc (length s1)"
    by (simp_all add: suffix_ConsI suffix_dropWhile length_dropWhile_le less_Suc_eq_le)
  have "suffix eq q" using assms Cons tl dw(1) by (auto simp: token_end_def suffix_ConsI split: if_splits)
  moreover have "length eq < length q" if "skip q = q"
  proof -
    have "c \<notin> set whitespace" using that Cons skip_Cons [of c s1] suffix_length_le [OF suffix_skip [of s1]] by (auto split: if_splits)
    then show ?thesis using assms Cons dw(2) by (auto simp: token_end_def word_char_iff symbols_def split: if_splits)
  qed
  moreover have "q = []" if "ret = NUL" using assms Cons that by (auto simp: token_end_def split: if_splits)
  ultimately show ?thesis by blast
qed (use assms in \<open>auto simp: token_end_def\<close>)

lemma gettoken_suffix:
  assumes "gettoken ps = (ret, q, eq, s)"
  shows "suffix q ps" "suffix eq q" "suffix s eq" "suffix s ps" "ret \<noteq> NUL \<Longrightarrow> length s < length ps" "ret = NUL \<Longrightarrow> s = []"
proof -
  have g: "token_end q = (ret, eq)" "q = skip ps" "s = skip eq" using assms by (auto simp: gettoken_def Let_def split: prod.splits)
  show 1: "suffix q ps" "suffix eq q" "suffix s eq" using token_end_suffix [OF g(1)] g(2,3) by simp_all
  then show "suffix s ps" using suffix_order.trans by blast
  show "s = []" if "ret = NUL" using token_end_suffix [OF g(1)] that 1 by auto
  show "length s < length ps" if "ret \<noteq> NUL"
  proof -
    have "q \<noteq> []" using that g(1) by (auto simp: token_end_def)
    then have "length eq < length q" using token_end_suffix [OF g(1)] g(2) by simp
    then show ?thesis using suffix_length_le [OF 1(1)] suffix_length_le [OF 1(3)] by linarith
  qed
qed

lemma peek_skip: "peek ps toks = (b, s) \<Longrightarrow> s = skip ps"
  by (auto simp: peek_def Let_def)

lemma peek_gettoken:
  assumes "peek ps toks = (True, s)" "gettoken s = (ret, q, eq, s1)"
  shows "length s1 < length ps"
proof -
  have s: "s \<noteq> []" "s = skip ps" using assms(1) by (auto simp: peek_def Let_def)
  then have "ret \<noteq> NUL" using assms(2) token_end_suffix [of s ret eq] by (auto simp: gettoken_def Let_def split: prod.splits)
  then show ?thesis using gettoken_suffix(5) [OF assms(2)] s(2) suffix_length_le [OF suffix_skip [of ps]] by simp
qed

lemma peek_gettoken2:
  assumes "peek ps toks = (True, s)" "gettoken s = (ret, q, eq, s1)" "gettoken s1 = (ret2, q2, eq2, s2)"
  shows "length s2 < length ps"
  using peek_gettoken [OF assms(1,2)] suffix_length_le [OF gettoken_suffix(4) [OF assms(3)]] by simp

section \<open>The parser\<close>

text \<open>The node for the words is allocated first and filled while redirections are put around it.\<close>

primrec add_arg :: "'a \<Rightarrow> 'a cmd \<Rightarrow> 'a cmd" where
  "add_arg t (EXEC args) = EXEC (args @ [t])"
| "add_arg t (REDIR c f m fd) = REDIR (add_arg t c) f m fd"
| "add_arg t (PIPE a b) = PIPE a b"
| "add_arg t (LIST a b) = LIST a b"
| "add_arg t (BACK a) = BACK a"

function parseredirs :: "tok cmd \<Rightarrow> string \<Rightarrow> (tok cmd \<times> string) result" where
  "parseredirs cmd ps =
     (let (b, s) = peek ps ''<>'' in
      if \<not> b then Ok (cmd, s)
      else
        let (tk, _, _, s1) = gettoken s; (tk2, q, eq, s2) = gettoken s1 in
        if tk2 \<noteq> CHR ''a'' then Panic ''missing file for redirection''
        else parseredirs
          (if tk = CHR ''<'' then REDIR cmd (q, eq) O_RDONLY 0
           else if tk = CHR ''>'' then REDIR cmd (q, eq) O_WRONLY_CREATE 1
           else if tk = CHR ''+'' then REDIR cmd (q, eq) O_WRONLY_CREATE 1
           else cmd) s2)"
  by pat_completeness auto
termination
  by (relation "measure (\<lambda>(cmd, ps). length ps)") (simp, clarsimp, metis peek_gettoken2)

declare parseredirs.simps [simp del]

lemma parseredirs_suffix: "parseredirs cmd ps = Ok (c, s) \<Longrightarrow> suffix s ps"
proof (induction cmd ps rule: parseredirs.induct)
  case (1 cmd ps)
  obtain b s0 where p: "peek ps ''<>'' = (b, s0)" by force
  obtain tk q0 e0 s1 where g: "gettoken s0 = (tk, q0, e0, s1)" by (cases "gettoken s0") auto
  obtain tk2 q eq s2 where g2: "gettoken s1 = (tk2, q, eq, s2)" by (cases "gettoken s1") auto
  have s: "suffix s0 ps" "suffix s2 s0"
    using peek_skip [OF p] gettoken_suffix(4) [OF g] gettoken_suffix(4) [OF g2] suffix_order.trans by auto
  show ?case
  proof (cases b)
    case False
    then show ?thesis using 1(2) p s(1) by (simp add: parseredirs.simps [of cmd ps])
  next
    case True
    have "tk2 = CHR ''a''" using 1(2) True p g g2 by (simp add: parseredirs.simps [of cmd ps] split: if_splits)
    moreover from this have "suffix s s2"
      using 1(1) [OF p [symmetric] refl _ g [symmetric] refl refl refl g2 [symmetric] refl refl refl] 1(2) True p g g2 by (simp add: parseredirs.simps [of cmd ps])
    ultimately show ?thesis using s suffix_order.trans by blast
  qed
qed

lemma exec_shorter:
  assumes "peek ps toks = (b, s)" "gettoken s = (CHR ''a'', q, eq, s1)" "parseredirs c s1 = Ok (r, s2)"
  shows "length s2 < length ps"
  using gettoken_suffix(5) [OF assms(2)] suffix_length_le [OF parseredirs_suffix [OF assms(3)]] peek_skip [OF assms(1)]
    suffix_length_le [OF suffix_skip [of ps]] by simp

function exec_loop :: "tok cmd \<Rightarrow> nat \<Rightarrow> string \<Rightarrow> (tok cmd \<times> string) result" where
  "exec_loop ret argc ps =
     (let (b, s) = peek ps ''|)&;'' in
      if b then Ok (ret, s)
      else
        let (tk, q, eq, s1) = gettoken s in
        if tk = NUL then Ok (ret, s1)
        else if tk \<noteq> CHR ''a'' then Panic ''syntax''
        else if argc + 1 \<ge> MAXARGS then Panic ''too many args''
        else bindr (parseredirs (add_arg (q, eq) ret) s1) (\<lambda>(ret1, s2). exec_loop ret1 (argc + 1) s2))"
  by pat_completeness auto
termination
  by (relation "measure (\<lambda>(ret, argc, ps). length ps)") (simp, clarsimp, metis exec_shorter)

declare exec_loop.simps [simp del]

text \<open>The loop of \<^verbatim>\<open>parseline\<close> over trailing ampersands.\<close>

function back_loop :: "tok cmd \<Rightarrow> string \<Rightarrow> tok cmd \<times> string" where
  "back_loop cmd ps =
     (let (b, s) = peek ps ''&'' in
      if b then let (_, _, _, s1) = gettoken s in back_loop (BACK cmd) s1
      else (cmd, s))"
  by pat_completeness auto
termination
  by (relation "measure (\<lambda>(cmd, ps). length ps)") (simp, clarsimp, metis peek_gettoken)

declare back_loop.simps [simp del]

text \<open>
  The mutually recursive functions of the grammar.  Every call gets the fuel of its caller less one;
  four for each character of the rest of the line and four more are enough (\<open>parse_fine\<close> below).
\<close>

fun parseline :: "nat \<Rightarrow> string \<Rightarrow> (tok cmd \<times> string) result"
  and parsepipe :: "nat \<Rightarrow> string \<Rightarrow> (tok cmd \<times> string) result"
  and parseexec :: "nat \<Rightarrow> string \<Rightarrow> (tok cmd \<times> string) result"
  and parseblock :: "nat \<Rightarrow> string \<Rightarrow> (tok cmd \<times> string) result" where
  "parseline 0 ps = NoFuel"
| "parseline (Suc n) ps =
     bindr (parsepipe n ps) (\<lambda>(cmd, s).
     let (cmd1, s1) = back_loop cmd s; (b, s2) = peek s1 '';'' in
     if b then
       let (_, _, _, s3) = gettoken s2 in
       bindr (parseline n s3) (\<lambda>(right, s4). Ok (LIST cmd1 right, s4))
     else Ok (cmd1, s2))"
| "parsepipe 0 ps = NoFuel"
| "parsepipe (Suc n) ps =
     bindr (parseexec n ps) (\<lambda>(cmd, s).
     let (b, s1) = peek s ''|'' in
     if b then
       let (_, _, _, s2) = gettoken s1 in
       bindr (parsepipe n s2) (\<lambda>(right, s3). Ok (PIPE cmd right, s3))
     else Ok (cmd, s1))"
| "parseexec 0 ps = NoFuel"
| "parseexec (Suc n) ps =
     (let (b, s) = peek ps ''('' in
      if b then parseblock n s
      else bindr (parseredirs (EXEC []) s) (\<lambda>(ret, s1). exec_loop ret 0 s1))"
| "parseblock 0 ps = NoFuel"
| "parseblock (Suc n) ps =
     (let (b, s) = peek ps ''('' in
      if \<not> b then Panic ''parseblock''
      else
        let (_, _, _, s1) = gettoken s in
        bindr (parseline n s1) (\<lambda>(cmd, s2).
        let (b1, s3) = peek s2 '')'' in
        if \<not> b1 then Panic ''syntax - missing )''
        else let (_, _, _, s4) = gettoken s3 in parseredirs cmd s4))"

text \<open>\<open>nulterminate\<close> stores a NUL at the end of every word; the buffer holds the line and its NUL.\<close>

definition terminate_word :: "tok \<Rightarrow> string \<Rightarrow> string" where
  "terminate_word t buf = buf[length buf - 1 - length (snd t) := NUL]"

primrec nulterminate :: "tok cmd \<Rightarrow> string \<Rightarrow> string" where
  "nulterminate (EXEC args) buf = fold terminate_word args buf"
| "nulterminate (REDIR c f m fd) buf = terminate_word f (nulterminate c buf)"
| "nulterminate (PIPE a b) buf = nulterminate b (nulterminate a buf)"
| "nulterminate (LIST a b) buf = nulterminate b (nulterminate a buf)"
| "nulterminate (BACK a) buf = nulterminate a buf"

definition parsecmd :: "string \<Rightarrow> (tok cmd \<times> string) result" where
  "parsecmd line =
     bindr (parseline (4 * length line + 4) line) (\<lambda>(cmd, s).
     let (_, s1) = peek s [] in
     if s1 \<noteq> [] then Panic (''leftovers: '' @ s1 @ [NL] @ ''syntax'')
     else Ok (cmd, nulterminate cmd (line @ [NUL])))"

text \<open>A word as the running shell sees it: the string in the buffer at \<^verbatim>\<open>q\<close>.\<close>

definition word_at :: "string \<Rightarrow> tok \<Rightarrow> string" where
  "word_at buf t = cstr buf (length buf - 1 - length (fst t))"

section \<open>Running a command\<close>

text \<open>
  A program is a tree of system calls: what it does next depends on the result of the call.  \<open>Pipe\<close>
  also delivers the two descriptors.  \<^verbatim>\<open>exit\<close> and a successful \<^verbatim>\<open>exec\<close> do not return.
\<close>

datatype call = Exit | Fork | Wait | Close int | Dup int | Open string nat | Exec string "string list" | Write int string | Chdir string

datatype prog = Stop | Sys call "int \<Rightarrow> prog" | Pipe "int \<Rightarrow> int \<Rightarrow> int \<Rightarrow> prog"

primrec print_to :: "int \<Rightarrow> string \<Rightarrow> prog \<Rightarrow> prog" where
  "print_to fd [] k = k"
| "print_to fd (c # s) k = Sys (Write fd [c]) (\<lambda>_. print_to fd s k)"

abbreviation exit_prog :: prog where "exit_prog \<equiv> Sys Exit (\<lambda>_. Stop)"

definition sh_panic :: "string \<Rightarrow> prog" where
  "sh_panic m = print_to 2 (m @ [NL]) exit_prog"

definition fork1 :: "(int \<Rightarrow> prog) \<Rightarrow> prog" where
  "fork1 k = Sys Fork (\<lambda>pid. if pid = -1 then sh_panic ''fork'' else k pid)"

primrec runcmd :: "string cmd \<Rightarrow> prog" where
  "runcmd (EXEC args) =
     (case args of
        [] \<Rightarrow> exit_prog
      | a # _ \<Rightarrow> Sys (Exec a args) (\<lambda>_. print_to 2 (''exec '' @ a @ '' failed'' @ [NL]) exit_prog))"
| "runcmd (REDIR c f m fd) =
     Sys (Close (int fd)) (\<lambda>_.
     Sys (Open f m) (\<lambda>r.
     if r < 0 then print_to 2 (''open '' @ f @ '' failed'' @ [NL]) exit_prog else runcmd c))"
| "runcmd (PIPE l r) =
     Pipe (\<lambda>st p0 p1.
     if st < 0 then sh_panic ''pipe''
     else fork1 (\<lambda>pid.
       if pid = 0 then
         Sys (Close 1) (\<lambda>_. Sys (Dup p1) (\<lambda>_. Sys (Close p0) (\<lambda>_. Sys (Close p1) (\<lambda>_. runcmd l))))
       else fork1 (\<lambda>pid.
         if pid = 0 then
           Sys (Close 0) (\<lambda>_. Sys (Dup p0) (\<lambda>_. Sys (Close p0) (\<lambda>_. Sys (Close p1) (\<lambda>_. runcmd r))))
         else Sys (Close p0) (\<lambda>_. Sys (Close p1) (\<lambda>_. Sys Wait (\<lambda>_. Sys Wait (\<lambda>_. exit_prog)))))))"
| "runcmd (LIST l r) = fork1 (\<lambda>pid. if pid = 0 then runcmd l else Sys Wait (\<lambda>_. runcmd r))"
| "runcmd (BACK c) = fork1 (\<lambda>pid. if pid = 0 then runcmd c else exit_prog)"

text \<open>\<open>getcmd\<close> prints the prompt; its line has at most 99 characters.  A line ends at its first NUL.\<close>

definition getcmd :: "string \<Rightarrow> string \<times> string" where
  "getcmd input = (let (line, rest) = gets 100 input in (cstr line 0, rest))"

lemma getcmd_shorter: "getcmd input = (line, rest) \<Longrightarrow> line \<noteq> [] \<Longrightarrow> length rest < length input"
  using gets_spec [of 100 0 input] by (fastforce simp: getcmd_def gets_def cstr_def Let_def split: prod.splits)

primrec open_console :: "nat \<Rightarrow> prog \<Rightarrow> prog" where
  "open_console 0 k = Stop"
| "open_console (Suc n) k =
     Sys (Open ''console'' 2) (\<lambda>fd.
     if fd < 0 then k else if fd \<ge> 3 then Sys (Close fd) (\<lambda>_. k) else open_console n k)"

function sh_loop :: "string \<Rightarrow> prog" where
  "sh_loop input =
     print_to 2 ''$ ''
       (let (line, rest) = getcmd input in
        if line = [] then exit_prog
        else if take 3 line = ''cd '' then
          (let dir = drop 3 (butlast line) in
           Sys (Chdir dir) (\<lambda>r. if r < 0 then print_to 2 (''cannot cd '' @ dir @ [NL]) (sh_loop rest) else sh_loop rest))
        else fork1 (\<lambda>pid.
          if pid = 0 then
            (case parsecmd line of
               Ok (cmd, buf) \<Rightarrow> runcmd (map_cmd (word_at buf) cmd)
             | Panic m \<Rightarrow> sh_panic m
             | _ \<Rightarrow> Stop)
          else Sys Wait (\<lambda>_. sh_loop rest)))"
  by pat_completeness auto
termination
  by (relation "measure length") (simp, (clarsimp, metis getcmd_shorter)+)

declare sh_loop.simps [simp del]

definition sh_main :: "string \<Rightarrow> prog" where
  "sh_main input = open_console 4 (sh_loop input)"

end
