(* ===== verification/Sh_Inv.thy ===== *)
theory Sh_Inv
  imports Sh
begin

text \<open>
  Facts about the shell: the parser always answers, the words of its result are exactly the words of
  the line, every command tree has a text that the parser reads back, and running a tree
  connects the descriptors of its commands.
\<close>

section \<open>The parser answers, with words of the line\<close>

definition is_word :: "string \<Rightarrow> bool" where
  "is_word w \<longleftrightarrow> w \<noteq> [] \<and> (\<forall>c\<in>set w. word_char c)"

definition is_token :: "string \<Rightarrow> tok \<Rightarrow> bool" where
  "is_token line t \<longleftrightarrow> suffix (fst t) line \<and>
     (\<exists>w. fst t = w @ snd t \<and> is_word w) \<and> (snd t = [] \<or> \<not> word_char (hd (snd t)))"

definition fine :: "string \<Rightarrow> string \<Rightarrow> (tok cmd \<times> string) result \<Rightarrow> bool" where
  "fine line s r \<longleftrightarrow>
     (case r of Ok (c, s') \<Rightarrow> suffix s' s \<and> (\<forall>t\<in>set_cmd c. is_token line t) | Panic _ \<Rightarrow> True | _ \<Rightarrow> False)"

lemma fine_simps [simp]:
  "fine line s (Ok (c, s')) \<longleftrightarrow> suffix s' s \<and> (\<forall>t\<in>set_cmd c. is_token line t)"
  "fine line s (Panic m)" "\<not> fine line s NoFuel"
  by (simp_all add: fine_def)

lemma fine_bind:
  assumes "fine line s r" "\<And>c s'. r = Ok (c, s') \<Longrightarrow> suffix s' s \<Longrightarrow> \<forall>t\<in>set_cmd c. is_token line t \<Longrightarrow> fine line s (f (c, s'))"
  shows "fine line s (bindr r f)"
  using assms by (auto simp: fine_def split: result.splits prod.splits)

lemma fine_mono: "fine line s r \<Longrightarrow> suffix s s0 \<Longrightarrow> fine line s0 r"
  by (auto simp: fine_def split: result.splits intro: suffix_order.trans)

lemma set_add_arg: "set_cmd (add_arg t c) \<subseteq> insert t (set_cmd c)"
  by (induction c) auto

lemma peek_suffix:
  assumes "peek ps toks = (b, s)" "gettoken s = (tk, q, eq, s1)"
  shows "suffix s ps" "suffix s1 ps"
proof -
  show "suffix s ps" using peek_skip [OF assms(1)] by simp
  with gettoken_suffix(4) [OF assms(2)] show "suffix s1 ps" by (rule suffix_order.trans)
qed

lemma gettoken_word:
  assumes "gettoken ps = (CHR ''a'', q, eq, s)" "suffix ps line"
  shows "is_token line (q, eq)"
proof -
  have g: "q = skip ps" "token_end q = (CHR ''a'', eq)" using assms(1) by (auto simp: gettoken_def Let_def split: prod.splits)
  then obtain c s1 where q: "q = c # s1" "eq = dropWhile word_char q" "c \<notin> set symbols"
    by (auto simp: token_end_def symbols_def split: list.splits if_splits)
  have "skip q = q" using g(1) by simp
  then have "c \<notin> set whitespace" using q(1) skip_Cons [of c s1] suffix_length_le [OF suffix_skip [of s1]] by (auto split: if_splits)
  then have "word_char c" using q(3) by (simp add: word_char_iff)
  then have "is_word (takeWhile word_char q)" using q(1) set_takeWhileD by (fastforce simp: is_word_def)
  moreover have "q = takeWhile word_char q @ eq" using q(2) by simp
  moreover have "eq = [] \<or> \<not> word_char (hd eq)" using q(2) hd_dropWhile by blast
  moreover have "suffix q line" using g(1) assms(2) suffix_skip suffix_order.trans by blast
  ultimately show ?thesis unfolding is_token_def by auto
qed

lemma parseredirs_fine:
  "\<forall>t\<in>set_cmd cmd. is_token line t \<Longrightarrow> suffix ps line \<Longrightarrow> fine line ps (parseredirs cmd ps)"
proof (induction cmd ps rule: parseredirs.induct)
  case (1 cmd ps)
  obtain b s0 where p: "peek ps ''<>'' = (b, s0)" by force
  obtain tk q0 e0 s1 where g: "gettoken s0 = (tk, q0, e0, s1)" by (cases "gettoken s0") auto
  obtain tk2 q eq s2 where g2: "gettoken s1 = (tk2, q, eq, s2)" by (cases "gettoken s1") auto
  have s: "suffix s0 ps" "suffix s1 ps" "suffix s2 ps"
    using peek_suffix [OF p g] suffix_order.trans [OF gettoken_suffix(4) [OF g2]] by simp_all
  show ?case
  proof (cases "b \<and> tk2 = CHR ''a''")
    case True
    let ?c = "if tk = CHR ''<'' then REDIR cmd (q, eq) O_RDONLY 0 else if tk = CHR ''>'' then REDIR cmd (q, eq) O_WRONLY_CREATE 1
           else if tk = CHR ''+'' then REDIR cmd (q, eq) O_WRONLY_CREATE 1 else cmd"
    have t: "is_token line (q, eq)" by (rule gettoken_word [OF _ suffix_order.trans [OF s(2) 1(3)]]) (use g2 True in simp)
    have "fine line s2 (parseredirs ?c s2)"
    proof (rule 1(1) [OF p [symmetric] refl _ g [symmetric] refl refl refl g2 [symmetric] refl refl refl])
      show "suffix s2 line" by (rule suffix_order.trans [OF s(3) 1(3)])
    qed (use True t 1(2) in auto)
    then show ?thesis using fine_mono [OF _ s(3)] True p g g2 by (simp add: parseredirs.simps [of cmd ps])
  next
    case False
    then show ?thesis using p g g2 s(1) 1(2) by (auto simp: parseredirs.simps [of cmd ps])
  qed
qed

lemma exec_loop_fine:
  "\<forall>t\<in>set_cmd ret. is_token line t \<Longrightarrow> suffix ps line \<Longrightarrow> fine line ps (exec_loop ret argc ps)"
proof (induction ret argc ps rule: exec_loop.induct)
  case (1 ret argc ps)
  obtain b s where p: "peek ps ''|)&;'' = (b, s)" by force
  obtain tk q eq s1 where g: "gettoken s = (tk, q, eq, s1)" by (cases "gettoken s") auto
  have s: "suffix s ps" "suffix s1 ps" using peek_suffix [OF p g] by simp_all
  show ?case
  proof (cases "\<not> b \<and> tk = CHR ''a'' \<and> argc + 1 < MAXARGS")
    case True
    have t: "is_token line (q, eq)" by (rule gettoken_word [OF _ suffix_order.trans [OF s(1) 1(3)]]) (use g True in simp)
    have ts: "\<forall>t\<in>set_cmd (add_arg (q, eq) ret). is_token line t" using set_add_arg [of "(q, eq)" ret] t 1(2) by auto
    have s1: "suffix s1 line" by (rule suffix_order.trans [OF s(2) 1(3)])
    have "fine line ps (bindr (parseredirs (add_arg (q, eq) ret) s1) (\<lambda>(ret1, s2). exec_loop ret1 (argc + 1) s2))"
    proof (rule fine_bind [OF fine_mono [OF parseredirs_fine [OF ts s1] s(2)]])
      fix c s' assume r: "parseredirs (add_arg (q, eq) ret) s1 = Ok (c, s')" "suffix s' ps" "\<forall>t\<in>set_cmd c. is_token line t"
      have "fine line s' (exec_loop c (argc + 1) s')"
        using 1(1) [OF p [symmetric] refl _ g [symmetric] refl refl refl _ _ _ r(1) refl r(3)] True suffix_order.trans [OF r(2) 1(3)] by simp
      then show "fine line ps ((\<lambda>(ret1, s2). exec_loop ret1 (argc + 1) s2) (c, s'))" using fine_mono r(2) by simp
    qed
    then show ?thesis using True p g by (simp add: exec_loop.simps [of ret argc ps])
  next
    case False
    then show ?thesis using p g s 1(2) by (auto simp: exec_loop.simps [of ret argc ps])
  qed
qed

lemma back_loop_fine:
  "\<forall>t\<in>set_cmd cmd. is_token line t \<Longrightarrow> back_loop cmd ps = (c, s) \<Longrightarrow> suffix s ps \<and> (\<forall>t\<in>set_cmd c. is_token line t)"
proof (induction cmd ps rule: back_loop.induct)
  case (1 cmd ps)
  obtain b s0 where p: "peek ps ''&'' = (b, s0)" by force
  obtain tk q0 e0 s1 where g: "gettoken s0 = (tk, q0, e0, s1)" by (cases "gettoken s0") auto
  have s: "suffix s0 ps" "suffix s1 ps" using peek_suffix [OF p g] by simp_all
  show ?case
  proof (cases b)
    case True
    then have "suffix s s1 \<and> (\<forall>t\<in>set_cmd c. is_token line t)"
      using 1(1) [OF p [symmetric] refl _ g [symmetric] refl refl refl] 1(2,3) p g by (simp add: back_loop.simps [of cmd ps])
    then show ?thesis using s(2) suffix_order.trans by blast
  qed (use 1(2,3) p s(1) in \<open>auto simp: back_loop.simps [of cmd ps]\<close>)
qed

lemma parse_fine:
  "suffix ps line \<Longrightarrow> 4 * length ps + 4 \<le> n \<Longrightarrow> fine line ps (parseline n ps)"
  "suffix ps line \<Longrightarrow> 4 * length ps + 3 \<le> n \<Longrightarrow> fine line ps (parsepipe n ps)"
  "suffix ps line \<Longrightarrow> 4 * length ps + 2 \<le> n \<Longrightarrow> fine line ps (parseexec n ps)"
  "suffix ps line \<Longrightarrow> 4 * length ps + 1 \<le> n \<Longrightarrow> fine line ps (parseblock n ps)"
proof (induction n ps and n ps and n ps and n ps rule: parseline_parsepipe_parseexec_parseblock.induct)
  case (2 n ps)
  show ?case unfolding parseline.simps
  proof (rule fine_bind)
    show "fine line ps (parsepipe n ps)" using 2 by simp
    fix c s assume r: "parsepipe n ps = Ok (c, s)" "suffix s ps" "\<forall>t\<in>set_cmd c. is_token line t"
    obtain c1 s1 where b: "back_loop c s = (c1, s1)" by force
    obtain b s2 where p: "peek s1 '';'' = (b, s2)" by force
    obtain tk q eq s3 where g: "gettoken s2 = (tk, q, eq, s3)" by (cases "gettoken s2") auto
    note B = back_loop_fine [OF r(3) b]
    have s: "suffix s2 ps" "suffix s3 ps" using peek_suffix [OF p g] B r(2) suffix_order.trans by metis+
    have "fine line ps (bindr (parseline n s3) (\<lambda>(right, s4). Ok (LIST c1 right, s4)))" if b
    proof (rule fine_bind [OF fine_mono [OF _ s(2)]])
      have "length s3 < length s1" by (rule peek_gettoken [OF _ g]) (use p that in simp)
      also have "length s1 \<le> length ps" using suffix_length_le [OF suffix_order.trans [OF conjunct1 [OF B] r(2)]] .
      finally show "fine line s3 (parseline n s3)" using 2(2) [OF r(1) refl b [symmetric] refl p [symmetric] refl that g [symmetric] refl refl refl]
        2(3,4) s(2) suffix_order.trans [of s3 ps line] by simp
    qed (use B in auto)
    then show "fine line ps (case (c, s) of (cmd, s) \<Rightarrow> let (cmd1, s1) = back_loop cmd s; (b, s2) = peek s1 '';'' in
        if b then let (_, _, _, s3) = gettoken s2 in bindr (parseline n s3) (\<lambda>(right, s4). Ok (LIST cmd1 right, s4)) else Ok (cmd1, s2))"
      using b p g B s by simp
  qed
next
  case (4 n ps)
  show ?case unfolding parsepipe.simps
  proof (rule fine_bind)
    show "fine line ps (parseexec n ps)" using 4 by simp
    fix c s assume r: "parseexec n ps = Ok (c, s)" "suffix s ps" "\<forall>t\<in>set_cmd c. is_token line t"
    obtain b s1 where p: "peek s ''|'' = (b, s1)" by force
    obtain tk q eq s2 where g: "gettoken s1 = (tk, q, eq, s2)" by (cases "gettoken s1") auto
    have s: "suffix s1 ps" "suffix s2 ps" using peek_suffix [OF p g] r(2) suffix_order.trans by metis+
    have "fine line ps (bindr (parsepipe n s2) (\<lambda>(right, s3). Ok (PIPE c right, s3)))" if b
    proof (rule fine_bind [OF fine_mono [OF _ s(2)]])
      have "length s2 < length s" by (rule peek_gettoken [OF _ g]) (use p that in simp)
      also have "length s \<le> length ps" using suffix_length_le [OF r(2)] .
      finally show "fine line s2 (parsepipe n s2)" using 4(2) [OF r(1) refl p [symmetric] refl that g [symmetric] refl refl refl]
        4(3,4) s(2) suffix_order.trans [of s2 ps line] by simp
    qed (use r in auto)
    then show "fine line ps (case (c, s) of (cmd, s) \<Rightarrow> let (b, s1) = peek s ''|'' in
        if b then let (_, _, _, s2) = gettoken s1 in bindr (parsepipe n s2) (\<lambda>(right, s3). Ok (PIPE cmd right, s3)) else Ok (cmd, s1))"
      using p g s r(3) by simp
  qed
next
  case (6 n ps)
  obtain b s where p: "peek ps ''('' = (b, s)" by force
  have s: "suffix s ps" "suffix s line" "length s \<le> length ps"
    using peek_skip [OF p] suffix_order.trans [OF suffix_skip [of ps] 6(2)] suffix_length_le [OF suffix_skip [of ps]] by simp_all
  show ?case
  proof (cases b)
    case True
    have "fine line s (parseblock n s)" using 6(1) [OF p [symmetric] refl True s(2)] s(3) 6(3) by simp
    then show ?thesis using fine_mono s(1) p True by simp
  next
    case False
    have "fine line ps (bindr (parseredirs (EXEC []) s) (\<lambda>(ret, s1). exec_loop ret 0 s1))"
    proof (rule fine_bind [OF fine_mono [OF parseredirs_fine [OF _ s(2)] s(1)]])
      fix c s' assume "suffix s' ps" "\<forall>t\<in>set_cmd c. is_token line t"
      then show "fine line ps ((\<lambda>(ret, s1). exec_loop ret 0 s1) (c, s'))"
        using fine_mono [OF exec_loop_fine] 6(2) suffix_order.trans by auto
    qed simp
    then show ?thesis using p False by simp
  qed
next
  case (8 n ps)
  obtain b s where p: "peek ps ''('' = (b, s)" by force
  obtain tk q eq s1 where g: "gettoken s = (tk, q, eq, s1)" by (cases "gettoken s") auto
  have s: "suffix s ps" "suffix s1 ps" using peek_suffix [OF p g] by simp_all
  let ?f = "\<lambda>(cmd, s2). let (b1, s3) = peek s2 '')'' in
        if \<not> b1 then Panic ''syntax - missing )'' else let (_, _, _, s4) = gettoken s3 in parseredirs cmd s4"
  have "fine line ps (bindr (parseline n s1) ?f)" if b
  proof (rule fine_bind [OF fine_mono [OF _ s(2)]])
    have "length s1 < length ps" by (rule peek_gettoken [OF _ g]) (use p that in simp)
    then show "fine line s1 (parseline n s1)" using 8(1) [OF p [symmetric] refl _ g [symmetric] refl refl refl] that 8(2,3) s(2) suffix_order.trans [of s1 ps line] by simp
    fix c s2 assume r: "suffix s2 ps" "\<forall>t\<in>set_cmd c. is_token line t"
    obtain b1 s3 where p1: "peek s2 '')'' = (b1, s3)" by force
    obtain tk1 q1 e1 s4 where g1: "gettoken s3 = (tk1, q1, e1, s4)" by (cases "gettoken s3") auto
    have s4: "suffix s4 ps" "suffix s4 line" using peek_suffix(2) [OF p1 g1] r(1) 8(2) suffix_order.trans by metis+
    show "fine line ps (?f (c, s2))" using p1 g1 fine_mono [OF parseredirs_fine [OF r(2) s4(2)] s4(1)] by simp
  qed
  then show ?case using p g by simp
qed simp_all

section \<open>Words after the stores of NULs\<close>

definition tok_text :: "tok \<Rightarrow> string" where
  "tok_text t = take (length (fst t) - length (snd t)) (fst t)"

lemma tok_text_append [simp]: "tok_text (w @ e, e) = w"
  by (simp add: tok_text_def)

lemma nulterminate_length [simp]: "length (terminate_word t buf) = length buf" "length (nulterminate c buf) = length buf"
proof -
  show tw: "length (terminate_word t buf) = length buf" for t buf by (simp add: terminate_word_def)
  then have f: "length (fold terminate_word ts buf) = length buf" for ts and buf :: string by (induction ts arbitrary: buf) simp_all
  show "length (nulterminate c buf) = length buf" by (induction c arbitrary: buf) (simp_all add: tw f)
qed

lemma terminate_word_nth:
  "i < length buf \<Longrightarrow> terminate_word t buf ! i = (if i = length buf - 1 - length (snd t) then NUL else buf ! i)"
  by (auto simp: terminate_word_def nth_list_update)

lemma nulterminate_nth:
  "i < length buf \<Longrightarrow> nulterminate c buf ! i = (if \<exists>t\<in>set_cmd c. i = length buf - 1 - length (snd t) then NUL else buf ! i)"
proof (induction c arbitrary: buf)
  case (EXEC ts)
  have "i < length buf \<Longrightarrow> fold terminate_word ts buf ! i = (if \<exists>t\<in>set ts. i = length buf - 1 - length (snd t) then NUL else buf ! i)" for ts and buf :: string
    by (induction ts arbitrary: buf) (auto simp: terminate_word_nth)
  then show ?case using EXEC by simp
qed (auto simp: terminate_word_nth)

lemma takeWhile_NUL: "NUL \<notin> set w \<Longrightarrow> takeWhile (\<lambda>c. c \<noteq> NUL) (w @ NUL # r) = w"
  by (induction w) auto

lemma suffix_nth: "suffix x line \<Longrightarrow> j < length x \<Longrightarrow> line ! (length line - length x + j) = x ! j"
  by (auto simp: suffix_def nth_append)

lemma word_at_token:
  assumes all: "\<forall>t\<in>set_cmd c. is_token line t" and t: "t \<in> set_cmd c" and nul: "NUL \<notin> set line"
  shows "word_at (nulterminate c (line @ [NUL])) t = tok_text t"
proof -
  let ?buf = "nulterminate c (line @ [NUL])" and ?L = "length line"
  obtain w where w: "fst t = w @ snd t" "is_word w" "suffix (fst t) line" using all t by (auto simp: is_token_def)
  define p where "p = ?L - length (fst t)"
  have le: "p + length w + length (snd t) = ?L" using suffix_length_le [OF w(3)] by (simp add: p_def w(1))
  have word: "?buf ! (p + j) = w ! j" if j: "j < length w" for j
  proof -
    have lj: "line ! (p + j) = w ! j" using suffix_nth [OF w(3), of j] j by (simp add: p_def w(1) nth_append)
    have "p + j \<noteq> ?L - length (snd t')" if t': "t' \<in> set_cmd c" for t'
    proof
      assume e: "p + j = ?L - length (snd t')"
      have s': "suffix (snd t') line" "snd t' = [] \<or> \<not> word_char (hd (snd t'))"
        using all t' by (auto simp: is_token_def suffix_def)
      have "p + j < ?L" using le j by simp
      then have ne: "snd t' \<noteq> []" using e by auto
      then have "line ! (p + j) = hd (snd t')" using suffix_nth [OF s'(1), of 0] e by (simp add: hd_conv_nth)
      moreover have "word_char (w ! j)" using w(2) j by (simp add: is_word_def)
      ultimately show False using s'(2) ne lj by simp
    qed
    then show ?thesis using nulterminate_nth [of "p + j" "line @ [NUL]" c] lj le j by (simp add: nth_append)
  qed
  have end_: "?buf ! (p + length w) = NUL" using nulterminate_nth [of "p + length w" "line @ [NUL]" c] t le by (auto simp: nth_append)
  have "take (Suc (length w)) (drop p ?buf) = w @ [NUL]"
    using le word end_ by (intro nth_equalityI) (auto simp: nth_append less_Suc_eq)
  then obtain r where d: "drop p ?buf = w @ NUL # r"
    using append_take_drop_id [of "Suc (length w)" "drop p ?buf"] by (metis append_Cons append_Nil append_assoc)
  have "NUL \<notin> set w" using w(1,3) nul by (auto simp: suffix_def)
  then have "cstr ?buf p = w" unfolding cstr_def d by (rule takeWhile_NUL)
  then show ?thesis by (simp add: word_at_def p_def tok_text_def w(1))
qed

lemma parsecmd_fine:
  assumes "parsecmd line = Ok (cmd, buf)" "NUL \<notin> set line"
  shows "\<forall>t\<in>set_cmd cmd. is_token line t" "map_cmd (word_at buf) cmd = map_cmd tok_text cmd"
proof -
  obtain s where p: "parseline (4 * length line + 4) line = Ok (cmd, s)" "buf = nulterminate cmd (line @ [NUL])"
    using assms(1) by (auto simp: parsecmd_def bindr_Ok_iff peek_def Let_def split: if_splits)
  show "\<forall>t\<in>set_cmd cmd. is_token line t" using parse_fine(1) [of line line "4 * length line + 4"] p(1) by simp
  then show "map_cmd (word_at buf) cmd = map_cmd tok_text cmd"
    using word_at_token [OF _ _ assms(2)] by (intro cmd.map_cong) (simp_all add: p(2))
qed

section \<open>Texts of commands\<close>

text \<open>
  A text for every command tree.  The level says where it stands: 0 a line, 1 an operand of the
  ampersand, 2 an operand to the right of a bar, 3 one to its left; a tree that the level does not
  allow is put in parentheses.
\<close>

definition paren :: "bool \<Rightarrow> string \<Rightarrow> string" where
  "paren b s = (if b then ''('' @ s @ '')'' else s)"

definition show_redir :: "string \<times> nat \<times> nat \<Rightarrow> string" where
  "show_redir r = (case r of (f, m, fd) \<Rightarrow> (if fd = 0 then ''<'' else ''>'') @ f @ '' '')"

definition show_words :: "string list \<Rightarrow> string" where
  "show_words ws = concat (map (\<lambda>w. w @ '' '') ws)"

primrec show_cmd :: "string cmd \<Rightarrow> nat \<Rightarrow> string" where
  "show_cmd (EXEC ws) l = show_words ws"
| "show_cmd (REDIR c f m fd) l = show_cmd c 3 @ show_redir (f, m, fd)"
| "show_cmd (PIPE a b) l = paren (2 < l) (show_cmd a 3 @ ''|'' @ show_cmd b 2)"
| "show_cmd (LIST a b) l = paren (0 < l) (show_cmd a 1 @ '';'' @ show_cmd b 0)"
| "show_cmd (BACK a) l = paren (1 < l) (show_cmd a 1 @ ''&'')"

text \<open>Trees the shell can build: proper words, at most nine of them to a command, and its two kinds of redirection.\<close>

definition wf_redir :: "string \<times> nat \<times> nat \<Rightarrow> bool" where
  "wf_redir r \<longleftrightarrow> (case r of (f, m, fd) \<Rightarrow> is_word f \<and> (m, fd) \<in> {(O_RDONLY, 0), (O_WRONLY_CREATE, 1)})"

primrec wf_cmd :: "string cmd \<Rightarrow> bool" where
  "wf_cmd (EXEC ws) \<longleftrightarrow> (\<forall>w\<in>set ws. is_word w) \<and> length ws < MAXARGS"
| "wf_cmd (REDIR c f m fd) \<longleftrightarrow> wf_cmd c \<and> wf_redir (f, m, fd)"
| "wf_cmd (PIPE a b) \<longleftrightarrow> wf_cmd a \<and> wf_cmd b"
| "wf_cmd (LIST a b) \<longleftrightarrow> wf_cmd a \<and> wf_cmd b"
| "wf_cmd (BACK a) \<longleftrightarrow> wf_cmd a"

text \<open>The text that follows begins with one of the given symbols, or the line ends.\<close>

definition stops :: "string \<Rightarrow> string \<Rightarrow> bool" where
  "stops S k \<longleftrightarrow> k = [] \<or> hd k \<in> set S"

lemma char_facts [simp]:
  "set whitespace = {CHR 0x20, CHR 0x09, CHR 0x0D, CHR 0x0A, CHR 0x0B}"
  "set symbols = {CHR ''<'', CHR ''|'', CHR ''>'', CHR ''&'', CHR '';'', CHR ''('', CHR '')''}"
  by (auto simp: whitespace_def symbols_def)

lemma skip_stops: "stops S k \<Longrightarrow> set S \<subseteq> set symbols \<Longrightarrow> skip k = k"
  by (cases k) (simp add: skip_def, auto simp: stops_def skip_Cons)

lemma skip_word: "is_word w \<Longrightarrow> skip (w @ s) = w @ s"
  by (cases w) (auto simp: is_word_def word_char_iff skip_Cons)

lemma peek_stops: "stops S k \<Longrightarrow> set S \<subseteq> set symbols \<Longrightarrow> peek k toks = (k \<noteq> [] \<and> hd k \<in> set toks, k)"
  using skip_stops [of S k] by (auto simp: peek_def Let_def strchr_iff)

lemma peek_symbol: "c \<in> set symbols \<Longrightarrow> peek (c # s) toks = (c \<in> set toks, c # s)"
  using peek_stops [of "[c]" "c # s" toks] by (simp add: stops_def)

lemma peek_word:
  assumes "is_word w" "set toks \<subseteq> set symbols"
  shows "peek (w @ s) toks = (False, w @ s)"
proof -
  obtain c v where w: "w = c # v" "word_char c" using assms(1) by (cases w) (auto simp: is_word_def)
  then have "c \<notin> set toks" using assms(2) unfolding word_char_iff by blast
  then show ?thesis using skip_word [OF assms(1), of s] w(1) by (simp add: peek_def Let_def strchr_iff)
qed

lemma gettoken_simple: "c \<in> {CHR ''|'', CHR ''('', CHR '')'', CHR '';'', CHR ''&'', CHR ''<''} \<Longrightarrow> gettoken (c # s) = (c, c # s, s, skip s)"
  by (auto simp: gettoken_def token_end_def skip_Cons Let_def)

lemma gettoken_text:
  assumes "is_word w"
  shows "gettoken (w @ '' '' @ s) = (CHR ''a'', w @ '' '' @ s, '' '' @ s, skip s)"
proof -
  obtain c v where w: "w = c # v" "word_char c" using assms by (cases w) (auto simp: is_word_def)
  have "dropWhile word_char (w @ '' '' @ s) = '' '' @ s"
    using assms by (simp add: is_word_def) (simp add: word_char_iff)
  moreover have "c \<notin> set symbols" using w(2) unfolding word_char_iff by blast
  ultimately show ?thesis
    using skip_word [OF assms, of "'' '' @ s"] w by (simp add: gettoken_def Let_def token_end_def skip_Cons)
qed

lemma gettoken_redir:
  assumes "wf_redir (f, m, fd)"
  shows "\<exists>tk q eq. gettoken (show_redir (f, m, fd) @ k) = (tk, q, eq, f @ '' '' @ k) \<and> tk = (if fd = 0 then CHR ''<'' else CHR ''>'')"
proof -
  have w: "is_word f" using assms by (simp add: wf_redir_def)
  then obtain c v where f: "f = c # v" "c \<noteq> CHR ''>''" by (cases f) (auto simp: is_word_def word_char_iff)
  show ?thesis using skip_word [OF w, of "'' '' @ k"] f by (simp add: show_redir_def gettoken_def token_end_def skip_Cons Let_def)
qed

definition wrap :: "'a cmd \<Rightarrow> ('a \<times> nat \<times> nat) list \<Rightarrow> 'a cmd" where
  "wrap c rs = fold (\<lambda>(f, m, fd) c. REDIR c f m fd) rs c"

definition show_redirs :: "(string \<times> nat \<times> nat) list \<Rightarrow> string" where
  "show_redirs rs = concat (map show_redir rs)"

lemma peek_redirs:
  assumes "stops ''|&;)'' k"
  shows "peek (show_redirs rs @ k) ''<>'' = (rs \<noteq> [], show_redirs rs @ k)"
proof (cases rs)
  case Nil
  have "hd k \<notin> set ''<>''" if "k \<noteq> []" using assms that by (auto simp: stops_def)
  then show ?thesis using Nil peek_stops [OF assms, of "''<>''"] by (auto simp: show_redirs_def)
next
  case (Cons r rs')
  obtain f m fd where r: "r = (f, m, fd)" by (cases r)
  show ?thesis unfolding Cons r using peek_symbol [of _ _ "''<>''"] by (simp add: show_redirs_def show_redir_def)
qed

lemma skip_redirs: "stops ''|&;)'' k \<Longrightarrow> skip (show_redirs rs @ k) = show_redirs rs @ k"
  using peek_redirs [of k rs] peek_skip by metis

lemma parseredirs_text:
  assumes "stops ''|&;)'' k" "\<forall>r\<in>set rs. wf_redir r"
  shows "\<exists>c'. parseredirs c (show_redirs rs @ k) = Ok (c', k) \<and> map_cmd tok_text c' = wrap (map_cmd tok_text c) rs"
  using assms(2)
proof (induction rs arbitrary: c)
  case Nil
  then show ?case using peek_redirs [OF assms(1), of "[]"] by (subst parseredirs.simps) (simp add: show_redirs_def wrap_def)
next
  case (Cons r rs)
  obtain f m fd where r: "r = (f, m, fd)" by (cases r)
  have w: "wf_redir (f, m, fd)" "is_word f" "(m = O_RDONLY \<and> fd = 0) \<or> (m = O_WRONLY_CREATE \<and> fd = 1)"
    using Cons.prems r by (auto simp: wf_redir_def)
  let ?k = "show_redirs rs @ k"
  obtain tk q eq where g: "gettoken (show_redir r @ ?k) = (tk, q, eq, f @ '' '' @ ?k)" "tk = (if fd = 0 then CHR ''<'' else CHR ''>'')"
    using gettoken_redir [OF w(1), of ?k] r by blast
  have g2: "gettoken (f @ '' '' @ ?k) = (CHR ''a'', f @ '' '' @ ?k, '' '' @ ?k, ?k)"
    using gettoken_text [OF w(2)] skip_redirs [OF assms(1)] by simp
  obtain c' where c': "parseredirs (REDIR c (f @ '' '' @ ?k, '' '' @ ?k) m fd) ?k = Ok (c', k)"
    "map_cmd tok_text c' = wrap (map_cmd tok_text (REDIR c (f @ '' '' @ ?k, '' '' @ ?k) m fd)) rs"
    using Cons.IH Cons.prems by fastforce
  have "show_redirs (r # rs) @ k = show_redir r @ ?k" by (simp add: show_redirs_def)
  moreover have "peek (show_redir r @ ?k) ''<>'' = (True, show_redir r @ ?k)" using peek_redirs [OF assms(1), of "r # rs"] by (simp add: show_redirs_def)
  ultimately have "parseredirs c (show_redirs (r # rs) @ k) = Ok (c', k)"
    using g g2 c'(1) w(3) by (subst parseredirs.simps) auto
  then show ?case using c'(2) tok_text_append [of f "'' '' @ ?k"] by (auto simp: wrap_def r)
qed

lemma exec_loop_stops:
  assumes "stops ''|&;)'' k"
  shows "exec_loop c n k = Ok (c, k)"
proof (cases "k = []")
  case True
  have "gettoken [] = (NUL, [], [], [])" by (simp add: gettoken_def token_end_def skip_def)
  then show ?thesis using True by (subst exec_loop.simps) (simp add: peek_def skip_def)
next
  case False
  then have "hd k \<in> set ''|)&;''" using assms by (auto simp: stops_def)
  then show ?thesis using False peek_stops [OF assms, of "''|)&;''"] by (subst exec_loop.simps) simp
qed

lemma exec_loop_text:
  assumes "stops ''|&;)'' k" "\<forall>r\<in>set rs. wf_redir r"
  shows "ws \<noteq> [] \<Longrightarrow> \<forall>w\<in>set ws. is_word w \<Longrightarrow> n + length ws < MAXARGS \<Longrightarrow>
    \<exists>c'. exec_loop (EXEC args) n (show_words ws @ show_redirs rs @ k) = Ok (c', k) \<and>
      map_cmd tok_text c' = wrap (EXEC (map tok_text args @ ws)) rs"
proof (induction ws arbitrary: args n)
  case (Cons w ws)
  let ?k = "show_words ws @ show_redirs rs @ k"
  have w: "is_word w" using Cons.prems by simp
  have t: "show_words (w # ws) @ show_redirs rs @ k = w @ '' '' @ ?k" by (simp add: show_words_def)
  have sk: "skip ?k = ?k"
  proof (cases ws)
    case (Cons v vs)
    then show ?thesis using skip_word [of v] \<open>\<forall>w\<in>set (w # ws). is_word w\<close> by (simp add: show_words_def)
  qed (simp add: show_words_def skip_redirs [OF assms(1)])
  let ?t = "(w @ '' '' @ ?k, '' '' @ ?k)"
  have st: "exec_loop (EXEC args) n (w @ '' '' @ ?k) = bindr (parseredirs (EXEC (args @ [?t])) ?k) (\<lambda>(r, s). exec_loop r (n + 1) s)"
    using peek_word [OF w, of "''|)&;''" "'' '' @ ?k"] gettoken_text [OF w, of ?k] sk Cons.prems(3) by (subst exec_loop.simps) simp
  show ?case
  proof (cases "ws = []")
    case True
    obtain c' where c': "parseredirs (EXEC (args @ [?t])) ?k = Ok (c', k)" "map_cmd tok_text c' = wrap (map_cmd tok_text (EXEC (args @ [?t]))) rs"
      using parseredirs_text [OF assms, of "EXEC (args @ [?t])"] True by (auto simp: show_words_def)
    then show ?thesis using t st exec_loop_stops [OF assms(1)] tok_text_append [of w "'' '' @ ?k"] True by (auto simp: show_words_def)
  next
    case False
    then obtain v vs where v: "ws = v # vs" "is_word v" using Cons.prems(2) by (cases ws) auto
    have "parseredirs (EXEC (args @ [?t])) ?k = Ok (EXEC (args @ [?t]), ?k)"
      using peek_word [OF v(2), of "''<>''"] v(1) by (subst parseredirs.simps) (simp add: show_words_def)
    then show ?thesis using Cons.IH [OF False, of "n + 1" "args @ [?t]"] Cons.prems(2,3) t st tok_text_append [of w "'' '' @ ?k"] by simp
  qed
qed simp

end
