(* ===== verification/Sh_Text.thy ===== *)
theory Sh_Text
  imports Sh_Inv
begin

text \<open>
  The parser reads the text of every command tree back, level by level of the grammar; and what
  the system calls of a running tree do to the descriptors of its commands.
\<close>

section \<open>Levels of the grammar\<close>

definition reads_exec :: "string cmd \<Rightarrow> bool" where
  "reads_exec c \<longleftrightarrow> (\<forall>n k. stops ''|&;)'' k \<and> 4 * length (show_cmd c 3) + 2 \<le> n \<longrightarrow>
     (\<exists>c'. parseexec n (show_cmd c 3 @ k) = Ok (c', k) \<and> map_cmd tok_text c' = c))"

definition reads_pipe :: "string cmd \<Rightarrow> bool" where
  "reads_pipe c \<longleftrightarrow> (\<forall>n k. stops ''&;)'' k \<and> 4 * length (show_cmd c 2) + 3 \<le> n \<longrightarrow>
     (\<exists>c'. parsepipe n (show_cmd c 2 @ k) = Ok (c', k) \<and> map_cmd tok_text c' = c))"

definition reads_line :: "string cmd \<Rightarrow> bool" where
  "reads_line c \<longleftrightarrow> (\<forall>n k. stops '')'' k \<and> 4 * length (show_cmd c 0) + 4 \<le> n \<longrightarrow>
     (\<exists>c'. parseline n (show_cmd c 0 @ k) = Ok (c', k) \<and> map_cmd tok_text c' = c))"

lemma reads_D:
  "reads_exec c \<Longrightarrow> stops ''|&;)'' k \<Longrightarrow> 4 * length (show_cmd c 3) + 2 \<le> n \<Longrightarrow> \<exists>c'. parseexec n (show_cmd c 3 @ k) = Ok (c', k) \<and> map_cmd tok_text c' = c"
  "reads_pipe c \<Longrightarrow> stops ''&;)'' k \<Longrightarrow> 4 * length (show_cmd c 2) + 3 \<le> n \<Longrightarrow> \<exists>c'. parsepipe n (show_cmd c 2 @ k) = Ok (c', k) \<and> map_cmd tok_text c' = c"
  "reads_line c \<Longrightarrow> stops '')'' k \<Longrightarrow> 4 * length (show_cmd c 0) + 4 \<le> n \<Longrightarrow> \<exists>c'. parseline n (show_cmd c 0 @ k) = Ok (c', k) \<and> map_cmd tok_text c' = c"
  by (simp_all add: reads_exec_def reads_pipe_def reads_line_def)

lemma stops_mono: "stops S k \<Longrightarrow> set S \<subseteq> set T \<Longrightarrow> stops T k"
  by (auto simp: stops_def)

lemma stops_Cons [simp]: "stops S (c # k) \<longleftrightarrow> c \<in> set S"
  by (simp add: stops_def)


lemma exec_words:
  assumes "\<forall>w\<in>set ws. is_word w" "length ws < MAXARGS" "\<forall>r\<in>set rs. wf_redir r" and k: "stops ''|&;)'' k"
  shows "\<exists>c'. parseexec (Suc n) (show_words ws @ show_redirs rs @ k) = Ok (c', k) \<and> map_cmd tok_text c' = wrap (EXEC ws) rs"
proof (cases ws)
  case Nil
  have p: "peek (show_redirs rs @ k) ''('' = (False, show_redirs rs @ k)"
  proof (cases rs)
    case Nil
    have "k \<noteq> [] \<Longrightarrow> hd k \<notin> set ''(''" using k by (auto simp: stops_def)
    then show ?thesis using Nil peek_stops [OF k, of "''(''"] by (auto simp: show_redirs_def)
  next
    case (Cons r rs')
    then show ?thesis using peek_symbol [of _ _ "''(''"] by (simp add: show_redirs_def show_redir_def split: prod.splits)
  qed
  obtain c' where "parseredirs (EXEC []) (show_redirs rs @ k) = Ok (c', k)" "map_cmd tok_text c' = wrap (map_cmd tok_text (EXEC [])) rs"
    using parseredirs_text [OF k assms(3)] by blast
  then show ?thesis using Nil p exec_loop_stops [OF k] by (simp add: show_words_def)
next
  case (Cons w vs)
  let ?s = "show_words ws @ show_redirs rs @ k"
  have s: "?s = w @ '' '' @ show_words vs @ show_redirs rs @ k" using Cons by (simp add: show_words_def)
  have w: "is_word w" using Cons assms(1) by simp
  have "peek ?s ''('' = (False, ?s)" "peek ?s ''<>'' = (False, ?s)" unfolding s by (rule peek_word [OF w], simp)+
  moreover from this have "parseredirs (EXEC []) ?s = Ok (EXEC [], ?s)" by (subst parseredirs.simps) simp
  ultimately show ?thesis using exec_loop_text [OF k assms(3), of ws 0 "[]"] assms(1,2) Cons by simp
qed

lemma skip_symbol: "c \<in> set symbols \<Longrightarrow> skip (c # s) = c # s"
  by (auto simp: skip_Cons)

lemma show_start: "wf_cmd c \<Longrightarrow> skip k = k \<Longrightarrow> skip (show_cmd c l @ k) = show_cmd c l @ k"
proof (induction c arbitrary: l k)
  case (EXEC ws)
  then show ?case using skip_word by (cases ws) (auto simp: show_words_def)
next
  case (REDIR c f m fd)
  have "skip (show_redir (f, m, fd) @ k) = show_redir (f, m, fd) @ k" by (simp add: show_redir_def skip_symbol)
  then show ?case using REDIR by simp
qed (auto simp: paren_def skip_symbol)

lemma show_wrap: "show_cmd (wrap c rs) 3 = show_cmd c 3 @ show_redirs rs"
  by (induction rs arbitrary: c) (auto simp: wrap_def show_redirs_def)

lemma wf_wrap: "wf_cmd (wrap c rs) \<longleftrightarrow> wf_cmd c \<and> (\<forall>r\<in>set rs. wf_redir r)"
  by (induction rs arbitrary: c) (auto simp: wrap_def)

lemma size_wrap_le: "size c \<le> size (wrap c rs)"
proof (induction rs arbitrary: c)
  case (Cons r rs)
  obtain f m fd where r: "r = (f, m, fd)" by (cases r)
  have "size c \<le> size (REDIR c f m fd)" by simp
  also have "\<dots> \<le> size (wrap (REDIR c f m fd) rs)" by (rule Cons.IH)
  finally show ?case by (simp add: wrap_def r)
qed (simp add: wrap_def)

lemma size_wrap:
  assumes "rs \<noteq> []"
  shows "size c < size (wrap c rs)"
proof -
  obtain f m fd rs' where r: "rs = (f, m, fd) # rs'" using assms by (cases rs) auto
  have "size c < size (REDIR c f m fd)" by simp
  also have "\<dots> \<le> size (wrap (REDIR c f m fd) rs')" by (rule size_wrap_le)
  finally show ?thesis by (simp add: wrap_def r)
qed

lemma unwrap: "\<exists>b rs. c = wrap b rs \<and> (\<forall>d f m fd. b \<noteq> REDIR d f m fd)"
proof (induction c)
  case (REDIR c f m fd)
  then obtain b rs where b: "c = wrap b rs" "\<forall>d f m fd. b \<noteq> REDIR d f m fd" by blast
  have "REDIR c f m fd = wrap b (rs @ [(f, m, fd)])" by (simp add: wrap_def b(1))
  then show ?case using b(2) by blast
qed (metis wrap_def fold_Nil id_apply cmd.distinct)+

lemma exec_block:
  assumes b: "reads_line b" "wf_cmd b" "show_cmd b 3 = ''('' @ show_cmd b 0 @ '')''" and rs: "\<forall>r\<in>set rs. wf_redir r"
  shows "reads_exec (wrap b rs)"
  unfolding reads_exec_def show_wrap b(3)
proof (intro allI impI, elim conjE)
  fix n k assume k: "stops ''|&;)'' k" and n: "4 * length ((''('' @ show_cmd b 0 @ '')'') @ show_redirs rs) + 2 \<le> n"
  let ?r = "show_redirs rs @ k" and ?s = "show_cmd b 0 @ '')'' @ show_redirs rs @ k"
  obtain m where m: "n = Suc (Suc m)" "4 * length (show_cmd b 0) + 4 \<le> m" using n by (cases n; cases "n - 1") auto
  obtain c' where c': "parseline m ?s = Ok (c', '')'' @ ?r)" "map_cmd tok_text c' = b"
    using reads_D(3) [OF b(1) _ m(2), of "'')'' @ ?r"] by auto
  have sk: "skip ?s = ?s" using show_start [OF b(2), of "'')'' @ ?r" 0] by (simp add: skip_symbol)
  obtain d where d: "parseredirs c' ?r = Ok (d, k)" "map_cmd tok_text d = wrap b rs"
    using parseredirs_text [OF k rs, of c'] c'(2) by auto
  have "parseblock (Suc m) (''('' @ ?s) = Ok (d, k)"
    using c'(1) d(1) sk skip_redirs [OF k, of rs] by (simp add: peek_symbol gettoken_simple)
  then have "parseexec n (''('' @ ?s) = Ok (d, k)" by (simp add: m(1) peek_symbol)
  then show "\<exists>c'. parseexec n (((''('' @ show_cmd b 0 @ '')'') @ show_redirs rs) @ k) = Ok (c', k) \<and> map_cmd tok_text c' = wrap b rs"
    using d(2) by auto
qed

lemma pipe_of_exec: "reads_exec c \<Longrightarrow> show_cmd c 2 = show_cmd c 3 \<Longrightarrow> reads_pipe c"
  unfolding reads_pipe_def
proof (intro allI impI, elim conjE)
  fix n k assume c: "reads_exec c" "show_cmd c 2 = show_cmd c 3" and k: "stops ''&;)'' k" and n: "4 * length (show_cmd c 2) + 3 \<le> n"
  obtain m where m: "n = Suc m" "4 * length (show_cmd c 3) + 2 \<le> m" using n c(2) by (cases n) auto
  have k2: "stops ''|&;)'' k" using k by (rule stops_mono) auto
  obtain c' where c': "parseexec m (show_cmd c 3 @ k) = Ok (c', k)" "map_cmd tok_text c' = c" using reads_D(1) [OF c(1) k2 m(2)] by blast
  have "peek k ''|'' = (False, k)" using peek_stops [OF k, of "''|''"] k by (auto simp: stops_def)
  then show "\<exists>c'. parsepipe n (show_cmd c 2 @ k) = Ok (c', k) \<and> map_cmd tok_text c' = c" using c' c(2) m(1) by simp
qed

lemma pipe_PIPE:
  assumes "reads_exec a" "reads_pipe b" "wf_cmd b"
  shows "reads_pipe (PIPE a b)"
  unfolding reads_pipe_def
proof (intro allI impI, elim conjE)
  fix n k assume k: "stops ''&;)'' k" and n: "4 * length (show_cmd (PIPE a b) 2) + 3 \<le> n"
  obtain m where m: "n = Suc m" "4 * length (show_cmd a 3) + 2 \<le> m" "4 * length (show_cmd b 2) + 3 \<le> m" using n by (cases n) (auto simp: paren_def)
  have st: "stops ''|&;)'' (''|'' @ show_cmd b 2 @ k)" by simp
  obtain a' where a': "parseexec m (show_cmd a 3 @ ''|'' @ show_cmd b 2 @ k) = Ok (a', ''|'' @ show_cmd b 2 @ k)" "map_cmd tok_text a' = a"
    using reads_D(1) [OF assms(1) st m(2)] by blast
  obtain b' where b': "parsepipe m (show_cmd b 2 @ k) = Ok (b', k)" "map_cmd tok_text b' = b" using reads_D(2) [OF assms(2) k m(3)] by blast
  have "skip (show_cmd b 2 @ k) = show_cmd b 2 @ k" using show_start [OF assms(3)] skip_stops [OF k] by simp
  then have "parsepipe n (show_cmd a 3 @ ''|'' @ show_cmd b 2 @ k) = Ok (PIPE a' b', k)"
    using a'(1) b'(1) m(1) by (simp add: peek_symbol gettoken_simple)
  then show "\<exists>c'. parsepipe n (show_cmd (PIPE a b) 2 @ k) = Ok (c', k) \<and> map_cmd tok_text c' = PIPE a b"
    using a'(2) b'(2) by (auto simp: paren_def)
qed

lemma back_loop_text: "stops '';)'' k \<Longrightarrow> back_loop c (replicate m CHR ''&'' @ k) = ((BACK ^^ m) c, k)"
proof (induction m arbitrary: c)
  case 0
  have "peek k ''&'' = (False, k)" using peek_stops [OF 0, of "''&''"] 0 by (auto simp: stops_def)
  then show ?case by (subst back_loop.simps) simp
next
  case (Suc m)
  have "skip (replicate m CHR ''&'' @ k) = replicate m CHR ''&'' @ k"
    using skip_stops [OF Suc.prems] by (cases m) (auto simp: skip_symbol)
  then have "back_loop c (CHR ''&'' # replicate m CHR ''&'' @ k) = back_loop (BACK c) (replicate m CHR ''&'' @ k)"
    by (subst back_loop.simps) (simp add: peek_symbol gettoken_simple)
  then show ?case using Suc by (simp add: funpow_swap1)
qed

lemma map_backs: "map_cmd f ((BACK ^^ m) c) = (BACK ^^ m) (map_cmd f c)"
  by (induction m) simp_all

lemma parse_backs:
  assumes "reads_pipe p" "4 * length (show_cmd p 2) + 3 \<le> n" "stops '';)'' k"
  shows "\<exists>c'. map_cmd tok_text c' = (BACK ^^ m) p \<and> parseline (Suc n) (show_cmd p 2 @ replicate m CHR ''&'' @ k) =
    (let (b, s2) = peek k '';'' in if b then let (_, _, _, s3) = gettoken s2 in bindr (parseline n s3) (\<lambda>(right, s4). Ok (LIST c' right, s4)) else Ok (c', s2))"
proof -
  have st: "stops ''&;)'' (replicate m CHR ''&'' @ k)" using assms(3) by (cases m) (auto simp: stops_def)
  obtain p' where p': "parsepipe n (show_cmd p 2 @ replicate m CHR ''&'' @ k) = Ok (p', replicate m CHR ''&'' @ k)" "map_cmd tok_text p' = p"
    using reads_D(2) [OF assms(1) st assms(2)] by blast
  show ?thesis using p' back_loop_text [OF assms(3), of p' m] by (intro exI [of _ "(BACK ^^ m) p'"]) (simp add: map_backs)
qed

lemma line_backs:
  assumes "reads_pipe p" "show_cmd ((BACK ^^ m) p) 0 = show_cmd p 2 @ replicate m CHR ''&''"
  shows "reads_line ((BACK ^^ m) p)"
  unfolding reads_line_def
proof (intro allI impI, elim conjE)
  fix n k assume k: "stops '')'' k" and n: "4 * length (show_cmd ((BACK ^^ m) p) 0) + 4 \<le> n"
  obtain n' where n': "n = Suc n'" "4 * length (show_cmd p 2) + 3 \<le> n'" using n assms(2) by (cases n) auto
  have k2: "stops '';)'' k" using k by (rule stops_mono) auto
  have "peek k '';'' = (False, k)" using peek_stops [OF k, of "'';''"] k by (auto simp: stops_def)
  then show "\<exists>c'. parseline n (show_cmd ((BACK ^^ m) p) 0 @ k) = Ok (c', k) \<and> map_cmd tok_text c' = (BACK ^^ m) p"
    using parse_backs [OF assms(1) n'(2) k2, of m] assms(2) n'(1) by auto
qed

lemma line_LIST:
  assumes "reads_pipe p" "reads_line b" "wf_cmd b" "show_cmd ((BACK ^^ m) p) 1 = show_cmd p 2 @ replicate m CHR ''&''"
  shows "reads_line (LIST ((BACK ^^ m) p) b)"
  unfolding reads_line_def
proof (intro allI impI, elim conjE)
  fix n k assume k: "stops '')'' k" and n: "4 * length (show_cmd (LIST ((BACK ^^ m) p) b) 0) + 4 \<le> n"
  let ?k = "'';'' @ show_cmd b 0 @ k"
  have t: "show_cmd (LIST ((BACK ^^ m) p) b) 0 @ k = show_cmd p 2 @ replicate m CHR ''&'' @ ?k" by (simp add: paren_def assms(4) [simplified])
  obtain n' where n': "n = Suc n'" "4 * length (show_cmd p 2) + 3 \<le> n'" "4 * length (show_cmd b 0) + 4 \<le> n'"
    using n by (cases n) (auto simp: paren_def assms(4) [simplified])
  have k2: "stops '';)'' ?k" by simp
  obtain b' where b': "parseline n' (show_cmd b 0 @ k) = Ok (b', k)" "map_cmd tok_text b' = b" using reads_D(3) [OF assms(2) k n'(3)] by blast
  have "skip (show_cmd b 0 @ k) = show_cmd b 0 @ k" using show_start [OF assms(3)] skip_stops [OF k] by simp
  then show "\<exists>c'. parseline n (show_cmd (LIST ((BACK ^^ m) p) b) 0 @ k) = Ok (c', k) \<and> map_cmd tok_text c' = LIST ((BACK ^^ m) p) b"
    using parse_backs [OF assms(1) n'(2) k2, of m] b' n'(1) unfolding t by (auto simp: peek_symbol gettoken_simple)
qed

lemma unback: "\<exists>p m. c = (BACK ^^ m) p \<and> (\<forall>d. p \<noteq> BACK d)"
proof (induction c)
  case (BACK c)
  then obtain p m where "c = (BACK ^^ m) p" "\<forall>d. p \<noteq> BACK d" by blast
  then have "BACK c = (BACK ^^ Suc m) p \<and> (\<forall>d. p \<noteq> BACK d)" by simp
  then show ?case by blast
qed (metis funpow_0 cmd.distinct)+

lemma show_backs:
  assumes "\<forall>d. p \<noteq> BACK d"
  shows "show_cmd ((BACK ^^ m) p) 1 = show_cmd p 2 @ replicate m CHR ''&''"
    "0 < m \<or> (\<forall>a b. p \<noteq> LIST a b) \<Longrightarrow> show_cmd ((BACK ^^ m) p) 0 = show_cmd p 2 @ replicate m CHR ''&''"
proof -
  have p: "show_cmd p 1 = show_cmd p 2" using assms by (cases p) (auto simp: paren_def)
  show 1: "show_cmd ((BACK ^^ m) p) 1 = show_cmd p 2 @ replicate m CHR ''&''" for m
    by (induction m) (auto simp: p [unfolded One_nat_def] paren_def replicate_append_same)
  show "show_cmd ((BACK ^^ m) p) 0 = show_cmd p 2 @ replicate m CHR ''&''" if "0 < m \<or> (\<forall>a b. p \<noteq> LIST a b)"
  proof (cases m)
    case 0
    then show ?thesis using that assms by (cases p) (auto simp: paren_def)
  next
    case (Suc j)
    then show ?thesis using 1 [of j] by (simp add: paren_def replicate_append_same)
  qed
qed

lemma size_backs: "size p \<le> size ((BACK ^^ m) p)" "wf_cmd ((BACK ^^ m) p') \<longleftrightarrow> wf_cmd p'"
  by (induction m) auto

lemma reads_exec_words:
  assumes "wf_cmd (EXEC ws)" "\<forall>r\<in>set rs. wf_redir r"
  shows "reads_exec (wrap (EXEC ws) rs)"
  unfolding reads_exec_def show_wrap
proof (intro allI impI, elim conjE)
  fix n k assume k: "stops ''|&;)'' k" and n: "4 * length (show_cmd (EXEC ws) 3 @ show_redirs rs) + 2 \<le> n"
  obtain m where m: "n = Suc m" using n by (cases n) auto
  show "\<exists>c'. parseexec n ((show_cmd (EXEC ws) 3 @ show_redirs rs) @ k) = Ok (c', k) \<and> map_cmd tok_text c' = wrap (EXEC ws) rs"
    using exec_words [OF conjunct1 conjunct2 assms(2) k, OF assms(1) [unfolded wf_cmd.simps] assms(1) [unfolded wf_cmd.simps], of m]
    unfolding m by (simp only: show_cmd.simps append_assoc)
qed

lemma show_block: "(\<exists>a b. c = PIPE a b) \<or> (\<exists>a b. c = LIST a b) \<or> (\<exists>a. c = BACK a) \<Longrightarrow> show_cmd c 3 = ''('' @ show_cmd c 0 @ '')''"
  by (auto simp: paren_def)

lemma reads_all: "wf_cmd c \<Longrightarrow> reads_exec c \<and> reads_pipe c \<and> reads_line c"
proof (induction "size c" arbitrary: c rule: less_induct)
  case less
  have IH: "size d < size c \<Longrightarrow> wf_cmd d \<Longrightarrow> reads_exec d \<and> reads_pipe d \<and> reads_line d" for d using less.hyps by blast
  have pp: "reads_pipe c" if "c = PIPE a b" for a b using that IH [of a] IH [of b] less.prems by (auto intro: pipe_PIPE)
  have li: "reads_line c" if sh: "(\<exists>a b. c = PIPE a b) \<or> (\<exists>a b. c = LIST a b) \<or> (\<exists>a. c = BACK a)"
  proof -
    consider a b where "c = PIPE a b" | a b where "c = LIST a b" | a where "c = BACK a" using sh by blast
    then show ?thesis
    proof cases
      case 1
      then show ?thesis using line_backs [OF pp [OF 1], of 0] by (simp add: paren_def)
    next
      case 2
      obtain p m where p: "a = (BACK ^^ m) p" "\<forall>d. p \<noteq> BACK d" using unback by blast
      have "size p < size c" using size_backs(1) [of p m] p 2 by simp
      then have "reads_pipe p" using IH less.prems 2 p(1) size_backs(2) by auto
      then show ?thesis using line_LIST [OF _ _ _ show_backs(1) [OF p(2)]] IH [of b] less.prems 2 p(1) by simp
    next
      case 3
      obtain p m where p: "a = (BACK ^^ m) p" "\<forall>d. p \<noteq> BACK d" using unback by blast
      have "size p < size c" using size_backs(1) [of p m] p 3 by simp
      then have "reads_pipe p" using IH less.prems 3 p(1) size_backs(2) by auto
      then show ?thesis using line_backs [OF _ show_backs(2) [OF p(2)], of "Suc m"] 3 p(1) by simp
    qed
  qed
  have ex: "reads_exec c"
  proof -
    obtain b rs where b: "c = wrap b rs" "\<forall>d f m fd. b \<noteq> REDIR d f m fd" using unwrap by blast
    have wf: "wf_cmd b" "\<forall>r\<in>set rs. wf_redir r" using less.prems wf_wrap b(1) by auto
    show ?thesis
    proof (cases "\<exists>ws. b = EXEC ws")
      case True
      then show ?thesis using reads_exec_words wf b(1) by auto
    next
      case False
      then have bl: "(\<exists>x y. b = PIPE x y) \<or> (\<exists>x y. b = LIST x y) \<or> (\<exists>x. b = BACK x)" using b(2) by (cases b) auto
      then have "reads_line b" using li IH [of b] wf(1) size_wrap [of rs b] b(1) by (cases "rs = []") (simp_all add: wrap_def)
      then show ?thesis using exec_block [OF _ wf(1) show_block [OF bl] wf(2)] b(1) by simp
    qed
  qed
  have "reads_pipe c" using pp pipe_of_exec [OF ex] by (cases c) (auto simp: paren_def)
  moreover have "reads_line c" using li line_backs [OF \<open>reads_pipe c\<close>, of 0] by (cases c) (auto simp: paren_def)
  ultimately show ?case using ex by simp
qed

lemma show_no_NUL: "\<forall>w\<in>set_cmd c. NUL \<notin> set w \<Longrightarrow> NUL \<notin> set (show_cmd c l)"
  by (induction c arbitrary: l) (auto simp: show_words_def show_redir_def paren_def)

lemma parsecmd_text:
  assumes "wf_cmd c" "\<forall>w\<in>set_cmd c. NUL \<notin> set w"
  shows "\<exists>cmd buf. parsecmd (show_cmd c 0) = Ok (cmd, buf) \<and> map_cmd (word_at buf) cmd = c"
proof -
  have st: "stops '')'' []" by (simp add: stops_def)
  obtain c' where c': "parseline (4 * length (show_cmd c 0) + 4) (show_cmd c 0) = Ok (c', [])" "map_cmd tok_text c' = c"
    using reads_D(3) [OF conjunct2 [OF conjunct2 [OF reads_all [OF assms(1)]]] st order.refl] by auto
  then have p: "parsecmd (show_cmd c 0) = Ok (c', nulterminate c' (show_cmd c 0 @ [NUL]))" by (simp add: parsecmd_def peek_def skip_def)
  show ?thesis using parsecmd_fine(2) [OF p show_no_NUL [OF assms(2)]] c'(2) p by auto
qed

section \<open>Descriptors of the commands\<close>

text \<open>
  What the system calls of a program do to the descriptor table, when they succeed: a new descriptor
  is the lowest free one of 16.  The result lists the commands that are started, each with its table.  A fork is followed
  into both processes; the list of choices so far names the pipes, so that each pipe has a name
  of its own.
\<close>

datatype obj = Inherited nat | Opened string nat | PipeR "nat list" | PipeW "nat list"

type_synonym fdt = "nat \<Rightarrow> obj option"

definition lowest :: "fdt \<Rightarrow> nat option" where
  "lowest f = find (\<lambda>i. f i = None) [0..<16]"

primrec runs :: "prog \<Rightarrow> fdt \<Rightarrow> nat list \<Rightarrow> (string list \<times> fdt) list" where
  "runs Stop f p = []"
| "runs (Sys c k) f p =
     (case c of
        Exit \<Rightarrow> []
      | Fork \<Rightarrow> runs (k 0) f (0 # p) @ runs (k 1) f (1 # p)
      | Close d \<Rightarrow> runs (k 0) (f(nat d := None)) p
      | Dup d \<Rightarrow> (case lowest f of None \<Rightarrow> runs (k (- 1)) f p | Some i \<Rightarrow> runs (k (int i)) (f(i := f (nat d))) p)
      | Open n m \<Rightarrow> (case lowest f of None \<Rightarrow> runs (k (- 1)) f p | Some i \<Rightarrow> runs (k (int i)) (f(i := Some (Opened n m))) p)
      | Exec a as \<Rightarrow> [(as, f)]
      | _ \<Rightarrow> runs (k 1) f p)"
| "runs (Pipe k) f p =
     (case lowest f of
        None \<Rightarrow> runs (k (- 1) 0 0) f p
      | Some i \<Rightarrow>
          case lowest (f(i := Some (PipeR p))) of
            None \<Rightarrow> runs (k (- 1) 0 0) f p
          | Some j \<Rightarrow> runs (k 0 (int i) (int j)) (f(i := Some (PipeR p), j := Some (PipeW p))) p)"

text \<open>The commands of a tree and the tables they should have.\<close>

primrec wire :: "string cmd \<Rightarrow> fdt \<Rightarrow> nat list \<Rightarrow> (string list \<times> fdt) list" where
  "wire (EXEC args) f p = (if args = [] then [] else [(args, f)])"
| "wire (REDIR c n m fd) f p = wire c (f(fd := Some (Opened n m))) p"
| "wire (PIPE l r) f p = wire l (f(1 := Some (PipeW p))) (0 # p) @ wire r (f(0 := Some (PipeR p))) (0 # 1 # p)"
| "wire (LIST l r) f p = wire l f (0 # p) @ wire r f (1 # p)"
| "wire (BACK c) f p = wire c f (0 # p)"

lemma lowest_upds:
  assumes "dom f = {0, 1, 2}"
  shows "lowest f = Some 3" "lowest (f(3 := Some x)) = Some 4" "fd \<le> 1 \<Longrightarrow> lowest (f(fd := None)) = Some fd"
    "fd \<le> 1 \<Longrightarrow> lowest (f(3 := Some x, 4 := Some y, fd := None)) = Some fd"
proof -
  have "0 \<in> dom f" "Suc 0 \<in> dom f" "2 \<in> dom f" "3 \<notin> dom f" "4 \<notin> dom f" unfolding assms by simp_all
  then have f: "f 0 \<noteq> None" "f (Suc 0) \<noteq> None" "f 2 \<noteq> None" "f 3 = None" "f 4 = None" unfolding domIff by auto
  have u: "[0..<16] = 0 # Suc 0 # 2 # 3 # 4 # [5..<16 :: nat]" by code_simp
  have "fd = 0 \<or> fd = Suc 0" if "fd \<le> 1" using that by auto
  then show "lowest f = Some 3" "lowest (f(3 := Some x)) = Some 4" "fd \<le> 1 \<Longrightarrow> lowest (f(fd := None)) = Some fd"
    "fd \<le> 1 \<Longrightarrow> lowest (f(3 := Some x, 4 := Some y, fd := None)) = Some fd"
    using f unfolding lowest_def u by auto
qed

lemma child_table:
  fixes f :: fdt
  assumes "dom f = {0, 1, 2}" "fd \<le> 1"
  shows "f(3 := x, 4 := y, fd := None, fd := z, 3 := None, 4 := None) = f(fd := z)"
proof -
  have "3 \<notin> dom f" "4 \<notin> dom f" unfolding assms(1) by simp_all
  then have "f 3 = None" "f 4 = None" by (simp_all add: domIff)
  then show ?thesis using assms(2) by (auto simp: fun_eq_iff)
qed

lemma runs_print [simp]: "runs (print_to fd s k) f p = runs k f p"
  by (induction s) simp_all

lemma runs_fork1: "runs (fork1 k) f p = runs (k 0) f (0 # p) @ runs (k 1) f (1 # p)"
  by (simp add: fork1_def)

lemma runcmd_wires: "wf_cmd c \<Longrightarrow> dom f = {0, 1, 2} \<Longrightarrow> runs (runcmd c) f p = wire c f p"
proof (induction c arbitrary: f p)
  case (EXEC args)
  then show ?case by (cases args) simp_all
next
  case (REDIR c n m fd)
  have fd: "fd \<le> 1" using REDIR.prems(1) by (auto simp: wf_redir_def)
  have "dom (f(fd := Some (Opened n m))) = {0, 1, 2}" using REDIR.prems(2) fd by auto
  then show ?case using REDIR.IH REDIR.prems(1) lowest_upds(3) [OF REDIR.prems(2) fd] by simp
next
  case (PIPE l r)
  have d: "dom (f(1 := Some (PipeW p))) = {0, 1, 2}" "dom (f(0 := Some (PipeR p))) = {0, 1, 2}" using PIPE.prems(2) by auto
  note L = lowest_upds [OF PIPE.prems(2)]
  have t: "f(3 := Some (PipeR p), 4 := Some (PipeW p), Suc 0 := None, Suc 0 := Some (PipeW p), 3 := None, 4 := None) = f(Suc 0 := Some (PipeW p))"
    "f(3 := Some (PipeR p), 4 := Some (PipeW p), 0 := None, 0 := Some (PipeR p), 3 := None, 4 := None) = f(0 := Some (PipeR p))"
    by (rule child_table [OF PIPE.prems(2)], simp)+
  have "runs (runcmd l) (f(Suc 0 := Some (PipeW p))) q = wire l (f(Suc 0 := Some (PipeW p))) q"
    "runs (runcmd r) (f(0 := Some (PipeR p))) q = wire r (f(0 := Some (PipeR p))) q" for q using PIPE.IH PIPE.prems(1) d by simp_all
  then show ?case using L(1,2) L(4) [of "Suc 0"] L(4) [of 0] t by (simp add: runs_fork1)
qed (simp_all add: runs_fork1)

end
