(* ===== verification/Umalloc.thy ===== *)
theory Umalloc
  imports Xv6_Prelude
begin

text \<open>
  The memory allocator of the user programs (\<^verbatim>\<open>umalloc.c\<close>).  Free blocks form a ring in the order of
  their addresses that starts with the static header \<^verbatim>\<open>base\<close> of size 0.  Addresses and sizes
  are numbers below \<open>2\<^sup>3\<^sup>2\<close>, and the arithmetic of the source is reduced modulo \<open>2\<^sup>3\<^sup>2\<close> where it can
  leave that range; a header takes 8 bytes, and a size counts headers.  \<open>u_ptr\<close> and \<open>u_size\<close> are the two fields of the
  header at an address.  \<^verbatim>\<open>sbrk\<close> moves the break \<open>u_brk\<close> as long as there is memory, up to \<open>u_lim\<close>.  The
  loops that walk the ring are partial functions: \<open>None\<close> is a walk that never ends.
\<close>

section \<open>The code\<close>

record uheap =
  u_ptr :: "nat \<Rightarrow> nat"
  u_size :: "nat \<Rightarrow> nat"
  u_freep :: nat
  u_base :: nat
  u_brk :: nat
  u_lim :: nat

abbreviation W32 :: nat where "W32 \<equiv> 4294967296"

definition hadd :: "nat \<Rightarrow> nat \<Rightarrow> nat" where
  "hadd p n = (p + 8 * n) mod W32"

definition set_ptr :: "nat \<Rightarrow> nat \<Rightarrow> uheap \<Rightarrow> uheap" where
  "set_ptr p v s = s\<lparr>u_ptr := (u_ptr s)(p := v)\<rparr>"

definition set_size :: "nat \<Rightarrow> nat \<Rightarrow> uheap \<Rightarrow> uheap" where
  "set_size p v s = s\<lparr>u_size := (u_size s)(p := v)\<rparr>"

text \<open>The loop of \<^verbatim>\<open>free\<close> that finds the place of the block.\<close>

partial_function (option) free_find :: "uheap \<Rightarrow> nat \<Rightarrow> nat \<Rightarrow> nat option" where
  [code]: "free_find s bp p =
     (if bp > p \<and> bp < u_ptr s p then Some p
      else if p \<ge> u_ptr s p \<and> (bp > p \<or> bp < u_ptr s p) then Some p
      else free_find s bp (u_ptr s p))"

text \<open>The block takes in the one after it, and is taken in by the one before it, or is linked between them.\<close>

definition merge_right :: "nat \<Rightarrow> nat \<Rightarrow> uheap \<Rightarrow> uheap" where
  "merge_right bp p s =
     (if hadd bp (u_size s bp) = u_ptr s p
      then set_ptr bp (u_ptr s (u_ptr s p)) (set_size bp ((u_size s bp + u_size s (u_ptr s p)) mod W32) s)
      else set_ptr bp (u_ptr s p) s)"

definition merge_left :: "nat \<Rightarrow> nat \<Rightarrow> uheap \<Rightarrow> uheap" where
  "merge_left bp p s =
     (if hadd p (u_size s p) = bp
      then set_ptr p (u_ptr s bp) (set_size p ((u_size s p + u_size s bp) mod W32) s)
      else set_ptr p bp s)"

definition ufree :: "nat \<Rightarrow> uheap \<Rightarrow> uheap option" where
  "ufree ap s =
     (let bp = (ap + W32 - 8) mod W32 in
      case free_find s bp (u_freep s) of None \<Rightarrow> None | Some p \<Rightarrow> Some ((merge_left bp p (merge_right bp p s))\<lparr>u_freep := p\<rparr>))"

text \<open>The argument of \<^verbatim>\<open>sbrk\<close> is signed; growing fails when there is no memory, and the result is then \<open>None\<close>.\<close>

definition sbrk :: "nat \<Rightarrow> uheap \<Rightarrow> (nat \<times> uheap) option" where
  "sbrk n s =
     (if n < 2147483648 then (if u_brk s + n \<le> u_lim s then Some (u_brk s, s\<lparr>u_brk := u_brk s + n\<rparr>) else None)
      else if W32 - n < u_brk s then Some (u_brk s, s\<lparr>u_brk := u_brk s - (W32 - n)\<rparr>) else None)"

text \<open>\<open>morecore\<close> returns 0 or the free pointer.\<close>

definition morecore :: "nat \<Rightarrow> uheap \<Rightarrow> (nat \<times> uheap) option" where
  "morecore nu s =
     (let nu = (if nu < 4096 then 4096 else nu) in
      case sbrk (nu * 8 mod W32) s of
        None \<Rightarrow> Some (0, s)
      | Some (p, s1) \<Rightarrow>
          case ufree (hadd p 1) (set_size p nu s1) of None \<Rightarrow> None | Some s2 \<Rightarrow> Some (u_freep s2, s2))"

definition malloc_take :: "nat \<Rightarrow> nat \<Rightarrow> nat \<Rightarrow> uheap \<Rightarrow> nat \<times> uheap" where
  "malloc_take nunits prevp p s =
     (let (q, s1) =
        (if u_size s p = nunits then (p, set_ptr prevp (u_ptr s p) s)
         else let s1 = set_size p (u_size s p - nunits) s; q = hadd p (u_size s1 p) in (q, set_size q nunits s1))
      in (hadd q 1, s1\<lparr>u_freep := prevp\<rparr>))"

partial_function (option) malloc_loop :: "nat \<Rightarrow> nat \<Rightarrow> nat \<Rightarrow> uheap \<Rightarrow> (nat \<times> uheap) option" where
  [code]: "malloc_loop nunits prevp p s =
     (if u_size s p \<ge> nunits then Some (malloc_take nunits prevp p s)
      else if p = u_freep s then
        (case morecore nunits s of
           None \<Rightarrow> None
         | Some (p1, s1) \<Rightarrow> if p1 = 0 then Some (0, s1) else malloc_loop nunits p1 (u_ptr s1 p1) s1)
      else malloc_loop nunits p (u_ptr s p) s)"

definition malloc_units :: "nat \<Rightarrow> nat" where
  "malloc_units nbytes = ((nbytes + 8 - 1) mod W32) div 8 + 1"

definition malloc :: "nat \<Rightarrow> uheap \<Rightarrow> (nat \<times> uheap) option" where
  "malloc nbytes s =
     (let s1 = (if u_freep s = 0 then set_size (u_base s) 0 (set_ptr (u_base s) (u_base s) (s\<lparr>u_freep := u_base s\<rparr>)) else s)
      in malloc_loop (malloc_units nbytes) (u_freep s1) (u_ptr s1 (u_freep s1)) s1)"

section \<open>The ring of free blocks\<close>

text \<open>The nodes of the ring in the order of their addresses, from \<^verbatim>\<open>base\<close> on; the last one points back to \<open>e\<close>.\<close>

primrec chain :: "(nat \<Rightarrow> nat) \<Rightarrow> nat list \<Rightarrow> nat \<Rightarrow> bool" where
  "chain f [] e \<longleftrightarrow> True"
| "chain f (x # xs) e \<longleftrightarrow> f x = hd (xs @ [e]) \<and> chain f xs e"

text \<open>
  The blocks lie apart: a block ends before the next one begins, since neighbours are merged.  Every
  block but \<^verbatim>\<open>base\<close> lies between \<^verbatim>\<open>base\<close> and the break.
\<close>

definition apart :: "uheap \<Rightarrow> nat list \<Rightarrow> bool" where
  "apart s xs \<longleftrightarrow> sorted_wrt (\<lambda>a b. a + 8 * u_size s a < b) xs"

definition uinv :: "uheap \<Rightarrow> nat list \<Rightarrow> bool" where
  "uinv s xs \<longleftrightarrow> (\<exists>ys. xs = u_base s # ys \<and> (\<forall>a\<in>set ys. u_base s + 8 \<le> a \<and> 0 < u_size s a \<and> a + 8 * u_size s a \<le> u_brk s)) \<and>
     apart s xs \<and> chain (u_ptr s) xs (u_base s) \<and> u_freep s \<in> set xs \<and> u_size s (u_base s) = 0 \<and>
     0 < u_base s \<and> u_base s + 8 \<le> u_brk s \<and> u_brk s \<le> u_lim s \<and> u_lim s < 2147483648"

definition block :: "nat \<Rightarrow> nat \<Rightarrow> nat set" where
  "block p n = {p..<p + 8 * n}"

definition free_bytes :: "uheap \<Rightarrow> nat list \<Rightarrow> nat set" where
  "free_bytes s xs = (\<Union>a\<in>set xs. block a (u_size s a))"

lemma chain_append: "chain f (us @ vs) e \<longleftrightarrow> chain f us (hd (vs @ [e])) \<and> chain f vs e"
  by (induction us) (auto simp: hd_append)

lemma chain_upd [simp]: "x \<notin> set xs \<Longrightarrow> chain (f(x := v)) xs e = chain f xs e"
  by (induction xs) auto

lemma chain_map: "chain f xs e \<Longrightarrow> xs \<noteq> [] \<Longrightarrow> map f xs = tl xs @ [e]"
proof (induction xs)
  case (Cons x xs)
  then show ?case by (cases xs) auto
qed simp

lemma chain_inj:
  assumes "chain f (x # xs) x" "distinct (x # xs)" shows "inj_on f (set (x # xs))"
proof -
  have "map f (x # xs) = xs @ [x]" using chain_map [OF assms(1)] by simp
  then have "distinct (map f (x # xs))" using assms(2) by simp
  then show ?thesis by (simp only: distinct_map)
qed

lemma apart_distinct: "apart s xs \<Longrightarrow> sorted_wrt (<) xs \<and> distinct xs"
proof -
  assume "apart s xs"
  then have "sorted_wrt (<) xs" unfolding apart_def by (rule sorted_wrt_mono_rel [rotated]) simp
  then show ?thesis by (simp add: strict_sorted_iff)
qed

lemma uinvD:
  assumes "uinv s xs"
  shows "xs = u_base s # tl xs" "apart s xs" "chain (u_ptr s) xs (u_base s)" "u_freep s \<in> set xs" "u_size s (u_base s) = 0"
    "0 < u_base s" "u_base s + 8 \<le> u_brk s" "u_brk s \<le> u_lim s" "u_lim s < 2147483648"
    "\<And>a. a \<in> set (tl xs) \<Longrightarrow> u_base s + 8 \<le> a \<and> 0 < u_size s a \<and> a + 8 * u_size s a \<le> u_brk s"
    "\<And>a. a \<in> set xs \<Longrightarrow> u_base s \<le> a \<and> a + 8 * u_size s a \<le> u_brk s"
    "sorted_wrt (<) xs" "distinct xs"
proof -
  show 1: "xs = u_base s # tl xs" "apart s xs" "chain (u_ptr s) xs (u_base s)" "u_freep s \<in> set xs" "u_size s (u_base s) = 0"
    "0 < u_base s" "u_base s + 8 \<le> u_brk s" "u_brk s \<le> u_lim s" "u_lim s < 2147483648"
    and 2: "\<And>a. a \<in> set (tl xs) \<Longrightarrow> u_base s + 8 \<le> a \<and> 0 < u_size s a \<and> a + 8 * u_size s a \<le> u_brk s"
    using assms by (auto simp: uinv_def)
  show "u_base s \<le> a \<and> a + 8 * u_size s a \<le> u_brk s" if "a \<in> set xs" for a
  proof (cases "a = u_base s")
    case True
    then show ?thesis using 1(5,7) by simp
  next
    case False
    then have "a \<in> set (tl xs)" using that 1(1) by (metis set_ConsD)
    then show ?thesis using 2 [of a] by simp
  qed
  show "sorted_wrt (<) xs" "distinct xs" using apart_distinct [OF 1(2)] by auto
qed

section \<open>Finding the place of a block\<close>

text \<open>An address above \<^verbatim>\<open>base\<close> that is no node splits the ring.\<close>

lemma split_sorted:
  fixes bp :: nat
  shows
  "sorted_wrt (<) (x # xs) \<Longrightarrow> x < bp \<Longrightarrow> bp \<notin> set xs \<Longrightarrow>
    \<exists>us p vs. x # xs = us @ p # vs \<and> (\<forall>a\<in>set (us @ [p]). a < bp) \<and> (\<forall>b\<in>set vs. bp < b)"
proof (induction xs arbitrary: x)
  case Nil
  have "[x] = [] @ x # [] \<and> (\<forall>a\<in>set ([] @ [x]). a < bp) \<and> (\<forall>b\<in>set []. bp < b)" using Nil by simp
  then show ?case by (intro exI)
next
  case (Cons y ys)
  show ?case
  proof (cases "y < bp")
    case True
    then obtain us p vs where "y # ys = us @ p # vs" "\<forall>a\<in>set (us @ [p]). a < bp" "\<forall>b\<in>set vs. bp < b"
      using Cons.IH [of y] Cons.prems by auto
    then have "x # y # ys = (x # us) @ p # vs \<and> (\<forall>a\<in>set ((x # us) @ [p]). a < bp) \<and> (\<forall>b\<in>set vs. bp < b)" using Cons.prems(2) by simp
    then show ?thesis by (intro exI)
  next
    case False
    then have "bp < y" using Cons.prems(3) by auto
    then have "x # y # ys = [] @ x # y # ys \<and> (\<forall>a\<in>set ([] @ [x]). a < bp) \<and> (\<forall>b\<in>set (y # ys). bp < b)" using Cons.prems by auto
    then show ?thesis by (intro exI)
  qed
qed

lemma ring_split:
  assumes "uinv s xs" "u_base s < bp" "bp \<notin> set xs"
  obtains us p vs where "xs = us @ p # vs" "\<forall>a\<in>set (us @ [p]). a < bp" "\<forall>b\<in>set vs. bp < b"
proof -
  obtain ys where ys: "xs = u_base s # ys" using uinvD(1) [OF assms(1)] by blast
  then obtain us p vs where "xs = us @ p # vs" "\<forall>a\<in>set (us @ [p]). a < bp" "\<forall>b\<in>set vs. bp < b"
    using split_sorted [of "u_base s" ys bp] uinvD(12) [OF assms(1)] assms(2,3) by auto
  then show thesis by (rule that)
qed

lemma find_forward:
  assumes "chain f (us @ p # vs) e" "\<forall>a\<in>set (us @ [p]). a < bp" "\<forall>b\<in>set vs. bp < b" "e \<le> p" "sorted_wrt (<) (us @ p # vs)" "u_ptr s = f"
  shows "free_find s bp (hd (us @ [p])) = Some p"
  using assms
proof (induction us)
  case Nil
  then show ?case by (subst free_find.simps) (cases vs; simp)
next
  case (Cons x us)
  let ?y = "hd (us @ [p])"
  have y: "f x = ?y" "?y < bp" "x < ?y" using Cons.prems by (cases us; simp)+
  have "free_find s bp ?y = Some p" using Cons by simp
  then show ?case using y Cons.prems(6) by (subst free_find.simps) simp
qed

lemma find_around:
  assumes "chain f vs e" "\<forall>b\<in>set vs. bp < b" "e < bp" "free_find s bp e = Some p" "sorted_wrt (<) vs" "u_ptr s = f"
  shows "free_find s bp (hd (vs @ [e])) = Some p"
  using assms
proof (induction vs)
  case (Cons x vs)
  have "f x = hd (vs @ [e])" "bp < x" using Cons.prems by simp_all
  moreover have "x < f x \<or> f x = e" using Cons.prems by (cases vs) auto
  moreover have "free_find s bp (hd (vs @ [e])) = Some p" using Cons by simp
  ultimately show ?case using Cons.prems(3,6) by (subst free_find.simps) auto
qed simp

lemma free_find_ok:
  assumes "uinv s xs" "xs = us @ p # vs" "\<forall>a\<in>set (us @ [p]). a < bp" "\<forall>b\<in>set vs. bp < b" "x \<in> set xs"
  shows "free_find s bp x = Some p"
proof -
  let ?e = "u_base s"
  note C = uinvD(3,12,1,11) [OF assms(1)]
  have c: "chain (u_ptr s) (us @ p # vs) ?e" "sorted_wrt (<) (us @ p # vs)" using C(1,2) assms(2) by simp_all
  have e: "?e \<le> p" "?e < bp" using C(4) [of p] assms(2,3) by auto
  have b: "free_find s bp ?e = Some p"
    using find_forward [OF c(1) assms(3,4) e(1) c(2) refl] C(3) assms(2) by (cases us) auto
  consider u1 u2 where "us @ [p] = u1 @ x # u2" | v1 v2 where "vs = v1 @ x # v2"
    using assms(5) split_list [of x "us @ [p]"] split_list [of x vs] unfolding assms(2) by auto
  then show ?thesis
  proof cases
    case 1
    show ?thesis
    proof (cases u2 rule: rev_cases)
      case Nil
      then have x: "x = p" using 1 by simp
      show ?thesis using find_forward [of "u_ptr s" "[]" p vs ?e bp s] c assms(3,4) e x by (simp add: chain_append sorted_wrt_append)
    next
      case (snoc u2' q)
      then have "q = p" "us = u1 @ x # u2'" using 1 by simp_all
      then show ?thesis using find_forward [of "u_ptr s" "x # u2'" p vs ?e bp s] c assms(3,4) e by (simp add: chain_append sorted_wrt_append)
    qed
  next
    case 2
    then show ?thesis using find_around [of "u_ptr s" "x # v2" ?e bp s p] c assms(4) e b by (simp add: chain_append sorted_wrt_append)
  qed
qed

section \<open>Freeing a block\<close>

lemma hadd_small: "p + 8 * n < W32 \<Longrightarrow> hadd p n = p + 8 * n"
  by (simp add: hadd_def)

lemma set_simps [simp]:
  "u_ptr (set_ptr p v s) = (u_ptr s)(p := v)" "u_size (set_ptr p v s) = u_size s"
  "u_size (set_size p n s) = (u_size s)(p := n)" "u_ptr (set_size p n s) = u_ptr s"
  "u_base (set_ptr p v s) = u_base s" "u_base (set_size p n s) = u_base s" "u_freep (set_ptr p v s) = u_freep s" "u_freep (set_size p n s) = u_freep s"
  "u_brk (set_ptr p v s) = u_brk s" "u_brk (set_size p n s) = u_brk s" "u_lim (set_ptr p v s) = u_lim s" "u_lim (set_size p n s) = u_lim s"
  by (simp_all add: set_ptr_def set_size_def)

text \<open>A block of the program: inside the heap, and disjoint from the free blocks.\<close>

definition allocated :: "uheap \<Rightarrow> nat list \<Rightarrow> nat \<Rightarrow> bool" where
  "allocated s xs bp \<longleftrightarrow> u_base s + 8 \<le> bp \<and> 0 < u_size s bp \<and> bp + 8 * u_size s bp \<le> u_brk s \<and>
     block bp (u_size s bp) \<inter> free_bytes s xs = {} \<and> bp \<notin> set xs"

lemma allocated_gaps:
  assumes "uinv s xs" "allocated s xs bp" "xs = us @ p # vs" "\<forall>a\<in>set (us @ [p]). a < bp" "\<forall>b\<in>set vs. bp < b"
  shows "p + 8 * u_size s p \<le> bp" "\<And>b. b \<in> set vs \<Longrightarrow> bp + 8 * u_size s bp \<le> b"
proof -
  note A = assms(2) [unfolded allocated_def]
  show "p + 8 * u_size s p \<le> bp"
  proof (rule ccontr)
    assume "\<not> ?thesis"
    then have "bp \<in> block p (u_size s p)" "bp \<in> block bp (u_size s bp)" using assms(4) A by (auto simp: block_def)
    then show False using A assms(3) by (auto simp: free_bytes_def)
  qed
  show "bp + 8 * u_size s bp \<le> b" if b: "b \<in> set vs" for b
  proof (rule ccontr)
    assume n: "\<not> ?thesis"
    have "b \<in> set (tl xs)" using b assms(3) by (cases us) auto
    then have "b \<in> block b (u_size s b)" using uinvD(10) [OF assms(1)] by (simp add: block_def)
    moreover have "b \<in> block bp (u_size s bp)" using n b assms(5) by (auto simp: block_def)
    ultimately show False using A b assms(3) by (auto simp: free_bytes_def)
  qed
qed

lemma block_join: "block a (n + m) = block a n \<union> block (a + 8 * n) m"
  by (auto simp: block_def)

lemma merge_right_ok:
  assumes u: "uinv s xs" and al: "allocated s xs bp" and x: "xs = us @ p # vs" "\<forall>a\<in>set (us @ [p]). a < bp" "\<forall>b\<in>set vs. bp < b"
  obtains ws m where "merge_right bp p s = set_ptr bp (hd (ws @ [u_base s])) (set_size bp m s)" "chain (u_ptr s) ws (u_base s)"
    "set ws \<subseteq> set vs" "apart s ws" "\<forall>w\<in>set ws. bp + 8 * m < w" "u_size s bp \<le> m" "bp + 8 * m \<le> u_brk s"
    "block bp m \<union> (\<Union>w\<in>set ws. block w (u_size s w)) = block bp (u_size s bp) \<union> (\<Union>v\<in>set vs. block v (u_size s v))"
proof -
  let ?n = "u_size s bp" and ?e = "u_base s"
  note A = al [unfolded allocated_def]
  have c: "u_ptr s p = hd (vs @ [?e])" "chain (u_ptr s) vs ?e" "apart s vs" using uinvD(2,3) [OF u] x(1) by (auto simp: chain_append apart_def sorted_wrt_append)
  have h: "hadd bp ?n = bp + 8 * ?n" using A uinvD(8,9) [OF u] by (intro hadd_small) simp
  have gap: "bp + 8 * ?n \<le> b" if "b \<in> set vs" for b using allocated_gaps(2) [OF u al x that] .
  show thesis
  proof (cases "bp + 8 * ?n = u_ptr s p")
    case True
    have "vs \<noteq> []" using True c(1) A by auto
    then obtain v vs' where v: "vs = v # vs'" "u_ptr s p = v" using c(1) by (cases vs) auto
    have vb: "v + 8 * u_size s v \<le> u_brk s" using uinvD(11) [OF u, of v] x(1) v(1) by simp
    let ?m = "?n + u_size s v"
    have m: "?m mod W32 = ?m" "bp + 8 * ?m \<le> u_brk s" using vb True v(2) uinvD(8,9) [OF u] by simp_all
    show thesis
    proof (rule that [of vs' ?m])
      show "merge_right bp p s = set_ptr bp (hd (vs' @ [?e])) (set_size bp ?m s)" using True h v c(2) m(1) by (simp add: merge_right_def)
      show "\<forall>w\<in>set vs'. bp + 8 * ?m < w" using c(3) True v by (auto simp: apart_def)
      show "block bp ?m \<union> (\<Union>w\<in>set vs'. block w (u_size s w)) = block bp ?n \<union> (\<Union>v\<in>set vs. block v (u_size s v))"
        using True v by (auto simp: block_join)
    qed (use c v m(2) in \<open>auto simp: apart_def\<close>)
  next
    case False
    have "bp + 8 * ?n < w" if w: "w \<in> set vs" for w
    proof (cases vs)
      case (Cons v vs')
      then have "bp + 8 * ?n < v" using False gap [of v] c(1) by simp
      then show ?thesis using w c(3) Cons by (auto simp: apart_def)
    qed (use w in simp)
    moreover have "set_size bp ?n s = s" by (simp add: set_size_def)
    ultimately show thesis using that [of vs ?n] False h c A by (simp add: merge_right_def)
  qed
qed

lemma apart_cong: "\<forall>a\<in>set xs. u_size t a = u_size s a \<Longrightarrow> apart t xs = apart s xs"
  unfolding apart_def by (induction xs) auto

lemma apart_append:
  "apart s (us @ p # ws) \<longleftrightarrow> apart s us \<and> apart s ws \<and> (\<forall>w\<in>set ws. p + 8 * u_size s p < w) \<and>
     (\<forall>a\<in>set us. a + 8 * u_size s a < p \<and> (\<forall>w\<in>set ws. a + 8 * u_size s a < w))"
  by (auto simp: apart_def sorted_wrt_append)

lemma uinvI:
  assumes "xs = u_base s # ys" "\<forall>a\<in>set ys. u_base s + 8 \<le> a \<and> 0 < u_size s a \<and> a + 8 * u_size s a \<le> u_brk s"
    "apart s xs" "chain (u_ptr s) xs (u_base s)" "u_freep s \<in> set xs" "u_size s (u_base s) = 0"
    "0 < u_base s" "u_base s + 8 \<le> u_brk s" "u_brk s \<le> u_lim s" "u_lim s < 2147483648"
  shows "uinv s xs"
  using assms by (auto simp: uinv_def)

lemma merge_left_ok:
  assumes u: "uinv s (us @ p # vs)" and b: "u_base s + 8 \<le> bp" "p + 8 * u_size s p \<le> bp" "bp \<notin> set (us @ p # vs)"
    and w: "chain (u_ptr s) ws (u_base s)" "set ws \<subseteq> set vs" "apart s ws" "\<forall>w\<in>set ws. bp + 8 * m < w" "0 < m" "bp + 8 * m \<le> u_brk s"
    and t: "t = (merge_left bp p (set_ptr bp (hd (ws @ [u_base s])) (set_size bp m s)))\<lparr>u_freep := p\<rparr>"
  obtains xs' where "uinv t xs'" "free_bytes t xs' = (\<Union>a\<in>set us. block a (u_size s a)) \<union> block p (u_size s p) \<union> block bp m \<union> (\<Union>w\<in>set ws. block w (u_size s w))"
    "u_brk t = u_brk s" "u_base t = u_base s" "u_lim t = u_lim s"
proof -
  note U = uinvD [OF u]
  have d: "p \<notin> set us" "p \<notin> set ws" "bp \<notin> set us" "bp \<notin> set ws" "p \<noteq> bp" using U(13) w(2) b(3) by auto
  have ap: "apart s us" "\<forall>a\<in>set us. a + 8 * u_size s a < p \<and> (\<forall>w\<in>set ws. a + 8 * u_size s a < w)"
    using U(2) w(2) by (auto simp: apart_append)
  have ch: "chain (u_ptr s) us p" using U(3) by (simp add: chain_append)
  have tl: "a \<in> set (us @ p # vs) \<Longrightarrow> a \<noteq> u_base s \<Longrightarrow> u_base s + 8 \<le> a \<and> 0 < u_size s a \<and> a + 8 * u_size s a \<le> u_brk s" for a
    using U(10) [of a] U(1) set_ConsD [of a "u_base s" "tl (us @ p # vs)"] by metis
  have be: "u_base s \<notin> set ws" using U(1,13) w(2) by (cases us) auto
  have hd_: "hd (us @ [p]) = u_base s" using U(1) by (cases us) auto
  have h: "hadd p (u_size s p) = p + 8 * u_size s p" using b(2) w(6) U(8,9) by (intro hadd_small) simp
  show thesis
  proof (cases "p + 8 * u_size s p = bp")
    case True
    let ?n = "u_size s p + m"
    have n: "?n mod W32 = ?n" using True w(6) U(8,9) by simp
    have t': "t = (set_ptr p (hd (ws @ [u_base s])) (set_size p ?n (set_ptr bp (hd (ws @ [u_base s])) (set_size bp m s))))\<lparr>u_freep := p\<rparr>"
      using True h n d(5) by (simp add: t merge_left_def)
    have pb: "p \<noteq> u_base s" using True U(5) b(1) by auto
    then obtain us' where us: "us = u_base s # us'" using hd_ by (cases us) auto
    have sz: "\<forall>a\<in>set us. u_size t a = u_size s a" "\<forall>a\<in>set ws. u_size t a = u_size s a" "u_size t p = ?n" using d by (auto simp: t')
    have "uinv t (us @ p # ws)"
    proof (rule uinvI)
      show "us @ p # ws = u_base t # us' @ p # ws" using us by (simp add: t')
      have "apart t us" "apart t ws" using apart_cong [OF sz(1)] apart_cong [OF sz(2)] ap(1) w(3) by simp_all
      then show "apart t (us @ p # ws)" unfolding apart_append using sz ap(2) w(4) True by auto
      show "chain (u_ptr t) (us @ p # ws) (u_base t)" using ch w(1) d by (simp add: chain_append t')
      show "\<forall>a\<in>set (us' @ p # ws). u_base t + 8 \<le> a \<and> 0 < u_size t a \<and> a + 8 * u_size t a \<le> u_brk t"
        using tl d w(2,5,6) True pb us U(13) be by (auto simp: t')
    qed (use U(5-9) pb d us in \<open>auto simp: t'\<close>)
    moreover have "free_bytes t (us @ p # ws) = (\<Union>a\<in>set us. block a (u_size s a)) \<union> block p (u_size s p) \<union> block bp m \<union> (\<Union>w\<in>set ws. block w (u_size s w))"
      using sz True by (auto simp: free_bytes_def block_join)
    ultimately show thesis using that [of "us @ p # ws"] by (simp add: t')
  next
    case False
    have t': "t = (set_ptr p bp (set_ptr bp (hd (ws @ [u_base s])) (set_size bp m s)))\<lparr>u_freep := p\<rparr>"
      using False h d(5) by (simp add: t merge_left_def)
    have nb: "u_base s \<noteq> bp" using b(1) by simp
    have sz: "\<forall>a\<in>set us. u_size t a = u_size s a" "\<forall>a\<in>set ws. u_size t a = u_size s a" "u_size t p = u_size s p" "u_size t bp = m"
      using d by (auto simp: t')
    have "uinv t (us @ p # bp # ws)"
    proof (rule uinvI)
      show "us @ p # bp # ws = u_base t # tl (us @ p # bp # ws)" using hd_ by (cases us) (auto simp: t')
      have ac: "apart t us" "apart t ws" using apart_cong [OF sz(1)] apart_cong [OF sz(2)] ap(1) w(3) by simp_all
      have "apart t (bp # ws)" using apart_append [of t "[]" bp ws] ac(2) sz(4) w(4) by (simp add: apart_def)
      moreover have "p + 8 * u_size s p < bp" using False b(2) by simp
      ultimately show "apart t (us @ p # bp # ws)" unfolding apart_append using ac(1) sz(1,3) ap(2) w(4) by fastforce
      show "chain (u_ptr t) (us @ p # bp # ws) (u_base t)" using ch w(1) d by (simp add: chain_append t')
      show "\<forall>a\<in>set (tl (us @ p # bp # ws)). u_base t + 8 \<le> a \<and> 0 < u_size t a \<and> a + 8 * u_size t a \<le> u_brk t"
      proof
        fix a assume a: "a \<in> set (tl (us @ p # bp # ws))"
        then have "a = bp \<or> (a \<in> set (us @ p # vs) \<and> a \<noteq> bp \<and> a \<noteq> u_base s)" using w(2) d hd_ U(13) be b(3) by (cases us) auto
        then show "u_base t + 8 \<le> a \<and> 0 < u_size t a \<and> a + 8 * u_size t a \<le> u_brk t" using tl [of a] b(1) w(5,6) by (auto simp: t')
      qed
    qed (use U(5-9) nb in \<open>auto simp: t'\<close>)
    moreover have "free_bytes t (us @ p # bp # ws) = (\<Union>a\<in>set us. block a (u_size s a)) \<union> block p (u_size s p) \<union> block bp m \<union> (\<Union>w\<in>set ws. block w (u_size s w))"
      using sz by (auto simp: free_bytes_def)
    ultimately show thesis using that [of "us @ p # bp # ws"] by (simp add: t')
  qed
qed

lemma ufree_ok:
  assumes u: "uinv s xs" and al: "allocated s xs bp"
  obtains t xs' where "ufree (bp + 8) s = Some t" "uinv t xs'" "free_bytes t xs' = free_bytes s xs \<union> block bp (u_size s bp)"
    "u_brk t = u_brk s" "u_base t = u_base s" "u_lim t = u_lim s"
proof -
  note A = al [unfolded allocated_def]
  have bb: "u_base s < bp" "bp \<notin> set xs" using A by auto
  obtain us p vs where x: "xs = us @ p # vs" "\<forall>a\<in>set (us @ [p]). a < bp" "\<forall>b\<in>set vs. bp < b" by (rule ring_split [OF u bb])
  obtain ws m where r: "merge_right bp p s = set_ptr bp (hd (ws @ [u_base s])) (set_size bp m s)" "chain (u_ptr s) ws (u_base s)"
    "set ws \<subseteq> set vs" "apart s ws" "\<forall>w\<in>set ws. bp + 8 * m < w" "u_size s bp \<le> m" "bp + 8 * m \<le> u_brk s"
    "block bp m \<union> (\<Union>w\<in>set ws. block w (u_size s w)) = block bp (u_size s bp) \<union> (\<Union>v\<in>set vs. block v (u_size s v))"
    by (rule merge_right_ok [OF u al x])
  define t where "t = (merge_left bp p (merge_right bp p s))\<lparr>u_freep := p\<rparr>"
  have t: "t = (merge_left bp p (set_ptr bp (hd (ws @ [u_base s])) (set_size bp m s)))\<lparr>u_freep := p\<rparr>" by (simp add: t_def r(1))
  have m: "0 < m" using r(6) A by simp
  obtain xs' where xs': "uinv t xs'" "free_bytes t xs' = (\<Union>a\<in>set us. block a (u_size s a)) \<union> block p (u_size s p) \<union> block bp m \<union> (\<Union>w\<in>set ws. block w (u_size s w))"
    "u_brk t = u_brk s" "u_base t = u_base s" "u_lim t = u_lim s"
    by (rule merge_left_ok [OF u [unfolded x(1)] _ allocated_gaps(1) [OF u al x] _ r(2-5) m r(7) t]) (use A x(1) in auto)
  have "free_find s bp (u_freep s) = Some p" by (rule free_find_ok [OF u x uinvD(4) [OF u]])
  moreover have "(bp + 8 + W32 - 8) mod W32 = bp" using A uinvD(8,9) [OF u] by simp
  ultimately have "ufree (bp + 8) s = Some t" by (simp add: ufree_def t_def Let_def)
  moreover have "free_bytes t xs' = free_bytes s xs \<union> block bp (u_size s bp)"
    unfolding xs'(2) using r(8) x(1) by (auto simp: free_bytes_def)
  ultimately show thesis using that xs'(1,3-5) by blast
qed

end
