(* ===== verification/Umalloc_Inv.thy ===== *)
theory Umalloc_Inv
  imports Umalloc
begin

text \<open>
  \<^verbatim>\<open>malloc\<close>: the walk around the ring ends, it takes the first block that is large enough, and \<^verbatim>\<open>morecore\<close>
  adds one when there is none.
\<close>

section \<open>Taking a block\<close>

lemma in_set_tlD: "a \<in> set (tl xs) \<Longrightarrow> a \<in> set xs"
  by (cases xs) auto

lemma apart_disjoint:
  assumes "apart s xs" "a \<in> set xs" "b \<in> set xs" "a \<noteq> b"
  shows "a + 8 * u_size s a < b \<or> b + 8 * u_size s b < a"
proof -
  obtain us vs where x: "xs = us @ b # vs" using split_list [OF assms(3)] by blast
  have "a \<in> set us \<or> a \<in> set vs" using assms(2,4) x by auto
  then show ?thesis using assms(1) unfolding x apart_append by blast
qed

lemma block_apart: "apart s xs \<Longrightarrow> a \<in> set xs \<Longrightarrow> b \<in> set xs \<Longrightarrow> a \<noteq> b \<Longrightarrow> block a (u_size s a) \<inter> block b (u_size s b) = {}"
  using apart_disjoint [of s xs a b] by (auto simp: block_def)

lemma free_bytes_remove:
  assumes "apart s (us @ x # vs)"
  shows "free_bytes s (us @ vs) = free_bytes s (us @ x # vs) - block x (u_size s x)"
proof -
  have "x \<notin> set us \<union> set vs" using apart_distinct [OF assms] by auto
  then have "block a (u_size s a) \<inter> block x (u_size s x) = {}" if "a \<in> set us \<union> set vs" for a
    using block_apart [OF assms, of a x] that by auto
  then show ?thesis by (auto simp: free_bytes_def)
qed

lemma take_exact:
  assumes u: "uinv s xs" and x: "x \<in> set xs" "x \<noteq> u_base s" and p: "p \<in> set xs" "u_ptr s p = x"
  obtains xs' where "uinv ((set_ptr p (u_ptr s x) s)\<lparr>u_freep := p\<rparr>) xs'" "free_bytes s xs' = free_bytes s xs - block x (u_size s x)" "x \<notin> set xs'"
proof -
  note U = uinvD [OF u]
  obtain us vs where xs: "xs = us @ x # vs" using split_list [OF x(1)] by blast
  have "us \<noteq> []" using xs x(2) U(1) by (cases us) auto
  then obtain as q where us: "us = as @ [q]" by (cases us rule: rev_cases) auto
  have "u_ptr s q = x" using U(3) by (simp add: xs us chain_append)
  moreover have "inj_on (u_ptr s) (set xs)" using chain_inj [of "u_ptr s" "u_base s" "tl xs"] U(1,3,13) by simp
  ultimately have pq: "p = q" using p by (auto simp: inj_on_def xs us)
  let ?t = "(set_ptr p (u_ptr s x) s)\<lparr>u_freep := p\<rparr>" and ?xs = "as @ q # vs"
  have h: "hd (as @ [q]) = u_base s" using U(1) xs us by (cases as) auto
  have ap: "apart s ?xs" using U(2) unfolding xs us apart_def by (simp add: sorted_wrt_append)
  have "uinv ?t ?xs"
  proof (rule uinvI)
    show "?xs = u_base ?t # tl ?xs" using h by (cases as) auto
    show "apart ?t ?xs" using ap apart_cong [of ?xs ?t s] by simp
    show "chain (u_ptr ?t) ?xs (u_base ?t)" using U(3,13) by (auto simp: xs us pq chain_append)
    have "set (tl ?xs) \<subseteq> set (tl xs)" by (cases as) (auto simp: xs us)
    then show "\<forall>a\<in>set (tl ?xs). u_base ?t + 8 \<le> a \<and> 0 < u_size ?t a \<and> a + 8 * u_size ?t a \<le> u_brk ?t" using U(10) by auto
  qed (use U(5-9) pq in auto)
  moreover have "free_bytes s ?xs = free_bytes s xs - block x (u_size s x)" using free_bytes_remove [of s us x vs] U(2) by (simp add: xs us)
  moreover have "x \<notin> set ?xs" using U(13) by (auto simp: xs us)
  ultimately show thesis using that by blast
qed

lemma take_tail:
  assumes u: "uinv s xs" and x: "x \<in> set xs" "n < u_size s x" "0 < n" and p: "p \<in> set xs"
    and q: "q = x + 8 * (u_size s x - n)" and t: "t = (set_size q n (set_size x (u_size s x - n) s))\<lparr>u_freep := p\<rparr>"
  shows "uinv t xs" "free_bytes t xs = free_bytes s xs - block q n" "block q n \<subseteq> free_bytes s xs" "q \<notin> set xs"
proof -
  note U = uinvD [OF u]
  have qx: "x < q" "q + 8 * n = x + 8 * u_size s x" using x q by simp_all
  have xb: "x \<noteq> u_base s" using x U(5) by auto
  show qn: "q \<notin> set xs"
  proof
    assume "q \<in> set xs"
    then have "x + 8 * u_size s x < q \<or> q + 8 * u_size s q < x" using apart_disjoint [OF U(2) x(1), of q] qx by auto
    then show False using qx x(3) by auto
  qed
  have sz: "u_size t a = (if a = x then u_size s x - n else u_size s a)" if "a \<in> set xs" for a using that qn qx by (auto simp: t)
  have "apart t xs"
    unfolding apart_def using U(2) [unfolded apart_def]
    by (rule sorted_wrt_mono_rel [rotated]) (use qx(2) q x(3) in \<open>auto simp: sz\<close>)
  then show "uinv t xs"
  proof (rule uinvI [where ys = "tl xs", rotated 2])
    have "u_base s + 8 \<le> a \<and> 0 < u_size t a \<and> a + 8 * u_size t a \<le> u_brk s" if "a \<in> set (tl xs)" for a
      using U(10) [OF that] sz [of a] in_set_tlD [OF that] x(2) by auto
    then show "\<forall>a\<in>set (tl xs). u_base t + 8 \<le> a \<and> 0 < u_size t a \<and> a + 8 * u_size t a \<le> u_brk t" by (simp add: t)
    show "u_size t (u_base t) = 0" using xb qx U(5) U(11) [OF x(1)] by (simp add: t)
  qed (use U p in \<open>simp_all add: t\<close>)
  have sub: "block q n \<subseteq> block x (u_size s x)" using qx by (auto simp: block_def)
  then show "block q n \<subseteq> free_bytes s xs" using x(1) by (auto simp: free_bytes_def)
  have "block x (u_size s x - n) = block x (u_size s x) - block q n" using qx q by (auto simp: block_def)
  moreover have "block a (u_size s a) \<inter> block q n = {}" if "a \<in> set xs" "a \<noteq> x" for a
    using block_apart [OF U(2) that(1) x(1) that(2)] sub by blast
  ultimately have "block a (u_size t a) = block a (u_size s a) - block q n" if "a \<in> set xs" for a
    using sz [OF that] that by (cases "a = x") auto
  then show "free_bytes t xs = free_bytes s xs - block q n" by (auto simp: free_bytes_def)
qed

lemma free_bytes_bounds: "uinv s xs \<Longrightarrow> b \<in> free_bytes s xs \<Longrightarrow> u_base s + 8 \<le> b \<and> b < u_brk s"
proof -
  assume u: "uinv s xs" and "b \<in> free_bytes s xs"
  then obtain a where a: "a \<in> set xs" "b \<in> block a (u_size s a)" by (auto simp: free_bytes_def)
  have "a \<noteq> u_base s" using a(2) uinvD(5) [OF u] by (auto simp: block_def)
  then have "a \<in> set (tl xs)" using a(1) uinvD(1) [OF u] by (metis set_ConsD)
  then show ?thesis using uinvD(10) [OF u] a(2) by (fastforce simp: block_def)
qed

lemma malloc_take_ok:
  assumes u: "uinv s xs" and x: "x \<in> set xs" "n \<le> u_size s x" "0 < n" and p: "p \<in> set xs" "u_ptr s p = x"
  obtains q t xs' where "malloc_take n p x s = (q + 8, t)" "uinv t xs'" "u_size t q = n" "allocated t xs' q"
    "free_bytes t xs' \<union> block q n = free_bytes s xs" "u_brk t = u_brk s"
proof -
  note U = uinvD [OF u]
  have xb: "x \<noteq> u_base s" using x U(5) by auto
  have xe: "x + 8 * u_size s x \<le> u_brk s" using U(11) [OF x(1)] by simp
  show thesis
  proof (cases "u_size s x = n")
    case True
    let ?t = "(set_ptr p (u_ptr s x) s)\<lparr>u_freep := p\<rparr>"
    obtain xs' where t: "uinv ?t xs'" "free_bytes s xs' = free_bytes s xs - block x (u_size s x)" "x \<notin> set xs'"
      by (rule take_exact [OF u x(1) xb p])
    have fb: "free_bytes ?t xs' = free_bytes s xs'" by (simp add: free_bytes_def)
    have sub: "block x n \<subseteq> free_bytes s xs" using x(1) True by (auto simp: free_bytes_def)
    have "x \<in> block x n" using x(3) by (simp add: block_def)
    then have "u_base s + 8 \<le> x" using free_bytes_bounds [OF u, of x] sub by blast
    then have "allocated ?t xs' x" using t fb True x(3) xe by (auto simp: allocated_def)
    moreover have "malloc_take n p x s = (x + 8, ?t)" using True xe x(3) U(8,9) by (simp add: malloc_take_def hadd_def)
    ultimately show thesis using that [of x ?t xs'] t fb True sub by auto
  next
    case False
    define q where "q = x + 8 * (u_size s x - n)"
    define t where "t = (set_size q n (set_size x (u_size s x - n) s))\<lparr>u_freep := p\<rparr>"
    have n: "n < u_size s x" using False x(2) by simp
    note T = take_tail [OF u x(1) n x(3) p(1) q_def t_def]
    have qe: "q + 8 * n = x + 8 * u_size s x" using n by (simp add: q_def)
    have q: "hadd x (u_size s x - n) = q" "hadd q 1 = q + 8" using qe xe x(3) U(8,9) unfolding q_def by (intro hadd_small [THEN trans]; simp)+
    have "malloc_take n p x s = (q + 8, t)" using False q by (simp add: malloc_take_def Let_def t_def)
    moreover have "q \<in> block q n" using x(3) by (simp add: block_def)
    then have "u_base s + 8 \<le> q" using free_bytes_bounds [OF u, of q] T(3) by blast
    then have "allocated t xs q" using T x(3) qe xe by (auto simp: allocated_def t_def)
    ultimately show thesis using that [of q t xs] T by (auto simp: t_def)
  qed
qed

section \<open>Walking around the ring\<close>

lemma walk_found:
  assumes "chain (u_ptr s) (zs @ x # ws) e" "\<forall>z\<in>set zs. u_size s z < n \<and> z \<noteq> u_freep s" "n \<le> u_size s x"
  shows "malloc_loop n prev (hd (zs @ [x])) s = Some (malloc_take n (last (prev # zs)) x s)"
  using assms
proof (induction zs arbitrary: prev)
  case Nil
  then show ?case by (subst malloc_loop.simps) simp
next
  case (Cons z zs)
  have "u_ptr s z = hd (zs @ [x])" using Cons.prems(1) by (cases zs) simp_all
  then show ?case using Cons by (subst malloc_loop.simps) simp
qed

lemma walk_none:
  assumes "chain (u_ptr s) (zs @ [u_freep s]) e" "\<forall>z\<in>set (zs @ [u_freep s]). u_size s z < n" "u_freep s \<notin> set zs"
  shows "malloc_loop n prev (hd (zs @ [u_freep s])) s =
    (case morecore n s of None \<Rightarrow> None | Some (p1, s1) \<Rightarrow> if p1 = 0 then Some (0, s1) else malloc_loop n p1 (u_ptr s1 p1) s1)"
  using assms
proof (induction zs arbitrary: prev)
  case Nil
  then show ?case by (subst malloc_loop.simps) simp
next
  case (Cons z zs)
  have "u_ptr s z = hd (zs @ [u_freep s])" using Cons.prems(1) by (cases zs) simp_all
  then show ?case using Cons by (subst malloc_loop.simps) (simp split: option.splits)
qed

lemma ring_order:
  assumes "uinv s xs"
  obtains zs where "set (zs @ [u_freep s]) = set xs" "u_freep s \<notin> set zs" "chain (u_ptr s) (zs @ [u_freep s]) (hd (zs @ [u_freep s]))"
    "u_ptr s (u_freep s) = hd (zs @ [u_freep s])"
proof -
  note U = uinvD [OF assms]
  obtain us vs where x: "xs = us @ u_freep s # vs" using split_list [OF U(4)] by blast
  have b: "hd (us @ [u_freep s]) = u_base s" using U(1) x by (cases us) auto
  have c: "chain (u_ptr s) us (u_freep s)" "u_ptr s (u_freep s) = hd (vs @ [u_base s])" "chain (u_ptr s) vs (u_base s)"
    using U(3) x by (simp_all add: chain_append)
  have h: "hd (vs @ [u_base s]) = hd ((vs @ us) @ [u_freep s])" using b by (cases vs) auto
  have b2: "hd (us @ [u_freep s, e]) = u_base s" for e using b by (cases us) auto
  show thesis by (rule that [of "vs @ us"]) (use U(13) x b2 c h in \<open>auto simp: chain_append\<close>)
qed

lemma malloc_loop_found:
  assumes u: "uinv s xs" and x: "\<exists>x\<in>set xs. n \<le> u_size s x" "0 < n"
  obtains q t xs' where "malloc_loop n (u_freep s) (u_ptr s (u_freep s)) s = Some (q + 8, t)" "uinv t xs'" "u_size t q = n" "allocated t xs' q"
    "free_bytes t xs' \<union> block q n = free_bytes s xs" "u_brk t = u_brk s"
proof -
  obtain zs where z: "set (zs @ [u_freep s]) = set xs" "u_freep s \<notin> set zs" "chain (u_ptr s) (zs @ [u_freep s]) (hd (zs @ [u_freep s]))"
    "u_ptr s (u_freep s) = hd (zs @ [u_freep s])" by (rule ring_order [OF u])
  obtain z1 y z2 where y: "zs @ [u_freep s] = z1 @ y # z2" "n \<le> u_size s y" "\<forall>z\<in>set z1. \<not> n \<le> u_size s z"
    using split_list_first_prop [of "zs @ [u_freep s]" "\<lambda>x. n \<le> u_size s x"] x(1) unfolding z(1) by blast
  have nf: "u_freep s \<notin> set z1"
  proof (cases z2 rule: rev_cases)
    case Nil
    then show ?thesis using y(1) z(2) by simp
  next
    case (snoc z2' w)
    then have "zs = z1 @ y # z2'" using y(1) by simp
    then show ?thesis using z(2) by auto
  qed
  let ?p = "last (u_freep s # z1)"
  have p: "?p \<in> set xs" "u_ptr s ?p = y" "y \<in> set xs"
  proof -
    show "?p \<in> set xs" "y \<in> set xs" using y(1) z(1) uinvD(4) [OF u] by (auto simp flip: z(1))
    show "u_ptr s ?p = y" using z(3,4) unfolding y(1) by (cases z1 rule: rev_cases) (auto simp: chain_append)
  qed
  have w: "malloc_loop n (u_freep s) (hd (z1 @ [y])) s = Some (malloc_take n ?p y s)"
    by (rule walk_found [OF z(3) [unfolded y(1)]]) (use y nf in auto)
  moreover have "hd (z1 @ [y]) = u_ptr s (u_freep s)" unfolding z(4) y(1) by (cases z1) simp_all
  ultimately have l: "malloc_loop n (u_freep s) (u_ptr s (u_freep s)) s = Some (malloc_take n ?p y s)" by simp
  show thesis by (rule malloc_take_ok [OF u p(3) y(2) x(2) p(1,2)]) (use that l in auto)
qed

section \<open>More memory\<close>

text \<open>A run of free bytes lies in one block, because blocks are apart.\<close>

lemma one_block:
  assumes u: "uinv s xs" and b: "block b n \<subseteq> free_bytes s xs" "0 < n"
  shows "\<exists>x\<in>set xs. n \<le> u_size s x"
proof -
  have "b \<in> block b n" using b(2) by (simp add: block_def)
  then have "b \<in> free_bytes s xs" using b(1) by blast
  then obtain x where x: "x \<in> set xs" "x \<le> b" "b < x + 8 * u_size s x" by (auto simp: free_bytes_def block_def)
  have "b + 8 * n \<le> x + 8 * u_size s x"
  proof (rule ccontr)
    assume "\<not> ?thesis"
    then have "x + 8 * u_size s x \<in> block b n" using x by (auto simp: block_def)
    then have "x + 8 * u_size s x \<in> free_bytes s xs" using b(1) by blast
    then obtain y where y: "y \<in> set xs" "y \<le> x + 8 * u_size s x" "x + 8 * u_size s x < y + 8 * u_size s y" by (auto simp: free_bytes_def block_def)
    then have "x \<noteq> y" by auto
    then show False using apart_disjoint [OF uinvD(2) [OF u] x(1) y(1)] y x by auto
  qed
  then show ?thesis using x by (intro bexI [of _ x]) auto
qed

definition core_units :: "nat \<Rightarrow> nat" where
  "core_units n = max 4096 n"

lemma grown:
  assumes u: "uinv s xs" and n: "0 < n" "u_brk s + 8 * n \<le> u_lim s"
  shows "uinv (set_size (u_brk s) n (s\<lparr>u_brk := u_brk s + 8 * n\<rparr>)) xs" "allocated (set_size (u_brk s) n (s\<lparr>u_brk := u_brk s + 8 * n\<rparr>)) xs (u_brk s)"
    "free_bytes (set_size (u_brk s) n (s\<lparr>u_brk := u_brk s + 8 * n\<rparr>)) xs = free_bytes s xs"
proof -
  let ?t = "set_size (u_brk s) n (s\<lparr>u_brk := u_brk s + 8 * n\<rparr>)"
  note U = uinvD [OF u]
  have bn: "u_brk s \<notin> set xs"
  proof
    assume b: "u_brk s \<in> set xs"
    have "u_brk s \<noteq> u_base s" using U(7) by simp
    then have "u_brk s \<in> set (tl xs)" using b U(1) set_ConsD by metis
    then show False using U(10) [of "u_brk s"] by auto
  qed
  have sz: "\<forall>a\<in>set xs. u_size ?t a = u_size s a" using bn by auto
  show fb: "free_bytes ?t xs = free_bytes s xs" using sz by (simp add: free_bytes_def)
  show "uinv ?t xs"
  proof (rule uinvI [where ys = "tl xs"])
    show "apart ?t xs" using apart_cong [OF sz] U(2) by simp
    show "\<forall>a\<in>set (tl xs). u_base ?t + 8 \<le> a \<and> 0 < u_size ?t a \<and> a + 8 * u_size ?t a \<le> u_brk ?t"
      using U(10) sz in_set_tlD [of _ xs] by (simp add: trans_le_add1)
  qed (use U n in auto)
  have "block (u_brk s) n \<inter> free_bytes s xs = {}" using free_bytes_bounds [OF u] by (force simp: block_def)
  then show "allocated ?t xs (u_brk s)" using fb bn n U(7) by (simp add: allocated_def)
qed

lemma morecore_ok:
  assumes u: "uinv s xs" and n: "8 * n < 2147483648"
  shows "u_lim s < u_brk s + 8 * core_units n \<Longrightarrow> morecore n s = Some (0, s)"
    "u_brk s + 8 * core_units n \<le> u_lim s \<Longrightarrow> \<exists>t xs'. morecore n s = Some (u_freep t, t) \<and> uinv t xs' \<and>
       free_bytes t xs' = free_bytes s xs \<union> block (u_brk s) (core_units n) \<and> u_brk t = u_brk s + 8 * core_units n"
proof -
  let ?n = "core_units n"
  have c: "(if n < 4096 then 4096 else n) = ?n" "0 < ?n" by (auto simp: core_units_def)
  have m: "?n * 8 mod W32 = 8 * ?n" "8 * ?n < 2147483648" using n by (auto simp: core_units_def max_def)
  show "morecore n s = Some (0, s)" if "u_lim s < u_brk s + 8 * ?n" using that m by (simp add: morecore_def Let_def c sbrk_def)
  show "\<exists>t xs'. morecore n s = Some (u_freep t, t) \<and> uinv t xs' \<and> free_bytes t xs' = free_bytes s xs \<union> block (u_brk s) ?n \<and> u_brk t = u_brk s + 8 * ?n"
    if lim: "u_brk s + 8 * ?n \<le> u_lim s"
  proof -
    let ?s = "set_size (u_brk s) ?n (s\<lparr>u_brk := u_brk s + 8 * ?n\<rparr>)"
    note G = grown [OF u c(2) lim]
    obtain t xs' where t: "ufree (u_brk s + 8) ?s = Some t" "uinv t xs'" "free_bytes t xs' = free_bytes ?s xs \<union> block (u_brk s) (u_size ?s (u_brk s))" "u_brk t = u_brk ?s"
      by (rule ufree_ok [OF G(1,2)])
    have "hadd (u_brk s) 1 = u_brk s + 8" using uinvD(8,9) [OF u] by (simp add: hadd_def)
    then have "morecore n s = Some (u_freep t, t)" using t(1) m lim by (simp add: morecore_def Let_def c sbrk_def mult.commute [of _ 8])
    then show ?thesis using t G(3) by auto
  qed
qed

section \<open>Allocation\<close>

text \<open>Before the first call there is no ring.\<close>

definition heap_ok :: "uheap \<Rightarrow> nat list \<Rightarrow> bool" where
  "heap_ok s xs \<longleftrightarrow> uinv s xs \<or>
     (xs = [] \<and> u_freep s = 0 \<and> 0 < u_base s \<and> u_base s + 8 \<le> u_brk s \<and> u_brk s \<le> u_lim s \<and> u_lim s < 2147483648)"

lemma malloc_loop_ok:
  assumes u: "uinv s xs" and n: "0 < n" "8 * n < 2147483648"
  shows "\<exists>r t xs'. malloc_loop n (u_freep s) (u_ptr s (u_freep s)) s = Some (r, t) \<and> uinv t xs' \<and>
    (if r = 0 then free_bytes t xs' = free_bytes s xs \<and> u_brk t = u_brk s \<and> u_lim s < u_brk s + 8 * core_units n
     else 8 \<le> r \<and> u_size t (r - 8) = n \<and> allocated t xs' (r - 8) \<and>
       free_bytes t xs' \<union> block (r - 8) n = free_bytes s xs \<union> {u_brk s..<u_brk t})"
proof (cases "\<exists>x\<in>set xs. n \<le> u_size s x")
  case True
  obtain q t xs' where q: "malloc_loop n (u_freep s) (u_ptr s (u_freep s)) s = Some (q + 8, t)" "uinv t xs'" "u_size t q = n" "allocated t xs' q"
    "free_bytes t xs' \<union> block q n = free_bytes s xs" "u_brk t = u_brk s" by (rule malloc_loop_found [OF u True n(1)])
  then show ?thesis by (intro exI [of _ "q + 8"] exI [of _ t] exI [of _ xs']) simp
next
  case False
  obtain zs where z: "set (zs @ [u_freep s]) = set xs" "u_freep s \<notin> set zs" "chain (u_ptr s) (zs @ [u_freep s]) (hd (zs @ [u_freep s]))"
    "u_ptr s (u_freep s) = hd (zs @ [u_freep s])" by (rule ring_order [OF u])
  have small: "\<forall>z\<in>set (zs @ [u_freep s]). u_size s z < n" unfolding z(1) using False by auto
  note W = walk_none [OF z(3) small z(2), of "u_freep s", folded z(4)]
  show ?thesis
  proof (cases "u_lim s < u_brk s + 8 * core_units n")
    case True
    then show ?thesis using W morecore_ok(1) [OF u n(2)] u by (intro exI [of _ 0] exI [of _ s] exI [of _ xs]) simp
  next
    case lim: False
    obtain t ys where t: "morecore n s = Some (u_freep t, t)" "uinv t ys" "free_bytes t ys = free_bytes s xs \<union> block (u_brk s) (core_units n)"
      "u_brk t = u_brk s + 8 * core_units n" using morecore_ok(2) [OF u n(2)] lim by (auto simp: not_less)
    have "\<exists>x\<in>set ys. core_units n \<le> u_size t x" by (rule one_block [OF t(2), of "u_brk s"]) (auto simp: t(3) core_units_def)
    then have ex: "\<exists>x\<in>set ys. n \<le> u_size t x" by (auto simp: core_units_def)
    obtain q v xs' where q: "malloc_loop n (u_freep t) (u_ptr t (u_freep t)) t = Some (q + 8, v)" "uinv v xs'" "u_size v q = n" "allocated v xs' q"
      "free_bytes v xs' \<union> block q n = free_bytes t ys" "u_brk v = u_brk t" by (rule malloc_loop_found [OF t(2) ex n(1)])
    have "u_freep t \<noteq> 0" using uinvD(4,6,11) [OF t(2)] by fastforce
    then have "malloc_loop n (u_freep s) (u_ptr s (u_freep s)) s = Some (q + 8, v)" using W t(1) q(1) by simp
    then show ?thesis using q t by (intro exI [of _ "q + 8"] exI [of _ v] exI [of _ xs']) (auto simp: block_def)
  qed
qed

lemma malloc_units_ok: "nbytes \<le> 1073741824 \<Longrightarrow> 0 < malloc_units nbytes \<and> 8 * malloc_units nbytes < 2147483648 \<and> nbytes \<le> 8 * (malloc_units nbytes - 1)"
proof -
  assume n: "nbytes \<le> 1073741824"
  have "nbytes \<le> 8 * ((7 + nbytes) div 8)" "8 * ((7 + nbytes) div 8) \<le> nbytes + 7" by linarith+
  moreover from this n have "(7 + nbytes) div 8 < 268435455" by linarith
  ultimately show ?thesis using n by (simp add: malloc_units_def)
qed

lemma malloc_ok:
  assumes "heap_ok s xs" "nbytes \<le> 1073741824"
  shows "\<exists>r t xs'. malloc nbytes s = Some (r, t) \<and> uinv t xs' \<and>
    (if r = 0 then free_bytes t xs' = free_bytes s xs \<and> u_brk t = u_brk s \<and> u_lim s < u_brk s + 8 * core_units (malloc_units nbytes)
     else 8 \<le> r \<and> u_size t (r - 8) = malloc_units nbytes \<and> allocated t xs' (r - 8) \<and>
       free_bytes t xs' \<union> block (r - 8) (malloc_units nbytes) = free_bytes s xs \<union> {u_brk s..<u_brk t})"
proof -
  note N = malloc_units_ok [OF assms(2)]
  show ?thesis
  proof (cases "uinv s xs")
    case True
    have "u_freep s \<noteq> 0" using uinvD(4,6,11) [OF True] by fastforce
    then show ?thesis using malloc_loop_ok [OF True] N by (simp add: malloc_def)
  next
    case False
    then have h: "xs = []" "u_freep s = 0" "0 < u_base s" "u_base s + 8 \<le> u_brk s" "u_brk s \<le> u_lim s" "u_lim s < 2147483648" using assms(1) by (auto simp: heap_ok_def)
    define v where "v = set_size (u_base s) 0 (set_ptr (u_base s) (u_base s) (s\<lparr>u_freep := u_base s\<rparr>))"
    have v: "u_freep v = u_base s" "u_ptr v (u_base s) = u_base s" "u_brk v = u_brk s" "u_lim v = u_lim s" by (simp_all add: v_def)
    have u: "uinv v [u_base s]" using h by (intro uinvI [where ys = "[]"]) (auto simp: apart_def v_def)
    have fb: "free_bytes v [u_base s] = free_bytes s xs" by (simp add: free_bytes_def block_def h(1) v_def)
    have "malloc nbytes s = malloc_loop (malloc_units nbytes) (u_freep v) (u_ptr v (u_freep v)) v"
      using h(2) by (simp add: malloc_def Let_def v_def)
    then show ?thesis using malloc_loop_ok [OF u, of "malloc_units nbytes"] N unfolding fb v by simp
  qed
qed

end
