(* ===== verification/User_Props.thy ===== *)
theory User_Props
  imports Grep Sh_Text Umalloc_Inv
begin

text \<open>
  Properties of the programs that run on the kernel.
\<close>

section \<open>grep\<close>

text \<open>
  C18.  The matcher of \<^verbatim>\<open>grep\<close>.  The backtracking \<^verbatim>\<open>match\<close> accepts a text exactly when a substring of it
  lies in the language of the pattern: a sequence of characters, dots and starred characters, bound to
  the start of the text by a leading caret and to its end by a final dollar sign.
\<close>

theorem match_decides_language: "match_re re s \<longleftrightarrow> denotes re s"
  by (rule match_correct)

text \<open>
  C19.  What \<^verbatim>\<open>grep\<close> prints.  On a regular file whose lines fit the buffer of 1024 bytes, with their
  newline and a final NUL, the output is the list of the complete lines that match, in order, however the
  lines lie across the reads.
\<close>

theorem grep_prints_matching_lines:
  assumes "CHR 0x00 \<notin> set data" "\<forall>l\<in>set (fst (split_lines [] data)). length l < 1023"
  shows "grep pat (\<lambda>_. 1023) [] data = print_lines pat (fst (split_lines [] data))"
  by (rule grep_file [OF assms(1) _ _ _ assms(2)]) simp_all

theorem grep_prints_matching_lines_witness:
  "let data = ''ab'' @ [CHR 0x0A] @ ''cd'' @ [CHR 0x0A] in
   grep ''^a'' (\<lambda>_. 1023) [] data = print_lines ''^a'' (fst (split_lines [] data))"
  unfolding Let_def by (rule grep_prints_matching_lines) simp_all

text \<open>
  A line that a read does not complete is lost.  When the buffer is empty and a read returns
  bytes without a newline, \<^verbatim>\<open>grep\<close> forgets them: it continues as if the file started after them, so that a line
  arriving in two pieces (from a pipe or the console), or longer than the buffer, is matched and printed
  without its beginning.
\<close>

theorem grep_loses_start_of_line:
  assumes "CHR 0x0A \<notin> set start" "CHR 0x00 \<notin> set (start @ data)" "start \<noteq> []" "length start = min 1023 (lim 0)"
  shows "grep pat lim [] (start @ data) = grep pat (\<lambda>i. lim (Suc i)) [] data"
proof -
  have p: "0 < lim 0" using assms(3,4) by (cases "lim 0") auto
  have s: "split_lines [] start = ([], start)" using split_lines_no_newline [OF assms(1), of "[]"] by simp
  show ?thesis using grep_step [where lim = lim and kept = "[]" and data = "start @ data" and n = "length start" and ls = "[]" and k = start and pat = pat] assms s p
    by simp
qed

theorem grep_loses_start_of_line_witness:
  "let lim = (\<lambda>i :: nat. if i = 0 then 1 else 1023 :: nat) in
   grep ''ab'' lim [] (''a'' @ (''b'' @ [CHR 0x0A])) = grep ''ab'' (\<lambda>i. lim (Suc i)) [] (''b'' @ [CHR 0x0A])"
  unfolding Let_def by (rule grep_loses_start_of_line) simp_all

section \<open>The shell\<close>

text \<open>
  C15.  The parser of the shell always answers.  On every line it either reports a syntax error or
  returns a command, and then every argument and file name of the command is a maximal run of word
  characters of the line; after the stores of NULs into the buffer the pointers of the command denote
  exactly these words.
\<close>

theorem shell_parser_answers:
  assumes "NUL \<notin> set line"
  shows "(\<exists>m. parsecmd line = Panic m) \<or>
    (\<exists>cmd buf. parsecmd line = Ok (cmd, buf) \<and> (\<forall>t\<in>set_cmd cmd. is_token line t) \<and> map_cmd (word_at buf) cmd = map_cmd tok_text cmd)"
proof -
  have "fine line line (parseline (4 * length line + 4) line)" by (rule parse_fine(1)) simp_all
  then have "(\<exists>m. parsecmd line = Panic m) \<or> (\<exists>cmd buf. parsecmd line = Ok (cmd, buf))"
    by (cases "parseline (4 * length line + 4) line") (auto simp: fine_def parsecmd_def split: prod.splits)
  then show ?thesis using parsecmd_fine [OF _ assms] by metis
qed

theorem shell_parser_answers_witness:
  "let line = ''ls>f'' in (\<exists>m. parsecmd line = Panic m) \<or>
    (\<exists>cmd buf. parsecmd line = Ok (cmd, buf) \<and> (\<forall>t\<in>set_cmd cmd. is_token line t) \<and> map_cmd (word_at buf) cmd = map_cmd tok_text cmd)"
  unfolding Let_def by (rule shell_parser_answers) simp

text \<open>
  C13.  The grammar of the shell.  Every command tree over proper words, with at most nine words to a command and the
  redirections the shell knows, has a text that the shell reads back as exactly this tree: the
  bar binds more tightly than the ampersand and the ampersand than the semicolon, both lists and pipelines group to the
  right, and parentheses override this.
\<close>

theorem shell_reads_back:
  assumes "wf_cmd c" "\<forall>w\<in>set_cmd c. NUL \<notin> set w"
  shows "\<exists>cmd buf. parsecmd (show_cmd c 0) = Ok (cmd, buf) \<and> map_cmd (word_at buf) cmd = c"
  by (rule parsecmd_text [OF assms])

theorem shell_reads_back_witness:
  "let c = LIST (BACK (PIPE (EXEC [''ls'']) (REDIR (EXEC [''wc'', ''x'']) ''f'' 0x201 1))) (EXEC []) in
   \<exists>cmd buf. parsecmd (show_cmd c 0) = Ok (cmd, buf) \<and> map_cmd (word_at buf) cmd = c"
  unfolding Let_def by (rule shell_reads_back) (simp_all add: is_word_def wf_redir_def word_char_iff)

text \<open>
  C16.  Running a command connects its parts.  Started with descriptors 0, 1 and 2, the process that runs a
  command tree starts each of its commands with the descriptors the tree asks for: a pipeline joins
  descriptor 1 of its left side to descriptor 0 of its right side and closes the pipe everywhere
  else, a redirection replaces its descriptor and no other, and lists and background commands inherit
  the table.
\<close>

theorem shell_wires_descriptors:
  assumes "wf_cmd c" "dom f = {0, 1, 2}"
  shows "runs (runcmd c) f [] = wire c f []"
  by (rule runcmd_wires [OF assms])

theorem shell_wires_descriptors_witness:
  "let c = PIPE (EXEC [''ls'']) (REDIR (EXEC [''wc'']) ''f'' 0x201 1); f = [0 \<mapsto> Inherited 0, 1 \<mapsto> Inherited 1, 2 \<mapsto> Inherited 2] in
   runs (runcmd c) f [] = wire c f []"
  unfolding Let_def by (rule shell_wires_descriptors) (auto simp: is_word_def wf_redir_def word_char_iff)

section \<open>The allocator\<close>

text \<open>
  C14.  \<^verbatim>\<open>malloc\<close> and \<^verbatim>\<open>free\<close>.  On a heap in order, a request of up to a gigabyte ends: it fails only when the break
  cannot move, changing no free byte, or it returns a block that is large enough, that was free or new
  memory, and that shares no byte with the blocks that remain free.  Freeing the block makes exactly its bytes free again.
  Throughout the free blocks stay a ring in the order of their addresses, with neighbours merged.
\<close>

theorem malloc_then_free:
  assumes "heap_ok s xs" "nbytes \<le> 1073741824"
  shows "\<exists>r t ys. malloc nbytes s = Some (r, t) \<and> uinv t ys \<and>
    (if r = 0 then free_bytes t ys = free_bytes s xs \<and> u_brk t = u_brk s \<and> u_lim s < u_brk s + 8 * core_units (malloc_units nbytes)
     else nbytes \<le> 8 * (u_size t (r - 8) - 1) \<and> block (r - 8) (u_size t (r - 8)) \<inter> free_bytes t ys = {} \<and>
       free_bytes t ys \<union> block (r - 8) (u_size t (r - 8)) = free_bytes s xs \<union> {u_brk s..<u_brk t} \<and>
       (\<exists>u zs. ufree r t = Some u \<and> uinv u zs \<and> free_bytes u zs = free_bytes s xs \<union> {u_brk s..<u_brk t}))"
proof -
  obtain r t ys where m: "malloc nbytes s = Some (r, t)" "uinv t ys"
    "if r = 0 then free_bytes t ys = free_bytes s xs \<and> u_brk t = u_brk s \<and> u_lim s < u_brk s + 8 * core_units (malloc_units nbytes)
     else 8 \<le> r \<and> u_size t (r - 8) = malloc_units nbytes \<and> allocated t ys (r - 8) \<and>
       free_bytes t ys \<union> block (r - 8) (malloc_units nbytes) = free_bytes s xs \<union> {u_brk s..<u_brk t}"
    using malloc_ok [OF assms] by blast
  show ?thesis
  proof (cases "r = 0")
    case True
    then show ?thesis using m by auto
  next
    case False
    then have r: "8 \<le> r" "u_size t (r - 8) = malloc_units nbytes" "allocated t ys (r - 8)"
      "free_bytes t ys \<union> block (r - 8) (u_size t (r - 8)) = free_bytes s xs \<union> {u_brk s..<u_brk t}" using m(3) by auto
    obtain u zs where u: "ufree (r - 8 + 8) t = Some u" "uinv u zs" "free_bytes u zs = free_bytes t ys \<union> block (r - 8) (u_size t (r - 8))"
      by (rule ufree_ok [OF m(2) r(3)])
    have "nbytes \<le> 8 * (u_size t (r - 8) - 1)" using malloc_units_ok [OF assms(2)] r(2) by simp
    moreover have "block (r - 8) (u_size t (r - 8)) \<inter> free_bytes t ys = {}" using r(3) by (simp add: allocated_def)
    moreover have "ufree r t = Some u" "free_bytes u zs = free_bytes s xs \<union> {u_brk s..<u_brk t}" using u(1,3) r(1,4) by simp_all
    ultimately show ?thesis using m(1,2) False r(4) u(2) by (intro exI [of _ r] exI [of _ t] exI [of _ ys]) auto
  qed
qed

theorem malloc_then_free_witness:
  "let s = \<lparr>u_ptr = \<lambda>_. 0, u_size = \<lambda>_. 0, u_freep = 0, u_base = 64, u_brk = 4096, u_lim = 1048576\<rparr>; xs = []; nbytes = 100 in
   \<exists>r t ys. malloc nbytes s = Some (r, t) \<and> uinv t ys \<and>
    (if r = 0 then free_bytes t ys = free_bytes s xs \<and> u_brk t = u_brk s \<and> u_lim s < u_brk s + 8 * core_units (malloc_units nbytes)
     else nbytes \<le> 8 * (u_size t (r - 8) - 1) \<and> block (r - 8) (u_size t (r - 8)) \<inter> free_bytes t ys = {} \<and>
       free_bytes t ys \<union> block (r - 8) (u_size t (r - 8)) = free_bytes s xs \<union> {u_brk s..<u_brk t} \<and>
       (\<exists>u zs. ufree r t = Some u \<and> uinv u zs \<and> free_bytes u zs = free_bytes s xs \<union> {u_brk s..<u_brk t}))"
  unfolding Let_def by (rule malloc_then_free) (simp_all add: heap_ok_def)

end
