(* ===== verification/Spec2Isabelle.thy ===== *)
theory Spec2Isabelle
  imports Mem_Props Cow_Props Proc_Props Log_Props Io_Props Wmap_Props Fs_Props User_Props
begin

text \<open>
  A verification library for the xv6 kernel with memory mapping and copy-on-write.
\<close>

end
